(* ===== verification/Prelude.thy ===== *)
theory Prelude
  imports Main "HOL-Library.Word"
begin

text \<open>
  Shared vocabulary of the development: the faults a C++ operation can end in, sequencing
  of operations that may fault, the parts of \<^verbatim>\<open>std::string\<close> and of \<^verbatim>\<open>printf\<close>/\<^verbatim>\<open>scanf\<close>
  the sources use, and the lemma collections the component theories extend.
\<close>

named_theorems arq_ops \<open>definitions of the ARQ engine's small operations\<close>
named_theorems arq_frame \<open>fields an ARQ operation leaves alone\<close>
named_theorems tables \<open>facts about constant code tables\<close>

section \<open>Faults\<close>

text \<open>
  \<open>OutOfRange\<close> is the exception \<^verbatim>\<open>std::out_of_range\<close> of \<^verbatim>\<open>string::substr\<close>;
  \<open>BadIndex\<close> an access outside a string, vector or array (undefined behaviour in C++);
  \<open>Hang\<close> a loop that never ends.
\<close>

datatype fault = OutOfRange | BadIndex | Hang

type_synonym 'a result = "fault + 'a"

definition andthen :: "'a result \<Rightarrow> ('a \<Rightarrow> 'b result) \<Rightarrow> 'b result" where
  "andthen r f = (case r of Inl e \<Rightarrow> Inl e | Inr x \<Rightarrow> f x)"

lemma andthen_simps [simp]:
  "andthen (Inl e) f = Inl e"
  "andthen (Inr x) f = f x"
  by (simp_all add: andthen_def)

lemma andthen_Inr_iff: "andthen r f = Inr y \<longleftrightarrow> (\<exists>x. r = Inr x \<and> f x = Inr y)"
  by (cases r) auto

lemma andthen_assoc: "andthen (andthen r f) g = andthen r (\<lambda>x. andthen (f x) g)"
  by (cases r) auto

lemma andthen_cong [fundef_cong]:
  "r = r' \<Longrightarrow> (\<And>x. r' = Inr x \<Longrightarrow> f x = g x) \<Longrightarrow> andthen r f = andthen r' g"
  by (cases r') auto

section \<open>Characters\<close>

text \<open>A \<^verbatim>\<open>char\<close> is 8 bits; on the platforms the program is built for it is signed.\<close>

definition schar :: "char \<Rightarrow> int" where
  "schar c = (let n = int (of_char c) in if n < 128 then n else n - 256)"

text \<open>Storing an \<^verbatim>\<open>int\<close> into a \<^verbatim>\<open>char\<close> keeps its low 8 bits.\<close>

definition char_of_int :: "int \<Rightarrow> char" where
  "char_of_int i = char_of (nat (i mod 256))"

lemma of_char_lt [simp]: "(of_char c :: nat) < 256"
  by (metis of_char_mod_256 mod_less_divisor zero_less_numeral)

lemma char_of_int_of_char: "char_of_int (int (of_char c)) = c"
  by (simp add: char_of_int_def)

lemma of_char_char_of_int: "0 \<le> i \<Longrightarrow> i < 256 \<Longrightarrow> (of_char (char_of_int i) :: nat) = nat i"
  by (simp add: char_of_int_def of_char_of nat_less_iff)

lemma schar_char_of_int: "0 \<le> i \<Longrightarrow> i < 128 \<Longrightarrow> schar (char_of_int i) = i"
  by (simp add: schar_def of_char_char_of_int Let_def)

lemma char_of_int_inj:
  assumes "0 \<le> i" "i < 256" "0 \<le> j" "j < 256" "char_of_int i = char_of_int j"
  shows "i = j"
  using assms of_char_char_of_int [of i] of_char_char_of_int [of j] by simp

definition toupper_char :: "char \<Rightarrow> char" where
  "toupper_char c = (if 97 \<le> (of_char c :: nat) \<and> (of_char c :: nat) \<le> 122
     then char_of ((of_char c :: nat) - 32) else c)"

definition toupper_str :: "string \<Rightarrow> string" where
  "toupper_str s = map toupper_char s"

lemma of_char_toupper:
  "(of_char (toupper_char c) :: nat) =
     (if 97 \<le> (of_char c :: nat) \<and> (of_char c :: nat) \<le> 122 then of_char c - 32 else of_char c)"
  by (auto simp: toupper_char_def of_char_of)

lemma toupper_char_idem: "toupper_char (toupper_char c) = toupper_char c"
  by (auto simp: toupper_char_def [of "toupper_char c"] of_char_toupper)

lemma toupper_str_idem [simp]: "toupper_str (toupper_str s) = toupper_str s"
  by (simp add: toupper_str_def toupper_char_idem o_def)

lemma length_toupper_str [simp]: "length (toupper_str s) = length s"
  by (simp add: toupper_str_def)

section \<open>std::string\<close>

text \<open>
  \<open>str_at s i\<close> is \<^verbatim>\<open>s[i]\<close>: the terminating NUL at \<^verbatim>\<open>size()\<close>, undefined behaviour
  beyond it. \<open>substr s p n\<close> is \<^verbatim>\<open>s.substr(p, n)\<close>, \<open>substr_to_end\<close> its one-argument
  form; both throw when \<open>p\<close> is beyond the end. \<open>find_char\<close> and \<open>find_sub\<close>
  are \<^verbatim>\<open>s.find(x, p)\<close>, with \<open>None\<close> for \<^verbatim>\<open>npos\<close>.
\<close>

definition str_at :: "string \<Rightarrow> nat \<Rightarrow> char result" where
  "str_at s i = (if i < length s then Inr (s ! i)
                 else if i = length s then Inr (CHR 0x00) else Inl BadIndex)"

definition substr :: "string \<Rightarrow> nat \<Rightarrow> nat \<Rightarrow> string result" where
  "substr s p n = (if p \<le> length s then Inr (take n (drop p s)) else Inl OutOfRange)"

definition substr_to_end :: "string \<Rightarrow> nat \<Rightarrow> string result" where
  "substr_to_end s p = (if p \<le> length s then Inr (drop p s) else Inl OutOfRange)"

fun index_of :: "char \<Rightarrow> string \<Rightarrow> nat option" where
  "index_of c [] = None"
| "index_of c (x # xs) = (if x = c then Some 0 else map_option Suc (index_of c xs))"

definition find_char :: "string \<Rightarrow> char \<Rightarrow> nat \<Rightarrow> nat option" where
  "find_char s c p = map_option (\<lambda>i. p + i) (index_of c (drop p s))"

fun prefix_of :: "string \<Rightarrow> string \<Rightarrow> bool" where
  "prefix_of [] s = True"
| "prefix_of (x # xs) [] = False"
| "prefix_of (x # xs) (y # ys) = (x = y \<and> prefix_of xs ys)"

fun find_sub :: "string \<Rightarrow> string \<Rightarrow> nat option" where
  "find_sub s pat =
     (if prefix_of pat s then Some 0
      else case s of [] \<Rightarrow> None | _ # s' \<Rightarrow> map_option Suc (find_sub s' pat))"

declare find_sub.simps [simp del]

text \<open>\<^verbatim>\<open>s.substr(p1, p2 - p1)\<close> where \<open>p2\<close> is the result of a \<^verbatim>\<open>find\<close>: with
  \<^verbatim>\<open>npos\<close> the count is so large that the rest of the string is taken.\<close>

definition substr_upto :: "string \<Rightarrow> nat \<Rightarrow> nat option \<Rightarrow> string result" where
  "substr_upto s p1 p2 = (case p2 of None \<Rightarrow> substr_to_end s p1
                                   | Some q \<Rightarrow> substr s p1 (q - p1))"

lemma str_at_nth [simp]: "i < length s \<Longrightarrow> str_at s i = Inr (s ! i)"
  by (simp add: str_at_def)

lemma index_of_None [simp]: "index_of c s = None \<longleftrightarrow> c \<notin> set s"
  by (induction s) auto

lemma index_of_append: "c \<notin> set xs \<Longrightarrow> index_of c (xs @ c # ys) = Some (length xs)"
  by (induction xs) auto

lemma find_char_append: "c \<notin> set xs \<Longrightarrow> find_char (xs @ c # ys) c 0 = Some (length xs)"
  by (simp add: find_char_def index_of_append option.map_ident)

text \<open>A search that starts behind a known prefix and meets the character behind \<open>ys\<close>.\<close>

lemma find_char_from:
  assumes "s = xs @ ys @ c # zs" and "p = length xs" and "c \<notin> set ys"
  shows "find_char s c p = Some (length xs + length ys)"
  using assms by (simp add: find_char_def index_of_append)

lemma find_char_at: "find_char s c p = Some i \<Longrightarrow> p \<le> i \<and> i < length s \<and> s ! i = c"
proof -
  assume "find_char s c p = Some i"
  then obtain j where j: "index_of c (drop p s) = Some j" "i = p + j"
    by (auto simp: find_char_def)
  have "index_of c t = Some k \<Longrightarrow> k < length t \<and> t ! k = c" for t k
    by (induction t arbitrary: k) (auto split: if_splits)
  from this [OF j(1)] j(2) show ?thesis by (auto simp: nth_drop)
qed

lemma substr_append_prefix: "n = length xs \<Longrightarrow> substr (xs @ ys) 0 n = Inr xs"
  by (simp add: substr_def)

lemma prefix_of_append [simp]: "prefix_of xs (xs @ ys)"
  by (induction xs) auto

lemma find_sub_append: "find_sub (xs @ pat @ ys) pat \<noteq> None"
  by (induction xs) (simp_all add: find_sub.simps split: list.splits)

lemma find_sub_Nil: "pat \<noteq> [] \<Longrightarrow> find_sub [] pat = None"
  by (cases pat) (simp_all add: find_sub.simps)

lemma find_sub_Cons:
  "find_sub (c # s) pat = (if prefix_of pat (c # s) then Some 0 else map_option Suc (find_sub s pat))"
  by (subst find_sub.simps) simp

lemma find_sub_length: "find_sub s pat = Some i \<Longrightarrow> i + length pat \<le> length s"
proof (induction s arbitrary: i)
  case Nil
  then show ?case by (cases pat) (auto simp: find_sub.simps)
next
  case (Cons x s)
  have "prefix_of p t \<Longrightarrow> length p \<le> length t" for p t :: string
    by (induction p t rule: prefix_of.induct) auto
  with Cons show ?case by (fastforce simp: find_sub_Cons split: if_splits)
qed

section \<open>Formatting and scanning of integers\<close>

fun show_nat :: "nat \<Rightarrow> string" where
  "show_nat n = (if n < 10 then [char_of (48 + n)]
                 else show_nat (n div 10) @ [char_of (48 + n mod 10)])"

declare show_nat.simps [simp del]

definition show_int :: "int \<Rightarrow> string" where
  "show_int i = (if i < 0 then CHR ''-'' # show_nat (nat (- i)) else show_nat (nat i))"

text \<open>\<^verbatim>\<open>sscanf(s, "%d", &x)\<close>: white space, a sign, digits; \<open>None\<close> when nothing
  is converted (\<open>x\<close> then keeps its value).\<close>

definition is_digit :: "char \<Rightarrow> bool" where
  "is_digit c \<longleftrightarrow> 48 \<le> (of_char c :: nat) \<and> (of_char c :: nat) \<le> 57"

definition is_space :: "char \<Rightarrow> bool" where
  "is_space c \<longleftrightarrow> (of_char c :: nat) = 32 \<or> 9 \<le> (of_char c :: nat) \<and> (of_char c :: nat) \<le> 13"

definition digits_value :: "string \<Rightarrow> nat" where
  "digits_value ds = foldl (\<lambda>n c. n * 10 + (of_char c - 48)) 0 ds"

definition scan_digits :: "string \<Rightarrow> nat option" where
  "scan_digits s = (let ds = takeWhile is_digit s
                    in if ds = [] then None else Some (digits_value ds))"

definition sscanf_d :: "string \<Rightarrow> int option" where
  "sscanf_d s = (case dropWhile is_space s of
      [] \<Rightarrow> None
    | c # cs \<Rightarrow>
        if c = CHR ''-'' then map_option (\<lambda>n. - int n) (scan_digits cs)
        else if c = CHR ''+'' then map_option int (scan_digits cs)
        else map_option int (scan_digits (c # cs)))"

lemma show_nat_nonempty: "show_nat n \<noteq> []"
  by (subst show_nat.simps) simp

lemma show_nat_digits: "\<forall>c \<in> set (show_nat n). is_digit c"
proof (induction n rule: show_nat.induct)
  case (1 n)
  show ?case
  proof (cases "n < 10")
    case True
    then show ?thesis by (subst show_nat.simps) (simp add: is_digit_def of_char_of)
  next
    case False
    with 1 show ?thesis by (subst show_nat.simps) (auto simp: is_digit_def of_char_of)
  qed
qed

lemma digits_value_snoc: "digits_value (ds @ [c]) = digits_value ds * 10 + (of_char c - 48)"
  by (simp add: digits_value_def)

lemma digits_value_show_nat: "digits_value (show_nat n) = n"
proof (induction n rule: show_nat.induct)
  case (1 n)
  show ?case
  proof (cases "n < 10")
    case True
    then show ?thesis
      by (subst show_nat.simps) (simp add: digits_value_def of_char_of)
  next
    case False
    with 1 show ?thesis
      by (subst show_nat.simps) (simp add: digits_value_snoc of_char_of)
  qed
qed

lemma scan_digits_show_nat: "scan_digits (show_nat n) = Some n"
  by (simp add: scan_digits_def Let_def takeWhile_eq_all_conv [THEN iffD2] show_nat_digits
      show_nat_nonempty digits_value_show_nat)

lemma sscanf_show_nat: "sscanf_d (show_nat n) = Some (int n)"
proof -
  obtain c cs where eq: "show_nat n = c # cs"
    using show_nat_nonempty [of n] by (cases "show_nat n") auto
  then have d: "is_digit c" using show_nat_digits [of n] by simp
  then have "\<not> is_space c" "c \<noteq> CHR ''-''" "c \<noteq> CHR ''+''"
    by (auto simp: is_digit_def is_space_def)
  then show ?thesis
    using scan_digits_show_nat [of n] by (simp add: sscanf_d_def eq)
qed

text \<open>C++ integer division truncates towards zero.\<close>

definition cdiv :: "int \<Rightarrow> int \<Rightarrow> int" where
  "cdiv a b = sgn a * sgn b * (\<bar>a\<bar> div \<bar>b\<bar>)"

lemma cdiv_nonneg [simp]: "0 \<le> a \<Longrightarrow> 0 < b \<Longrightarrow> cdiv a b = a div b"
  by (cases "a = 0") (simp_all add: cdiv_def)

definition cmod :: "int \<Rightarrow> int \<Rightarrow> int" where
  "cmod a b = a - b * cdiv a b"

lemma cmod_nonneg [simp]: "0 \<le> a \<Longrightarrow> 0 < b \<Longrightarrow> cmod a b = a mod b"
  by (simp add: cmod_def minus_mult_div_eq_mod)

text \<open>32-bit two's complement result of an \<^verbatim>\<open>int\<close> computation.\<close>

definition wrap32 :: "int \<Rightarrow> int" where
  "wrap32 i = (i + 2 ^ 31) mod 2 ^ 32 - 2 ^ 31"

lemma wrap32_id: "- (2 ^ 31) \<le> i \<Longrightarrow> i < 2 ^ 31 \<Longrightarrow> wrap32 i = i"
  by (simp add: wrap32_def)

section \<open>Lists\<close>

lemma filter_mem_id: "set xs \<subseteq> A \<Longrightarrow> filter (\<lambda>x. x \<in> A) xs = xs"
  by (induction xs) auto

lemma concat_map_snoc: "concat (map f (xs @ [x])) = concat (map f xs) @ f x"
  by simp

end
