(* ===== verification/Crc16.thy ===== *)
theory Crc16
  imports Prelude
begin

unbundle bit_operations_syntax

text \<open>
  The block check of the ARQ link: class \<^verbatim>\<open>Ccrc16\<close> of \<^verbatim>\<open>flarq-src/include/arq.h\<close>.
  The register \<^verbatim>\<open>crcval\<close> is an \<^verbatim>\<open>unsigned int\<close> (32 bits) of which 16 are used.
\<close>

section \<open>The code\<close>

definition crc_init :: "32 word" where
  "crc_init = 0xFFFF"

definition crc_shift :: "32 word \<Rightarrow> 32 word" where
  "crc_shift v = (if v AND 1 \<noteq> 0 then drop_bit 1 v XOR 0xA001 else drop_bit 1 v)"

definition crc_update :: "32 word \<Rightarrow> char \<Rightarrow> 32 word" where
  "crc_update v c = (crc_shift ^^ 8) (v XOR of_char c)"

definition crc16 :: "string \<Rightarrow> 32 word" where
  "crc16 s = foldl crc_update crc_init s"

text \<open>\<^verbatim>\<open>snprintf(ss, sizeof(ss), "%04X", crcval)\<close> into \<^verbatim>\<open>char ss[5]\<close>: upper-case
  hexadecimal, padded to four digits, cut to the four that fit.\<close>

definition hex_digit :: "nat \<Rightarrow> char" where
  "hex_digit d = (if d < 10 then char_of (48 + d) else char_of (55 + d))"

fun show_hex :: "nat \<Rightarrow> string" where
  "show_hex n = (if n < 16 then [hex_digit n] else show_hex (n div 16) @ [hex_digit (n mod 16)])"

declare show_hex.simps [simp del]

definition sval :: "32 word \<Rightarrow> string" where
  "sval v = (let h = show_hex (unat v)
             in take 4 (replicate (4 - length h) (CHR ''0'') @ h))"

definition scrc16 :: "string \<Rightarrow> string" where
  "scrc16 s = sval (crc16 s)"


section \<open>Properties of the register\<close>

text \<open>The shift is linear over exclusive or, and keeps the value within 16 bits.\<close>

lemma and_one_iff: "v AND 1 \<noteq> 0 \<longleftrightarrow> bit v 0" for v :: "32 word"
  by (simp add: and_one_eq odd_iff_mod_2_eq_one [symmetric] bit_0)

lemma poly_bit15: "bit (0xA001 :: 32 word) 15"
  by simp

lemma crc_shift_alt: "crc_shift v = (if bit v 0 then drop_bit 1 v XOR 0xA001 else drop_bit 1 v)"
  by (simp add: crc_shift_def and_one_iff)

lemma crc_shift_xor: "crc_shift (v XOR w) = crc_shift v XOR crc_shift w"
  by (auto simp: crc_shift_alt bit_xor_iff drop_bit_xor ac_simps intro!: bit_word_eqI)

lemma crc_shift_0 [simp]: "crc_shift 0 = 0"
  by (simp add: crc_shift_alt)

lemma crc_shift_pow_xor: "(crc_shift ^^ n) (v XOR w) = (crc_shift ^^ n) v XOR (crc_shift ^^ n) w"
  by (induction n) (simp_all add: crc_shift_xor)

definition in16 :: "32 word \<Rightarrow> bool" where
  "in16 v \<longleftrightarrow> drop_bit 16 v = 0"

lemma in16_bit: "in16 v \<Longrightarrow> 16 \<le> n \<Longrightarrow> \<not> bit v n"
proof -
  assume "in16 v" "16 \<le> n"
  then have "\<not> bit (drop_bit 16 v) (n - 16)" by (simp add: in16_def)
  with \<open>16 \<le> n\<close> show ?thesis by (simp add: bit_drop_bit_eq)
qed

lemma in16I: "(\<And>n. 16 \<le> n \<Longrightarrow> \<not> bit v n) \<Longrightarrow> in16 v"
  unfolding in16_def by (rule bit_word_eqI) (simp add: bit_drop_bit_eq)

lemma in16_xor [intro]: "in16 v \<Longrightarrow> in16 w \<Longrightarrow> in16 (v XOR w)"
  by (simp add: in16_def drop_bit_xor)

lemma in16_poly: "in16 0xA001"
  by (simp add: in16_def)

lemma in16_shift: "in16 v \<Longrightarrow> in16 (crc_shift v)"
proof -
  assume v: "in16 v"
  have "in16 (drop_bit 1 v)"
    by (rule in16I) (auto simp: bit_drop_bit_eq in16_bit [OF v])
  then show ?thesis by (auto simp: crc_shift_alt in16_poly)
qed

lemma in16_shift_pow: "in16 v \<Longrightarrow> in16 ((crc_shift ^^ n) v)"
  by (induction n) (auto simp: in16_shift)

lemma in16_unat: "in16 v \<longleftrightarrow> unat v < 65536"
proof -
  have "in16 v \<longleftrightarrow> unat (drop_bit 16 v) = 0" by (simp only: in16_def unat_eq_0)
  also have "\<dots> \<longleftrightarrow> unat v div 2 ^ 16 = 0"
    by (simp only: unat_drop_bit_eq drop_bit_eq_div [of 16 "unat v"])
  also have "\<dots> \<longleftrightarrow> unat v < 65536" by (simp add: div_eq_0_iff)
  finally show ?thesis .
qed

lemma unat_of_char32 [simp]: "unat (of_char c :: 32 word) = of_char c"
proof -
  have "(of_char c :: nat) < 2 ^ 32" by (rule less_trans [OF of_char_lt]) simp
  then have "unat (of_nat (of_char c) :: 32 word) = of_char c"
    by (simp add: unsigned_of_nat take_bit_nat_eq_self)
  then show ?thesis by (simp only: of_nat_of_char)
qed

lemma in16_char: "in16 (of_char c)"
  using of_char_lt [of c] by (simp add: in16_unat del: of_char_lt)

lemma in16_init: "in16 crc_init"
  by (simp add: crc_init_def in16_unat)

lemma in16_update: "in16 v \<Longrightarrow> in16 (crc_update v c)"
  unfolding crc_update_def by (intro in16_shift_pow in16_xor in16_char)

lemma in16_foldl: "in16 v \<Longrightarrow> in16 (foldl crc_update v s)"
  by (induction s arbitrary: v) (simp_all add: in16_update)

lemma in16_crc16: "in16 (crc16 s)"
  by (simp add: crc16_def in16_foldl in16_init)

text \<open>On 16-bit values the shift loses nothing: bit 15 of the result is the bit that left.\<close>

lemma crc_shift_bit15: "in16 v \<Longrightarrow> bit (crc_shift v) 15 \<longleftrightarrow> bit v 0"
  using in16_bit [of v 16] poly_bit15 by (auto simp: crc_shift_alt bit_xor_iff bit_drop_bit_eq)

lemma crc_shift_kernel:
  assumes "in16 v" "crc_shift v = 0" shows "v = 0"
proof -
  have no0: "\<not> bit v 0" using crc_shift_bit15 [OF assms(1)] assms(2) by simp
  then have "drop_bit 1 v = 0" using assms(2) by (simp only: crc_shift_alt if_False)
  then have "bit (drop_bit 1 v) n = False" for n by (simp only: bit_0_eq bot_apply bot_bool_def)
  then have "\<not> bit v (Suc n)" for n by (simp add: bit_drop_bit_eq)
  with no0 have "\<not> bit v n" for n by (cases n) auto
  then show ?thesis by (simp add: bit_word_eqI)
qed

lemma crc_shift_pow_kernel: "in16 v \<Longrightarrow> (crc_shift ^^ n) v = 0 \<Longrightarrow> v = 0"
  by (induction n) (auto dest: crc_shift_kernel in16_shift_pow)

lemma xor_cancel_right: "v XOR u = w XOR u \<longleftrightarrow> v = w" for u v w :: "32 word"
proof
  assume "v XOR u = w XOR u"
  then have "(v XOR u) XOR u = (w XOR u) XOR u" by simp
  then show "v = w" by (simp add: xor.assoc)
qed simp

lemma xor_cancel_left: "u XOR v = u XOR w \<longleftrightarrow> v = w" for u v w :: "32 word"
  using xor_cancel_right [of v u w] by (simp only: xor.commute [of u])

lemma xor_eq_0_iff: "v XOR w = 0 \<longleftrightarrow> v = w" for v w :: "32 word"
  using xor_cancel_right [of v w w] by simp

lemma crc_shift_pow_inj:
  assumes "in16 v" "in16 w" "(crc_shift ^^ n) v = (crc_shift ^^ n) w" shows "v = w"
proof -
  have "(crc_shift ^^ n) (v XOR w) = 0"
    using assms(3) by (simp add: crc_shift_pow_xor)
  with assms(1,2) have "v XOR w = 0" by (auto intro: crc_shift_pow_kernel)
  then show ?thesis by (simp add: xor_eq_0_iff)
qed

lemma crc_update_state_inj:
  assumes "in16 v" "in16 w" "crc_update v c = crc_update w c" shows "v = w"
proof -
  from assms have "v XOR of_char c = w XOR of_char c"
    using crc_shift_pow_inj [OF in16_xor in16_xor, OF _ in16_char _ in16_char]
    unfolding crc_update_def by blast
  then show ?thesis by (simp add: xor_cancel_right)
qed

lemma foldl_crc_state_inj:
  "in16 v \<Longrightarrow> in16 w \<Longrightarrow> foldl crc_update v s = foldl crc_update w s \<Longrightarrow> v = w"
proof (induction s arbitrary: v w)
  case (Cons c s)
  then have "crc_update v c = crc_update w c" by (simp add: in16_update)
  with Cons.prems(1,2) show ?case by (rule crc_update_state_inj)
qed simp

text \<open>Two consecutive bytes enter the register as one 16-bit value.\<close>

lemma crc_shift_push:
  fixes v :: "32 word"
  assumes "\<And>n. 8 \<le> n \<Longrightarrow> \<not> bit v n" "k < 23"
  shows "crc_shift (push_bit (Suc k) v) = push_bit k v"
proof -
  have no0: "\<not> bit (push_bit (Suc k) v) 0" by (simp only: bit_push_bit_iff) simp
  have "drop_bit 1 (push_bit (Suc k) v) = push_bit k v"
  proof (rule bit_word_eqI)
    fix n assume n: "n < LENGTH(32)"
    show "bit (drop_bit 1 (push_bit (Suc k) v)) n = bit (push_bit k v) n"
      using n assms(1) [of "n - k"] assms(2)
      by (cases "n = 31") (auto simp only: bit_push_bit_iff bit_drop_bit_eq comp_apply, auto)
  qed
  with no0 show ?thesis by (simp only: crc_shift_alt if_False)
qed

lemma drop8_char: "drop_bit 8 (of_char c :: 32 word) = 0"
proof -
  have "unat (drop_bit 8 (of_char c :: 32 word)) = of_char c div 2 ^ 8"
    by (simp only: unat_drop_bit_eq unat_of_char32 drop_bit_eq_div [of 8 "of_char c :: nat"])
  also have "\<dots> = 0" using of_char_lt [of c] by simp
  finally show ?thesis by (simp only: unat_eq_0)
qed

lemma char_bits: "8 \<le> n \<Longrightarrow> \<not> bit (of_char c :: 32 word) n"
proof -
  assume "8 \<le> n"
  moreover have "\<not> bit (drop_bit 8 (of_char c :: 32 word)) (n - 8)"
    by (simp only: drop8_char bit_0_eq bot_apply bot_bool_def) simp
  ultimately show ?thesis by (simp add: bit_drop_bit_eq)
qed

lemma crc_shift_pow_push:
  "k \<le> 8 \<Longrightarrow> (crc_shift ^^ k) (push_bit k (of_char c)) = of_char c"
proof (induction k)
  case (Suc k)
  have "(crc_shift ^^ Suc k) (push_bit (Suc k) (of_char c)) =
        (crc_shift ^^ k) (crc_shift (push_bit (Suc k) (of_char c)))"
    by (simp only: funpow_Suc_right comp_apply)
  also have "\<dots> = (crc_shift ^^ k) (push_bit k (of_char c))"
    using Suc.prems by (subst crc_shift_push) (simp_all add: char_bits)
  finally show ?case using Suc by simp
qed (simp only: funpow_0 push_bit_0_id id_apply)

lemma crc_update_two:
  "crc_update (crc_update v a) b = (crc_shift ^^ 16) (v XOR (of_char a XOR push_bit 8 (of_char b)))"
proof -
  let ?p = "push_bit 8 (of_char b) :: 32 word"
  have "(crc_shift ^^ 16) (v XOR (of_char a XOR ?p)) =
        (crc_shift ^^ 8) ((crc_shift ^^ 8) ((v XOR of_char a) XOR ?p))"
    by (simp only: xor.assoc funpow_add [of 8 8, simplified, THEN fun_cong, unfolded comp_apply])
  also have "\<dots> = (crc_shift ^^ 8) ((crc_shift ^^ 8) (v XOR of_char a) XOR of_char b)"
    by (simp only: crc_shift_pow_xor [of 8 _ ?p] crc_shift_pow_push order_refl)
  finally show ?thesis by (simp only: crc_update_def)
qed

lemma in16_push8: "in16 (push_bit 8 (of_char c))"
  by (rule in16I) (use char_bits [of _ c] in \<open>auto simp only: bit_push_bit_iff\<close>)

lemma crc_update_two_inj:
  assumes "in16 v" "crc_update (crc_update v a) b = crc_update (crc_update v a') b'"
  shows "a = a' \<and> b = b'"
proof -
  let ?w = "\<lambda>x y. of_char x XOR push_bit 8 (of_char y) :: 32 word"
  have in16w: "in16 (?w x y)" for x y by (intro in16_xor in16_char in16_push8)
  have "v XOR ?w a b = v XOR ?w a' b'"
    by (rule crc_shift_pow_inj [of _ _ 16])
      (use assms in \<open>auto simp only: crc_update_two intro: in16w\<close>)
  then have eq: "?w a b = ?w a' b'"
    by (simp only: xor_cancel_left)
  have low: "bit (of_char x :: 32 word) n = bit (?w x y) n" if "n < 8" for x y n
    using that by (simp only: bit_xor_iff bit_push_bit_iff) auto
  have high: "bit (of_char y :: 32 word) n = bit (?w x y) (n + 8)" if "n < 8" for x y n
    using that char_bits [of "n + 8" x] by (simp only: bit_xor_iff bit_push_bit_iff) auto
  have "of_char a = (of_char a' :: 32 word)"
    by (rule bit_word_eqI) (metis low eq char_bits not_le)
  moreover have "of_char b = (of_char b' :: 32 word)"
    by (rule bit_word_eqI) (metis high eq char_bits not_le)
  ultimately show ?thesis by (metis of_char_eq_iff unat_of_char32)
qed

section \<open>The printed check value\<close>

lemma of_char_hex_digit: "d < 16 \<Longrightarrow> (of_char (hex_digit d) :: nat) = (if d < 10 then 48 + d else 55 + d)"
  by (auto simp: hex_digit_def)

lemma hex_digit_inj:
  assumes "d < 16" "e < 16" shows "hex_digit d = hex_digit e \<longleftrightarrow> d = e"
proof
  assume "hex_digit d = hex_digit e"
  then have "(of_char (hex_digit d) :: nat) = of_char (hex_digit e)" by simp
  with assms show "d = e" by (auto simp: of_char_hex_digit split: if_splits)
qed simp

definition hex4 :: "nat \<Rightarrow> string" where
  "hex4 n = [hex_digit (n div 4096), hex_digit (n div 256 mod 16),
             hex_digit (n div 16 mod 16), hex_digit (n mod 16)]"

lemma hex4_value:
  "n = ((n div 4096 * 16 + n div 256 mod 16) * 16 + n div 16 mod 16) * 16 + n mod 16" for n :: nat
proof -
  have "n div 4096 = n div 256 div 16" "n div 256 = n div 16 div 16"
    by (simp_all flip: div_mult2_eq)
  then show ?thesis by (simp only: div_mult_mod_eq)
qed

lemma hex4_inj: "n < 65536 \<Longrightarrow> m < 65536 \<Longrightarrow> hex4 n = hex4 m \<Longrightarrow> n = m"
proof -
  assume b: "n < 65536" "m < 65536" and "hex4 n = hex4 m"
  then have "n div 4096 = m div 4096" "n div 256 mod 16 = m div 256 mod 16"
    "n div 16 mod 16 = m div 16 mod 16" "n mod 16 = m mod 16"
    by (simp_all add: hex4_def hex_digit_inj less_mult_imp_div_less)
  then show "n = m" using hex4_value [of n] hex4_value [of m] by simp
qed

lemma hex_digit_0: "hex_digit 0 = CHR ''0''"
  by code_simp

lemma show_hex_step: "16 \<le> n \<Longrightarrow> show_hex n = show_hex (n div 16) @ [hex_digit (n mod 16)]"
  by (subst show_hex.simps) simp

lemma show_hex_small: "n < 16 \<Longrightarrow> show_hex n = [hex_digit n]"
  by (subst show_hex.simps) simp

lemmas show_hex_eqs = show_hex_step show_hex_small

lemma pad_show_hex:
  assumes "n < 65536"
  shows "take 4 (replicate (4 - length (show_hex n)) (CHR ''0'') @ show_hex n) = hex4 n"
proof -
  have d: "n div 256 = n div 16 div 16" "n div 4096 = n div 16 div 16 div 16"
    by (simp_all flip: div_mult2_eq)
  consider "n < 16" | "16 \<le> n" "n < 256" | "256 \<le> n" "n < 4096" | "4096 \<le> n" by linarith
  then show ?thesis
  proof cases
    case 1
    then show ?thesis
      by (simp add: show_hex_small hex4_def hex_digit_0 numeral_3_eq_3)
  next
    case 2
    then have "show_hex n = [hex_digit (n div 16), hex_digit (n mod 16)]" "n div 16 < 16"
      by (simp_all add: show_hex_eqs less_mult_imp_div_less)
    with 2 show ?thesis by (simp add: hex4_def hex_digit_0 numeral_2_eq_2)
  next
    case 3
    then have "16 \<le> n div 16" "n div 16 div 16 < 16" by (simp_all flip: div_mult2_eq)
    with 3 have "show_hex n =
        [hex_digit (n div 16 div 16), hex_digit (n div 16 mod 16), hex_digit (n mod 16)]"
      by (simp add: show_hex_eqs)
    moreover have "n div 4096 = 0" using 3 by simp
    ultimately show ?thesis using 3 \<open>n div 16 div 16 < 16\<close> by (simp add: hex4_def hex_digit_0 d(1))
  next
    case 4
    then have "16 \<le> n div 16" "16 \<le> n div 16 div 16" "n div 16 div 16 div 16 < 16"
      using assms by (simp_all flip: div_mult2_eq)
    with 4 show ?thesis by (simp add: show_hex_eqs hex4_def d)
  qed
qed

lemma sval_hex4: "in16 v \<Longrightarrow> sval v = hex4 (unat v)"
  unfolding sval_def Let_def by (rule pad_show_hex) (simp add: in16_unat)

lemma sval_inj: "in16 v \<Longrightarrow> in16 w \<Longrightarrow> sval v = sval w \<longleftrightarrow> v = w"
  using hex4_inj [of "unat v" "unat w"] by (auto simp: sval_hex4 in16_unat unsigned_word_eqI)

lemma length_scrc16 [simp]: "length (scrc16 s) = 4"
  by (simp add: scrc16_def sval_hex4 in16_crc16 hex4_def)

lemma hex_digit_printable: "d < 16 \<Longrightarrow> 48 \<le> (of_char (hex_digit d) :: nat)"
  by (simp add: of_char_hex_digit)

lemma scrc16_printable: "c \<in> set (scrc16 s) \<Longrightarrow> 48 \<le> (of_char c :: nat)"
  using in16_crc16 [of s]
  by (auto simp: scrc16_def sval_hex4 hex4_def in16_unat hex_digit_printable less_mult_imp_div_less)

lemma scrc16_eq_iff: "scrc16 s = scrc16 t \<longleftrightarrow> crc16 s = crc16 t"
  by (simp add: scrc16_def sval_inj in16_crc16)

lemma crc16_append: "crc16 (p @ s) = foldl crc_update (crc16 p) s"
  by (simp add: crc16_def)

lemma crc16_two:
  assumes "crc16 (p @ a # b # s) = crc16 (p @ a' # b' # s)"
  shows "a = a' \<and> b = b'"
proof -
  have "crc_update (crc_update (crc16 p) a) b = crc_update (crc_update (crc16 p) a') b'"
  proof (rule foldl_crc_state_inj)
    show "foldl crc_update (crc_update (crc_update (crc16 p) a) b) s =
          foldl crc_update (crc_update (crc_update (crc16 p) a') b') s"
      using assms by (simp add: crc16_append)
  qed (intro in16_update in16_crc16)+
  then show ?thesis by (rule crc_update_two_inj [OF in16_crc16])
qed

lemma crc16_one:
  assumes "crc16 (p @ a # s) = crc16 (p @ a' # s)"
  shows "a = a'"
proof -
  have "crc_update (crc16 p) a = crc_update (crc16 p) a'"
  proof (rule foldl_crc_state_inj)
    show "foldl crc_update (crc_update (crc16 p) a) s = foldl crc_update (crc_update (crc16 p) a') s"
      using assms by (simp add: crc16_append)
  qed (intro in16_update in16_crc16)+
  then have "crc_update (crc_update (crc16 p) a) a = crc_update (crc_update (crc16 p) a') a" by simp
  then show ?thesis using crc_update_two_inj [OF in16_crc16] by blast
qed

text \<open>C10: two messages that differ at most in two adjacent bytes have the same check value only if
  they are equal: the four printed digits of the ARQ block check detect every change of one byte
  and of two adjacent bytes, at any position of a block of any length.\<close>

theorem crc_detects_two_bytes:
  "scrc16 (p @ [a, b] @ s) = scrc16 (p @ [a', b'] @ s) \<longleftrightarrow> a = a' \<and> b = b'"
  using crc16_two [of p a b s a' b'] by (auto simp: scrc16_eq_iff)

section \<open>What the link relies on\<close>

text \<open>
  The ARQ engine uses the check value through four laws only: its length, that it holds no
  control character, and that it separates messages which differ in one or in two adjacent bytes.
\<close>

locale block_check =
  fixes chk :: "string \<Rightarrow> string"
  assumes chk_length: "length (chk s) = 4"
    and chk_printable: "c \<in> set (chk s) \<Longrightarrow> 48 \<le> (of_char c :: nat)"
    and chk_byte: "chk (p @ [a] @ s) = chk (p @ [a'] @ s) \<Longrightarrow> a = a'"
    and chk_two: "chk (p @ [a, b] @ s) = chk (p @ [a', b'] @ s) \<Longrightarrow> a = a' \<and> b = b'"
begin

definition seal :: "string \<Rightarrow> string" where
  "seal s = s @ chk s"

definition intact :: "string \<Rightarrow> bool" where
  "intact t \<longleftrightarrow> chk (take (length t - 4) t) = drop (length t - 4) t"

lemma length_seal: "length (seal s) = length s + 4"
  by (simp add: seal_def chk_length)

lemma seal_content: "take (length (seal s) - 4) (seal s) = s"
  by (simp add: seal_def chk_length)

lemma seal_check: "drop (length (seal s) - 4) (seal s) = chk s"
  by (simp add: seal_def chk_length)

lemma intact_seal: "intact (seal s)"
  by (simp add: intact_def seal_content seal_check)

lemma intact_iff: "intact (s @ t) \<longleftrightarrow> chk s = t" if "length t = 4"
  using that by (simp add: intact_def)

lemma damaged_byte: "a \<noteq> a' \<Longrightarrow> \<not> intact ((p @ [a'] @ s) @ chk (p @ [a] @ s))"
  using chk_byte [of p a s a'] unfolding intact_iff [OF chk_length] by metis

lemma damaged_two:
  "(a, b) \<noteq> (a', b') \<Longrightarrow> \<not> intact ((p @ [a', b'] @ s) @ chk (p @ [a, b] @ s))"
  using chk_two [of p a b s a' b'] unfolding intact_iff [OF chk_length] by (metis prod.inject)

lemma seal_no_control:
  assumes "(of_char c :: nat) < 48" "c \<notin> set s"
  shows "c \<notin> set (seal s)"
  using assms chk_printable [of c s] by (auto simp: seal_def)

end

interpretation crc: block_check scrc16
proof
  fix p s :: string and a a' :: char
  assume "scrc16 (p @ [a] @ s) = scrc16 (p @ [a'] @ s)"
  then show "a = a'" using crc16_one by (simp add: scrc16_eq_iff)
next
  fix p s :: string and a a' b b' :: char
  assume "scrc16 (p @ [a, b] @ s) = scrc16 (p @ [a', b'] @ s)"
  then show "a = a' \<and> b = b'" using crc16_two [of p a b s a' b'] by (simp add: scrc16_eq_iff)
qed (simp_all add: scrc16_printable)

end
