(* ===== verification/Arq_State.thy ===== *)
theory Arq_State
  imports Crc16
begin

text \<open>
  The state of the ARQ engine, class \<^verbatim>\<open>arq\<close> of \<^verbatim>\<open>flarq-src/include/arq.h\<close>, and the
  operations of \<^verbatim>\<open>flarq-src/arq.cxx\<close> that build and queue frames. Fields keep the names of the
  class. A member that no operation reads (\<^verbatim>\<open>Firstsent\<close>, \<^verbatim>\<open>blkcount\<close>, \<^verbatim>\<open>TXflag\<close>,
  \<^verbatim>\<open>PollOK\<close>, \<^verbatim>\<open>loopcount\<close>, \<^verbatim>\<open>payloadlength\<close>, \<^verbatim>\<open>logfile\<close>, \<^verbatim>\<open>MyMissing\<close>) is left out.
  The callbacks the engine calls are recorded in \<open>events\<close>, oldest first; \<open>hooks\<close>
  says which of the callbacks the code tests against \<^verbatim>\<open>NULL\<close> are installed.
\<close>

section \<open>Constants\<close>

definition SOH :: char where "SOH = CHR 0x01"
definition ACK :: char where "ACK = CHR 0x06"
definition SUB :: char where "SUB = CHR 0x1A"
definition EOT :: char where "EOT = CHR 0x04"

definition IDENT :: char where "IDENT = CHR ''i''"
definition CONREQ :: char where "CONREQ = CHR ''c''"
definition CONACK :: char where "CONACK = CHR ''k''"
definition DISREQ :: char where "DISREQ = CHR ''d''"
definition STATUS :: char where "STATUS = CHR ''s''"
definition POLL :: char where "POLL = CHR ''p''"
definition ABORT_blk :: char where "ABORT_blk = CHR ''a''"
definition ACKABORT_blk :: char where "ACKABORT_blk = CHR ''o''"
definition DISACK_blk :: char where "DISACK_blk = CHR ''b''"
definition UNPROTO_blk :: char where "UNPROTO_blk = CHR ''u''"
definition TALK_blk :: char where "TALK_blk = CHR ''t''"

lemmas control_chars = SOH_def ACK_def SUB_def EOT_def
lemmas block_types = IDENT_def CONREQ_def CONACK_def DISREQ_def STATUS_def POLL_def ABORT_blk_def
  ACKABORT_blk_def DISACK_blk_def UNPROTO_blk_def TALK_blk_def

definition MAXCOUNT :: int where "MAXCOUNT = 64"
definition MAXHEADERS :: int where "MAXHEADERS = 8"
definition EXPONENT :: int where "EXPONENT = 7"
definition RETRIES :: int where "RETRIES = 5"
definition RETRYTIME :: int where "RETRYTIME = 10000"
definition TXDELAY :: int where "TXDELAY = 500"
definition TIMEOUT :: int where "TIMEOUT = 60000"
definition ARQLOOPTIME :: int where "ARQLOOPTIME = 100"

section \<open>Link states\<close>

text \<open>\<^verbatim>\<open>enum LINK_STATES\<close>; the code also compares the values as integers.\<close>

datatype link_state = DOWN | TIMEDOUT | ABORT | ARQ_CONNECTING | ARQ_CONNECTED | WAITING
  | WAITFORACK | DISCONNECT | DISCONNECTING | ABORTING | STOPPED

primrec state_num :: "link_state \<Rightarrow> int" where
  "state_num DOWN = 0"
| "state_num TIMEDOUT = 1"
| "state_num ABORT = 2"
| "state_num ARQ_CONNECTING = 3"
| "state_num ARQ_CONNECTED = 4"
| "state_num WAITING = 5"
| "state_num WAITFORACK = 6"
| "state_num DISCONNECT = 7"
| "state_num DISCONNECTING = 8"
| "state_num ABORTING = 9"
| "state_num STOPPED = 10"

lemma state_num_inj: "state_num a = state_num b \<longleftrightarrow> a = b"
  by (cases a; cases b) simp_all

instantiation link_state :: linorder
begin

definition less_eq_link_state :: "link_state \<Rightarrow> link_state \<Rightarrow> bool" where
  "less_eq_link_state a b \<longleftrightarrow> state_num a \<le> state_num b"

definition less_link_state :: "link_state \<Rightarrow> link_state \<Rightarrow> bool" where
  "less_link_state a b \<longleftrightarrow> state_num a < state_num b"

instance
  by standard (auto simp: less_eq_link_state_def less_link_state_def state_num_inj)

end

lemma link_state_less_simps [simp]:
  "DOWN < ARQ_CONNECTED" "TIMEDOUT < ARQ_CONNECTED" "ABORT < ARQ_CONNECTED"
  "ARQ_CONNECTING < ARQ_CONNECTED" "ARQ_CONNECTED < WAITING" "TIMEDOUT < WAITFORACK"
  "DOWN < ARQ_CONNECTING" "TIMEDOUT < ARQ_CONNECTING" "ABORT < ARQ_CONNECTING"
  "ARQ_CONNECTED \<le> WAITING" "ARQ_CONNECTED \<le> WAITFORACK" "ARQ_CONNECTED \<le> DISCONNECT"
  "ARQ_CONNECTED \<le> DISCONNECTING" "ARQ_CONNECTED \<le> ABORTING" "ARQ_CONNECTED \<le> STOPPED"
  "ARQ_CONNECTING \<le> ARQ_CONNECTED" "DOWN \<le> TIMEDOUT"
  by (simp_all add: less_eq_link_state_def less_link_state_def)

section \<open>Text blocks, callbacks, state\<close>

text \<open>Class \<^verbatim>\<open>cTxtBlk\<close>: a block number and its text.\<close>

record cTxtBlk =
  nbr :: int
  blk_text :: string

datatype hook = HprintRX | HprintTX | HprintTALK | HprintRXDebug | HprintTXDebug
  | Habort | Hdisconnect | HrxUrCall

datatype arq_event =
    EvSend string
  | EvPrintRX string
  | EvPrintTX string
  | EvPrintTALK string
  | EvRXDebug string
  | EvTXDebug string
  | EvStatus string
  | EvUrCall string
  | EvAborted
  | EvDisconnected
  | EvRepeat int

record arq =
  MyCall :: string
  UrCall :: string
  Header :: string
  Frame :: string
  Payload :: string
  rcvPayload :: string
  MyStreamID :: char
  UrStreamID :: char
  MyBlockLengthChar :: char
  UrBlockLengthChar :: char
  fID :: char
  blknbr :: int
  TxTextQueue :: string
  TxPlainTextQueue :: string
  RxTextQueue :: string
  RxFrameQueue :: string
  lastRxChar :: char
  Bufferlength :: int
  maxheaders :: int
  exponent :: int
  totalTx :: int
  nbrbadTx :: int
  SessionNumber :: int
  retrytime :: int
  RetryTime :: int
  retries :: int
  Retries :: int
  timeout :: int
  Timeout :: int
  tx2txdelay :: int
  TxDelay :: int
  idtimer_left :: int
  idtimer :: int
  baseRetryTime :: int
  baseTimeout :: int
  baseRetries :: int
  immediate :: bool
  primary :: bool
  LastHeader :: int
  Lastqueued :: int
  EndHeader :: int
  GoodHeader :: int
  Blocks2Send :: int
  MissingRxBlocks :: string
  RxPending :: "cTxtBlk list"
  TxBlocks :: "cTxtBlk list"
  TxMissing :: "cTxtBlk list"
  TxPending :: "cTxtBlk list"
  UrGoodHeader :: int
  UrLastHeader :: int
  UrEndHeader :: int
  LinkState :: link_state
  Sending :: int
  arqstop :: bool
  hooks :: "hook \<Rightarrow> bool"
  events :: "arq_event list"

text \<open>A callback the code calls without a test, and one it calls only when installed.\<close>

definition emit :: "arq_event \<Rightarrow> arq \<Rightarrow> arq" where
  "emit e s = s\<lparr>events := events s @ [e]\<rparr>"

definition call_hook :: "hook \<Rightarrow> arq_event \<Rightarrow> arq \<Rightarrow> arq" where
  "call_hook h e s = (if hooks s h then emit e s else s)"

definition printSTATUS :: "string \<Rightarrow> arq \<Rightarrow> arq" where
  "printSTATUS msg s = emit (EvStatus msg) s"

section \<open>Settings\<close>

text \<open>\<^verbatim>\<open>for (i = 0; i < exponent; i++) Bufferlength *= 2; MyBlockLengthChar = '0' + exponent\<close>\<close>

definition setBufferlength :: "arq \<Rightarrow> arq" where
  "setBufferlength s = s\<lparr>Bufferlength := 2 ^ nat (exponent s),
                         MyBlockLengthChar := char_of_int (48 + exponent s)\<rparr>"

definition set_idtimer :: "arq \<Rightarrow> arq" where
  "set_idtimer s = s\<lparr>idtimer_left :=
     (if idtimer s \<noteq> 0 then cdiv ((idtimer s * 60 - 10) * 1000) ARQLOOPTIME
      else cdiv ((10 * 60 - 10) * 1000) ARQLOOPTIME)\<rparr>"

definition myCall :: "string \<Rightarrow> arq \<Rightarrow> arq" where
  "myCall c s = s\<lparr>MyCall := toupper_str c\<rparr>"

definition setMaxHeaders :: "int \<Rightarrow> arq \<Rightarrow> arq" where
  "setMaxHeaders mh s = s\<lparr>maxheaders := mh\<rparr>"

definition setExponent :: "int \<Rightarrow> arq \<Rightarrow> arq" where
  "setExponent e s = setBufferlength (s\<lparr>exponent := e\<rparr>)"

definition setWaitTime :: "int \<Rightarrow> arq \<Rightarrow> arq" where
  "setWaitTime t s = s\<lparr>RetryTime := t, baseRetryTime := t\<rparr>"

definition setRetries :: "int \<Rightarrow> arq \<Rightarrow> arq" where
  "setRetries n s = s\<lparr>retries := n, Retries := n, baseRetries := n\<rparr>"

definition setTimeout :: "int \<Rightarrow> arq \<Rightarrow> arq" where
  "setTimeout t s = s\<lparr>Timeout := t, baseTimeout := t\<rparr>"

definition setTxDelay :: "int \<Rightarrow> arq \<Rightarrow> arq" where
  "setTxDelay t s = s\<lparr>TxDelay := t\<rparr>"

section \<open>Construction and reset\<close>

text \<open>
  \<^verbatim>\<open>arq::arq()\<close>. The members the constructor leaves uninitialised start as 0 or empty here.
\<close>

definition arq_new :: "int \<Rightarrow> (hook \<Rightarrow> bool) \<Rightarrow> arq" where
  "arq_new idt hks = set_idtimer (setBufferlength \<lparr>
     MyCall = '''', UrCall = '''', Header = '''', Frame = '''', Payload = '''', rcvPayload = '''',
     MyStreamID = CHR ''0'', UrStreamID = CHR ''0'',
     MyBlockLengthChar = CHR 0x00, UrBlockLengthChar = CHR 0x00, fID = CHR 0x00, blknbr = 0,
     TxTextQueue = '''', TxPlainTextQueue = '''', RxTextQueue = '''', RxFrameQueue = '''',
     lastRxChar = CHR 0x00,
     Bufferlength = 0, maxheaders = MAXHEADERS, exponent = EXPONENT,
     totalTx = 0, nbrbadTx = 0, SessionNumber = 0,
     retrytime = cdiv RETRYTIME ARQLOOPTIME, RetryTime = RETRYTIME,
     retries = RETRIES, Retries = RETRIES,
     timeout = cdiv TIMEOUT ARQLOOPTIME, Timeout = TIMEOUT,
     tx2txdelay = 0, TxDelay = TXDELAY, idtimer_left = 0, idtimer = idt,
     baseRetryTime = RETRYTIME, baseTimeout = TIMEOUT, baseRetries = RETRIES,
     immediate = False, primary = False,
     LastHeader = MAXCOUNT - 1, Lastqueued = MAXCOUNT - 1,
     EndHeader = MAXCOUNT - 1, GoodHeader = MAXCOUNT - 1, Blocks2Send = 0,
     MissingRxBlocks = '''', RxPending = [], TxBlocks = [], TxMissing = [], TxPending = [],
     UrGoodHeader = MAXCOUNT - 1, UrLastHeader = MAXCOUNT - 1, UrEndHeader = MAXCOUNT - 1,
     LinkState = DOWN, Sending = 0, arqstop = False, hooks = hks, events = []\<rparr>)"

definition resetTx :: "arq \<Rightarrow> arq" where
  "resetTx s = s\<lparr>LastHeader := MAXCOUNT - 1, Lastqueued := MAXCOUNT - 1,
                 TxMissing := [], TxBlocks := [], TxPending := [], TxTextQueue := ''''\<rparr>"

definition resetRx :: "arq \<Rightarrow> arq" where
  "resetRx s = s\<lparr>RxTextQueue := '''', RxFrameQueue := '''', lastRxChar := CHR 0x00,
                 EndHeader := MAXCOUNT - 1, GoodHeader := MAXCOUNT - 1,
                 RxPending := [], MissingRxBlocks := ''''\<rparr>"

definition reset :: "arq \<Rightarrow> arq" where
  "reset s = (resetRx (resetTx s))\<lparr>immediate := False, primary := False\<rparr>"

text \<open>\<^verbatim>\<open>if (++SessionNumber == 64) SessionNumber = 1; MyStreamID = SessionNumber + '0'\<close>\<close>

definition newsession :: "arq \<Rightarrow> arq" where
  "newsession s = (let n = SessionNumber s + 1; n' = (if n = 64 then 1 else n)
     in s\<lparr>SessionNumber := n', MyStreamID := char_of_int (n' + 48)\<rparr>)"

definition newblocknumber :: "arq \<Rightarrow> arq" where
  "newblocknumber s = s\<lparr>Lastqueued := (Lastqueued s + 1) mod MAXCOUNT\<rparr>"

section \<open>Frame construction\<close>

definition checksum :: "string \<Rightarrow> string" where
  "checksum f = scrc16 f"

definition newHeader :: "arq \<Rightarrow> arq" where
  "newHeader s = s\<lparr>Header := [SOH, CHR ''0'']\<rparr>"

definition IdHeader :: "arq \<Rightarrow> arq" where
  "IdHeader s = (let s = newHeader s in s\<lparr>Header := Header s @ [UrStreamID s]\<rparr>)"

definition UnkHeader :: "arq \<Rightarrow> arq" where
  "UnkHeader s = (let s = newHeader s in s\<lparr>Header := Header s @ ''0''\<rparr>)"

definition addToTxQue :: "string \<Rightarrow> arq \<Rightarrow> arq" where
  "addToTxQue f s = s\<lparr>TxTextQueue := TxTextQueue s @ f @ [CHR 0x0D, CHR 0x0A],
                      totalTx := totalTx s + 1\<rparr>"

text \<open>
  The four statements every frame ends with: \<^verbatim>\<open>Frame = Header + Payload;
  Frame = Frame + checksum(Frame); Frame += EOT; addToTxQue(Frame);\<close>. The block type has been
  appended to \<^verbatim>\<open>Header\<close> before.
\<close>

definition add_type :: "char \<Rightarrow> arq \<Rightarrow> arq" where
  "add_type t s = s\<lparr>Header := Header s @ [t]\<rparr>"

definition queue_frame :: "string \<Rightarrow> arq \<Rightarrow> arq" where
  "queue_frame p s = (let f = Header s @ p; f = f @ checksum f; f = f @ [EOT]
     in addToTxQue f (s\<lparr>Payload := p, Frame := f\<rparr>))"

definition connectFrame :: "arq \<Rightarrow> arq" where
  "connectFrame s = (let
     s = reset s;
     s = add_type CONREQ (UnkHeader s);
     globals = take 22 ('' T'' @ show_int (cdiv (Timeout s) 1000) @ ''R'' @ show_int (Retries s)
                        @ ''W'' @ show_int (cdiv (RetryTime s) 1000));
     p = MyCall s @ '':1025'' @ '' '' @ UrCall s @ '':24'' @ '' '' @ [MyStreamID s]
         @ '' '' @ [MyBlockLengthChar s] @ globals;
     s = queue_frame p s;
     s = s\<lparr>LinkState := ARQ_CONNECTING\<rparr>
     in set_idtimer (printSTATUS ''TX: Connect'' s))"

definition ackFrame :: "arq \<Rightarrow> arq" where
  "ackFrame s = (let
     s = reset s;
     s = add_type CONACK (IdHeader s);
     p = MyCall s @ '':24'' @ '' '' @ UrCall s @ '' '' @ [MyStreamID s] @ '' '' @ [MyBlockLengthChar s]
     in set_idtimer (printSTATUS ''TX: Connect OK'' (queue_frame p s)))"

definition ttyconnectFrame :: "arq \<Rightarrow> arq" where
  "ttyconnectFrame s = (let
     s = add_type CONREQ (UnkHeader s);
     p = MyCall s @ '':87'' @ '' '' @ UrCall s @ '':87'' @ '' '' @ [MyStreamID s]
         @ '' '' @ [MyBlockLengthChar s]
     in set_idtimer (queue_frame p s))"

definition ttyackFrame :: "arq \<Rightarrow> arq" where
  "ttyackFrame s = (let
     s = add_type CONACK (IdHeader s);
     p = MyCall s @ '':87'' @ '' '' @ UrCall s @ '' '' @ [MyBlockLengthChar s]
     in set_idtimer (queue_frame p s))"

definition identFrame :: "arq \<Rightarrow> arq" where
  "identFrame s = (let
     s = add_type IDENT (IdHeader s);
     s = queue_frame (UrCall s @ '' de '' @ MyCall s) s
     in set_idtimer (printSTATUS (take 79 (''TX: Watchdog '' @ show_int (retries s))) s))"

definition pingFrame :: "arq \<Rightarrow> arq" where
  "pingFrame s = (let
     s = add_type UNPROTO_blk (IdHeader s)
     in set_idtimer (queue_frame (MyCall s @ '':7'' @ '' '') s))"

text \<open>
  \<^verbatim>\<open>if (txt.length() > (size_t)Bufferlength) txt.substr(0, Bufferlength) else txt\<close>. As a
  \<^verbatim>\<open>size_t\<close> a negative length is larger than every text.
\<close>

definition buf_len :: "arq \<Rightarrow> string \<Rightarrow> nat" where
  "buf_len s txt = (if Bufferlength s < 0 then length txt else nat (Bufferlength s))"

definition clip :: "arq \<Rightarrow> string \<Rightarrow> string" where
  "clip s txt = (if length txt > buf_len s txt then take (buf_len s txt) txt else txt)"

definition talkFrame :: "string \<Rightarrow> arq \<Rightarrow> arq" where
  "talkFrame txt s = (let
     s = add_type TALK_blk (IdHeader s)
     in set_idtimer (queue_frame (MyCall s @ '':73'' @ '' '' @ clip s txt) s))"

text \<open>The three header numbers and the missing list that status, poll and abort frames carry.\<close>

definition header_report :: "arq \<Rightarrow> string" where
  "header_report s = [char_of_int (LastHeader s + 0x20), char_of_int (GoodHeader s + 0x20),
                      char_of_int (EndHeader s + 0x20)] @ MissingRxBlocks s"

definition ackAbortFrame :: "arq \<Rightarrow> arq" where
  "ackAbortFrame s = (let
     s = add_type ACKABORT_blk (IdHeader s)
     in printSTATUS ''TX: Blocks Received OK'' (queue_frame (header_report s) s))"

definition statFrame :: "arq \<Rightarrow> arq" where
  "statFrame s = (let
     s = (if idtimer s \<noteq> 0 \<and> idtimer_left s \<le> 0 then talkFrame ''auto ID'' s else s);
     s = add_type STATUS (IdHeader s)
     in printSTATUS ''TX: Blocks Received OK'' (queue_frame (header_report s) s))"

definition disconnectFrame :: "arq \<Rightarrow> arq" where
  "disconnectFrame s = (let
     s = add_type DISREQ (IdHeader s)
     in set_idtimer (printSTATUS ''TX: Disconnect Request'' (queue_frame (MyCall s @ '':90'') s)))"

definition disackFrame :: "arq \<Rightarrow> arq" where
  "disackFrame s = (let
     s = add_type DISACK_blk (IdHeader s)
     in set_idtimer (printSTATUS ''TX: Disconnect OK'' (queue_frame (MyCall s @ '':91'') s)))"

definition abortFrame :: "arq \<Rightarrow> arq" where
  "abortFrame s = (let
     s = add_type ABORT_blk (IdHeader s)
     in set_idtimer (queue_frame (MyCall s @ '':92'') s))"

definition beaconFrame :: "string \<Rightarrow> arq \<Rightarrow> arq" where
  "beaconFrame txt s = (let
     s = add_type UNPROTO_blk (UnkHeader s)
     in set_idtimer (printSTATUS ''TX: Beacon'' (queue_frame (MyCall s @ '':72'' @ '' '' @ clip s txt) s)))"

text \<open>\<^verbatim>\<open>pollFrame\<close> and \<^verbatim>\<open>textFrame\<close> build the frame without going through \<^verbatim>\<open>Payload\<close>;
  a text frame is closed by the \<^verbatim>\<open>SOH\<close> of the next one.\<close>

definition pollFrame :: "arq \<Rightarrow> arq" where
  "pollFrame s = (let
     s = IdHeader s;
     f = Header s @ [POLL] @ MyCall s @ [SUB] @ header_report s;
     f = f @ checksum f @ [EOT]
     in set_idtimer (printSTATUS ''TX: Send Blocks Report'' (addToTxQue f (s\<lparr>Frame := f\<rparr>))))"

definition textFrame :: "cTxtBlk \<Rightarrow> arq \<Rightarrow> arq" where
  "textFrame b s = (let
     s = IdHeader s;
     f = Header s @ [char_of_int (nbr b + 0x20)] @ blk_text b;
     f = f @ checksum f @ [SOH]
     in addToTxQue f (s\<lparr>Frame := f\<rparr>))"

lemmas frame_defs = connectFrame_def ackFrame_def ttyconnectFrame_def ttyackFrame_def
  identFrame_def pingFrame_def talkFrame_def ackAbortFrame_def statFrame_def disconnectFrame_def
  disackFrame_def abortFrame_def beaconFrame_def pollFrame_def textFrame_def

lemmas frame_prims = newHeader_def IdHeader_def UnkHeader_def addToTxQue_def add_type_def
  queue_frame_def checksum_def printSTATUS_def emit_def set_idtimer_def Let_def

lemmas reset_defs = reset_def resetTx_def resetRx_def

end
