(* ===== verification/Arq_Receive.thy ===== *)
theory Arq_Receive
  imports Arq_State "HOL-Library.While_Combinator"
begin

text \<open>
  The receiving half of \<^verbatim>\<open>flarq-src/arq.cxx\<close>: the handlers \<^verbatim>\<open>parse...\<close> of the block
  types, the dispatcher \<^verbatim>\<open>parseFrame\<close>, and \<^verbatim>\<open>rcvChar\<close>, which cuts the received
  character stream into frames. A handler that can raise, read outside a string or loop for
  ever returns a \<open>result\<close>.
\<close>

section \<open>Link control\<close>

definition upcase :: "string \<Rightarrow> string" where
  "upcase s = toupper_str s"

definition parseIDENT :: "arq \<Rightarrow> arq" where
  "parseIDENT s = (let
     s = s\<lparr>timeout := cdiv (Timeout s) ARQLOOPTIME\<rparr>;
     s = statFrame s;
     s = s\<lparr>immediate := True\<rparr>
     in printSTATUS ''RX: Link Still Active'' s)"

text \<open>
  \<^verbatim>\<open>while (rcvPayload[++p1] != stop && n < 6) num[n++] = rcvPayload[p1];\<close> with \<open>k\<close> the
  characters \<open>num\<close> can still take. Returns \<open>num\<close> and the final \<open>p1\<close>.
\<close>

fun scan_num :: "char \<Rightarrow> string \<Rightarrow> nat \<Rightarrow> nat \<Rightarrow> string \<Rightarrow> (string \<times> nat) result" where
  "scan_num stop P p 0 num = andthen (str_at P (Suc p)) (\<lambda>c. Inr (num, Suc p))"
| "scan_num stop P p (Suc k) num = andthen (str_at P (Suc p))
     (\<lambda>c. if c \<noteq> stop then scan_num stop P (Suc p) k (num @ [c]) else Inr (num, Suc p))"

text \<open>\<^verbatim>\<open>sscanf(num, "%d", &x)\<close> leaves \<open>x\<close> alone when nothing converts.\<close>

definition scan_into :: "string \<Rightarrow> int \<Rightarrow> int" where
  "scan_into num x = (case sscanf_d num of None \<Rightarrow> x | Some n \<Rightarrow> n)"

text \<open>The optional \<^verbatim>\<open>TnnnRnnnWnnn\<close> tail of a connect request.\<close>

definition conreq_globals :: "string \<Rightarrow> nat \<Rightarrow> arq \<Rightarrow> arq result" where
  "conreq_globals P p1 s =
     (if p1 < length P \<and> P ! p1 = CHR ''T'' then
        andthen (scan_num (CHR ''R'') P p1 6 '''') (\<lambda>(num, p1).
          let s = s\<lparr>Timeout := wrap32 (scan_into num (Timeout s) * 1000)\<rparr> in
          if p1 < length P \<and> P ! p1 = CHR ''R'' then
            andthen (scan_num (CHR ''W'') P p1 6 '''') (\<lambda>(num, p1).
              let s = s\<lparr>Retries := scan_into num (Retries s)\<rparr> in
              if p1 < length P \<and> P ! p1 = CHR ''W'' then
                let num = take 6 (drop (Suc p1) P);
                    s = s\<lparr>RetryTime := wrap32 (scan_into num (RetryTime s) * 1000)\<rparr>
                in Inr (s\<lparr>Timeout := wrap32 (Timeout s + Retries s * RetryTime s)\<rparr>)
              else Inr s)
          else Inr s)
      else Inr s)"

definition conreq_accept :: "arq \<Rightarrow> arq" where
  "conreq_accept s = (let
     s = reset s;
     s = s\<lparr>LinkState := WAITFORACK\<rparr>;
     s = newsession s;
     s = call_hook HrxUrCall (EvUrCall (UrCall s)) s;
     s = s\<lparr>TxTextQueue := ''''\<rparr>;
     s = ackFrame s;
     s = s\<lparr>immediate := True\<rparr>
     in printSTATUS ''RX: Connect Request'' s)"

definition parseCONREQ :: "arq \<Rightarrow> arq result" where
  "parseCONREQ s = (let P = rcvPayload s in
     case find_char P (CHR '':'') 0 of None \<Rightarrow> Inr s
     | Some p2 \<Rightarrow>
       andthen (substr P 0 p2) (\<lambda>call.
       let s = s\<lparr>UrCall := upcase call\<rparr> in
       case find_char P (CHR '' '') (Suc p2) of None \<Rightarrow> Inr (s\<lparr>UrCall := ''''\<rparr>)
       | Some p1 \<Rightarrow>
         let p1 = Suc p1; q = find_char P (CHR '':'') p1 in
         andthen (substr_upto P p1 q) (\<lambda>testcall.
         if upcase testcall \<noteq> MyCall s then Inr (s\<lparr>UrCall := ''''\<rparr>)
         else case find_char P (CHR '' '') (case q of None \<Rightarrow> 0 | Some q \<Rightarrow> Suc q) of
           None \<Rightarrow> Inr (s\<lparr>UrCall := ''''\<rparr>)
         | Some p1 \<Rightarrow>
           let p1 = Suc p1 in
           andthen (str_at P p1) (\<lambda>c.
           let s = s\<lparr>UrStreamID := c\<rparr>; p1 = Suc p1 in
           andthen (str_at P p1) (\<lambda>c.
           let s = s\<lparr>UrBlockLengthChar := c\<rparr> in
           andthen (conreq_globals P (p1 + 3) s) (\<lambda>s. Inr (conreq_accept s)))))))"

definition conack_accept :: "arq \<Rightarrow> arq" where
  "conack_accept s = (let
     s = s\<lparr>RxTextQueue := '''', LinkState := ARQ_CONNECTED,
           timeout := cdiv (Timeout s) ARQLOOPTIME\<rparr>;
     s = statFrame s;
     s = s\<lparr>immediate := True, primary := True\<rparr>
     in printSTATUS ''RX: Connect OK'' s)"

definition parseCONACK :: "arq \<Rightarrow> arq result" where
  "parseCONACK s = (let P = rcvPayload s in
     if LinkState s < ARQ_CONNECTING then Inr s
     else case find_char P (CHR '':'') 0 of None \<Rightarrow> Inr s
     | Some p2 \<Rightarrow>
       andthen (substr P 0 p2) (\<lambda>call.
       let s = s\<lparr>UrCall := upcase call\<rparr> in
       case find_char P (CHR '' '') (Suc p2) of None \<Rightarrow> Inr (s\<lparr>UrCall := ''''\<rparr>)
       | Some p1 \<Rightarrow>
         let p1 = Suc p1 in
         andthen (substr_upto P p1 (find_char P (CHR '' '') p1)) (\<lambda>testcall.
         if upcase testcall \<noteq> MyCall s then Inr (s\<lparr>UrCall := ''''\<rparr>)
         else let p1 = Suc p1 in
           andthen (str_at P p1) (\<lambda>c.
           let s = s\<lparr>UrStreamID := c\<rparr>; p1 = Suc p1 in
           andthen (str_at P p1) (\<lambda>c.
           let s = s\<lparr>UrBlockLengthChar := c\<rparr> in Inr (conack_accept s))))))"

definition clearTx :: "arq \<Rightarrow> arq" where
  "clearTx s = s\<lparr>TxTextQueue := '''', TxMissing := [], TxBlocks := [], TxPlainTextQueue := ''''\<rparr>"

definition parseDISREQ :: "arq \<Rightarrow> arq" where
  "parseDISREQ s = (if LinkState s = DOWN then s else let
     s = clearTx s;
     s = disackFrame s;
     s = s\<lparr>immediate := True, LinkState := DOWN\<rparr>;
     s = call_hook HrxUrCall (EvUrCall '''') s;
     s = call_hook Hdisconnect EvDisconnected s
     in printSTATUS ''RX: Disconnect Request'' s)"

definition parseDISACK :: "arq \<Rightarrow> arq" where
  "parseDISACK s = (let
     s = call_hook HrxUrCall (EvUrCall '''') s;
     s = s\<lparr>LinkState := DOWN\<rparr>
     in printSTATUS ''RX: Disconnect OK'' s)"

definition parseABORT :: "arq \<Rightarrow> arq" where
  "parseABORT s = (let
     s = reset s;
     s = call_hook Habort EvAborted s;
     s = ackAbortFrame s
     in s\<lparr>immediate := True, LinkState := ARQ_CONNECTED\<rparr>)"

definition parseACKABORT :: "arq \<Rightarrow> arq" where
  "parseACKABORT s = (let
     s = reset s;
     s = call_hook Habort EvAborted s
     in s\<lparr>LinkState := ARQ_CONNECTED\<rparr>)"

definition parseUNPROTO :: "arq \<Rightarrow> arq result" where
  "parseUNPROTO s = (let P = rcvPayload s in
     case find_char P (CHR '':'') 0 of None \<Rightarrow> Inr s
     | Some p2 \<Rightarrow>
       andthen (substr P 0 p2) (\<lambda>call.
       let s = s\<lparr>UrCall := upcase call\<rparr>;
           s = call_hook HrxUrCall (EvUrCall (UrCall s)) s
       in Inr (call_hook HprintRX (EvPrintRX (P @ [CHR 0x0A])) s)))"

definition parseTALK :: "arq \<Rightarrow> arq result" where
  "parseTALK s = (let P = rcvPayload s in
     case find_sub P '':73'' of None \<Rightarrow> Inr s
     | Some p1 \<Rightarrow> andthen (substr_to_end P (p1 + 4))
         (\<lambda>talktext. Inr (call_hook HprintTALK (EvPrintTALK talktext) s)))"

section \<open>Status report: what the other station still misses\<close>

text \<open>\<^verbatim>\<open>m++; if (m > MAXCOUNT) m -= MAXCOUNT;\<close>\<close>

definition missing_next :: "int \<Rightarrow> int" where
  "missing_next m = (let m = m + 1 in if m > MAXCOUNT then m - MAXCOUNT else m)"

text \<open>The loop \<^verbatim>\<open>while (m != LastHeader) { missing.push_back(m); m++; ... }\<close>.\<close>

definition missing_loop :: "int \<Rightarrow> int \<Rightarrow> int list result" where
  "missing_loop lasthdr m0 =
     (case while_option (\<lambda>(m, ms). m \<noteq> lasthdr) (\<lambda>(m, ms). (missing_next m, ms @ [m])) (m0, []) of
        None \<Rightarrow> Inl Hang
      | Some (m, ms) \<Rightarrow> Inr (ms @ [lasthdr]))"

definition unreported :: "int \<Rightarrow> int \<Rightarrow> int list result" where
  "unreported ur_end lasthdr =
     (if ur_end = lasthdr then Inr [] else missing_loop lasthdr (missing_next ur_end))"

text \<open>Bytes 3 onwards of the payload; \<^verbatim>\<open>rcvPayload.length() - 3\<close> is unsigned, so a payload of
  fewer than three bytes runs the loop outside the string.\<close>

definition reported :: "string \<Rightarrow> int list result" where
  "reported P = (if length P < 3 then Inl BadIndex else Inr (map (\<lambda>c. schar c - 0x20) (drop 3 P)))"

definition keep_missing :: "int list \<Rightarrow> arq \<Rightarrow> arq" where
  "keep_missing missing s = (let
     s = (if missing = [] then s\<lparr>TxMissing := []\<rparr> else s)
     in if TxMissing s \<noteq> []
        then s\<lparr>TxMissing := filter (\<lambda>b. nbr b \<in> set missing) (TxMissing s)\<rparr> else s)"

text \<open>Print and drop the pending blocks up to and including number \<open>good\<close>.\<close>

fun print_pending :: "int \<Rightarrow> cTxtBlk list \<Rightarrow> arq \<Rightarrow> arq" where
  "print_pending good [] s = s\<lparr>TxPending := []\<rparr>"
| "print_pending good (b # bs) s =
     (let s = call_hook HprintTX (EvPrintTX (blk_text b)) s in
      if nbr b = good then s\<lparr>TxPending := bs\<rparr> else print_pending good bs s)"

definition status_link :: "arq \<Rightarrow> arq" where
  "status_link s = (case LinkState s of
      WAITFORACK \<Rightarrow> s\<lparr>LinkState := ARQ_CONNECTED\<rparr>
    | DISCONNECTING \<Rightarrow> (call_hook HrxUrCall (EvUrCall '''') s)\<lparr>LinkState := DOWN\<rparr>
    | WAITING \<Rightarrow> s\<lparr>LinkState := ARQ_CONNECTED\<rparr>
    | _ \<Rightarrow> s)"

definition parseSTATUS :: "arq \<Rightarrow> arq result" where
  "parseSTATUS s = (let P = rcvPayload s in
     andthen
       (if ARQ_CONNECTED \<le> LinkState s then
          andthen (str_at P 0) (\<lambda>c0.
          andthen (str_at P 1) (\<lambda>c1.
          andthen (str_at P 2) (\<lambda>c2.
          let s = s\<lparr>UrLastHeader := schar c0 - 0x20, UrGoodHeader := schar c1 - 0x20,
                    UrEndHeader := schar c2 - 0x20\<rparr> in
          andthen (reported P) (\<lambda>m1.
          andthen (unreported (UrEndHeader s) (LastHeader s)) (\<lambda>m2.
          Inr (keep_missing (m1 @ m2) s))))))
        else Inr s)
       (\<lambda>s. let s = print_pending (UrGoodHeader s) (TxPending s) s;
                s = status_link s
            in Inr (printSTATUS ''RX: Status Report'' s)))"

definition parsePOLL :: "arq \<Rightarrow> arq" where
  "parsePOLL s = (if LinkState s \<in> {DISCONNECTING, DOWN, TIMEDOUT, ABORT} then s else let
     s = statFrame s;
     s = s\<lparr>immediate := True, LinkState := ARQ_CONNECTED\<rparr>
     in printSTATUS ''RX: Send Blocks Report'' s)"

section \<open>Data blocks\<close>

text \<open>\<^verbatim>\<open>n = p->nbr(); if (n < GoodHeader) n += MAXCOUNT;\<close>\<close>

definition blk_key :: "int \<Rightarrow> cTxtBlk \<Rightarrow> int" where
  "blk_key good b = (if nbr b < good then nbr b + MAXCOUNT else nbr b)"

text \<open>
  The two nested loops that sort \<^verbatim>\<open>RxPending\<close>. The key \<open>n1\<close> of position \<open>i\<close> is taken
  before the inner loop and, as in the code, not taken again after an exchange.
\<close>

definition sort_inner :: "int \<Rightarrow> cTxtBlk list \<Rightarrow> nat \<Rightarrow> cTxtBlk list" where
  "sort_inner good xs i = (let n1 = blk_key good (xs ! i) in
     foldl (\<lambda>xs j. if blk_key good (xs ! j) < n1 then xs[i := xs ! j, j := xs ! i] else xs)
       xs [Suc i..<length xs])"

definition sort_pending :: "int \<Rightarrow> cTxtBlk list \<Rightarrow> cTxtBlk list" where
  "sort_pending good xs = foldl (sort_inner good) xs [0..<length xs - 1]"

text \<open>Blocks consecutive to \<^verbatim>\<open>GoodHeader\<close> are delivered.\<close>

fun deliver :: "cTxtBlk list \<Rightarrow> arq \<Rightarrow> arq" where
  "deliver [] s = s\<lparr>RxPending := []\<rparr>"
| "deliver (b # bs) s =
     (if nbr b \<noteq> cmod (GoodHeader s + 1) MAXCOUNT then s\<lparr>RxPending := b # bs\<rparr>
      else deliver bs (call_hook HprintRX (EvPrintRX (blk_text b))
             (s\<lparr>RxTextQueue := RxTextQueue s @ blk_text b, GoodHeader := nbr b\<rparr>)))"

text \<open>The numbers from \<open>good + 1\<close> to \<open>end\<close> that are not pending.\<close>

definition missing_numbers :: "int \<Rightarrow> int \<Rightarrow> cTxtBlk list \<Rightarrow> int list" where
  "missing_numbers good ende pend = (let
     start = cmod (good + 1) MAXCOUNT;
     stop = cmod (ende + 1) MAXCOUNT;
     stop = (if stop < start then stop + MAXCOUNT else stop)
     in filter (\<lambda>t. \<not> list_ex (\<lambda>b. t = nbr b) pend) (map (\<lambda>i. cmod i MAXCOUNT) [start..stop - 1]))"

definition parseDATA :: "arq \<Rightarrow> arq" where
  "parseDATA s =
     (if LinkState s < ARQ_CONNECTED then s
      else if list_ex (\<lambda>b. blknbr s = nbr b) (RxPending s) then s
      else let
        s = printSTATUS (take 79 (''RX: data block '' @ show_int (blknbr s))) s;
        pend = RxPending s @ [\<lparr>nbr = blknbr s, blk_text = rcvPayload s\<rparr>];
        pend = sort_pending (GoodHeader s) pend;
        s = s\<lparr>EndHeader := nbr (last pend)\<rparr>;
        s = deliver pend s;
        s = s\<lparr>MissingRxBlocks := ''''\<rparr>
        in if RxPending s = [] then s
           else s\<lparr>MissingRxBlocks := map (\<lambda>t. char_of_int (t + 0x20))
                   (missing_numbers (GoodHeader s) (EndHeader s) (RxPending s))\<rparr>)"

section \<open>Frames\<close>

definition isUrcall :: "arq \<Rightarrow> bool" where
  "isUrcall s \<longleftrightarrow> UrCall s \<noteq> '''' \<and> find_sub (rcvPayload s) (UrCall s) \<noteq> None"

definition rxdebug :: "string \<Rightarrow> arq \<Rightarrow> arq" where
  "rxdebug msg s = call_hook HprintRXDebug (EvRXDebug msg) s"

text \<open>One branch of the \<^verbatim>\<open>switch\<close>: \<^verbatim>\<open>blknbr = fID - 0x20;\<close>, the handler, the trace.\<close>

definition branch :: "string \<Rightarrow> (arq \<Rightarrow> arq result) \<Rightarrow> arq \<Rightarrow> arq result" where
  "branch tag h s = andthen (h (s\<lparr>blknbr := schar (fID s) - 0x20\<rparr>)) (\<lambda>s. Inr (rxdebug tag s))"

definition dispatch :: "arq \<Rightarrow> arq result" where
  "dispatch s = (let t = fID s in
     if t = IDENT then (if \<not> isUrcall s then Inr s else branch ''IDENT:'' (\<lambda>s. Inr (parseIDENT s)) s)
     else if t = CONREQ then (if TIMEDOUT < LinkState s then Inr s else branch ''CONREQ:'' parseCONREQ s)
     else if t = CONACK then (if \<not> isUrcall s then Inr s else branch ''CONACK:'' parseCONACK s)
     else if t = DISREQ then
       (if \<not> isUrcall s then Inr s else branch ''DISREQ:'' (\<lambda>s. Inr (parseDISREQ s)) s)
     else if t = DISACK_blk then
       (if \<not> isUrcall s then Inr s else branch ''DISACK: '' (\<lambda>s. Inr (parseDISACK s)) s)
     else if t = STATUS then
       (if LinkState s = DOWN \<or> state_num (LinkState s) = TIMEOUT then Inr s
        else branch ''STATUS:'' parseSTATUS s)
     else if t = POLL then (if \<not> isUrcall s then Inr s else branch ''POLL:'' (\<lambda>s. Inr (parsePOLL s)) s)
     else if t = ABORT_blk then
       (if \<not> isUrcall s then Inr s else branch ''RCVD ABORT:'' (\<lambda>s. Inr (parseABORT s)) s)
     else if t = ACKABORT_blk then branch ''RCVD ACK_ABORT:'' (\<lambda>s. Inr (parseACKABORT s)) s
     else if t = UNPROTO_blk then
       (if TIMEDOUT < LinkState s \<and> \<not> isUrcall s then Inr s else branch ''UNPROTO:'' parseUNPROTO s)
     else branch ''DATA:'' (\<lambda>s. Inr (parseDATA s)) s)"

definition parseFrame :: "string \<Rightarrow> arq \<Rightarrow> (int \<times> arq) result" where
  "parseFrame txt s = (let len = length txt in
     if len < 8 then Inr (-1, s)
     else let s = s\<lparr>rcvPayload := take (len - 8) (drop 4 txt), fID := txt ! 3\<rparr> in
     if fID s = TALK_blk then
       (if ARQ_CONNECTED \<le> LinkState s then
          let s = s\<lparr>timeout := cdiv (Timeout s) ARQLOOPTIME\<rparr> in
          andthen (parseTALK s) (\<lambda>s. Inr (-1, s\<lparr>retries := Retries s\<rparr>))
        else Inr (-1, s))
     else if scrc16 (take (len - 4) txt) \<noteq> drop (len - 4) txt then
       Inr (-1, rxdebug (''CRC failed'' @ [CHR 0x0A]) s)
     else let s = s\<lparr>retries := Retries s\<rparr> in
       andthen (dispatch s) (\<lambda>s.
       let s = rxdebug [CHR 0x0A] (rxdebug txt s);
           s = (if LinkState s = ARQ_CONNECTED
                then s\<lparr>timeout := cdiv (Timeout s) ARQLOOPTIME\<rparr> else s)
       in Inr (schar (fID s), s)))"

definition rtry :: "arq \<Rightarrow> int" where
  "rtry s = cdiv (RetryTime s) ARQLOOPTIME"

definition rcvChar :: "char \<Rightarrow> arq \<Rightarrow> arq result" where
  "rcvChar c s =
     (if c = ACK then Inr (s\<lparr>Sending := 0, retrytime := rtry s,
                            timeout := cdiv (Timeout s) ARQLOOPTIME,
                            tx2txdelay := cdiv (TxDelay s) ARQLOOPTIME\<rparr>)
      else if lastRxChar s = SOH \<and> c = SOH then Inr s
      else if lastRxChar s = EOT \<and> c = EOT then Inr s
      else andthen
        (if RxFrameQueue s = '''' then
           Inr (if c = SOH then s\<lparr>RxFrameQueue := RxFrameQueue s @ [c]\<rparr> else s)
         else if c = SOH \<or> c = EOT then
           andthen (parseFrame (RxFrameQueue s) s) (\<lambda>(r, s).
             let s = s\<lparr>RxFrameQueue := ''''\<rparr>
             in Inr (if c = SOH then s\<lparr>RxFrameQueue := RxFrameQueue s @ [c]\<rparr> else s))
         else Inr (s\<lparr>RxFrameQueue := RxFrameQueue s @ [c]\<rparr>))
        (\<lambda>s. Inr (s\<lparr>lastRxChar := c\<rparr>)))"

fun rcvChars :: "string \<Rightarrow> arq \<Rightarrow> arq result" where
  "rcvChars [] s = Inr s"
| "rcvChars (c # cs) s = andthen (rcvChar c s) (rcvChars cs)"

end
