(* ===== verification/Arq_Loop.thy ===== *)
theory Arq_Loop
  imports Arq_Receive
begin

text \<open>
  The sending half of \<^verbatim>\<open>flarq-src/arq.cxx\<close>: cutting text into blocks, sending a window of
  blocks, the user's commands, and \<^verbatim>\<open>arqloop\<close>, the timer callback that runs the link.
\<close>

section \<open>Sending text\<close>

text \<open>
  The loop over \<^verbatim>\<open>offset\<close> in \<^verbatim>\<open>sendText\<close>; the first argument is the text from
  \<^verbatim>\<open>offset\<close> on. A block length of 0 would repeat the loop for ever.
\<close>

function sendText_loop :: "string \<Rightarrow> arq \<Rightarrow> arq result" where
  "sendText_loop txt s =
     (if txt = '''' then Inr s
      else if Bufferlength s = 0 then Inl Hang
      else let s = newblocknumber s;
               b = \<lparr>nbr = Lastqueued s, blk_text = take (buf_len s txt) txt\<rparr>
           in sendText_loop (drop (buf_len s txt) txt)
                (s\<lparr>TxBlocks := TxBlocks s @ [b], Blocks2Send := Blocks2Send s + 1\<rparr>))"
  by pat_completeness auto
termination
  by (relation "measure (\<lambda>(txt, s). length txt)") (auto simp: buf_len_def newblocknumber_def)

declare sendText_loop.simps [simp del]

definition sendText :: "string \<Rightarrow> arq \<Rightarrow> arq result" where
  "sendText txt s =
     (if LinkState s < ARQ_CONNECTED then Inr s
      else sendText_loop txt (s\<lparr>Blocks2Send := 0\<rparr>))"

text \<open>The second loop of \<^verbatim>\<open>sendblocks\<close>; \<open>n\<close> is \<^verbatim>\<open>framecount\<close>, the list is \<^verbatim>\<open>TxBlocks\<close>.\<close>

fun send_new :: "cTxtBlk list \<Rightarrow> int \<Rightarrow> arq \<Rightarrow> int \<times> arq" where
  "send_new [] n s = (n, s\<lparr>TxBlocks := []\<rparr>)"
| "send_new (b # bs) n s =
     (if \<not> n < maxheaders s then (n, s\<lparr>TxBlocks := b # bs\<rparr>)
      else if cmod (nbr b + 2) MAXCOUNT = UrGoodHeader s then (n, s\<lparr>TxBlocks := b # bs\<rparr>)
      else let s = s\<lparr>TxMissing := TxMissing s @ [b], TxPending := TxPending s @ [b]\<rparr>;
               s = textFrame b s;
               s = s\<lparr>LastHeader := nbr b\<rparr>
           in send_new bs (n + 1) s)"

definition sendblocks :: "arq \<Rightarrow> arq" where
  "sendblocks s = (let
     missedblks = int (length (TxMissing s));
     s = fold textFrame (TxMissing s) s;
     (framecount, s) = send_new (TxBlocks s) missedblks s;
     newblks = framecount - missedblks;
     s = printSTATUS (take 79 (''TX: repeat '' @ show_int missedblks @ '' new '' @ show_int newblks)) s;
     s = (if TxMissing s \<noteq> [] \<or> TxBlocks s \<noteq> [] then pollFrame s else s)
     in if LinkState s \<noteq> ABORT \<and> LinkState s \<noteq> ABORTING then s\<lparr>LinkState := WAITING\<rparr> else s)"

section \<open>Commands\<close>

definition connect :: "string \<Rightarrow> arq \<Rightarrow> arq" where
  "connect callsign s = (let
     s = s\<lparr>UrCall := toupper_str callsign\<rparr>;
     s = call_hook HrxUrCall (EvUrCall (UrCall s)) s;
     s = s\<lparr>TxTextQueue := ''''\<rparr>;
     s = connectFrame s
     in s\<lparr>LinkState := ARQ_CONNECTING, immediate := True\<rparr>)"

definition disconnect :: "arq \<Rightarrow> arq" where
  "disconnect s = s\<lparr>Retries := baseRetries s, Timeout := baseTimeout s,
     RetryTime := baseRetryTime s, totalTx := 0, nbrbadTx := 0, LinkState := DISCONNECT\<rparr>"

definition abort :: "arq \<Rightarrow> arq" where
  "abort s = s\<lparr>LinkState := ABORT\<rparr>"

definition sendBeacon :: "string \<Rightarrow> arq \<Rightarrow> arq" where
  "sendBeacon txt s = (let
     deText = ''<<< FLARQ Beacon >>> de '' @ MyCall s;
     s = s\<lparr>TxTextQueue := ''''\<rparr>;
     s = addToTxQue deText s;
     s = beaconFrame txt s
     in s\<lparr>immediate := True, LinkState := DOWN\<rparr>)"

function sendPlainText :: "string \<Rightarrow> arq \<Rightarrow> arq result" where
  "sendPlainText txt s =
     (if txt = '''' then Inr s
      else if Bufferlength s = 0 then Inl Hang
      else sendPlainText (drop (buf_len s txt) txt) (talkFrame (take (buf_len s txt) txt) s))"
  by pat_completeness auto
termination
  by (relation "measure (\<lambda>(txt, s). length txt)") (auto simp: buf_len_def)

declare sendPlainText.simps [simp del]

section \<open>The timer callback\<close>

definition txdebug :: "string \<Rightarrow> arq \<Rightarrow> arq" where
  "txdebug msg s = call_hook HprintTXDebug (EvTXDebug msg) s"

definition transmitdata :: "arq \<Rightarrow> arq" where
  "transmitdata s =
     (if TxTextQueue s \<noteq> '''' then let
        s = emit (EvSend (TxTextQueue s)) s;
        s = s\<lparr>Sending := 0x80\<rparr>;
        s = txdebug (TxTextQueue s) s
        in s\<lparr>TxTextQueue := '''', tx2txdelay := cdiv (TxDelay s) ARQLOOPTIME\<rparr>
      else if TxPlainTextQueue s \<noteq> '''' then let
        s = emit (EvSend (TxPlainTextQueue s)) s;
        s = s\<lparr>Sending := 0x80\<rparr>;
        s = txdebug (TxPlainTextQueue s) s
        in s\<lparr>TxPlainTextQueue := '''', tx2txdelay := cdiv (TxDelay s) ARQLOOPTIME\<rparr>
      else s)"

text \<open>
  \<^verbatim>\<open>if (me->retrytime-- == 0) { me->retrytime = me->rtry(); if (--me->retries) act }\<close>
\<close>

definition retry_post :: "(arq \<Rightarrow> arq) \<Rightarrow> arq \<Rightarrow> arq" where
  "retry_post act s = (let
     due = (retrytime s = 0);
     s = s\<lparr>retrytime := retrytime s - 1\<rparr>
     in if due then let
          s = s\<lparr>retrytime := rtry s\<rparr>;
          s = s\<lparr>retries := retries s - 1\<rparr>
          in if retries s \<noteq> 0 then act s else s
        else s)"

text \<open>The variant of state \<^verbatim>\<open>ABORTING\<close>: \<^verbatim>\<open>--me->retrytime == 0\<close> and \<^verbatim>\<open>me->retries--\<close>.\<close>

definition retry_pre :: "(arq \<Rightarrow> arq) \<Rightarrow> arq \<Rightarrow> arq" where
  "retry_pre act s = (let
     s = s\<lparr>retrytime := retrytime s - 1\<rparr>
     in if retrytime s = 0 then let
          s = s\<lparr>retrytime := rtry s\<rparr>;
          more = (retries s \<noteq> 0);
          s = s\<lparr>retries := retries s - 1\<rparr>
          in if more then act s else s
        else s)"

definition restart_timeout :: "arq \<Rightarrow> arq" where
  "restart_timeout s = s\<lparr>timeout := cdiv (Timeout s) ARQLOOPTIME\<rparr>"

text \<open>The \<^verbatim>\<open>switch (me->LinkState)\<close> of the callback.\<close>

definition link_tick :: "arq \<Rightarrow> arq" where
  "link_tick s = (case LinkState s of
      ARQ_CONNECTING \<Rightarrow> s
    | DISCONNECT \<Rightarrow> (disconnectFrame (clearTx (s\<lparr>LinkState := DISCONNECTING\<rparr>)))\<lparr>immediate := True\<rparr>
    | DISCONNECTING \<Rightarrow>
        retry_post (\<lambda>s. restart_timeout (transmitdata (disconnectFrame (clearTx s)))) s
    | ABORT \<Rightarrow> (abortFrame ((clearTx (s\<lparr>LinkState := ABORTING\<rparr>))
                 \<lparr>tx2txdelay := cdiv 5000 ARQLOOPTIME\<rparr>))\<lparr>immediate := True\<rparr>
    | ABORTING \<Rightarrow>
        retry_pre (\<lambda>s. restart_timeout (transmitdata (abortFrame (clearTx s)))) s
    | WAITING \<Rightarrow>
        retry_post (\<lambda>s. let s = transmitdata (pollFrame (s\<lparr>TxTextQueue := ''''\<rparr>))
                         in restart_timeout (s\<lparr>nbrbadTx := nbrbadTx s + 1\<rparr>)) s
    | WAITFORACK \<Rightarrow>
        retry_post (\<lambda>s. let s = transmitdata (ackFrame (s\<lparr>TxTextQueue := ''''\<rparr>))
                         in restart_timeout (s\<lparr>nbrbadTx := nbrbadTx s + 1\<rparr>)) s
    | _ \<Rightarrow>
        if TxTextQueue s \<noteq> '''' then transmitdata s
        else if TxMissing s \<noteq> [] \<or> TxBlocks s \<noteq> [] then
          transmitdata (sendblocks (s\<lparr>nbrbadTx := nbrbadTx s + int (length (TxMissing s))\<rparr>))
        else if TxPlainTextQueue s \<noteq> '''' then transmitdata s
        else s)"

text \<open>The connecting station keeps an idle link up with identity frames.\<close>

definition keep_alive :: "arq \<Rightarrow> arq" where
  "keep_alive s =
     (if timeout s = 0 \<and> LinkState s = ARQ_CONNECTED \<and> primary s then let
        s = s\<lparr>retries := retries s - 1\<rparr>
        in if retries s \<noteq> 0 then let
             s = s\<lparr>TxTextQueue := ''''\<rparr>;
             s = transmitdata (identFrame s)
             in s\<lparr>timeout := rtry s\<rparr>
           else s
      else s)"

text \<open>The statements the three ways of dropping a link share.\<close>

definition drop_link :: "arq \<Rightarrow> arq" where
  "drop_link s = (let
     s = s\<lparr>Retries := baseRetries s, Timeout := baseTimeout s, RetryTime := baseRetryTime s\<rparr>;
     s = s\<lparr>retries := Retries s, retrytime := rtry s,
           TxMissing := [], TxBlocks := [], TxTextQueue := '''', TxPlainTextQueue := '''',
           timeout := cdiv (Timeout s) ARQLOOPTIME\<rparr>
     in call_hook HrxUrCall (EvUrCall '''') s)"

definition timeout_tick :: "arq \<Rightarrow> arq" where
  "timeout_tick s =
     (if timeout s = 0 then
        drop_link (s\<lparr>LinkState := (if LinkState s = ARQ_CONNECTED then TIMEDOUT else DOWN)\<rparr>)
      else s)"

definition retries_tick :: "arq \<Rightarrow> arq" where
  "retries_tick s =
     (if retries s = 0 then printSTATUS ''Timed out'' (drop_link (s\<lparr>LinkState := DOWN\<rparr>)) else s)"

definition send_tick :: "arq \<Rightarrow> arq" where
  "send_tick s =
     (if immediate s then let
        s = transmitdata s
        in s\<lparr>retrytime := rtry s, retries := Retries s, immediate := False\<rparr>
      else let
        s = link_tick s;
        s = s\<lparr>timeout := timeout s - 1\<rparr>
        in retries_tick (timeout_tick (keep_alive s)))"

text \<open>
  \<^verbatim>\<open>arqloop\<close>: one run of the callback. \<open>rx\<close> is what \<^verbatim>\<open>getc1\<close> delivers until it
  returns false. The last statement arms the timer again.
\<close>

definition arqloop :: "string \<Rightarrow> arq \<Rightarrow> arq result" where
  "arqloop rx s = (let
     s = (if idtimer s \<noteq> 0 then s\<lparr>idtimer_left := idtimer_left s - 1\<rparr> else s)
     in andthen
       (if rx = '''' then Inr s
        else andthen (rcvChars rx s) (\<lambda>s.
          Inr (if tx2txdelay s < cdiv (TxDelay s) ARQLOOPTIME
               then s\<lparr>tx2txdelay := cdiv (TxDelay s) ARQLOOPTIME\<rparr> else s)))
       (\<lambda>s. let
          s = (if Sending s = 0 then
                 if 0 < tx2txdelay s then s\<lparr>tx2txdelay := tx2txdelay s - 1\<rparr> else send_tick s
               else s)
          in if arqstop s then let
               s = s\<lparr>arqstop := False\<rparr>;
               s = printSTATUS ''Timed out'' (drop_link (s\<lparr>LinkState := DOWN\<rparr>))
               in Inr (emit (EvRepeat 1000) s)
             else Inr (emit (EvRepeat ARQLOOPTIME) s)))"

definition restart_arq :: "arq \<Rightarrow> arq" where
  "restart_arq s = s\<lparr>arqstop := True\<rparr>"

end
