(* ===== verification/Arq_Frames.thy ===== *)
theory Arq_Frames
  imports Arq_Loop
begin

text \<open>
  Framing: what the frame builders put on the air, how \<^verbatim>\<open>rcvChar\<close> cuts it out of the
  character stream again, and what \<^verbatim>\<open>parseFrame\<close> does with an intact and with a damaged frame.
\<close>

section \<open>Built frames\<close>

lemma queue_frame_tx:
  "TxTextQueue (queue_frame p s) =
     TxTextQueue s @ crc.seal (Header s @ p) @ [EOT, CHR 0x0D, CHR 0x0A]"
  by (simp add: queue_frame_def addToTxQue_def checksum_def crc.seal_def Let_def)

lemma queue_frame_fields [simp]:
  "Header (queue_frame p s) = Header s" "LinkState (queue_frame p s) = LinkState s"
  "Payload (queue_frame p s) = p" "events (queue_frame p s) = events s"
  by (simp_all add: queue_frame_def addToTxQue_def Let_def)

lemma emit_fields [simp]:
  "TxTextQueue (emit e s) = TxTextQueue s" "events (emit e s) = events s @ [e]"
  "LinkState (emit e s) = LinkState s"
  by (simp_all add: emit_def)

lemma set_idtimer_fields [simp]:
  "TxTextQueue (set_idtimer s) = TxTextQueue s" "events (set_idtimer s) = events s"
  "LinkState (set_idtimer s) = LinkState s"
  by (simp_all add: set_idtimer_def)

text \<open>What a frame of type \<open>t\<close> for stream \<open>sid\<close> with payload \<open>p\<close> looks like on the air.\<close>

definition frame_text :: "char \<Rightarrow> char \<Rightarrow> string \<Rightarrow> string" where
  "frame_text sid t p = crc.seal ([SOH, CHR ''0'', sid, t] @ p)"

lemma length_frame_text [simp]: "length (frame_text sid t p) = length p + 8"
  by (simp add: frame_text_def crc.length_seal)

lemma frame_text_nth3 [simp]: "frame_text sid t p ! 3 = t"
  by (simp add: frame_text_def crc.seal_def)

lemma frame_text_payload [simp]:
  "take (length p) (drop 4 (frame_text sid t p)) = p"
  by (simp add: frame_text_def crc.seal_def)

lemma frame_text_intact:
  "scrc16 (take (4 + length p) (frame_text sid t p)) = drop (4 + length p) (frame_text sid t p)"
  using crc.intact_seal [of "[SOH, CHR ''0'', sid, t] @ p"]
  by (simp add: frame_text_def crc.intact_def crc.length_seal add.commute)

lemma queue_built:
  "Header s = [SOH, CHR ''0'', sid, t] \<Longrightarrow>
   TxTextQueue (queue_frame p s) = TxTextQueue s @ frame_text sid t p @ [EOT, CHR 0x0D, CHR 0x0A]"
  by (simp add: queue_frame_tx frame_text_def)

section \<open>Deframing\<close>

lemma control_distinct [simp]:
  "SOH \<noteq> EOT" "EOT \<noteq> SOH" "SOH \<noteq> ACK" "ACK \<noteq> SOH" "EOT \<noteq> ACK" "ACK \<noteq> EOT"
  by (simp_all add: control_chars)

definition clean :: "string \<Rightarrow> bool" where
  "clean s \<longleftrightarrow> SOH \<notin> set s \<and> EOT \<notin> set s \<and> ACK \<notin> set s"

lemma clean_simps [simp]:
  "clean []" "clean (c # s) \<longleftrightarrow> c \<noteq> SOH \<and> c \<noteq> EOT \<and> c \<noteq> ACK \<and> clean s"
  "clean (s @ t) \<longleftrightarrow> clean s \<and> clean t"
  by (auto simp: clean_def)

lemma clean_check: "clean (scrc16 s)"
  using scrc16_printable [of _ s] by (auto simp: clean_def control_chars dest!: scrc16_printable)

lemma rcvChars_append: "rcvChars (xs @ ys) s = andthen (rcvChars xs s) (rcvChars ys)"
proof (induction xs arbitrary: s)
  case (Cons x xs)
  have "rcvChars (xs @ ys) = (\<lambda>s. andthen (rcvChars xs s) (rcvChars ys))"
    by (rule ext) (rule Cons.IH)
  then show ?case by (simp add: andthen_assoc)
qed simp

lemma rcvChar_body:
  assumes "RxFrameQueue s \<noteq> ''''" "c \<noteq> SOH" "c \<noteq> EOT" "c \<noteq> ACK"
  shows "rcvChar c s = Inr (s\<lparr>RxFrameQueue := RxFrameQueue s @ [c], lastRxChar := c\<rparr>)"
  using assms by (simp add: rcvChar_def)

lemma rcvChars_body:
  assumes "RxFrameQueue s \<noteq> ''''" "clean body"
  shows "rcvChars body s = Inr (s\<lparr>RxFrameQueue := RxFrameQueue s @ body,
           lastRxChar := last (lastRxChar s # body)\<rparr>)"
  using assms
proof (induction body arbitrary: s)
  case (Cons c body)
  then have "rcvChar c s = Inr (s\<lparr>RxFrameQueue := RxFrameQueue s @ [c], lastRxChar := c\<rparr>)"
    by (simp add: rcvChar_body)
  with Cons show ?case by simp
qed simp

lemma rcvChar_start:
  assumes "RxFrameQueue s = ''''" "lastRxChar s \<noteq> SOH"
  shows "rcvChar SOH s = Inr (s\<lparr>RxFrameQueue := [SOH], lastRxChar := SOH\<rparr>)"
  using assms by (simp add: rcvChar_def)

lemma rcvChar_end:
  assumes "RxFrameQueue s \<noteq> ''''" "c = SOH \<or> c = EOT" "lastRxChar s \<noteq> c"
  shows "rcvChar c s = andthen (parseFrame (RxFrameQueue s) s) (\<lambda>(r, s).
           Inr (s\<lparr>RxFrameQueue := (if c = SOH then [SOH] else ''''), lastRxChar := c\<rparr>))"
  using assms by (cases "parseFrame (RxFrameQueue s) s") (auto simp: rcvChar_def split: prod.splits)

text \<open>The state in which a complete frame body is handed to \<^verbatim>\<open>parseFrame\<close>.\<close>

definition framed :: "string \<Rightarrow> arq \<Rightarrow> arq" where
  "framed f s = s\<lparr>RxFrameQueue := f, lastRxChar := last f\<rparr>"

text \<open>
  Between frames the queue is empty or, behind a frame closed by \<open>SOH\<close>, holds that
  \<open>SOH\<close> and the line end \<^verbatim>\<open>addToTxQue\<close> puts behind every frame.
\<close>

abbreviation CR :: char where "CR \<equiv> CHR 0x0D"
abbreviation LF :: char where "LF \<equiv> CHR 0x0A"

definition leftover :: "char \<Rightarrow> string" where
  "leftover t = (if t = SOH then [SOH, CR, LF] else '''')"

definition ready :: "arq \<Rightarrow> bool" where
  "ready s \<longleftrightarrow> RxFrameQueue s \<in> {'''', [SOH, CR, LF]} \<and> lastRxChar s \<noteq> SOH"

lemma crlf_clean [simp]:
  "CR \<noteq> SOH" "CR \<noteq> EOT" "CR \<noteq> ACK" "LF \<noteq> SOH" "LF \<noteq> EOT" "LF \<noteq> ACK"
  "SOH \<noteq> CR" "SOH \<noteq> LF"
  by (simp_all add: control_chars)

lemma parseFrame_short: "length f < 8 \<Longrightarrow> parseFrame f s = Inr (-1, s)"
  by (simp add: parseFrame_def Let_def)

lemma rcvChar_ready: "ready s \<Longrightarrow> rcvChar SOH s = Inr (s\<lparr>RxFrameQueue := [SOH], lastRxChar := SOH\<rparr>)"
  by (auto simp: ready_def rcvChar_start rcvChar_end parseFrame_short)

lemma ready_leftover: "ready (s\<lparr>RxFrameQueue := leftover t, lastRxChar := LF\<rparr>)"
  by (simp add: ready_def leftover_def)

lemma rcvChars_lineend:
  assumes "t = SOH \<or> t = EOT"
  shows "rcvChars [CR, LF] (s\<lparr>RxFrameQueue := (if t = SOH then [SOH] else ''''), lastRxChar := t\<rparr>) =
         Inr (s\<lparr>RxFrameQueue := leftover t, lastRxChar := LF\<rparr>)"
  using assms by (auto simp: rcvChar_def leftover_def)

lemma rcv_frame:
  assumes "ready s" "clean body" "body \<noteq> ''''" "t = SOH \<or> t = EOT"
  shows "rcvChars (SOH # body @ [t, CR, LF]) s =
           andthen (parseFrame (SOH # body) (framed (SOH # body) s))
             (\<lambda>(r, s). Inr (s\<lparr>RxFrameQueue := leftover t, lastRxChar := LF\<rparr>)) \<and>
         ready (s'\<lparr>RxFrameQueue := leftover t, lastRxChar := LF\<rparr>)"
proof -
  let ?s1 = "s\<lparr>RxFrameQueue := [SOH], lastRxChar := SOH\<rparr>" and ?f = "framed (SOH # body) s"
  have body: "rcvChars body ?s1 = Inr ?f"
    using assms(2,3) by (simp add: rcvChars_body framed_def)
  have "lastRxChar ?f \<noteq> SOH" "lastRxChar ?f \<noteq> EOT"
    using assms(2,3) by (auto simp: framed_def clean_def dest: last_in_set)
  then have "rcvChar t ?f = andthen (parseFrame (SOH # body) ?f)
      (\<lambda>(r, s). Inr (s\<lparr>RxFrameQueue := (if t = SOH then [SOH] else ''''), lastRxChar := t\<rparr>))"
    using assms(4) by (subst rcvChar_end) (auto simp: framed_def)
  then have "rcvChars [t, CR, LF] ?f = andthen (parseFrame (SOH # body) ?f)
      (\<lambda>(r, s). Inr (s\<lparr>RxFrameQueue := leftover t, lastRxChar := LF\<rparr>))"
    using rcvChars_lineend [OF assms(4)]
    by (cases "parseFrame (SOH # body) ?f") (auto simp del: rcvChars.simps(2) simp: rcvChars.simps(2) [of t])
  then show ?thesis
    using assms(1) body by (simp add: rcvChar_ready rcvChars_append ready_leftover del: rcvChars.simps(2)
        add: rcvChars.simps(2) [of SOH])
qed

text \<open>C11: the character machine of \<^verbatim>\<open>rcvChar\<close> recovers frames from the stream: whenever it is
  between frames and a frame as queued by \<^verbatim>\<open>addToTxQue\<close> arrives, \<open>SOH body t\<close> and
  the line end, with \<open>t\<close> either \<open>SOH\<close> or \<open>EOT\<close> and no \<open>SOH\<close>, \<open>EOT\<close> or
  \<open>ACK\<close> inside the body, then \<^verbatim>\<open>parseFrame\<close> is run exactly once, on exactly
  \<open>SOH body\<close>, and the machine is between frames again; a fault of the handler is passed on.\<close>

theorem rcvChars_frame:
  assumes "ready s" "clean body" "body \<noteq> ''''" "t = SOH \<or> t = EOT"
  shows "rcvChars (SOH # body @ [t, CR, LF]) s =
           andthen (parseFrame (SOH # body) (framed (SOH # body) s))
             (\<lambda>(r, s). Inr (s\<lparr>RxFrameQueue := leftover t, lastRxChar := LF\<rparr>)) \<and>
         ready (s'\<lparr>RxFrameQueue := leftover t, lastRxChar := LF\<rparr>)"
  using assms by (rule rcv_frame)

theorem rcvChars_frame_witness:
  "rcvChars (SOH # ''00q'' @ [EOT, CR, LF]) (arq_new 0 (\<lambda>h. True)) =
     andthen (parseFrame (SOH # ''00q'') (framed (SOH # ''00q'') (arq_new 0 (\<lambda>h. True))))
       (\<lambda>(r, s). Inr (s\<lparr>RxFrameQueue := leftover EOT, lastRxChar := LF\<rparr>))"
  using rcvChars_frame [of "arq_new 0 (\<lambda>h. True)" "''00q''" EOT]
  by (simp add: ready_def clean_def SOH_def EOT_def ACK_def arq_new_def set_idtimer_def setBufferlength_def)

section \<open>Intact frames\<close>

text \<open>The bookkeeping around the handler.\<close>

definition loaded :: "char \<Rightarrow> string \<Rightarrow> arq \<Rightarrow> arq" where
  "loaded t p s = s\<lparr>rcvPayload := p, fID := t, retries := Retries s\<rparr>"

definition after_dispatch :: "string \<Rightarrow> arq \<Rightarrow> arq" where
  "after_dispatch txt s = (let s = rxdebug [CHR 0x0A] (rxdebug txt s)
     in if LinkState s = ARQ_CONNECTED then restart_timeout s else s)"

lemma parseFrame_intact:
  assumes "t \<noteq> TALK_blk"
  shows "parseFrame (frame_text sid t p) s =
     andthen (dispatch (loaded t p s))
       (\<lambda>s. let s = after_dispatch (frame_text sid t p) s in Inr (schar (fID s), s))"
proof -
  have step: "(\<lambda>s. let s = rxdebug [CHR 0x0A] (rxdebug f s);
      s = (if LinkState s = ARQ_CONNECTED then s\<lparr>timeout := cdiv (Timeout s) ARQLOOPTIME\<rparr> else s)
      in Inr (schar (fID s), s)) = (\<lambda>s. let s = after_dispatch f s in Inr (schar (fID s), s))" for f
    by (rule ext) (simp add: after_dispatch_def restart_timeout_def Let_def)
  show ?thesis
    using assms frame_text_intact [of p sid t]
    unfolding parseFrame_def step by (simp add: Let_def loaded_def)
qed

text \<open>A whole intact frame, from its characters to the handler.\<close>

lemma frame_text_body: "frame_text sid t p = SOH # ([CHR ''0'', sid, t] @ p @ scrc16 ([SOH, CHR ''0'', sid, t] @ p))"
  by (simp add: frame_text_def crc.seal_def)

lemma zero_clean [simp]: "CHR ''0'' \<noteq> SOH" "CHR ''0'' \<noteq> EOT" "CHR ''0'' \<noteq> ACK"
  by (simp_all add: control_chars)

lemma rcv_intact:
  assumes "ready s" "clean [sid, t]" "clean p" "t \<noteq> TALK_blk" "e = SOH \<or> e = EOT"
  shows "rcvChars (frame_text sid t p @ [e, CR, LF]) s =
     andthen (dispatch (loaded t p (framed (frame_text sid t p) s)))
       (\<lambda>s. Inr ((after_dispatch (frame_text sid t p) s)\<lparr>RxFrameQueue := leftover e, lastRxChar := LF\<rparr>))"
proof -
  let ?f = "frame_text sid t p"
  let ?b = "[CHR ''0'', sid, t] @ p @ scrc16 ([SOH, CHR ''0'', sid, t] @ p)"
  have f: "?f = SOH # ?b" by (rule frame_text_body)
  have "clean ?b" "?b \<noteq> ''''" using assms(2,3) clean_check by simp_all
  then have "rcvChars (SOH # ?b @ [e, CR, LF]) s =
      andthen (parseFrame (SOH # ?b) (framed (SOH # ?b) s))
        (\<lambda>(r, s). Inr (s\<lparr>RxFrameQueue := leftover e, lastRxChar := LF\<rparr>))"
    using rcv_frame [OF assms(1) _ _ assms(5)] by blast
  also have "SOH # ?b @ [e, CR, LF] = ?f @ [e, CR, LF]" by (simp only: f append_Cons)
  finally show ?thesis
    unfolding f [symmetric] parseFrame_intact [OF assms(4)]
    by (simp add: andthen_assoc Let_def)
qed

section \<open>Damaged frames\<close>

text \<open>C12: a frame in which one byte, or two adjacent bytes, of header or payload were altered on
  the way is rejected: \<^verbatim>\<open>parseFrame\<close> returns -1 and changes nothing of the link but the
  scratch members \<^verbatim>\<open>rcvPayload\<close> and \<^verbatim>\<open>fID\<close> and the debug trace. The one exception the
  code makes, frames whose (possibly altered) type byte reads TALK, is excluded.\<close>

theorem parseFrame_damaged:
  assumes "(a, b) \<noteq> (a', b')" "length (p @ [a, b] @ q) \<ge> 4"
    and "(p @ [a', b'] @ q) ! 3 \<noteq> TALK_blk"
  shows "\<exists>pl t. parseFrame ((p @ [a', b'] @ q) @ scrc16 (p @ [a, b] @ q)) s =
     Inr (-1, rxdebug (''CRC failed'' @ [CHR 0x0A]) (s\<lparr>rcvPayload := pl, fID := t\<rparr>))"
proof -
  let ?m = "p @ [a', b'] @ q" and ?c = "scrc16 (p @ [a, b] @ q)"
  have "scrc16 ?m \<noteq> ?c"
    using crc.damaged_two [OF assms(1), of p q] crc.intact_iff [of ?c ?m] by simp
  moreover have "(?m @ ?c) ! 3 = ?m ! 3"
    by (rule nth_append_left) (use assms(2) in simp)
  ultimately show ?thesis
    using assms(2,3) by (simp add: parseFrame_def Let_def) blast
qed

theorem parseFrame_damaged_witness:
  "\<exists>pl t. parseFrame ((SOH # ''00!Jello'') @ scrc16 (SOH # ''00!Hello'')) (arq_new 0 (\<lambda>h. True)) =
     Inr (-1, rxdebug (''CRC failed'' @ [CHR 0x0A]) ((arq_new 0 (\<lambda>h. True))\<lparr>rcvPayload := pl, fID := t\<rparr>))"
  using parseFrame_damaged [of "CHR ''H''" "CHR ''e''" "CHR ''J''" "CHR ''e''" "SOH # ''00!''" "''llo''"
      "arq_new 0 (\<lambda>h. True)"]
  by (simp add: TALK_blk_def)

end
