(* ===== verification/Arq_Data.thy ===== *)
theory Arq_Data
  imports Arq_Frames "HOL-Library.Multiset"
begin

text \<open>
  Data blocks on the receiving side: the exchange sort of \<^verbatim>\<open>parseDATA\<close>, in-order delivery
  and the report of missing blocks, against a specification in which blocks are numbered
  without wrap-around.
\<close>

section \<open>The sort\<close>

text \<open>What the two loops amount to on a sorted list with one new block behind it.\<close>

fun place :: "int \<Rightarrow> cTxtBlk \<Rightarrow> cTxtBlk list \<Rightarrow> cTxtBlk list" where
  "place good x [] = [x]"
| "place good x (b # bs) =
     (if blk_key good x < blk_key good b then x # b # bs else b # place good x bs)"

definition sorted_blocks :: "int \<Rightarrow> cTxtBlk list \<Rightarrow> bool" where
  "sorted_blocks good xs \<longleftrightarrow> sorted_wrt (<) (map (blk_key good) xs)"

lemma sorted_blocks_Cons [simp]:
  "sorted_blocks good (b # bs) \<longleftrightarrow>
     (\<forall>c \<in> set bs. blk_key good b < blk_key good c) \<and> sorted_blocks good bs"
  by (auto simp: sorted_blocks_def)

lemma place_front: "sorted_blocks good (b # bs) \<Longrightarrow> place good b bs = b # bs"
  by (induction bs) auto

text \<open>The inner loop does nothing while the keys it meets are not smaller.\<close>

lemma inner_loop_skip:
  assumes "\<And>j. j \<in> set js \<Longrightarrow> \<not> blk_key good (xs ! j) < n1"
  shows "foldl (\<lambda>xs j. if blk_key good (xs ! j) < n1 then xs[i := xs ! j, j := xs ! i] else xs) xs js = xs"
  using assms by (induction js) auto

lemma sort_inner_last:
  assumes "sorted_blocks good (b # mid)"
  shows "sort_inner good (pre @ b # mid @ [x]) (length pre) =
     (if blk_key good x < blk_key good b then pre @ x # mid @ [b] else pre @ b # mid @ [x])"
proof -
  let ?xs = "pre @ b # mid @ [x]" and ?l = "Suc (length pre + length mid)"
  let ?F = "\<lambda>xs j. if blk_key good (xs ! j) < blk_key good b
                  then xs[length pre := xs ! j, j := xs ! length pre] else xs"
  have len: "length ?xs = Suc ?l" by simp
  have split: "[Suc (length pre)..<Suc ?l] = [Suc (length pre)..<?l] @ [?l]" by simp
  have mid: "\<not> blk_key good (?xs ! j) < blk_key good b" if "j \<in> set [Suc (length pre)..<?l]" for j
  proof -
    from that have "?xs ! j = mid ! (j - Suc (length pre))" "j - Suc (length pre) < length mid"
      by (auto simp: nth_append nth_Cons')
    then show ?thesis using assms by (auto simp: not_less intro: less_imp_le)
  qed
  have nths: "?xs ! ?l = x" "?xs ! length pre = b" by (simp_all add: nth_append)
  have upd: "?xs[length pre := x, ?l := b] = pre @ x # mid @ [b]"
    by (simp add: list_update_append)
  have "foldl ?F ?xs [Suc (length pre)..<?l] = ?xs"
    by (rule inner_loop_skip) (rule mid)
  then have "foldl ?F ?xs [Suc (length pre)..<Suc ?l] = ?F ?xs ?l"
    by (simp only: split foldl_append foldl_Cons foldl_Nil)
  then have "sort_inner good ?xs (length pre) = ?F ?xs ?l"
    unfolding sort_inner_def Let_def len nths .
  also have "\<dots> = (if blk_key good x < blk_key good b then pre @ x # mid @ [b] else ?xs)"
    by (simp only: nths upd)
  finally show ?thesis .
qed

lemma sort_outer_last:
  assumes "sorted_blocks good ys"
  shows "foldl (sort_inner good) (pre @ ys @ [x]) [length pre..<length pre + length ys] =
         pre @ place good x ys"
  using assms
proof (induction ys arbitrary: pre x)
  case (Cons b ys)
  have split: "[length pre..<length pre + length (b # ys)] =
               length pre # [length (pre @ [c])..<length (pre @ [c]) + length ys]" for c :: cTxtBlk
    by (subst upt_conv_Cons) auto
  show ?case
  proof (cases "blk_key good x < blk_key good b")
    case True
    have "foldl (sort_inner good) (pre @ (b # ys) @ [x]) [length pre..<length pre + length (b # ys)] =
          foldl (sort_inner good) ((pre @ [x]) @ ys @ [b]) [length (pre @ [x])..<length (pre @ [x]) + length ys]"
      unfolding split [of x] using Cons.prems True by (simp add: sort_inner_last)
    also have "\<dots> = (pre @ [x]) @ place good b ys"
      using Cons.prems by (intro Cons.IH) simp
    finally show ?thesis using True Cons.prems by (simp add: place_front)
  next
    case False
    have "foldl (sort_inner good) (pre @ (b # ys) @ [x]) [length pre..<length pre + length (b # ys)] =
          foldl (sort_inner good) ((pre @ [b]) @ ys @ [x]) [length (pre @ [b])..<length (pre @ [b]) + length ys]"
      unfolding split [of b] using Cons.prems False by (simp add: sort_inner_last)
    also have "\<dots> = (pre @ [b]) @ place good x ys"
      using Cons.prems by (intro Cons.IH) simp
    finally show ?thesis using False by simp
  qed
qed simp

lemma sort_pending_place:
  "sorted_blocks good ys \<Longrightarrow> sort_pending good (ys @ [x]) = place good x ys"
  using sort_outer_last [of good ys "[]" x] by (simp add: sort_pending_def)

section \<open>Blocks without wrap-around\<close>

text \<open>
  Block \<open>k\<close> of a session, \<open>k = 0, 1, ...\<close>, travels under the number \<open>k mod 64\<close>;
  \<open>T k\<close> is its text.
\<close>

definition blk :: "(nat \<Rightarrow> string) \<Rightarrow> nat \<Rightarrow> cTxtBlk" where
  "blk T k = \<lparr>nbr = int (k mod 64), blk_text = T k\<rparr>"

lemma blk_simps [simp]: "nbr (blk T k) = int (k mod 64)" "blk_text (blk T k) = T k"
  by (simp_all add: blk_def)

text \<open>\<open>D\<close> blocks have been delivered: \<^verbatim>\<open>GoodHeader\<close> is the number of block \<open>D - 1\<close>.\<close>

definition good_of :: "nat \<Rightarrow> int" where
  "good_of D = int ((D + 63) mod 64)"

lemma good_of_range: "0 \<le> good_of D" "good_of D < 64"
  by (simp_all add: good_of_def)

lemma good_of_alt: "good_of D = (int D - 1) mod 64"
proof -
  have "(int D + 63) mod 64 = (int D - 1) mod 64"
    using mod_add_self2 [of "int D - 1" 64] by (simp add: add.commute)
  then show ?thesis by (simp add: good_of_def zmod_int)
qed

lemma window_key:
  assumes "D \<le> k + 1" "k \<le> D + 62"
  shows "blk_key (good_of D) (blk T k) = good_of D + (int k + 1 - int D)"
proof -
  define j where "j = k + 1 - D"
  have k: "int k = int D - 1 + int j" and j: "j \<le> 63" using assms by (simp_all add: j_def)
  note g = good_of_alt [of D]
  have nk: "nbr (blk T k) = (good_of D + int j) mod 64"
    by (simp add: zmod_int g k mod_add_left_eq)
  consider "good_of D + int j < 64" | "64 \<le> good_of D + int j" by linarith
  then show ?thesis
  proof cases
    case 1
    then have "nbr (blk T k) = good_of D + int j"
      unfolding nk using good_of_range [of D] by (simp add: mod_pos_pos_trivial)
    then show ?thesis unfolding blk_key_def using k by (simp del: blk_simps)
  next
    case 2
    have "(good_of D + int j - 64) mod 64 = (good_of D + int j) mod 64" by (rule minus_mod_self2)
    moreover have "(good_of D + int j - 64) mod 64 = good_of D + int j - 64"
      by (rule mod_pos_pos_trivial) (use 2 good_of_range [of D] j in linarith)+
    ultimately have "nbr (blk T k) = good_of D + int j - 64" by (simp only: nk)
    then show ?thesis unfolding blk_key_def MAXCOUNT_def using k j by (simp del: blk_simps)
  qed
qed

lemma window_inj:
  fixes D k l :: nat
  assumes "D \<le> k + 1" "k \<le> D + 62" "D \<le> l + 1" "l \<le> D + 62" "k mod 64 = l mod 64"
  shows "k = l"
proof -
  have "blk_key (good_of D) (blk T k) = blk_key (good_of D) (blk T l)" for T
    by (simp add: blk_key_def assms(5))
  then show ?thesis using window_key [OF assms(1,2)] window_key [OF assms(3,4)] by simp
qed

lemma next_number: "cmod (good_of D + 1) MAXCOUNT = int (D mod 64)"
proof -
  have "cmod (good_of D + 1) MAXCOUNT = (good_of D + 1) mod 64"
    using good_of_range [of D] by (simp add: MAXCOUNT_def)
  also have "\<dots> = int D mod 64" by (simp add: good_of_alt mod_add_left_eq)
  finally show ?thesis by (simp add: zmod_int)
qed

section \<open>The sort and the delivery on block indices\<close>

definition in_window :: "nat \<Rightarrow> nat list \<Rightarrow> bool" where
  "in_window D ks \<longleftrightarrow> sorted_wrt (<) ks \<and> (\<forall>k \<in> set ks. D \<le> k \<and> k \<le> D + 62)"

lemma in_window_Cons [simp]:
  "in_window D (k # ks) \<longleftrightarrow> D \<le> k \<and> k \<le> D + 62 \<and> (\<forall>l \<in> set ks. k < l) \<and> in_window D ks"
  by (auto simp: in_window_def)

lemma in_window_Nil [simp]: "in_window D []"
  by (simp add: in_window_def)

lemma in_window_later: "in_window D ks \<Longrightarrow> \<forall>k \<in> set ks. D < k \<Longrightarrow> in_window (Suc D) ks"
  by (auto simp: in_window_def)

lemma sorted_window: "in_window D ks \<Longrightarrow> sorted_blocks (good_of D) (map (blk T) ks)"
proof (induction ks)
  case (Cons k ks)
  then show ?case by (auto simp: window_key in_window_def)
qed (simp add: sorted_blocks_def)

fun insert_idx :: "nat \<Rightarrow> nat list \<Rightarrow> nat list" where
  "insert_idx k [] = [k]"
| "insert_idx k (l # ls) = (if k < l then k # l # ls else l # insert_idx k ls)"

lemma set_insert_idx [simp]: "set (insert_idx k ls) = insert k (set ls)"
  by (induction ls) auto

lemma insert_idx_window:
  "in_window D ls \<Longrightarrow> D \<le> k \<Longrightarrow> k \<le> D + 62 \<Longrightarrow> k \<notin> set ls \<Longrightarrow> in_window D (insert_idx k ls)"
  by (induction ls) (auto simp: not_less order_le_less)

lemma place_window:
  "in_window D ls \<Longrightarrow> D \<le> k \<Longrightarrow> k \<le> D + 62 \<Longrightarrow>
   place (good_of D) (blk T k) (map (blk T) ls) = map (blk T) (insert_idx k ls)"
  by (induction ls) (auto simp: window_key)

text \<open>Delivery: the run of indices that starts at \<open>D\<close>.\<close>

fun take_run :: "nat \<Rightarrow> nat list \<Rightarrow> nat \<times> nat list" where
  "take_run D [] = (D, [])"
| "take_run D (k # ks) = (if k = D then take_run (Suc D) ks else (D, k # ks))"

lemma take_run_spec:
  assumes "in_window D ks" "take_run D ks = (D', ks')"
  shows "D \<le> D' \<and> in_window D' ks' \<and> D' \<notin> set ks' \<and> {..<D'} \<union> set ks' = {..<D} \<union> set ks"
  using assms
proof (induction ks arbitrary: D)
  case (Cons k ks)
  show ?case
  proof (cases "k = D")
    case True
    with Cons.prems have "in_window (Suc D) ks" by (auto intro: in_window_later)
    moreover have "take_run (Suc D) ks = (D', ks')" using Cons.prems True by simp
    ultimately have "Suc D \<le> D' \<and> in_window D' ks' \<and> D' \<notin> set ks' \<and>
      {..<D'} \<union> set ks' = {..<Suc D} \<union> set ks" by (rule Cons.IH)
    moreover have "{..<Suc D} \<union> set ks = {..<D} \<union> set (k # ks)"
      using True by (auto simp: lessThan_Suc)
    ultimately show ?thesis by (metis Suc_leD)
  next
    case False
    with Cons.prems show ?thesis by fastforce
  qed
qed simp

lemma call_hook_fields [simp]:
  "GoodHeader (call_hook h e s) = GoodHeader s" "RxTextQueue (call_hook h e s) = RxTextQueue s"
  "LinkState (call_hook h e s) = LinkState s" "EndHeader (call_hook h e s) = EndHeader s"
  "hooks (call_hook h e s) = hooks s" "RxPending (call_hook h e s) = RxPending s"
  by (simp_all add: call_hook_def emit_def)

lemma deliver_window:
  assumes "in_window D ks" "GoodHeader s = good_of D" "take_run D ks = (D', ks')"
  shows "RxPending (deliver (map (blk T) ks) s) = map (blk T) ks' \<and>
         GoodHeader (deliver (map (blk T) ks) s) = good_of D' \<and>
         RxTextQueue (deliver (map (blk T) ks) s) = RxTextQueue s @ concat (map T [D..<D']) \<and>
         LinkState (deliver (map (blk T) ks) s) = LinkState s \<and>
         EndHeader (deliver (map (blk T) ks) s) = EndHeader s"
  using assms
proof (induction ks arbitrary: D s)
  case (Cons k ks)
  have eq: "int (k mod 64) = cmod (GoodHeader s + 1) MAXCOUNT \<longleftrightarrow> k = D"
    using Cons.prems window_inj [of D k D] by (auto simp: next_number)
  show ?case
  proof (cases "k = D")
    case True
    let ?s = "call_hook HprintRX (EvPrintRX (T k))
      (s\<lparr>RxTextQueue := RxTextQueue s @ T k, GoodHeader := int (k mod 64)\<rparr>)"
    have "in_window (Suc D) ks" using Cons.prems(1) True by (auto intro: in_window_later)
    moreover have "GoodHeader ?s = good_of (Suc D)" by (simp add: True good_of_def)
    moreover have run: "take_run (Suc D) ks = (D', ks')" using Cons.prems(3) True by simp
    ultimately have ih: "RxPending (deliver (map (blk T) ks) ?s) = map (blk T) ks' \<and>
      GoodHeader (deliver (map (blk T) ks) ?s) = good_of D' \<and>
      RxTextQueue (deliver (map (blk T) ks) ?s) = RxTextQueue ?s @ concat (map T [Suc D..<D']) \<and>
      LinkState (deliver (map (blk T) ks) ?s) = LinkState ?s \<and>
      EndHeader (deliver (map (blk T) ks) ?s) = EndHeader ?s"
      by (rule Cons.IH)
    have "Suc D \<le> D'" using take_run_spec run \<open>in_window (Suc D) ks\<close> by blast
    then have "concat (map T [D..<D']) = T D @ concat (map T [Suc D..<D'])"
      by (simp add: upt_conv_Cons)
    with ih eq True show ?thesis by simp
  next
    case False
    with Cons.prems eq show ?thesis by (auto simp: take_run.simps)
  qed
qed simp

section \<open>The missing list\<close>

lemma upto_from: "[a..a + int n - 1] = map (\<lambda>i. a + int i) [0..<n]"
proof (induction n)
  case (Suc n)
  have "[a..a + int (Suc n) - 1] = [a..a + int n - 1] @ [a + int n]"
    by (simp add: upto_rec2)
  with Suc show ?case by simp
qed simp

lemma shift_upt: "map (\<lambda>i. f (D + i)) [0..<n] = map f [D..<D + n]"
  by (induction n) auto

lemma filter_map_cong:
  "(\<And>x. x \<in> set xs \<Longrightarrow> P (f x) \<longleftrightarrow> Q x) \<Longrightarrow> filter P (map f xs) = map f (filter Q xs)"
  by (induction xs) auto

lemma numbers_between:
  assumes "D \<le> m" "m \<le> D + 62"
  shows "(let start = int (D mod 64); stop = int (Suc m mod 64);
              stop = (if stop < start then stop + MAXCOUNT else stop)
          in map (\<lambda>i. cmod i MAXCOUNT) [start..stop - 1]) = map (\<lambda>k. int (k mod 64)) [D..<Suc m]"
proof -
  define n where "n = Suc m - D"
  have n: "0 < n" "n \<le> 63" "Suc m = D + n" using assms by (auto simp: n_def)
  let ?stop = "if int (Suc m mod 64) < int (D mod 64) then int (Suc m mod 64) + 64 else int (Suc m mod 64)"
  have "int (Suc m mod 64) = (int (D mod 64) + int n) mod 64"
    by (simp add: n(3) zmod_int mod_add_left_eq)
  moreover have "(int (D mod 64) + int n) mod 64 =
      (if int (D mod 64) + int n < 64 then int (D mod 64) + int n else int (D mod 64) + int n - 64)"
  proof (cases "int (D mod 64) + int n < 64")
    case False
    have "(int (D mod 64) + int n - 64) mod 64 = (int (D mod 64) + int n) mod 64" by (rule minus_mod_self2)
    moreover have "(int (D mod 64) + int n - 64) mod 64 = int (D mod 64) + int n - 64"
    proof (rule mod_pos_pos_trivial)
      have "int (D mod 64) < 64" by simp
      then show "int (D mod 64) + int n - 64 < 64" using n(2) by linarith
    qed (use False in simp)
    ultimately show ?thesis using False by simp
  qed (simp add: mod_pos_pos_trivial)
  ultimately have stop: "?stop = int (D mod 64) + int n"
    using n(1,2) by auto
  have cm: "cmod (int (D mod 64) + int i) MAXCOUNT = int ((D + i) mod 64)" for i
    by (simp add: MAXCOUNT_def zmod_int mod_add_left_eq)
  have "map (\<lambda>i. cmod i MAXCOUNT) [int (D mod 64)..?stop - 1] = map (\<lambda>i. int ((D + i) mod 64)) [0..<n]"
    unfolding stop upto_from by (simp only: map_map comp_def cm)
  also have "\<dots> = map (\<lambda>k. int (k mod 64)) [D..<D + n]"
    by (rule shift_upt [of "\<lambda>k. int (k mod 64)"])
  finally show ?thesis by (simp only: Let_def n(3) MAXCOUNT_def)
qed

text \<open>The receiver's report for \<open>D\<close> delivered blocks and pending blocks \<open>ks\<close>.\<close>

definition missing_idx :: "nat \<Rightarrow> nat list \<Rightarrow> nat list" where
  "missing_idx D ks = (if ks = [] then [] else filter (\<lambda>k. k \<notin> set ks) [D..<Suc (last ks)])"

lemma pending_number:
  assumes "in_window D ks" "D \<le> k" "k \<le> D + 62"
  shows "list_ex (\<lambda>b. int (k mod 64) = nbr b) (map (blk T) ks) \<longleftrightarrow> k \<in> set ks"
proof -
  have "k = l" if "l \<in> set ks" "k mod 64 = l mod 64" for l
    by (rule window_inj [of D k l]) (use that assms in \<open>auto simp: in_window_def\<close>)
  then show ?thesis by (auto simp: list_ex_iff)
qed

lemma missing_numbers_window:
  assumes "in_window D ks" "ks \<noteq> []"
  shows "missing_numbers (good_of D) (int (last ks mod 64)) (map (blk T) ks) =
         map (\<lambda>k. int (k mod 64)) (missing_idx D ks)"
proof -
  let ?m = "last ks"
  have m: "D \<le> ?m" "?m \<le> D + 62" using assms by (auto simp: in_window_def)
  have stop: "cmod (int (?m mod 64) + 1) MAXCOUNT = int (Suc ?m mod 64)"
    by (simp add: MAXCOUNT_def zmod_int mod_add_left_eq add.commute [of 1])
  have mem: "list_ex (\<lambda>b. int (k mod 64) = nbr b) (map (blk T) ks) \<longleftrightarrow> k \<in> set ks"
    if "k \<in> set [D..<Suc ?m]" for k
    by (rule pending_number [OF assms(1)]) (use that m in auto)
  have "missing_numbers (good_of D) (int (?m mod 64)) (map (blk T) ks) =
    filter (\<lambda>t. \<not> list_ex (\<lambda>b. t = nbr b) (map (blk T) ks)) (map (\<lambda>k. int (k mod 64)) [D..<Suc ?m])"
    unfolding missing_numbers_def next_number stop using numbers_between [OF m]
    by (simp only: Let_def)
  also have "\<dots> = map (\<lambda>k. int (k mod 64)) (filter (\<lambda>k. k \<notin> set ks) [D..<Suc ?m])"
    by (rule filter_map_cong) (use mem in blast)
  finally show ?thesis using assms(2) by (simp add: missing_idx_def)
qed

section \<open>Refinement\<close>

text \<open>
  The abstract receiver: \<open>D\<close> blocks delivered, the indices \<open>ks\<close> received beyond a gap.
  \<open>rx_rep\<close> relates it to the members of the class.
\<close>

definition rx_rep :: "(nat \<Rightarrow> string) \<Rightarrow> nat \<Rightarrow> nat list \<Rightarrow> arq \<Rightarrow> bool" where
  "rx_rep T D ks s \<longleftrightarrow> GoodHeader s = good_of D \<and> RxPending s = map (blk T) ks \<and>
     in_window D ks \<and> D \<notin> set ks \<and>
     EndHeader s = (if ks = [] then good_of D else int (last ks mod 64)) \<and>
     MissingRxBlocks s = map (\<lambda>k. char_of_int (int (k mod 64) + 0x20)) (missing_idx D ks)"

definition rx_accept :: "nat \<Rightarrow> nat \<Rightarrow> nat list \<Rightarrow> nat \<times> nat list" where
  "rx_accept k D ks = (if k \<in> set ks then (D, ks) else take_run D (insert_idx k ks))"

text \<open>\<^verbatim>\<open>parseDATA\<close> run on block \<open>k\<close>.\<close>

definition data_in :: "(nat \<Rightarrow> string) \<Rightarrow> nat \<Rightarrow> arq \<Rightarrow> arq" where
  "data_in T k s = parseDATA (s\<lparr>blknbr := int (k mod 64), rcvPayload := T k\<rparr>)"

lemma insert_idx_nonempty [simp]: "insert_idx k ls \<noteq> []"
  by (cases ls) auto

lemma take_run_last: "take_run D ks = (D', ks') \<Longrightarrow> ks' \<noteq> [] \<Longrightarrow> last ks' = last ks"
  by (induction ks arbitrary: D) (auto split: if_splits)

lemma take_run_all: "take_run D ks = (D', []) \<Longrightarrow> ks \<noteq> [] \<Longrightarrow> D' = Suc (last ks)"
proof (induction ks arbitrary: D)
  case (Cons k ks)
  then show ?case using Cons.IH [of "Suc D"] by (cases "ks = []") (auto split: if_splits)
qed simp

lemma good_of_Suc: "good_of (Suc k) = int (k mod 64)"
  by (simp add: good_of_def)

lemma printSTATUS_fields [simp]:
  "GoodHeader (printSTATUS m s) = GoodHeader s" "RxTextQueue (printSTATUS m s) = RxTextQueue s"
  "LinkState (printSTATUS m s) = LinkState s" "RxPending (printSTATUS m s) = RxPending s"
  "blknbr (printSTATUS m s) = blknbr s" "rcvPayload (printSTATUS m s) = rcvPayload s"
  by (simp_all add: printSTATUS_def emit_def)

lemma data_in_refines:
  assumes "rx_rep T D ks s" "ARQ_CONNECTED \<le> LinkState s" "D \<le> k" "k \<le> D + 62"
    and "rx_accept k D ks = (D', ks')"
  shows "rx_rep T D' ks' (data_in T k s) \<and> LinkState (data_in T k s) = LinkState s \<and>
         RxTextQueue (data_in T k s) = RxTextQueue s @ concat (map T [D..<D'])"
proof -
  let ?s = "s\<lparr>blknbr := int (k mod 64), rcvPayload := T k\<rparr>"
  have rep: "GoodHeader s = good_of D" "RxPending s = map (blk T) ks" "in_window D ks"
    using assms(1) by (auto simp: rx_rep_def)
  have up: "\<not> LinkState ?s < ARQ_CONNECTED" using assms(2) by simp
  show ?thesis
  proof (cases "k \<in> set ks")
    case True
    then have "list_ex (\<lambda>b. blknbr ?s = nbr b) (RxPending ?s)"
      using rep assms(3,4) by (simp add: pending_number)
    then have "data_in T k s = ?s" using up by (simp add: data_in_def parseDATA_def)
    moreover have "D' = D" "ks' = ks" using True assms(5) by (simp_all add: rx_accept_def)
    ultimately show ?thesis using assms(1) by (simp add: rx_rep_def)
  next
    case False
    let ?ks = "insert_idx k ks"
    define s0 where "s0 = printSTATUS (take 79 (''RX: data block '' @ show_int (blknbr ?s))) ?s"
    have s0: "GoodHeader s0 = good_of D" "RxTextQueue s0 = RxTextQueue s" "LinkState s0 = LinkState s"
      "RxPending s0 @ [\<lparr>nbr = blknbr s0, blk_text = rcvPayload s0\<rparr>] = map (blk T) ks @ [blk T k]"
      by (simp_all add: s0_def rep blk_def)
    have fresh: "\<not> list_ex (\<lambda>b. blknbr ?s = nbr b) (RxPending ?s)"
      using False rep assms(3,4) by (simp add: pending_number)
    have run: "take_run D ?ks = (D', ks')" using False assms(5) by (simp add: rx_accept_def)
    have win: "in_window D ?ks" using rep(3) assms(3,4) False by (intro insert_idx_window)
    have sorted: "sort_pending (good_of D) (map (blk T) ks @ [blk T k]) = map (blk T) ?ks"
      using rep(3) assms(3,4) by (simp add: sort_pending_place sorted_window place_window)
    define s1 where "s1 = deliver (map (blk T) ?ks) (s0\<lparr>EndHeader := int (last ?ks mod 64)\<rparr>)"
    have s1: "RxPending s1 = map (blk T) ks'" "GoodHeader s1 = good_of D'"
      "RxTextQueue s1 = RxTextQueue s @ concat (map T [D..<D'])"
      "LinkState s1 = LinkState s" "EndHeader s1 = int (last ?ks mod 64)"
      using deliver_window [OF win _ run, where T = T
          and s = "s0\<lparr>EndHeader := int (last ?ks mod 64)\<rparr>"] s0
      by (simp_all add: s1_def)
    have lastn: "nbr (last (map (blk T) ?ks)) = int (last ?ks mod 64)" by (simp add: last_map)
    have out: "data_in T k s = (let s = s1\<lparr>MissingRxBlocks := ''''\<rparr>
        in if RxPending s = [] then s
           else s\<lparr>MissingRxBlocks := map (\<lambda>t. char_of_int (t + 0x20))
                   (missing_numbers (GoodHeader s) (EndHeader s) (RxPending s))\<rparr>)"
      unfolding data_in_def parseDATA_def if_not_P [OF up] if_not_P [OF fresh] s0_def [symmetric]
      by (simp only: Let_def s0 sorted lastn s1_def)
    have spec: "in_window D' ks'" "D' \<notin> set ks'" using take_run_spec [OF win run] by auto
    show ?thesis
    proof (cases "ks' = []")
      case True
      then have "D' = Suc (last ?ks)" using run take_run_all [of D ?ks D'] by simp
      then show ?thesis
        using True s1 out by (simp add: rx_rep_def missing_idx_def good_of_Suc)
    next
      case False
      then have last: "last ks' = last ?ks" using run take_run_last by blast
      have "missing_numbers (good_of D') (int (last ks' mod 64)) (map (blk T) ks') =
            map (\<lambda>k. int (k mod 64)) (missing_idx D' ks')"
        using spec(1) False by (rule missing_numbers_window)
      then show ?thesis
        using False s1 out spec last by (simp add: rx_rep_def Let_def)
    qed
  qed
qed

text \<open>C13: \<^verbatim>\<open>parseDATA\<close> refines the abstract receiver. On a connected link a block inside the
  window of 63 numbers, arriving in any order, is stored once; the run of blocks that has become
  consecutive is appended to the received text in block order and to nothing else;
  \<^verbatim>\<open>GoodHeader\<close>, \<^verbatim>\<open>EndHeader\<close>, \<^verbatim>\<open>RxPending\<close> and the reported missing list
  describe the new abstract state exactly.\<close>

theorem parseDATA_refines:
  assumes "rx_rep T D ks s" "ARQ_CONNECTED \<le> LinkState s" "D \<le> k" "k \<le> D + 62"
    and "rx_accept k D ks = (D', ks')"
  shows "rx_rep T D' ks' (data_in T k s) \<and> LinkState (data_in T k s) = LinkState s \<and>
         RxTextQueue (data_in T k s) = RxTextQueue s @ concat (map T [D..<D'])"
  using assms by (rule data_in_refines)

lemma rx_accept_sets:
  assumes "in_window D ks" "D \<notin> set ks" "D \<le> k" "k \<le> D + 62" "rx_accept k D ks = (D', ks')"
  shows "D \<le> D' \<and> {..<D'} \<union> set ks' = insert k ({..<D} \<union> set ks)"
proof (cases "k \<in> set ks")
  case True
  with assms(5) show ?thesis by (auto simp: rx_accept_def)
next
  case False
  then have "take_run D (insert_idx k ks) = (D', ks')" using assms(5) by (simp add: rx_accept_def)
  with take_run_spec [OF insert_idx_window [OF assms(1,3,4) False]] show ?thesis by auto
qed

text \<open>
  The contract of a block receiver, whatever it is that is handed a block: \<open>rep\<close> says which
  blocks have been delivered and which are pending, \<open>text\<close> what has been delivered, and
  one \<open>step\<close> with a block in the window does what the abstract receiver does.
\<close>

locale window_receiver =
  fixes T :: "nat \<Rightarrow> string"
    and rep :: "nat \<Rightarrow> nat list \<Rightarrow> 's \<Rightarrow> bool"
    and delivered :: "'s \<Rightarrow> string"
    and step :: "nat \<Rightarrow> 's \<Rightarrow> 's"
  assumes rep_window: "rep D ks s \<Longrightarrow> in_window D ks \<and> D \<notin> set ks"
    and step_refines: "rep D ks s \<Longrightarrow> D \<le> k \<Longrightarrow> k \<le> D + 62 \<Longrightarrow> rx_accept k D ks = (D', ks') \<Longrightarrow>
      rep D' ks' (step k s) \<and> delivered (step k s) = delivered s @ concat (map T [D..<D'])"
begin

text \<open>A sequence of arrivals: distinct blocks, none of them received before, all in the window.\<close>

lemma arrivals:
  assumes "rep D ks s"
    and "distinct arr" "set arr \<inter> ({..<D} \<union> set ks) = {}" "\<forall>k \<in> set arr. k \<le> D + 62"
  shows "\<exists>D' ks'. rep D' ks' (fold step arr s) \<and> D \<le> D' \<and>
    {..<D'} \<union> set ks' = {..<D} \<union> set ks \<union> set arr \<and>
    delivered (fold step arr s) = delivered s @ concat (map T [D..<D'])"
  using assms
proof (induction arr arbitrary: D ks s)
  case Nil
  then show ?case by (intro exI [of _ D] exI [of _ ks]) simp
next
  case (Cons k arr)
  obtain D1 ks1 where acc: "rx_accept k D ks = (D1, ks1)" by fastforce
  have k: "D \<le> k" "k \<le> D + 62" using Cons.prems(3,4) by auto
  have win: "in_window D ks" "D \<notin> set ks" using rep_window [OF Cons.prems(1)] by auto
  have sets: "D \<le> D1" "{..<D1} \<union> set ks1 = insert k ({..<D} \<union> set ks)"
    using rx_accept_sets [OF win k acc] by auto
  have stp: "rep D1 ks1 (step k s)" "delivered (step k s) = delivered s @ concat (map T [D..<D1])"
    using step_refines [OF Cons.prems(1) k acc] by auto
  have "\<exists>D' ks'. rep D' ks' (fold step arr (step k s)) \<and> D1 \<le> D' \<and>
    {..<D'} \<union> set ks' = {..<D1} \<union> set ks1 \<union> set arr \<and>
    delivered (fold step arr (step k s)) = delivered (step k s) @ concat (map T [D1..<D'])"
    using Cons.prems(2-4) stp(1) sets by (intro Cons.IH) auto
  then obtain D' ks' where fin: "rep D' ks' (fold step arr (step k s))" "D1 \<le> D'"
    "{..<D'} \<union> set ks' = {..<D1} \<union> set ks1 \<union> set arr"
    "delivered (fold step arr (step k s)) = delivered (step k s) @ concat (map T [D1..<D'])"
    by blast
  have "[D..<D'] = [D..<D1] @ [D1..<D']"
    using sets(1) fin(2) by (metis le_Suc_ex upt_add_eq_append le_add1 add.assoc)
  then show ?case
    using fin sets stp by (intro exI [of _ D'] exI [of _ ks']) auto
qed

lemma any_order:
  assumes "rep D [] s" "distinct arr" "set arr = {D..<D + n}" "n \<le> 63"
  shows "rep (D + n) [] (fold step arr s) \<and>
         delivered (fold step arr s) = delivered s @ concat (map T [D..<D + n])"
proof -
  obtain D' ks' where fin: "rep D' ks' (fold step arr s)" "D \<le> D'"
    "{..<D'} \<union> set ks' = {..<D} \<union> set arr"
    "delivered (fold step arr s) = delivered s @ concat (map T [D..<D'])"
    using arrivals [OF assms(1,2)] assms(3,4) by force
  have eq: "{..<D'} \<union> set ks' = {..<D + n}" using fin(3) assms(3) by auto
  have ks: "D' \<notin> set ks'" "\<forall>k \<in> set ks'. D' \<le> k"
    using rep_window [OF fin(1)] by (auto simp: in_window_def)
  have "D' \<notin> {..<D + n}" using eq ks(1) by blast
  moreover have "\<not> D + n < D'" using eq by (metis UnI1 lessThan_iff less_irrefl)
  ultimately have D': "D' = D + n" by simp
  have "k \<notin> set ks'" for k
  proof
    assume k: "k \<in> set ks'"
    then have "k < D + n" using eq by blast
    then show False using ks(2) k D' by auto
  qed
  then have "ks' = []" by (cases ks') auto
  then show ?thesis using fin(1,4) D' by simp
qed

end

interpretation blocks: window_receiver T "\<lambda>D ks s. rx_rep T D ks s \<and> ARQ_CONNECTED \<le> LinkState s"
    RxTextQueue "data_in T" for T
proof
  fix D ks s
  assume "rx_rep T D ks s \<and> ARQ_CONNECTED \<le> LinkState s"
  then show "in_window D ks \<and> D \<notin> set ks" by (simp add: rx_rep_def)
next
  fix D ks s k D' ks'
  assume "rx_rep T D ks s \<and> ARQ_CONNECTED \<le> LinkState s" "D \<le> k" "k \<le> D + 62" "rx_accept k D ks = (D', ks')"
  then show "(rx_rep T D' ks' (data_in T k s) \<and> ARQ_CONNECTED \<le> LinkState (data_in T k s)) \<and>
      RxTextQueue (data_in T k s) = RxTextQueue s @ concat (map T [D..<D'])"
    using data_in_refines [of T D ks s k D' ks'] by simp
qed

text \<open>C14: order does not matter. From a receiver with nothing pending, up to 63 successive blocks
  that arrive exactly once each, in any order whatever, leave the same state: all of them
  delivered, in block order, nothing pending and nothing reported missing.\<close>

theorem any_arrival_order:
  assumes "rx_rep T D [] s" "ARQ_CONNECTED \<le> LinkState s"
    and "distinct arr" "set arr = {D..<D + n}" "n \<le> 63"
  shows "rx_rep T (D + n) [] (fold (data_in T) arr s) \<and>
         RxTextQueue (fold (data_in T) arr s) = RxTextQueue s @ concat (map T [D..<D + n])"
  using blocks.any_order [of T D s arr n] assms by blast

section \<open>A receiver for the examples\<close>

definition sample_link :: arq where
  "sample_link = (arq_new 0 (\<lambda>h. True))\<lparr>LinkState := ARQ_CONNECTED, MyCall := ''W1HKJ'', UrCall := ''KH6TY''\<rparr>"

lemma sample_link_fields [simp]:
  "LinkState sample_link = ARQ_CONNECTED" "GoodHeader sample_link = 63" "EndHeader sample_link = 63"
  "RxPending sample_link = []" "MissingRxBlocks sample_link = ''''" "RxTextQueue sample_link = ''''"
  "LastHeader sample_link = 63" "MyCall sample_link = ''W1HKJ''" "UrCall sample_link = ''KH6TY''"
  "RxFrameQueue sample_link = ''''" "lastRxChar sample_link = CHR 0x00" "TxMissing sample_link = []"
  "TxBlocks sample_link = []" "TxPending sample_link = []" "Bufferlength sample_link = 128"
  by (simp_all add: sample_link_def arq_new_def set_idtimer_def setBufferlength_def MAXCOUNT_def EXPONENT_def)

lemma sample_rep: "rx_rep T 0 [] sample_link"
  by (simp add: rx_rep_def good_of_def missing_idx_def)

theorem parseDATA_refines_witness:
  "rx_rep (\<lambda>k. show_nat k) 0 [1] (data_in (\<lambda>k. show_nat k) 1 sample_link)"
  using parseDATA_refines [OF sample_rep, of 1 0 "[1]"] by (simp add: rx_accept_def)

theorem any_arrival_order_witness:
  "RxTextQueue (fold (data_in (\<lambda>k. show_nat k)) [2, 0, 1] sample_link) = ''012''"
proof -
  have "set [2, 0, 1] = {0..<0 + (3::nat)}" by auto
  then have "RxTextQueue (fold (data_in (\<lambda>k. show_nat k)) [2, 0, 1] sample_link) =
      RxTextQueue sample_link @ concat (map (\<lambda>k. show_nat k) [0..<0 + 3])"
    using any_arrival_order [OF sample_rep, of "[2, 0, 1]" 3] by simp
  also have "\<dots> = ''012''"
    by code_simp
  finally show ?thesis .
qed

section \<open>Limits of the code\<close>

lemma length_sort_inner: "length (sort_inner good xs i) = length xs"
proof -
  have "length (foldl (\<lambda>xs j. if blk_key good (xs ! j) < n1 then xs[i := xs ! j, j := xs ! i] else xs) ys js)
        = length ys" for n1 ys js
    by (induction js arbitrary: ys) auto
  then show ?thesis by (simp add: sort_inner_def Let_def)
qed

lemma sort_inner_keeps_head: "0 < i \<Longrightarrow> sort_inner good xs i ! 0 = xs ! 0"
proof -
  assume i: "0 < i"
  have "\<forall>j \<in> set js. i < j \<Longrightarrow>
      foldl (\<lambda>xs j. if blk_key good (xs ! j) < n1 then xs[i := xs ! j, j := xs ! i] else xs) ys js ! 0 = ys ! 0"
    for n1 ys js
    using i by (induction js arbitrary: ys) auto
  then show ?thesis by (simp add: sort_inner_def Let_def)
qed

lemma sort_keeps_least_head:
  assumes "\<forall>b \<in> set xs. blk_key good (xs ! 0) \<le> blk_key good b"
  shows "sort_pending good xs ! 0 = xs ! 0"
proof -
  have first: "sort_inner good xs 0 = xs"
    unfolding sort_inner_def Let_def
    by (rule inner_loop_skip) (use assms in \<open>auto simp: not_less\<close>)
  have rest: "\<forall>i \<in> set is. 0 < i \<Longrightarrow> foldl (sort_inner good) ys is ! 0 = ys ! 0" for "is" ys
    by (induction "is" arbitrary: ys) (auto simp: sort_inner_keeps_head)
  show ?thesis
  proof (cases "length xs - 1")
    case (Suc n)
    then have "sort_pending good xs = foldl (sort_inner good) xs [1..<Suc n]"
      by (simp add: sort_pending_def upt_conv_Cons first del: upt_Suc)
    then show ?thesis using rest [of "[1..<Suc n]" xs] by (simp del: upt_Suc)
  qed (simp add: sort_pending_def)
qed

lemma sort_loop_mset:
  assumes "\<forall>j \<in> set js. j < length ys" "i < length ys"
  shows "mset (foldl (\<lambda>xs j. if blk_key good (xs ! j) < n1
           then xs[i := xs ! j, j := xs ! i] else xs) ys js) = mset ys"
  using assms by (induction js arbitrary: ys) (auto simp: mset_swap)

lemma mset_sort_inner: "i < length xs \<Longrightarrow> mset (sort_inner good xs i) = mset xs"
  unfolding sort_inner_def Let_def by (rule sort_loop_mset) auto

lemma mset_sort_pending: "mset (sort_pending good xs) = mset xs"
proof -
  have all: "\<forall>i \<in> set is. i < length ys \<Longrightarrow> mset (foldl (sort_inner good) ys is) = mset ys" for "is" ys
    by (induction "is" arbitrary: ys) (auto simp: mset_sort_inner length_sort_inner)
  show ?thesis unfolding sort_pending_def by (rule all) auto
qed

text \<open>The exchange sort is not a sort: the key of the position is not taken again after an
  exchange. On the lists the link produces, sorted but for the last block, it is one
  (\<open>sort_pending_place\<close>).\<close>

lemma sort_pending_unsorted:
  "map nbr (sort_pending 0 (map (\<lambda>n. \<lparr>nbr = n, blk_text = ''''\<rparr>) [3, 1, 2])) = [2, 1, 3]"
  by code_simp

text \<open>A receiver whose first pending block is the one it delivered last.\<close>

definition stalled :: "int \<Rightarrow> arq \<Rightarrow> bool" where
  "stalled G s \<longleftrightarrow> GoodHeader s = G \<and> RxPending s \<noteq> [] \<and> nbr (RxPending s ! 0) = G \<and>
     (\<forall>b \<in> set (RxPending s). 0 \<le> nbr b \<and> nbr b < MAXCOUNT)"

lemma key_ge_good: "0 \<le> nbr b \<Longrightarrow> G < MAXCOUNT \<Longrightarrow> G \<le> blk_key G b"
  by (auto simp: blk_key_def)

lemma next_differs: "0 \<le> G \<Longrightarrow> G < MAXCOUNT \<Longrightarrow> G \<noteq> cmod (G + 1) MAXCOUNT"
  by (cases "G = 63") (auto simp: MAXCOUNT_def mod_pos_pos_trivial)

lemma deliver_stops:
  "bs \<noteq> [] \<Longrightarrow> nbr (bs ! 0) \<noteq> cmod (GoodHeader s + 1) MAXCOUNT \<Longrightarrow> deliver bs s = s\<lparr>RxPending := bs\<rparr>"
  by (cases bs) auto

lemma parseDATA_head_stays:
  assumes G: "GoodHeader s = G" "0 \<le> G" "G < MAXCOUNT"
    and n: "0 \<le> n" "n < MAXCOUNT"
    and pend: "\<forall>b \<in> set (RxPending s). 0 \<le> nbr b \<and> nbr b < MAXCOUNT"
    and head: "nbr ((RxPending s @ [\<lparr>nbr = n, blk_text = t\<rparr>]) ! 0) = G"
    and keep: "stalled G s \<or> RxPending s = []"
  shows "RxTextQueue (parseDATA (s\<lparr>blknbr := n, rcvPayload := t\<rparr>)) = RxTextQueue s \<and>
         (stalled G (parseDATA (s\<lparr>blknbr := n, rcvPayload := t\<rparr>)) \<or> LinkState s < ARQ_CONNECTED) \<and>
         (stalled G s \<longrightarrow> stalled G (parseDATA (s\<lparr>blknbr := n, rcvPayload := t\<rparr>)))"
proof -
  let ?s = "s\<lparr>blknbr := n, rcvPayload := t\<rparr>"
  let ?p = "RxPending s @ [\<lparr>nbr = n, blk_text = t\<rparr>]"
  let ?q = "sort_pending G ?p"
  have nums: "\<forall>b \<in> set ?p. 0 \<le> nbr b \<and> nbr b < MAXCOUNT" using pend n by auto
  have "blk_key G (?p ! 0) = G" using head by (simp add: blk_key_def)
  then have "\<forall>b \<in> set ?p. blk_key G (?p ! 0) \<le> blk_key G b"
    using nums G(3) by (metis key_ge_good)
  then have q0: "nbr (?q ! 0) = G" using head by (simp add: sort_keeps_least_head)
  have qset: "set ?q = set ?p" by (metis mset_sort_pending set_mset_mset)
  then have qne: "?q \<noteq> []" by (metis append_is_Nil_conv list.distinct(1) set_empty)
  consider "LinkState s < ARQ_CONNECTED" | "\<not> LinkState s < ARQ_CONNECTED" "list_ex (\<lambda>b. n = nbr b) (RxPending s)"
    | "\<not> LinkState s < ARQ_CONNECTED" "\<not> list_ex (\<lambda>b. n = nbr b) (RxPending s)" by blast
  then show ?thesis
  proof cases
    case 1
    then show ?thesis by (simp add: parseDATA_def stalled_def)
  next
    case 2
    then show ?thesis using keep by (auto simp: parseDATA_def stalled_def)
  next
    case 3
    have up: "\<not> LinkState ?s < ARQ_CONNECTED" "\<not> list_ex (\<lambda>b. blknbr ?s = nbr b) (RxPending ?s)"
      using 3 by simp_all
    define s0 where "s0 = printSTATUS (take 79 (''RX: data block '' @ show_int (blknbr ?s))) ?s"
    have s0: "GoodHeader s0 = G" "RxPending s0 = RxPending s" "RxTextQueue s0 = RxTextQueue s"
      "blknbr s0 = n" "rcvPayload s0 = t" by (simp_all add: s0_def G)
    have stop: "deliver ?q (s0\<lparr>EndHeader := nbr (last ?q)\<rparr>) = s0\<lparr>EndHeader := nbr (last ?q), RxPending := ?q\<rparr>"
      using qne q0 next_differs [OF G(2,3)] by (simp add: deliver_stops s0)
    obtain m where out: "parseDATA ?s = s0\<lparr>EndHeader := nbr (last ?q), RxPending := ?q, MissingRxBlocks := m\<rparr>"
      unfolding parseDATA_def if_not_P [OF up(1)] if_not_P [OF up(2)] s0_def [symmetric]
      using qne by (simp add: Let_def s0 stop)
    have "stalled G (parseDATA ?s)"
      using q0 qne nums by (simp add: out stalled_def s0 qset)
    then show ?thesis by (simp add: out s0)
  qed
qed

text \<open>C20: a block that is received a second time after it was delivered stops the link for good. If
  the connected receiver, with nothing pending, gets once more the block it delivered last
  (number \<open>G\<close>), the copy is kept as pending and sorted in front of all others; whatever data
  blocks follow, in whatever order, no text is ever delivered again.\<close>

theorem stale_block_stalls:
  assumes "ARQ_CONNECTED \<le> LinkState s" "GoodHeader s = G" "0 \<le> G" "G < MAXCOUNT" "RxPending s = []"
    and "\<forall>(n, t) \<in> set bs. 0 \<le> n \<and> n < MAXCOUNT"
  shows "RxTextQueue (foldl (\<lambda>s (n, t). parseDATA (s\<lparr>blknbr := n, rcvPayload := t\<rparr>)) s ((G, t0) # bs)) =
         RxTextQueue s"
proof -
  let ?f = "\<lambda>s (n, t). parseDATA (s\<lparr>blknbr := n, rcvPayload := t\<rparr>)"
  have first: "RxTextQueue (?f s (G, t0)) = RxTextQueue s \<and> stalled G (?f s (G, t0))"
    using parseDATA_head_stays [of s G G t0] assms(1-5) by auto
  have rest: "stalled G s' \<Longrightarrow> \<forall>(n, t) \<in> set bs. 0 \<le> n \<and> n < MAXCOUNT \<Longrightarrow>
      RxTextQueue (foldl ?f s' bs) = RxTextQueue s'" for s'
  proof (induction bs arbitrary: s')
    case (Cons b bs)
    obtain n t where b: "b = (n, t)" by (cases b)
    have st: "GoodHeader s' = G" "RxPending s' \<noteq> []" "nbr (RxPending s' ! 0) = G"
      "\<forall>b \<in> set (RxPending s'). 0 \<le> nbr b \<and> nbr b < MAXCOUNT"
      using Cons.prems(1) by (auto simp: stalled_def)
    then have "RxTextQueue (?f s' b) = RxTextQueue s' \<and> stalled G (?f s' b)"
      using parseDATA_head_stays [of s' G n t] Cons.prems assms(3,4) by (auto simp: b nth_append)
    then show ?case using Cons by (simp add: b)
  qed simp
  show ?thesis using first rest [of "?f s (G, t0)"] assms(6) by simp
qed

theorem stale_block_stalls_witness:
  "RxTextQueue (foldl (\<lambda>s (n, t). parseDATA (s\<lparr>blknbr := n, rcvPayload := t\<rparr>)) sample_link
     [(63, ''old''), (0, ''new''), (1, ''newer'')]) = ''''"
  using stale_block_stalls [of sample_link 63 "[(0, ''new''), (1, ''newer'')]" "''old''"]
  by (simp add: MAXCOUNT_def)

end
