(* ===== verification/Arq_Status.thy ===== *)
theory Arq_Status
  imports Arq_Data
begin

text \<open>
  The sending side's view of a status report: which blocks \<^verbatim>\<open>parseSTATUS\<close> decides to keep
  for repetition, when it returns at all, and what becomes of the link.
\<close>

section \<open>The loop over unreported blocks\<close>

lemma missing_next_simps [simp]:
  "m < 64 \<Longrightarrow> missing_next m = m + 1" "missing_next 64 = 1"
  by (simp_all add: missing_next_def MAXCOUNT_def)

text \<open>One unfolding of the loop, and the runs it makes up to 64.\<close>

definition missing_while :: "int \<Rightarrow> int \<times> int list \<Rightarrow> (int \<times> int list) option" where
  "missing_while lasthdr = while_option (\<lambda>(m, ms). m \<noteq> lasthdr) (\<lambda>(m, ms). (missing_next m, ms @ [m]))"

lemma missing_while_unfold:
  "missing_while lh (m, ms) =
     (if m \<noteq> lh then missing_while lh (missing_next m, ms @ [m]) else Some (m, ms))"
  unfolding missing_while_def by (subst while_option_unfold) simp

lemma missing_loop_while:
  "missing_loop lh m0 = (case missing_while lh (m0, []) of None \<Rightarrow> Inl Hang
     | Some (m, ms) \<Rightarrow> Inr (ms @ [lh]))"
  by (simp add: missing_loop_def missing_while_def)

lemma upto_Cons: "i \<le> j \<Longrightarrow> [i..j] = i # [i + 1..j]" for i j :: int
  by (simp add: upto_rec1)

lemma missing_while_up:
  "m \<le> k \<Longrightarrow> k \<le> 64 \<Longrightarrow> \<forall>i. m \<le> i \<and> i < k \<longrightarrow> i \<noteq> lh \<Longrightarrow>
   missing_while lh (m, ms) = missing_while lh (k, ms @ [m..k - 1])"
proof (induction "nat (k - m)" arbitrary: m ms)
  case (Suc d)
  then have lt: "m < k" by simp
  then have "m \<noteq> lh" "m < 64" using Suc.prems by auto
  then have "missing_while lh (m, ms) = missing_while lh (m + 1, ms @ [m])"
    by (subst missing_while_unfold) simp
  also have "\<dots> = missing_while lh (k, (ms @ [m]) @ [m + 1..k - 1])"
    using Suc.hyps(2) Suc.prems lt by (intro Suc.hyps(1)) auto
  also have "(ms @ [m]) @ [m + 1..k - 1] = ms @ [m..k - 1]"
    using lt by (simp add: upto_Cons)
  finally show ?case .
qed simp

lemma missing_while_direct:
  assumes "m \<le> lh" "lh \<le> 64"
  shows "missing_while lh (m, ms) = Some (lh, ms @ [m..lh - 1])"
proof -
  have "missing_while lh (m, ms) = missing_while lh (lh, ms @ [m..lh - 1])"
    using assms by (intro missing_while_up) auto
  then show ?thesis by (simp add: missing_while_unfold [of lh lh])
qed

lemma missing_while_wrap:
  assumes "lh < m" "m \<le> 64" "1 \<le> lh"
  shows "missing_while lh (m, ms) = Some (lh, ms @ [m..64] @ [1..lh - 1])"
proof -
  have "missing_while lh (m, ms) = missing_while lh (64, ms @ [m..63])"
    using assms missing_while_up [of m 64 lh ms] by auto
  also have "\<dots> = missing_while lh (1, (ms @ [m..63]) @ [64])"
    using assms by (subst missing_while_unfold) simp
  also have "\<dots> = Some (lh, ((ms @ [m..63]) @ [64]) @ [1..lh - 1])"
    using assms by (intro missing_while_direct) auto
  also have "((ms @ [m..63]) @ [64]) @ [1..lh - 1] = ms @ [m..64] @ [1..lh - 1]"
    using assms by (simp add: upto_rec2)
  finally show ?thesis .
qed

lemma missing_while_hangs:
  assumes "1 \<le> m" "lh \<le> 0"
  shows "missing_while lh (m, ms) = None"
proof (cases "missing_while lh (m, ms)")
  case (Some r)
  have "1 \<le> fst r"
    using Some [unfolded missing_while_def]
    by (rule while_option_rule [where P = "\<lambda>r. 1 \<le> fst r", rotated])
      (use assms in \<open>auto simp: missing_next_def MAXCOUNT_def Let_def\<close>)
  moreover have "fst r = lh"
    using while_option_stop [OF Some [unfolded missing_while_def]] by (simp split: prod.splits)
  ultimately show ?thesis using assms(2) by simp
qed

lemma unreported_cases:
  assumes "0 \<le> e" "e \<le> 63" "0 \<le> h" "h \<le> 63"
  shows "unreported e h =
    (if e \<le> h then Inr [e + 1..h]
     else if h = 0 then Inl Hang
     else Inr ([e + 1..64] @ [1..h]))"
proof -
  have next_e: "missing_next e = e + 1" using assms by simp
  consider "e = h" | "e < h" | "h < e" "h = 0" | "h < e" "1 \<le> h" using assms by linarith
  then show ?thesis
  proof cases
    case 2
    then show ?thesis
      using assms by (simp add: unreported_def next_e missing_loop_while missing_while_direct upto_rec2)
  next
    case 3
    then show ?thesis
      using assms by (simp add: unreported_def next_e missing_loop_while missing_while_hangs)
  next
    case 4
    then have "unreported e h = Inr ([e + 1..64] @ [1..h - 1] @ [h])"
      using assms by (simp add: unreported_def next_e missing_loop_while missing_while_wrap)
    also have "[1..h - 1] @ [h] = [1..h]" using 4 by (simp add: upto_rec2)
    finally show ?thesis using 4 by simp
  qed (simp add: unreported_def)
qed

text \<open>C21: which blocks the other station's last header \<open>ur_end\<close> leaves unreported, for all
  header numbers of the protocol. If it is behind the last header sent, they are the numbers in
  between, as intended. If the numbers have wrapped around, the loop of the code counts from 63 to
  64 and on to 1, so the list holds 64 where block 0 was meant. If the last header sent is 0, the
  loop never meets it and \<^verbatim>\<open>parseSTATUS\<close> does not return.\<close>

theorem unreported_blocks:
  assumes "0 \<le> e" "e \<le> 63" "0 \<le> h" "h \<le> 63"
  shows "unreported e h =
    (if e \<le> h then Inr [e + 1..h]
     else if h = 0 then Inl Hang
     else Inr ([e + 1..64] @ [1..h]))"
  using assms by (rule unreported_cases)

theorem unreported_blocks_witness:
  "unreported 2 5 = Inr [3, 4, 5] \<and> unreported 62 1 = Inr [63, 64, 1] \<and> unreported 63 0 = Inl Hang"
  using unreported_blocks [of 2 5] unreported_blocks [of 62 1] unreported_blocks [of 63 0]
  by (simp add: upto_rec1)

section \<open>What is kept for repetition\<close>

lemma call_hook_tx [simp]:
  "TxMissing (call_hook h e s) = TxMissing s" "TxBlocks (call_hook h e s) = TxBlocks s"
  "TxPending (call_hook h e s) = TxPending s" "LastHeader (call_hook h e s) = LastHeader s"
  "UrGoodHeader (call_hook h e s) = UrGoodHeader s" "TxTextQueue (call_hook h e s) = TxTextQueue s"
  by (simp_all add: call_hook_def emit_def)

lemma print_pending_fields [simp]:
  "TxMissing (print_pending g bs s) = TxMissing s" "LinkState (print_pending g bs s) = LinkState s"
  "LastHeader (print_pending g bs s) = LastHeader s" "hooks (print_pending g bs s) = hooks s"
  by (induction g bs s rule: print_pending.induct) (simp_all add: Let_def)

lemma print_pending_rest:
  "TxPending (print_pending g bs s) = tl (dropWhile (\<lambda>b. nbr b \<noteq> g) bs)"
  by (induction g bs s rule: print_pending.induct) (simp_all add: Let_def)

definition status_next :: "link_state \<Rightarrow> link_state" where
  "status_next l = (if l = WAITFORACK \<or> l = WAITING then ARQ_CONNECTED
                    else if l = DISCONNECTING then DOWN else l)"

lemma status_link_fields [simp]:
  "TxMissing (status_link s) = TxMissing s" "TxPending (status_link s) = TxPending s"
  "LinkState (status_link s) = status_next (LinkState s)"
  by (cases "LinkState s"; simp add: status_link_def status_next_def)+

lemma printSTATUS_tx [simp]:
  "TxMissing (printSTATUS m s) = TxMissing s" "TxPending (printSTATUS m s) = TxPending s"
  by (simp_all add: printSTATUS_def emit_def)

lemma keep_missing_fields [simp]:
  "TxMissing (keep_missing ms s) = filter (\<lambda>b. nbr b \<in> set ms) (TxMissing s)"
  "TxPending (keep_missing ms s) = TxPending s" "LinkState (keep_missing ms s) = LinkState s"
  "UrGoodHeader (keep_missing ms s) = UrGoodHeader s"
  by (auto simp: keep_missing_def Let_def)

lemma parseSTATUS_result:
  assumes "ARQ_CONNECTED \<le> LinkState s" "rcvPayload s = [c0, c1, c2] @ rest"
    and "unreported (schar c2 - 0x20) (LastHeader s) = Inr u"
  shows "\<exists>s'. parseSTATUS s = Inr s' \<and>
    TxMissing s' = filter (\<lambda>b. nbr b \<in> (\<lambda>c. schar c - 0x20) ` set rest \<union> set u) (TxMissing s) \<and>
    TxPending s' = tl (dropWhile (\<lambda>b. nbr b \<noteq> schar c1 - 0x20) (TxPending s)) \<and>
    LinkState s' = status_next (LinkState s)"
  using assms by (simp add: parseSTATUS_def Let_def reported_def print_pending_rest)

lemma parseSTATUS_hang:
  assumes "ARQ_CONNECTED \<le> LinkState s" "rcvPayload s = [c0, c1, c2] @ rest"
    and "unreported (schar c2 - 0x20) (LastHeader s) = Inl Hang"
  shows "parseSTATUS s = Inl Hang"
  using assms by (simp add: parseSTATUS_def Let_def reported_def)

text \<open>The report of a receiver, read back by the sender.\<close>

lemma schar_header [simp]: "0 \<le> n \<Longrightarrow> n < 64 \<Longrightarrow> schar (char_of_int (n + 32)) - 32 = n"
  by (simp add: schar_char_of_int)

lemma header_report_read:
  assumes "rx_rep T D ks r"
  obtains c0 c1 c2 rest where "header_report r = [c0, c1, c2] @ rest"
    and "schar c1 - 0x20 = good_of D"
    and "schar c2 - 0x20 = (if ks = [] then good_of D else int (last ks mod 64))"
    and "(\<lambda>c. schar c - 0x20) ` set rest = (\<lambda>k. int (k mod 64)) ` set (missing_idx D ks)"
proof (rule that)
  show "header_report r = [char_of_int (LastHeader r + 0x20), char_of_int (good_of D + 0x20),
      char_of_int ((if ks = [] then good_of D else int (last ks mod 64)) + 0x20)] @
      map (\<lambda>k. char_of_int (int (k mod 64) + 0x20)) (missing_idx D ks)"
    using assms by (simp add: header_report_def rx_rep_def)
  have "schar (char_of_int (int (k mod 64) + 32)) - 32 = int (k mod 64)" for k :: nat
    by (rule schar_header) simp_all
  then show "(\<lambda>c. schar c - 0x20) ` set (map (\<lambda>k. char_of_int (int (k mod 64) + 0x20)) (missing_idx D ks)) =
        (\<lambda>k. int (k mod 64)) ` set (missing_idx D ks)"
    by (simp add: image_image)
qed (simp_all add: good_of_range)

lemma small_mod: "k < 64 \<Longrightarrow> int (k mod 64) = int k" for k :: nat
  by simp

lemma good_of_small: "0 < D \<Longrightarrow> D \<le> 64 \<Longrightarrow> good_of D = int D - 1"
proof -
  assume "0 < D" "D \<le> 64"
  then have "D + 63 = (D - 1) + 64" "D - 1 < 64" by simp_all
  then have "(D + 63) mod 64 = D - 1" by (simp only: mod_add_self2 mod_less)
  then show ?thesis using \<open>0 < D\<close> by (simp add: good_of_def)
qed

text \<open>Selective repeat, both stations together. The sender has sent blocks \<open>0 .. N-1\<close>
  (up to 64 of them) and keeps \<open>out\<close> for repetition; the receiver has delivered the first
  \<open>D\<close> and holds \<open>ks\<close> beyond a gap, and at least one block has arrived. When the
  receiver's status report is parsed, the sender keeps exactly those blocks of \<open>out\<close> that
  have not arrived, in their order, and the link leaves the waiting states.\<close>

theorem status_keeps_lost_blocks:
  assumes "rx_rep T D ks r" "D \<le> N" "\<forall>k \<in> set ks. k < N" "0 < N" "N \<le> 64" "0 < D \<or> ks \<noteq> []"
    and "ARQ_CONNECTED \<le> LinkState s" "LastHeader s = int N - 1" "TxMissing s = map (blk T) out"
    and "\<forall>k \<in> set out. k < N" "rcvPayload s = header_report r"
  shows "\<exists>s'. parseSTATUS s = Inr s' \<and>
    TxMissing s' = map (blk T) (filter (\<lambda>k. k \<notin> {..<D} \<union> set ks) out) \<and>
    LinkState s' = status_next (LinkState s)"
proof -
  obtain c0 c1 c2 rest where rep: "header_report r = [c0, c1, c2] @ rest"
    "schar c2 - 0x20 = (if ks = [] then good_of D else int (last ks mod 64))"
    "(\<lambda>c. schar c - 0x20) ` set rest = (\<lambda>k. int (k mod 64)) ` set (missing_idx D ks)"
    using header_report_read [OF assms(1)] by metis
  define e where "e = (if ks = [] then int D - 1 else int (last ks))"
  have win: "in_window D ks" using assms(1) by (simp add: rx_rep_def)
  have lastN: "ks \<noteq> [] \<Longrightarrow> last ks < N" using assms(3) by simp
  have e: "schar c2 - 0x20 = e"
    using assms(2,5,6) lastN by (auto simp: rep(2) e_def good_of_small)
  have eN: "0 \<le> e" "e \<le> int N - 1"
    using assms(2,6) lastN by (auto simp: e_def)
  then have u: "unreported (schar c2 - 0x20) (LastHeader s) = Inr [e + 1..int N - 1]"
    using unreported_cases [of e "int N - 1"] assms(4,5) by (simp add: e assms(8))
  have kept: "int (k mod 64) \<in> (\<lambda>k. int (k mod 64)) ` set (missing_idx D ks) \<union> set [e + 1..int N - 1]
      \<longleftrightarrow> k \<notin> {..<D} \<union> set ks" if "k < N" for k
  proof -
    have le: "l \<le> last ks" if "l \<in> set ks" for l
      using win that by (cases ks rule: rev_cases) (auto simp: in_window_def sorted_wrt_append intro: less_imp_le)
    have "int (k mod 64) \<in> (\<lambda>k. int (k mod 64)) ` set (missing_idx D ks) \<longleftrightarrow> k \<in> set (missing_idx D ks)"
    proof -
      have "l < 64" if "l \<in> set (missing_idx D ks)" for l
        using that lastN assms(5) by (auto simp: missing_idx_def split: if_splits)
      then show ?thesis using \<open>k < N\<close> assms(5) by fastforce
    qed
    moreover have "int (k mod 64) \<in> set [e + 1..int N - 1] \<longleftrightarrow> e < int k"
      using that assms(5) by auto
    moreover have "k \<in> set (missing_idx D ks) \<or> e < int k \<longleftrightarrow> k \<notin> {..<D} \<union> set ks"
    proof (cases "ks = []")
      case True
      then show ?thesis by (auto simp: missing_idx_def e_def)
    next
      case False
      then have "last ks \<in> set ks" "D \<le> last ks" using win by (simp_all add: in_window_def)
      then have "D \<le> k \<Longrightarrow> k \<notin> set ks \<Longrightarrow> k < last ks \<or> last ks < k" by (metis linorder_neqE_nat)
      then show ?thesis using False le \<open>D \<le> last ks\<close> by (auto simp: missing_idx_def e_def dest: le)
    qed
    ultimately show ?thesis by blast
  qed
  have "filter (\<lambda>b. nbr b \<in> (\<lambda>k. int (k mod 64)) ` set (missing_idx D ks) \<union> set [e + 1..int N - 1])
          (map (blk T) out) = map (blk T) (filter (\<lambda>k. k \<notin> {..<D} \<union> set ks) out)"
    by (rule filter_map_cong) (use kept assms(10) in \<open>simp only: blk_simps\<close>)
  with parseSTATUS_result [OF assms(7) _ u, of c0 c1 rest] show ?thesis
    by (simp only: rep(1,3) assms(9,11)) blast
qed

text \<open>When nothing at all has arrived, the report says 63 for the last block received, which
  the sender takes for a block behind a wrap-around: with two or more blocks sent, block 0 is
  dropped from the blocks to repeat although it never arrived; with one block sent (the first
  block of a session, say), \<^verbatim>\<open>parseSTATUS\<close> does not return.\<close>

theorem status_before_first_block:
  assumes "rx_rep T 0 [] r" "0 < N" "N \<le> 64" "N \<noteq> 64"
    and "ARQ_CONNECTED \<le> LinkState s" "LastHeader s = int N - 1" "TxMissing s = map (blk T) out"
    and "\<forall>k \<in> set out. k < N" "rcvPayload s = header_report r"
  shows "if N = 1 then parseSTATUS s = Inl Hang
    else \<exists>s'. parseSTATUS s = Inr s' \<and> TxMissing s' = map (blk T) (filter (\<lambda>k. k \<noteq> 0) out)"
proof -
  obtain c0 c1 c2 rest where r: "header_report r = [c0, c1, c2] @ rest"
    "schar c1 - 0x20 = good_of 0"
    "schar c2 - 0x20 = (if [] = ([] :: nat list) then good_of 0 else int (last [] mod 64))"
    "(\<lambda>c. schar c - 0x20) ` set rest = (\<lambda>k. int (k mod 64)) ` set (missing_idx 0 [])"
    by (rule header_report_read [OF assms(1)])
  then have rep: "header_report r = [c0, c1, c2] @ rest" "schar c2 - 0x20 = 63"
    "(\<lambda>c. schar c - 0x20) ` set rest = {}"
    by (simp_all add: good_of_def missing_idx_def)
  have u: "unreported (schar c2 - 0x20) (LastHeader s) =
      (if N = 1 then Inl Hang else Inr ([64..64] @ [1..int N - 1]))"
    using unreported_cases [of 63 "int N - 1"] assms(2-4) by (auto simp: rep(2) assms(6))
  show ?thesis
  proof (cases "N = 1")
    case True
    with u parseSTATUS_hang [of s c0 c1 c2 rest] show ?thesis
      by (simp add: assms(5,9) rep(1))
  next
    case False
    have "filter (\<lambda>b. nbr b \<in> {} \<union> set ([64..64] @ [1..int N - 1])) (map (blk T) out) =
          map (blk T) (filter (\<lambda>k. k \<noteq> 0) out)"
      by (rule filter_map_cong) (use assms(3,8) in auto)
    moreover have "unreported (schar c2 - 0x20) (LastHeader s) = Inr ([64..64] @ [1..int N - 1])"
      using u False by simp
    note parseSTATUS_result [OF assms(5) _ this, of c0 c1 rest]
    ultimately show ?thesis using False
      by (simp only: rep(1,3) assms(7,9) if_False) blast
  qed
qed

section \<open>Examples of the two reports\<close>

definition sample_receiver :: arq where
  "sample_receiver = sample_link\<lparr>GoodHeader := 0, EndHeader := 2, MissingRxBlocks := [CHR 0x21],
     RxPending := [\<lparr>nbr = 2, blk_text = ''2''\<rparr>]\<rparr>"

lemma show_nat_digits_eval: "show_nat 0 = ''0''" "show_nat 1 = ''1''" "show_nat 2 = ''2''" "show_nat 3 = ''3''"
  by code_simp+

lemma sample_receiver_rep: "rx_rep show_nat 1 [2] sample_receiver"
proof -
  have "char_of_int (int (1 mod 64) + 0x20) = CHR 0x21" by code_simp
  then show ?thesis
    by (simp add: sample_receiver_def rx_rep_def good_of_def missing_idx_def blk_def
        show_nat_digits_eval upt_conv_Cons)
qed

theorem status_keeps_lost_blocks_witness:
  "\<exists>s'. parseSTATUS (sample_link\<lparr>LinkState := WAITING, LastHeader := 3,
       TxMissing := map (blk show_nat) [0, 1, 2, 3], rcvPayload := header_report sample_receiver\<rparr>) = Inr s' \<and>
     TxMissing s' = map (blk show_nat) [1, 3] \<and> LinkState s' = ARQ_CONNECTED"
  using status_keeps_lost_blocks [OF sample_receiver_rep, of 4
      "sample_link\<lparr>LinkState := WAITING, LastHeader := 3,
       TxMissing := map (blk show_nat) [0, 1, 2, 3], rcvPayload := header_report sample_receiver\<rparr>" "[0, 1, 2, 3]"]
  by (simp add: status_next_def)

theorem status_before_first_block_witness:
  "parseSTATUS (sample_link\<lparr>LastHeader := 0, TxMissing := [blk show_nat 0],
     rcvPayload := header_report sample_link\<rparr>) = Inl Hang"
  using status_before_first_block [OF sample_rep, of 1
      "sample_link\<lparr>LastHeader := 0, TxMissing := [blk show_nat 0],
        rcvPayload := header_report sample_link\<rparr>" show_nat "[0]"]
  by simp

end
