(* ===== verification/Arq_Transfer.thy ===== *)
theory Arq_Transfer
  imports Arq_Status
begin

text \<open>
  Sending text: how \<^verbatim>\<open>sendText\<close> cuts and numbers it, what \<^verbatim>\<open>sendblocks\<close> puts on the
  air, and the transfer from the text given to one station to the text received by the other.
\<close>

section \<open>Cutting and numbering\<close>

function chunks :: "nat \<Rightarrow> string \<Rightarrow> string list" where
  "chunks n xs = (if xs = [] \<or> n = 0 then [] else take n xs # chunks n (drop n xs))"
  by pat_completeness auto
termination
  by (relation "measure (\<lambda>(n, xs). length xs)") auto

declare chunks.simps [simp del]

lemma chunks_Nil [simp]: "chunks n [] = []"
  by (simp add: chunks.simps)

lemma concat_chunks: "0 < n \<Longrightarrow> concat (chunks n xs) = xs"
proof (induction n xs rule: chunks.induct)
  case (1 n xs)
  then show ?case by (cases "xs = []") (simp_all add: chunks.simps [of n xs])
qed

lemma chunks_lengths: "t \<in> set (chunks n xs) \<Longrightarrow> 0 < length t \<and> length t \<le> n"
proof (induction n xs rule: chunks.induct)
  case (1 n xs)
  then show ?case by (cases "xs = [] \<or> n = 0") (auto simp: chunks.simps [of n xs])
qed

lemma length_chunks: "0 < n \<Longrightarrow> length (chunks n xs) = (length xs + n - 1) div n"
proof (induction n xs rule: chunks.induct)
  case (1 n xs)
  show ?case
  proof (cases "xs = []")
    case True
    with 1 show ?thesis by simp
  next
    case False
    then have "length (chunks n xs) = Suc ((length xs - n + n - 1) div n)"
      using 1 by (subst chunks.simps) simp
    also have "\<dots> = (length xs + n - 1) div n"
    proof (cases "n \<le> length xs")
      case True
      have eq: "length xs + n - 1 = (length xs - 1) + n" using False by (cases xs) simp_all
      have "(length xs - 1 + n) div n = (length xs - 1) div n + 1"
        by (rule div_add_self2) (use "1.prems" in simp)
      moreover have "length xs - n + n - 1 = length xs - 1" using True by simp
      ultimately show ?thesis by (simp only: eq)
    next
      case short: False
      then have "(length xs + n - 1) div n = 1"
        using False "1.prems" by (intro div_nat_eqI) (cases xs; simp)+
      moreover have "(n - 1) div n = 0" using "1.prems" by simp
      ultimately show ?thesis using short by simp
    qed
    finally show ?thesis .
  qed
qed

text \<open>Numbering from the last number used.\<close>

fun number_blocks :: "int \<Rightarrow> string list \<Rightarrow> cTxtBlk list" where
  "number_blocks l [] = []"
| "number_blocks l (t # ts) =
     (let l = (l + 1) mod MAXCOUNT in \<lparr>nbr = l, blk_text = t\<rparr> # number_blocks l ts)"

fun last_number :: "int \<Rightarrow> string list \<Rightarrow> int" where
  "last_number l [] = l"
| "last_number l (t # ts) = last_number ((l + 1) mod MAXCOUNT) ts"

lemma number_blocks_texts [simp]: "map blk_text (number_blocks l ts) = ts"
  by (induction ts arbitrary: l) (simp_all add: Let_def)

lemma length_number_blocks [simp]: "length (number_blocks l ts) = length ts"
  by (induction ts arbitrary: l) (simp_all add: Let_def)

lemma number_blocks_blk:
  "number_blocks (good_of D) ts = map (blk (\<lambda>k. ts ! (k - D))) [D..<D + length ts]"
proof (induction ts arbitrary: D)
  case (Cons t ts)
  have next_nbr: "(good_of D + 1) mod MAXCOUNT = int (D mod 64)"
    using next_number [of D] good_of_range [of D] by (simp add: MAXCOUNT_def)
  have "number_blocks (good_of D) (t # ts) =
      \<lparr>nbr = int (D mod 64), blk_text = t\<rparr> # number_blocks (good_of (Suc D)) ts"
    by (simp add: next_nbr Let_def good_of_Suc)
  also have "number_blocks (good_of (Suc D)) ts =
      map (blk (\<lambda>k. (t # ts) ! (k - D))) [Suc D..<Suc D + length ts]"
    unfolding Cons.IH by (rule map_cong) (auto simp: blk_def nth_Cons' Suc_diff_Suc)
  finally show ?case by (simp add: upt_conv_Cons blk_def del: upt_Suc)
qed simp

lemma sendText_loop_result:
  assumes "0 < Bufferlength s"
  shows "sendText_loop xs s = Inr (let ts = chunks (nat (Bufferlength s)) xs in
     s\<lparr>TxBlocks := TxBlocks s @ number_blocks (Lastqueued s) ts,
       Lastqueued := last_number (Lastqueued s) ts,
       Blocks2Send := Blocks2Send s + int (length ts)\<rparr>)"
  using assms
proof (induction xs s rule: sendText_loop.induct)
  case (1 xs s)
  show ?case
  proof (cases "xs = ''''")
    case True
    then show ?thesis by (simp add: sendText_loop.simps [of "''''"] Let_def)
  next
    case False
    let ?n = "nat (Bufferlength s)"
    let ?s = "newblocknumber s"
    let ?b = "\<lparr>nbr = Lastqueued ?s, blk_text = take (buf_len ?s xs) xs\<rparr>"
    let ?s' = "?s\<lparr>TxBlocks := TxBlocks ?s @ [?b], Blocks2Send := Blocks2Send ?s + 1\<rparr>"
    have n: "buf_len ?s xs = ?n" "Bufferlength ?s' = Bufferlength s"
      using 1 by (simp_all add: buf_len_def newblocknumber_def)
    have ch: "chunks ?n xs = take ?n xs # chunks ?n (drop ?n xs)"
      using False 1 by (subst chunks.simps) simp
    have "sendText_loop xs s = sendText_loop (drop ?n xs) ?s'"
      using False 1 n by (simp add: sendText_loop.simps [of xs] Let_def)
    also have "\<dots> = Inr (let ts = chunks (nat (Bufferlength ?s')) (drop ?n xs) in
        ?s'\<lparr>TxBlocks := TxBlocks ?s' @ number_blocks (Lastqueued ?s') ts,
           Lastqueued := last_number (Lastqueued ?s') ts,
           Blocks2Send := Blocks2Send ?s' + int (length ts)\<rparr>)"
      using 1 False n by (metis less_irrefl)
    finally show ?thesis
      unfolding n ch by (simp add: newblocknumber_def Let_def n [unfolded newblocknumber_def])
  qed
qed

text \<open>C17: \<^verbatim>\<open>sendText\<close> on a connected link loses nothing: the queued blocks, put together, are
  the text; each carries 1 to \<^verbatim>\<open>Bufferlength\<close> characters; there are as few of them as
  possible; they are numbered consecutively modulo 64 behind the last number used.\<close>

theorem sendText_blocks:
  assumes "ARQ_CONNECTED \<le> LinkState s" "0 < Bufferlength s" "Lastqueued s = good_of D"
  shows "\<exists>s' ts. sendText xs s = Inr s' \<and> concat ts = xs \<and>
     (\<forall>t \<in> set ts. 0 < length t \<and> int (length t) \<le> Bufferlength s) \<and>
     length ts = (length xs + nat (Bufferlength s) - 1) div nat (Bufferlength s) \<and>
     TxBlocks s' = TxBlocks s @ map (blk (\<lambda>k. ts ! (k - D))) [D..<D + length ts] \<and>
     Blocks2Send s' = int (length ts)"
proof -
  let ?n = "nat (Bufferlength s)"
  let ?ts = "chunks ?n xs"
  have "sendText xs s = Inr (s\<lparr>Blocks2Send := int (length ?ts),
      TxBlocks := TxBlocks s @ number_blocks (Lastqueued s) ?ts, Lastqueued := last_number (Lastqueued s) ?ts\<rparr>)"
    using assms sendText_loop_result [of "s\<lparr>Blocks2Send := 0\<rparr>" xs] by (simp add: sendText_def Let_def)
  moreover have "\<forall>t \<in> set ?ts. 0 < length t \<and> int (length t) \<le> Bufferlength s"
    using chunks_lengths [of _ ?n xs] assms(2) by (simp add: le_nat_iff)
  ultimately show ?thesis
    using assms(2) by (intro exI [of _ ?ts] exI) (auto simp: concat_chunks length_chunks number_blocks_blk assms(3))
qed

lemma sample_lastqueued [simp]: "Lastqueued sample_link = 63"
  by (simp add: sample_link_def arq_new_def set_idtimer_def setBufferlength_def MAXCOUNT_def)

theorem sendText_blocks_witness:
  "\<exists>s' ts. sendText ''hello'' (sample_link\<lparr>Bufferlength := 2\<rparr>) = Inr s' \<and> concat ts = ''hello'' \<and>
     length ts = 3 \<and> map nbr (TxBlocks s') = [0, 1, 2]"
proof -
  let ?s = "sample_link\<lparr>Bufferlength := 2\<rparr>"
  have h: "ARQ_CONNECTED \<le> LinkState ?s" "0 < Bufferlength ?s" "Lastqueued ?s = good_of 0"
    by (simp_all add: good_of_def)
  obtain s' ts where r: "sendText ''hello'' ?s = Inr s'" "concat ts = ''hello''"
    "length ts = (length ''hello'' + nat (Bufferlength ?s) - 1) div nat (Bufferlength ?s)"
    "TxBlocks s' = TxBlocks ?s @ map (blk (\<lambda>k. ts ! (k - 0))) [0..<0 + length ts]"
    using sendText_blocks [OF h] by blast
  then have "length ts = 3" by simp
  then show ?thesis using r
    by (intro exI [of _ s'] exI [of _ ts]) (simp add: upt_conv_Cons)
qed

section \<open>Blocks on the air\<close>

text \<open>Block \<open>k\<close> as \<^verbatim>\<open>textFrame\<close> queues it for stream \<open>sid\<close>.\<close>

definition air_block :: "char \<Rightarrow> (nat \<Rightarrow> string) \<Rightarrow> nat \<Rightarrow> string" where
  "air_block sid T k = frame_text sid (char_of_int (int (k mod 64) + 0x20)) (T k) @ [SOH, CR, LF]"

lemma textFrame_air:
  "TxTextQueue (textFrame (blk T k) s) = TxTextQueue s @ air_block (UrStreamID s) T k"
  "UrStreamID (textFrame b s) = UrStreamID s"
  by (simp_all add: textFrame_def IdHeader_def newHeader_def addToTxQue_def checksum_def Let_def
      air_block_def frame_text_def crc.seal_def)

lemma fold_textFrame_air:
  "TxTextQueue (fold textFrame (map (blk T) ks) s) = TxTextQueue s @ concat (map (air_block (UrStreamID s) T) ks)"
  by (induction ks arbitrary: s) (simp_all add: textFrame_air)

text \<open>The type byte of a data block is none of the others and no control character.\<close>

lemma data_type:
  assumes "0 \<le> n" "n < 64"
  shows "char_of_int (n + 32) \<notin> {IDENT, CONREQ, CONACK, DISREQ, DISACK_blk, STATUS, POLL, ABORT_blk,
           ACKABORT_blk, UNPROTO_blk, TALK_blk, SOH, EOT, ACK}"
proof -
  have "(of_char (char_of_int (n + 32)) :: nat) = nat (n + 32)"
    using assms by (simp add: of_char_char_of_int)
  then have "(of_char (char_of_int (n + 32)) :: nat) \<in> {32..<96}" using assms by auto
  then show ?thesis by (auto simp: block_types control_chars)
qed

lemma dispatch_data:
  assumes "fID s \<notin> {IDENT, CONREQ, CONACK, DISREQ, DISACK_blk, STATUS, POLL, ABORT_blk,
           ACKABORT_blk, UNPROTO_blk, TALK_blk}"
  shows "dispatch s = branch ''DATA:'' (\<lambda>s. Inr (parseDATA s)) s"
  using assms by (simp add: dispatch_def Let_def)

lemma rx_rep_cong:
  "GoodHeader s' = GoodHeader s \<Longrightarrow> RxPending s' = RxPending s \<Longrightarrow> EndHeader s' = EndHeader s \<Longrightarrow>
   MissingRxBlocks s' = MissingRxBlocks s \<Longrightarrow> rx_rep T D ks s' = rx_rep T D ks s"
  by (simp add: rx_rep_def)

lemma after_dispatch_fields [simp]:
  "GoodHeader (after_dispatch f s) = GoodHeader s" "RxPending (after_dispatch f s) = RxPending s"
  "EndHeader (after_dispatch f s) = EndHeader s" "MissingRxBlocks (after_dispatch f s) = MissingRxBlocks s"
  "LinkState (after_dispatch f s) = LinkState s" "RxTextQueue (after_dispatch f s) = RxTextQueue s"
  by (simp_all add: after_dispatch_def Let_def rxdebug_def restart_timeout_def call_hook_def emit_def)

lemma rxdebug_fields [simp]:
  "GoodHeader (rxdebug f s) = GoodHeader s" "RxPending (rxdebug f s) = RxPending s"
  "EndHeader (rxdebug f s) = EndHeader s" "MissingRxBlocks (rxdebug f s) = MissingRxBlocks s"
  "LinkState (rxdebug f s) = LinkState s" "RxTextQueue (rxdebug f s) = RxTextQueue s"
  by (simp_all add: rxdebug_def call_hook_def emit_def)

text \<open>The receiver at the level of characters meets the contract of a block receiver.\<close>

definition air_rep :: "(nat \<Rightarrow> string) \<Rightarrow> char \<Rightarrow> nat \<Rightarrow> nat list \<Rightarrow> arq result \<Rightarrow> bool" where
  "air_rep T sid D ks r \<longleftrightarrow> clean [sid] \<and> (\<forall>k. clean (T k)) \<and>
     (\<exists>s. r = Inr s \<and> rx_rep T D ks s \<and> ARQ_CONNECTED \<le> LinkState s \<and> ready s)"

definition air_text :: "arq result \<Rightarrow> string" where
  "air_text r = (case r of Inl e \<Rightarrow> '''' | Inr s \<Rightarrow> RxTextQueue s)"

lemma rcv_data_block:
  assumes "clean [sid]" "clean (T k)" "rx_rep T D ks s" "ARQ_CONNECTED \<le> LinkState s" "ready s"
    and "D \<le> k" "k \<le> D + 62" "rx_accept k D ks = (D', ks')"
  shows "\<exists>s'. rcvChars (air_block sid T k) s = Inr s' \<and> rx_rep T D' ks' s' \<and> ready s' \<and>
    LinkState s' = LinkState s \<and> RxTextQueue s' = RxTextQueue s @ concat (map T [D..<D'])"
proof -
  let ?n = "int (k mod 64)" and ?t = "char_of_int (int (k mod 64) + 0x20)"
  let ?f = "frame_text sid ?t (T k)"
  define X where "X = loaded ?t (T k) (framed ?f s)"
  have t: "?t \<notin> {IDENT, CONREQ, CONACK, DISREQ, DISACK_blk, STATUS, POLL, ABORT_blk,
           ACKABORT_blk, UNPROTO_blk, TALK_blk, SOH, EOT, ACK}"
    using data_type [of ?n] by simp
  have X: "fID X = ?t" "rcvPayload X = T k" "LinkState X = LinkState s" "RxTextQueue X = RxTextQueue s"
    "rx_rep T D ks X"
    using assms(3) by (simp_all add: X_def loaded_def framed_def rx_rep_def)
  have num: "schar ?t - 0x20 = ?n" by (rule schar_header) simp_all
  have load: "X\<lparr>blknbr := ?n, rcvPayload := T k\<rparr> = X\<lparr>blknbr := ?n\<rparr>"
    by (simp add: X_def loaded_def)
  have disp: "dispatch X = Inr (rxdebug ''DATA:'' (data_in T k X))"
    using t by (simp add: dispatch_data X(1) branch_def data_in_def load num [simplified])
  have "rcvChars (air_block sid T k) s = Inr ((after_dispatch ?f (rxdebug ''DATA:'' (data_in T k X)))
      \<lparr>RxFrameQueue := leftover SOH, lastRxChar := LF\<rparr>)"
    unfolding air_block_def
    using rcv_intact [OF assms(5), of sid ?t "T k" SOH] assms(1,2) t disp by (simp add: X_def)
  moreover have "rx_rep T D' ks' (data_in T k X) \<and> LinkState (data_in T k X) = LinkState X \<and>
      RxTextQueue (data_in T k X) = RxTextQueue X @ concat (map T [D..<D'])"
    using assms(4,6-8) X(3,5) by (intro data_in_refines) simp_all
  ultimately show ?thesis
    by (simp add: ready_leftover X(3,4) rx_rep_def)
qed

interpretation air: window_receiver T "air_rep T sid" air_text
    "\<lambda>k r. andthen r (rcvChars (air_block sid T k))" for T sid
proof
  fix D ks r
  assume "air_rep T sid D ks r"
  then show "in_window D ks \<and> D \<notin> set ks" by (auto simp: air_rep_def rx_rep_def)
next
  fix D ks r k D' ks'
  assume rep: "air_rep T sid D ks r" and k: "D \<le> k" "k \<le> D + 62" "rx_accept k D ks = (D', ks')"
  then obtain s where s: "r = Inr s" "rx_rep T D ks s" "ARQ_CONNECTED \<le> LinkState s" "ready s"
    and cl: "clean [sid]" "\<forall>k. clean (T k)" by (auto simp: air_rep_def)
  obtain s' where "rcvChars (air_block sid T k) s = Inr s'" "rx_rep T D' ks' s'" "ready s'"
    "LinkState s' = LinkState s" "RxTextQueue s' = RxTextQueue s @ concat (map T [D..<D'])"
    using rcv_data_block [OF cl(1) _ s(2-4) k] cl(2) by blast
  then show "air_rep T sid D' ks' (andthen r (rcvChars (air_block sid T k))) \<and>
      air_text (andthen r (rcvChars (air_block sid T k))) = air_text r @ concat (map T [D..<D'])"
    using s cl by (simp add: air_rep_def air_text_def)
qed

lemma rcvChars_concat:
  "rcvChars (concat (map f ks)) s = fold (\<lambda>k r. andthen r (rcvChars (f k))) ks (Inr s)"
proof -
  have "fold (\<lambda>k r. andthen r (rcvChars (f k))) ks r = andthen r (rcvChars (concat (map f ks)))" for r
  proof (induction ks arbitrary: r)
    case Nil
    show ?case by (cases r) simp_all
  next
    case (Cons k ks)
    have "rcvChars (f k @ zs) = (\<lambda>s. andthen (rcvChars (f k) s) (rcvChars zs))" for zs
      by (rule ext) (rule rcvChars_append)
    then show ?case by (simp add: Cons.IH andthen_assoc)
  qed
  from this [of "Inr s"] show ?thesis by simp
qed

lemma mset_map_ex: "mset bs = mset (map f xs) \<Longrightarrow> \<exists>ys. mset ys = mset xs \<and> bs = map f ys"
proof (induction bs arbitrary: xs)
  case (Cons b bs)
  then have "b \<in> set (map f xs)" by (metis list.set_intros(1) mset_eq_setD)
  then obtain x where x: "x \<in> set xs" "b = f x" by auto
  then have xs: "mset xs = add_mset x (mset (remove1 x xs))" by simp
  have "image_mset f (mset xs) = add_mset (f x) (image_mset f (mset (remove1 x xs)))"
    by (subst xs) (simp only: image_mset_add_mset)
  then have "add_mset (f x) (mset bs) = add_mset (f x) (image_mset f (mset (remove1 x xs)))"
    using Cons.prems x(2) by (simp only: mset_map mset.simps)
  then have "mset bs = mset (map f (remove1 x xs))"
    unfolding mset_map by (simp only: add_mset_add_mset_same_iff)
  then obtain ys where ys: "mset ys = mset (remove1 x xs)" "bs = map f ys" using Cons.IH by blast
  then have "mset (x # ys) = mset xs" by (subst xs) (simp only: mset.simps)
  moreover have "b # bs = map f (x # ys)" using x(2) ys(2) by simp
  ultimately show ?case by (intro exI [of _ "x # ys"] conjI)
qed simp

lemma blk_index_perm:
  assumes "mset bs = mset (map (blk T) [D..<D + n])"
  obtains arr where "bs = map (blk T) arr" "distinct arr" "set arr = {D..<D + n}"
proof -
  from mset_map_ex [OF assms] obtain arr where a: "bs = map (blk T) arr" "mset arr = mset [D..<D + n]"
    by blast
  show thesis
  proof (rule that)
    show "distinct arr" using a(2) by (metis distinct_upt mset_eq_imp_distinct_iff)
    show "set arr = {D..<D + n}" using a(2) by (metis mset_eq_setD set_upt)
  qed (rule a(1))
qed

lemma clean_iff: "clean s \<longleftrightarrow> (\<forall>c \<in> set s. c \<noteq> SOH \<and> c \<noteq> EOT \<and> c \<noteq> ACK)"
  by (auto simp: clean_def)

text \<open>C1: text survives the air. One station cuts a text into blocks with \<^verbatim>\<open>sendText\<close> and queues
  the frames of these blocks, in any order; the other, connected and expecting the first of
  them, is fed the queued characters. If the text holds no \<open>SOH\<close>, \<open>EOT\<close> or \<open>ACK\<close>
  and makes at most 63 blocks, the receiver raises no fault and appends exactly the text to what
  it has received; it has nothing pending, reports nothing missing, and is ready for the next
  frame.\<close>

theorem text_survives_air:
  assumes "ARQ_CONNECTED \<le> LinkState s" "0 < Bufferlength s" "Lastqueued s = good_of D"
    and "TxBlocks s = []" "sendText xs s = Inr s1" "clean xs" "length (TxBlocks s1) \<le> 63"
    and "mset bs = mset (TxBlocks s1)" "TxTextQueue s0 = ''''" "clean [UrStreamID s0]"
    and "ARQ_CONNECTED \<le> LinkState r" "ready r" "rx_rep (\<lambda>k. '''') D [] r"
  shows "\<exists>r' T. rcvChars (TxTextQueue (fold textFrame bs s0)) r = Inr r' \<and>
     RxTextQueue r' = RxTextQueue r @ xs \<and> rx_rep T (D + length bs) [] r' \<and> ready r'"
proof -
  let ?ts = "chunks (nat (Bufferlength s)) xs"
  define T where "T k = (if D \<le> k \<and> k < D + length ?ts then ?ts ! (k - D) else '''')" for k
  have T_eq: "map (blk T) [D..<D + length ?ts] = map (blk (\<lambda>k. ?ts ! (k - D))) [D..<D + length ?ts]"
    by (rule map_cong) (auto simp: T_def blk_def)
  have "\<not> LinkState s < ARQ_CONNECTED" using assms(1) by (simp add: not_less)
  then have "sendText_loop xs (s\<lparr>Blocks2Send := 0\<rparr>) = Inr s1"
    using assms(5) by (simp add: sendText_def Let_def)
  then have "s1 = s\<lparr>TxBlocks := map (blk (\<lambda>k. ?ts ! (k - D))) [D..<D + length ?ts],
      Lastqueued := last_number (good_of D) ?ts, Blocks2Send := int (length ?ts)\<rparr>"
    using assms(2-4) sendText_loop_result [of "s\<lparr>Blocks2Send := 0\<rparr>" xs]
    by (simp add: number_blocks_blk Let_def)
  then have blocks: "TxBlocks s1 = map (blk T) [D..<D + length ?ts]"
    by (simp only: T_eq) simp
  have n: "length ?ts \<le> 63" using assms(7) by (simp add: blocks)
  obtain arr where arr: "bs = map (blk T) arr" "distinct arr" "set arr = {D..<D + length ?ts}"
    using blk_index_perm assms(8) unfolding blocks by metis
  have lenbs: "length bs = length ?ts" using assms(8) by (metis blocks length_map length_upt diff_add_inverse size_mset)
  have "concat ?ts = xs" using assms(2) by (intro concat_chunks) simp
  then have "set t \<subseteq> set xs" if "t \<in> set ?ts" for t using that by (metis UN_upper set_concat)
  then have "clean t" if "t \<in> set ?ts" for t using that assms(6) by (auto simp: clean_iff)
  then have cl: "\<forall>k. clean (T k)" by (auto simp: T_def)
  have rep: "rx_rep T D [] r"
    using assms(13) by (simp add: rx_rep_def missing_idx_def)
  have rep0: "air_rep T (UrStreamID s0) D [] (Inr r)"
    using assms(10-12) cl rep by (auto simp: air_rep_def)
  let ?r = "fold (\<lambda>k r. andthen r (rcvChars (air_block (UrStreamID s0) T k))) arr (Inr r)"
  have fin: "air_rep T (UrStreamID s0) (D + length ?ts) [] ?r"
    "air_text ?r = air_text (Inr r) @ concat (map T [D..<D + length ?ts])"
    using air.any_order [OF rep0 arr(2,3) n] by auto
  have "map T [D..<D + length ?ts] = ?ts"
    by (rule nth_equalityI) (auto simp: T_def)
  then have rxt: "air_text ?r = RxTextQueue r @ xs"
    using fin(2) \<open>concat ?ts = xs\<close> by (simp add: air_text_def)
  have "rcvChars (TxTextQueue (fold textFrame bs s0)) r = ?r"
    using assms(9) by (simp add: arr(1) fold_textFrame_air rcvChars_concat)
  with fin(1) rxt lenbs show ?thesis
    by (auto simp: air_rep_def air_text_def)
qed

theorem text_survives_air_witness:
  "\<exists>s1 r'. sendText ''hello'' (sample_link\<lparr>Bufferlength := 2\<rparr>) = Inr s1 \<and>
     rcvChars (TxTextQueue (fold textFrame (rev (TxBlocks s1)) sample_link)) sample_link = Inr r' \<and>
     RxTextQueue r' = ''hello''"
proof -
  let ?s = "sample_link\<lparr>Bufferlength := 2\<rparr>"
  let ?ts = "chunks 2 ''hello''"
  have s1: "sendText ''hello'' ?s = Inr (?s\<lparr>Blocks2Send := int (length ?ts),
      TxBlocks := number_blocks 63 ?ts, Lastqueued := last_number 63 ?ts\<rparr>)" (is "_ = Inr ?s1")
    using sendText_loop_result [of "?s\<lparr>Blocks2Send := 0\<rparr>" "''hello''"]
    by (simp add: sendText_def Let_def good_of_def)
  have "length (number_blocks 63 ?ts) \<le> 63" by code_simp
  moreover have "clean ''hello''" "clean [UrStreamID sample_link]" "TxTextQueue sample_link = ''''"
    by code_simp+
  moreover have "ready sample_link" by (simp add: ready_def SOH_def)
  ultimately obtain r' where
    "rcvChars (TxTextQueue (fold textFrame (rev (TxBlocks ?s1)) sample_link)) sample_link = Inr r'"
    "RxTextQueue r' = RxTextQueue sample_link @ ''hello''"
    using text_survives_air [OF _ _ _ _ s1, where D = 0 and bs = "rev (TxBlocks ?s1)"
        and ?s0.0 = sample_link and r = sample_link] sample_rep
    by (auto simp: good_of_def)
  then show ?thesis using s1 by simp
qed

end
