(* ===== verification/Arq_Runs.thy ===== *)
theory Arq_Runs
  imports Arq_Loop
begin

text \<open>
  All executions of the ARQ engine: the timer callback with whatever was received, the user's commands
  and the settings, in any order (\<open>arq_run\<close>). An invariant of the sending half, kept by every
  handler, command and timer run, the ones that fail included.
\<close>

section \<open>Executions\<close>

inductive arq_run :: "int \<Rightarrow> arq \<Rightarrow> bool" for W where
  start: "MAXHEADERS \<le> W \<Longrightarrow> arq_run W (arq_new idt hks)"
| timer: "arq_run W s \<Longrightarrow> arqloop rx s = Inr s' \<Longrightarrow> arq_run W s'"
| text_in: "arq_run W s \<Longrightarrow> sendText t s = Inr s' \<Longrightarrow> arq_run W s'"
| plain_in: "arq_run W s \<Longrightarrow> sendPlainText t s = Inr s' \<Longrightarrow> arq_run W s'"
| user_connect: "arq_run W s \<Longrightarrow> arq_run W (connect c s)"
| user_disconnect: "arq_run W s \<Longrightarrow> arq_run W (disconnect s)"
| user_abort: "arq_run W s \<Longrightarrow> arq_run W (abort s)"
| user_beacon: "arq_run W s \<Longrightarrow> arq_run W (sendBeacon t s)"
| restart: "arq_run W s \<Longrightarrow> arq_run W (restart_arq s)"
| set_call: "arq_run W s \<Longrightarrow> arq_run W (myCall c s)"
| set_headers: "arq_run W s \<Longrightarrow> n \<le> W \<Longrightarrow> arq_run W (setMaxHeaders n s)"
| set_exponent: "arq_run W s \<Longrightarrow> arq_run W (setExponent e s)"
| set_wait: "arq_run W s \<Longrightarrow> arq_run W (setWaitTime n s)"
| set_retries: "arq_run W s \<Longrightarrow> arq_run W (setRetries n s)"
| set_timeout: "arq_run W s \<Longrightarrow> arq_run W (setTimeout n s)"
| set_delay: "arq_run W s \<Longrightarrow> arq_run W (setTxDelay n s)"

definition number_ok :: "int \<Rightarrow> bool" where
  "number_ok n \<longleftrightarrow> 0 \<le> n \<and> n < MAXCOUNT"

definition tx_ok :: "int \<Rightarrow> arq \<Rightarrow> bool" where
  "tx_ok W s \<longleftrightarrow> number_ok (Lastqueued s) \<and> number_ok (LastHeader s) \<and>
     (\<forall>b \<in> set (TxBlocks s) \<union> set (TxMissing s). number_ok (nbr b)) \<and>
     maxheaders s \<le> W \<and> int (length (TxMissing s)) \<le> W \<and> 0 \<le> W"

text \<open>The part of the state the invariant reads.\<close>

definition tx_part :: "arq \<Rightarrow> int \<times> int \<times> cTxtBlk list \<times> cTxtBlk list \<times> int" where
  "tx_part s = (Lastqueued s, LastHeader s, TxBlocks s, TxMissing s, maxheaders s)"

lemma tx_ok_part: "tx_part s' = tx_part s \<Longrightarrow> tx_ok W s' = tx_ok W s"
  by (simp add: tx_ok_def tx_part_def)

named_theorems keeps \<open>what leaves the sender's part of the state alone\<close>

lemma keeps_hook [keeps]: "tx_part (call_hook h e s) = tx_part s" "tx_part (emit e s) = tx_part s" "tx_part (printSTATUS m s) = tx_part s"
  by (simp_all add: call_hook_def emit_def printSTATUS_def tx_part_def)

lemma keeps_frames [keeps]:
  "tx_part (identFrame s) = tx_part s" "tx_part (talkFrame t s) = tx_part s" "tx_part (ackAbortFrame s) = tx_part s"
  "tx_part (statFrame s) = tx_part s" "tx_part (disconnectFrame s) = tx_part s" "tx_part (disackFrame s) = tx_part s"
  "tx_part (abortFrame s) = tx_part s" "tx_part (beaconFrame t s) = tx_part s" "tx_part (pollFrame s) = tx_part s"
  "tx_part (textFrame b s) = tx_part s" 
  by (simp_all add: tx_part_def frame_defs frame_prims)

lemma ok_reset: "tx_ok W s \<Longrightarrow> tx_ok W (reset s)"
  by (simp add: tx_ok_def reset_defs number_ok_def MAXCOUNT_def)

lemma ok_clearTx: "tx_ok W s \<Longrightarrow> tx_ok W (clearTx s)"
  by (simp add: tx_ok_def clearTx_def)

lemma ok_drop: "tx_ok W s \<Longrightarrow> tx_ok W (drop_link s)"
  by (simp add: tx_ok_def drop_link_def call_hook_def emit_def Let_def)

lemma keeps_transmit [keeps]: "tx_part (transmitdata s) = tx_part s" "tx_part (txdebug m s) = tx_part s" "tx_part (rxdebug m s) = tx_part s"
  by (simp_all add: transmitdata_def txdebug_def rxdebug_def call_hook_def emit_def tx_part_def Let_def)

lemma ok_ackFrame: "tx_ok W s \<Longrightarrow> tx_ok W (ackFrame s)"
  by (simp add: tx_ok_def frame_defs frame_prims reset_defs number_ok_def MAXCOUNT_def)

lemma ok_connectFrame: "tx_ok W s \<Longrightarrow> tx_ok W (connectFrame s)"
  by (simp add: tx_ok_def frame_defs frame_prims reset_defs number_ok_def MAXCOUNT_def)

section \<open>Every operation keeps the invariant\<close>

lemmas tx_simps = tx_ok_def frame_defs frame_prims reset_defs number_ok_def MAXCOUNT_def call_hook_def

lemma ok_parse:
  assumes "tx_ok W s"
  shows "tx_ok W (parseIDENT s)" "tx_ok W (parseDISREQ s)" "tx_ok W (parseDISACK s)" "tx_ok W (parseABORT s)"
    "tx_ok W (parseACKABORT s)" "tx_ok W (parsePOLL s)" "tx_ok W (conreq_accept s)" "tx_ok W (conack_accept s)"
    "tx_ok W (newsession s)" "tx_ok W (status_link s)"
  using assms
  by (simp_all add: tx_simps parseIDENT_def parseDISREQ_def parseDISACK_def parseABORT_def parseACKABORT_def
    parsePOLL_def conreq_accept_def conack_accept_def newsession_def clearTx_def status_link_def split: link_state.split)

lemma ok_deliver: "tx_ok W (deliver bs s) = tx_ok W s"
  by (induction bs arbitrary: s) (simp_all add: tx_ok_def call_hook_def emit_def)

lemma ok_parseDATA: "tx_ok W s \<Longrightarrow> tx_ok W (parseDATA s)"
proof -
  assume ok: "tx_ok W s"
  have u: "tx_ok W (s\<lparr>EndHeader := e\<rparr>) = tx_ok W s" "tx_ok W (s\<lparr>MissingRxBlocks := ms\<rparr>) = tx_ok W s"
    "tx_ok W (printSTATUS m s) = tx_ok W s" for s e ms m
    by (simp_all add: tx_ok_def printSTATUS_def emit_def)
  show ?thesis using ok by (simp add: parseDATA_def Let_def u ok_deliver)
qed

lemma ok_print_pending: "tx_ok W (print_pending g bs s) = tx_ok W s"
  by (induction bs arbitrary: s) (simp_all add: tx_ok_def call_hook_def emit_def Let_def)

lemma ok_keep_missing: "tx_ok W s \<Longrightarrow> tx_ok W (keep_missing ms s)"
  by (auto simp: tx_ok_def keep_missing_def Let_def intro: order.trans [OF of_nat_mono [OF length_filter_le]])

text \<open>Handlers that may fail.\<close>

definition okr :: "int \<Rightarrow> arq result \<Rightarrow> bool" where
  "okr W r \<longleftrightarrow> (case r of Inl e \<Rightarrow> True | Inr s \<Rightarrow> tx_ok W s)"

lemma okr_simps [simp]: "okr W (Inl e)" "okr W (Inr s) \<longleftrightarrow> tx_ok W s"
  by (simp_all add: okr_def)

lemma okr_andthen: "(\<And>x. okr W (f x)) \<Longrightarrow> okr W (andthen r f)"
  by (cases r) simp_all

lemma okr_bind: "okr W r \<Longrightarrow> (\<And>s. tx_ok W s \<Longrightarrow> okr W (f s)) \<Longrightarrow> okr W (andthen r f)"
  by (cases r) simp_all

lemma tx_ok_updates:
  "tx_ok W (s\<lparr>UrCall := c\<rparr>) = tx_ok W s" "tx_ok W (s\<lparr>UrStreamID := i\<rparr>) = tx_ok W s"
  "tx_ok W (s\<lparr>UrBlockLengthChar := i\<rparr>) = tx_ok W s" "tx_ok W (s\<lparr>Timeout := n\<rparr>) = tx_ok W s"
  "tx_ok W (s\<lparr>Retries := n\<rparr>) = tx_ok W s" "tx_ok W (s\<lparr>RetryTime := n\<rparr>) = tx_ok W s"
  "tx_ok W (s\<lparr>UrLastHeader := n\<rparr>) = tx_ok W s" "tx_ok W (s\<lparr>UrGoodHeader := n\<rparr>) = tx_ok W s"
  "tx_ok W (s\<lparr>UrEndHeader := n\<rparr>) = tx_ok W s" "tx_ok W (s\<lparr>blknbr := n\<rparr>) = tx_ok W s"
  "tx_ok W (s\<lparr>retries := n\<rparr>) = tx_ok W s" "tx_ok W (s\<lparr>timeout := n\<rparr>) = tx_ok W s"
  "tx_ok W (s\<lparr>retrytime := n\<rparr>) = tx_ok W s" "tx_ok W (s\<lparr>tx2txdelay := n\<rparr>) = tx_ok W s"
  "tx_ok W (s\<lparr>rcvPayload := c\<rparr>) = tx_ok W s" "tx_ok W (s\<lparr>fID := i\<rparr>) = tx_ok W s"
  "tx_ok W (s\<lparr>RxFrameQueue := c\<rparr>) = tx_ok W s" "tx_ok W (s\<lparr>lastRxChar := i\<rparr>) = tx_ok W s"
  "tx_ok W (s\<lparr>Sending := n\<rparr>) = tx_ok W s" "tx_ok W (s\<lparr>LinkState := l\<rparr>) = tx_ok W s"
  "tx_ok W (s\<lparr>immediate := b\<rparr>) = tx_ok W s" "tx_ok W (s\<lparr>idtimer_left := n\<rparr>) = tx_ok W s"
  "tx_ok W (s\<lparr>arqstop := b\<rparr>) = tx_ok W s" "tx_ok W (s\<lparr>TxTextQueue := c\<rparr>) = tx_ok W s"
  "tx_ok W (s\<lparr>nbrbadTx := n\<rparr>) = tx_ok W s" "tx_ok W (s\<lparr>Blocks2Send := n\<rparr>) = tx_ok W s"
  "tx_ok W (s\<lparr>TxPending := bs\<rparr>) = tx_ok W s" "tx_ok W (s\<lparr>totalTx := n\<rparr>) = tx_ok W s"
  by (simp_all add: tx_ok_def)

lemma tx_ok_keeps:
  "tx_ok W (call_hook h e s) = tx_ok W s" "tx_ok W (emit e s) = tx_ok W s" "tx_ok W (printSTATUS m s) = tx_ok W s"
  "tx_ok W (transmitdata s) = tx_ok W s" "tx_ok W (rxdebug m s) = tx_ok W s" "tx_ok W (txdebug m s) = tx_ok W s"
  "tx_ok W (identFrame s) = tx_ok W s" "tx_ok W (talkFrame t s) = tx_ok W s" "tx_ok W (statFrame s) = tx_ok W s"
  "tx_ok W (disconnectFrame s) = tx_ok W s" "tx_ok W (abortFrame s) = tx_ok W s" "tx_ok W (beaconFrame t s) = tx_ok W s"
  "tx_ok W (pollFrame s) = tx_ok W s" "tx_ok W (textFrame b s) = tx_ok W s"
  by (rule tx_ok_part, simp add: keeps)+

lemma okr_status: "tx_ok W s \<Longrightarrow> okr W (parseSTATUS s)"
  unfolding parseSTATUS_def Let_def
  by (rule okr_bind) (auto simp: tx_ok_updates tx_ok_keeps ok_print_pending intro!: okr_andthen ok_keep_missing ok_parse)

lemma okr_globals: "tx_ok W s \<Longrightarrow> okr W (conreq_globals P p s)"
  unfolding conreq_globals_def Let_def by (auto simp: tx_ok_updates intro!: okr_andthen split: prod.splits)

lemma okr_accept: "tx_ok W s \<Longrightarrow> okr W (andthen (conreq_globals P p s) (\<lambda>s. Inr (conreq_accept s)))"
  by (rule okr_bind [OF okr_globals]) (simp_all add: ok_parse)

lemma okr_reads:
  "(\<And>x. okr W (f x)) \<Longrightarrow> okr W (andthen (substr P i n) f)" "(\<And>x. okr W (f x)) \<Longrightarrow> okr W (andthen (substr_upto P i q) f)"
  "(\<And>x. okr W (g x)) \<Longrightarrow> okr W (andthen (str_at P i) g)"
  by (rule okr_andthen, blast)+

lemma okr_conreq: "tx_ok W s \<Longrightarrow> okr W (parseCONREQ s)"
  unfolding parseCONREQ_def Let_def
  by (auto simp: tx_ok_updates okr_accept split: option.split if_split intro!: okr_reads)

lemma okr_conack: "tx_ok W s \<Longrightarrow> okr W (parseCONACK s)"
  unfolding parseCONACK_def Let_def
  by (auto simp: tx_ok_updates split: option.split if_split intro!: okr_andthen ok_parse)

lemma okr_unproto_talk: "tx_ok W s \<Longrightarrow> okr W (parseUNPROTO s)" "tx_ok W s \<Longrightarrow> okr W (parseTALK s)"
  unfolding parseUNPROTO_def parseTALK_def Let_def
  by (auto simp: tx_ok_updates tx_ok_keeps split: option.split intro!: okr_andthen)

lemma okr_branch:
  assumes "tx_ok W s" "\<And>s. tx_ok W s \<Longrightarrow> okr W (h s)"
  shows "okr W (branch tag h s)"
  unfolding branch_def by (rule okr_bind) (simp_all add: assms tx_ok_updates tx_ok_keeps)

lemma okr_dispatch: "tx_ok W s \<Longrightarrow> okr W (dispatch s)"
  unfolding dispatch_def Let_def
  by (simp add: okr_branch okr_status okr_conreq okr_conack okr_unproto_talk ok_parse ok_parseDATA)

definition okf :: "int \<Rightarrow> (int \<times> arq) result \<Rightarrow> bool" where
  "okf W r \<longleftrightarrow> (case r of Inl e \<Rightarrow> True | Inr (n, s) \<Rightarrow> tx_ok W s)"

lemma okf_frame: "tx_ok W s \<Longrightarrow> okf W (parseFrame f s)"
proof -
  have b: "okf W (andthen r g)" if "okr W r" "\<And>s. tx_ok W s \<Longrightarrow> okf W (g s)" for r g
    using that by (cases r) (simp_all add: okf_def)
  assume "tx_ok W s"
  then show ?thesis unfolding parseFrame_def Let_def
    by (auto simp: tx_ok_updates tx_ok_keeps okf_def [of W "Inr _"] intro!: b okr_unproto_talk okr_dispatch)
qed

lemma okr_rcvChar: "tx_ok W s \<Longrightarrow> okr W (rcvChar c s)"
proof -
  have b: "okr W (andthen r g)" if "okf W r" "\<And>n s. tx_ok W s \<Longrightarrow> okr W (g (n, s))" for r g
    using that by (cases r) (auto simp: okf_def)
  assume "tx_ok W s"
  then show ?thesis unfolding rcvChar_def Let_def
    by (auto simp: tx_ok_updates intro!: okr_bind b okf_frame)
qed

lemma okr_rcvChars: "tx_ok W s \<Longrightarrow> okr W (rcvChars cs s)"
  by (induction cs arbitrary: s) (auto intro!: okr_bind okr_rcvChar)

section \<open>Sending\<close>

lemma ok_send_new:
  "tx_ok W s \<Longrightarrow> \<forall>b \<in> set bs. number_ok (nbr b) \<Longrightarrow> n = int (length (TxMissing s)) \<Longrightarrow> tx_ok W (snd (send_new bs n s))"
proof (induction bs n s rule: send_new.induct)
  case (1 n s)
  then show ?case by (simp add: tx_ok_def)
next
  case (2 b bs n s)
  let ?s1 = "s\<lparr>TxMissing := TxMissing s @ [b], TxPending := TxPending s @ [b]\<rparr>"
  let ?s2 = "(textFrame b ?s1)\<lparr>LastHeader := nbr b\<rparr>"
  show ?case
  proof (cases "n < maxheaders s \<and> cmod (nbr b + 2) MAXCOUNT \<noteq> UrGoodHeader s")
    case False
    then have "snd (send_new (b # bs) n s) = s\<lparr>TxBlocks := b # bs\<rparr>" by auto
    then show ?thesis using 2(2,3) unfolding tx_ok_def by auto
  next
    case True
    have p: "tx_part (textFrame b ?s1) = tx_part ?s1" by (rule keeps)
    have "tx_ok W ?s2"
      using 2(2-4) True p unfolding tx_ok_def tx_part_def by auto
    moreover have "n + 1 = int (length (TxMissing ?s2))" using p 2(4) unfolding tx_part_def by simp
    ultimately have "tx_ok W (snd (send_new bs (n + 1) ?s2))" using 2(1) [OF _ _ refl refl refl] True 2(3) by simp
    then show ?thesis using True by (simp add: Let_def)
  qed
qed

lemma ok_fold_text: "tx_part (fold textFrame bs s) = tx_part s"
  by (induction bs arbitrary: s) (simp_all add: keeps)

lemma ok_sendblocks: "tx_ok W s \<Longrightarrow> tx_ok W (sendblocks s)"
proof -
  assume ok: "tx_ok W s"
  let ?s = "fold textFrame (TxMissing s) s"
  have p: "tx_part ?s = tx_part s" by (rule ok_fold_text)
  have "tx_ok W (snd (send_new (TxBlocks ?s) (int (length (TxMissing s))) ?s))"
    by (rule ok_send_new) (use ok p tx_ok_part [OF p] in \<open>auto simp: tx_ok_def tx_part_def\<close>)
  then show ?thesis
    unfolding sendblocks_def Let_def case_prod_beta by (simp add: tx_ok_updates tx_ok_keeps)
qed

lemma ok_retry:
  assumes "\<And>s. tx_ok W s \<Longrightarrow> tx_ok W (act s)" "tx_ok W s"
  shows "tx_ok W (retry_post act s)" "tx_ok W (retry_pre act s)"
  using assms by (simp_all add: retry_post_def retry_pre_def Let_def tx_ok_updates)

lemma ok_link_tick: "tx_ok W s \<Longrightarrow> tx_ok W (link_tick s)"
  unfolding link_tick_def restart_timeout_def Let_def
  by (auto simp: tx_ok_updates tx_ok_keeps ok_clearTx ok_sendblocks ok_ackFrame split: link_state.split intro!: ok_retry)

lemma ok_send_tick: "tx_ok W s \<Longrightarrow> tx_ok W (send_tick s)"
  unfolding send_tick_def keep_alive_def timeout_tick_def retries_tick_def Let_def
  by (simp add: tx_ok_updates tx_ok_keeps ok_link_tick ok_drop)

lemma okr_arqloop: "tx_ok W s \<Longrightarrow> okr W (arqloop rx s)"
  unfolding arqloop_def Let_def
  by (rule okr_bind) (auto simp: tx_ok_updates tx_ok_keeps ok_send_tick ok_drop intro!: okr_bind [OF okr_rcvChars])

lemma okr_sendText_loop: "tx_ok W s \<Longrightarrow> okr W (sendText_loop t s)"
proof (induction t s rule: sendText_loop.induct)
  case (1 t s)
  let ?s = "newblocknumber s"
  let ?s' = "?s\<lparr>TxBlocks := TxBlocks ?s @ [\<lparr>nbr = Lastqueued ?s, blk_text = take (buf_len ?s t) t\<rparr>], Blocks2Send := Blocks2Send ?s + 1\<rparr>"
  have "tx_ok W ?s'" using 1(2) by (auto simp: tx_ok_def newblocknumber_def number_ok_def MAXCOUNT_def)
  then show ?case
    using 1(1) [OF _ _ refl refl] 1(2) by (subst sendText_loop.simps) (simp add: Let_def)
qed

lemma okr_plain: "tx_ok W s \<Longrightarrow> okr W (sendPlainText t s)"
proof (induction t s rule: sendPlainText.induct)
  case (1 t s)
  then show ?case by (subst sendPlainText.simps) (simp add: tx_ok_keeps)
qed

lemma ok_commands:
  assumes "tx_ok W s"
  shows "tx_ok W (connect c s)" "tx_ok W (disconnect s)" "tx_ok W (abort s)" "tx_ok W (sendBeacon t s)" "tx_ok W (restart_arq s)"
    "tx_ok W (myCall c s)" "tx_ok W (setExponent e s)" "tx_ok W (setWaitTime n s)" "tx_ok W (setRetries n s)"
    "tx_ok W (setTimeout n s)" "tx_ok W (setTxDelay n s)"
proof -
  show "tx_ok W (connect c s)" using assms
    unfolding connect_def Let_def by (simp add: tx_ok_updates tx_ok_keeps ok_connectFrame)
  show "tx_ok W (sendBeacon t s)" using assms
    unfolding sendBeacon_def Let_def by (simp add: tx_ok_updates tx_ok_keeps addToTxQue_def)
qed (use assms in \<open>simp_all add: tx_ok_def disconnect_def abort_def restart_arq_def myCall_def setExponent_def
  setBufferlength_def setWaitTime_def setRetries_def setTimeout_def setTxDelay_def\<close>)

lemma arq_run_ok: "arq_run W s \<Longrightarrow> tx_ok W s"
proof (induction rule: arq_run.induct)
  case (start idt hks)
  then show ?case
    by (simp add: tx_ok_def arq_new_def set_idtimer_def setBufferlength_def number_ok_def MAXCOUNT_def MAXHEADERS_def)
next
  case (timer s rx s')
  then show ?case using okr_arqloop [of W s rx] by simp
next
  case (text_in s t s')
  then show ?case using okr_sendText_loop [of W "s\<lparr>Blocks2Send := 0\<rparr>" t] by (auto simp: sendText_def tx_ok_updates split: if_splits)
next
  case (plain_in s t s')
  then show ?case using okr_plain [of W s t] by simp
next
  case (set_headers s n)
  then show ?case by (simp add: tx_ok_def setMaxHeaders_def)
qed (simp_all add: ok_commands)

section \<open>The property\<close>

text \<open>C15: whatever arrives and whatever the user does, in every state the program reaches every block
  to be sent has a number from 0 to 63, at most \<open>W\<close> blocks (the largest window ever set) are
  waiting for their status report, and the fourth character of a text frame is between 0x20 and 0x5F:
  no data block looks like a control block, whose types are small letters.\<close>

theorem arq_sender_invariant:
  assumes "arq_run W s" "b \<in> set (TxBlocks s) \<union> set (TxMissing s)"
  shows "0 \<le> nbr b \<and> nbr b < 64 \<and> 0 \<le> LastHeader s \<and> LastHeader s < 64 \<and> int (length (TxMissing s)) \<le> W \<and>
    (of_char (Frame (textFrame b s) ! 3) :: nat) \<in> {0x20..0x5F}"
proof -
  have ok: "tx_ok W s" by (rule arq_run_ok [OF assms(1)])
  then have n: "0 \<le> nbr b" "nbr b < 64" using assms(2) by (auto simp: tx_ok_def number_ok_def MAXCOUNT_def)
  have "Frame (textFrame b s) ! 3 = char_of_int (nbr b + 0x20)"
    by (simp add: textFrame_def IdHeader_def newHeader_def addToTxQue_def Let_def)
  then have "(of_char (Frame (textFrame b s) ! 3) :: nat) = nat (nbr b + 0x20)"
    using n by (simp add: of_char_char_of_int)
  then show ?thesis using n ok by (auto simp: tx_ok_def number_ok_def MAXCOUNT_def)
qed

definition sample_sender :: arq where
  "sample_sender = (case sendText ''hi'' (disconnect (arq_new 0 (\<lambda>h. False))) of Inl e \<Rightarrow> arq_new 0 (\<lambda>h. False) | Inr s \<Rightarrow> s)"

lemma sample_sends: "sendText ''hi'' (disconnect (arq_new 0 (\<lambda>h. False))) = Inr sample_sender"
    "TxBlocks sample_sender = [\<lparr>nbr = 0, blk_text = ''hi''\<rparr>]"
  by (simp_all add: sample_sender_def sendText_def disconnect_def arq_new_def set_idtimer_def setBufferlength_def less_link_state_def
    sendText_loop.simps newblocknumber_def buf_len_def MAXCOUNT_def EXPONENT_def Let_def)

lemma arq_sender_invariant_witness:
  "(of_char (Frame (textFrame \<lparr>nbr = 0, blk_text = ''hi''\<rparr> sample_sender) ! 3) :: nat) \<in> {0x20..0x5F}"
proof -
  have "arq_run 8 (arq_new 0 (\<lambda>h. False))" by (rule arq_run.start) (simp add: MAXHEADERS_def)
  then have "arq_run 8 sample_sender" by (rule arq_run.text_in [OF arq_run.user_disconnect sample_sends(1)])
  then show ?thesis using arq_sender_invariant [of 8 sample_sender "\<lparr>nbr = 0, blk_text = ''hi''\<rparr>"] sample_sends(2) by simp
qed

end
