(* ===== verification/B64.thy ===== *)
theory B64
  imports Prelude "HOL-Library.Word"
begin

text \<open>
  Class \<^verbatim>\<open>base64\<close> of \<^verbatim>\<open>flarq-src/b64.cxx\<close>, with which flarq packs the files it sends.
  Bytes are 8-bit words. \<^verbatim>\<open>init\<close> leaves the last entry of \<^verbatim>\<open>dtable\<close> unset; its
  content is the parameter \<open>u\<close> of the decoder. The theorem states what decoding an
  encoded file gives: the file, with one NUL byte too many when its length is 2 modulo 3.
\<close>

unbundle bit_operations_syntax

type_synonym byte = "8 word"

definition LINELEN :: nat where "LINELEN = 72"

section \<open>Tables\<close>

text \<open>The loops of \<^verbatim>\<open>init\<close>, as assignments to consecutive entries.\<close>

definition etable :: "byte list" where
  "etable = (let
     t = replicate 256 (0 :: byte);
     t = fold (\<lambda>i t. t[i := of_nat (65 + i), i + 9 := of_nat (74 + i),
                       26 + i := of_nat (97 + i), 26 + i + 9 := of_nat (106 + i)]) [0..<9] t;
     t = fold (\<lambda>i t. t[i + 18 := of_nat (83 + i), 26 + i + 18 := of_nat (115 + i)]) [0..<8] t;
     t = fold (\<lambda>i t. t[52 + i := of_nat (48 + i)]) [0..<10] t
     in t[62 := 43, 63 := 47])"

definition dtable :: "byte \<Rightarrow> byte list" where
  "dtable u = (let
     t = replicate 255 (0x80 :: byte) @ [u];
     t = fold (\<lambda>i t. t[i := of_nat (0 + (i - 65))]) [65..<74] t;
     t = fold (\<lambda>i t. t[i := of_nat (9 + (i - 74))]) [74..<83] t;
     t = fold (\<lambda>i t. t[i := of_nat (18 + (i - 83))]) [83..<91] t;
     t = fold (\<lambda>i t. t[i := of_nat (26 + (i - 97))]) [97..<106] t;
     t = fold (\<lambda>i t. t[i := of_nat (35 + (i - 106))]) [106..<115] t;
     t = fold (\<lambda>i t. t[i := of_nat (44 + (i - 115))]) [115..<123] t;
     t = fold (\<lambda>i t. t[i := of_nat (52 + (i - 48))]) [48..<58] t
     in t[43 := 62, 47 := 63, 61 := 0])"

definition enc_sym :: "byte \<Rightarrow> byte" where
  "enc_sym w = etable ! unat w"

definition dec_sym :: "byte \<Rightarrow> byte \<Rightarrow> byte" where
  "dec_sym u c = dtable u ! unat c"

section \<open>Encoding\<close>

text \<open>\<open>n\<close> is the number of bytes read into \<^verbatim>\<open>igroup\<close>.\<close>

definition ogroup :: "nat \<Rightarrow> byte \<Rightarrow> byte \<Rightarrow> byte \<Rightarrow> byte list" where
  "ogroup n i0 i1 i2 =
     [enc_sym (drop_bit 2 i0),
      enc_sym (push_bit 4 (i0 AND 3) OR drop_bit 4 i1),
      (if n < 2 then 61 else enc_sym (push_bit 2 (i1 AND 0xF) OR drop_bit 6 i2)),
      enc_sym (i2 AND 0x3F)]"

text \<open>Appending one character; the state is the output and \<^verbatim>\<open>linelength\<close>.\<close>

definition put :: "bool \<Rightarrow> byte \<Rightarrow> byte list \<times> nat \<Rightarrow> byte list \<times> nat" where
  "put crlf c st = (let
     st = (if crlf \<and> LINELEN \<le> snd st then (fst st @ [10], 0) else st);
     st = (fst st @ [c], snd st)
     in if crlf then (fst st, snd st + 1) else st)"

fun encode_loop :: "bool \<Rightarrow> byte list \<Rightarrow> byte list \<times> nat \<Rightarrow> byte list \<times> nat" where
  "encode_loop crlf (a # b # c # xs) st = encode_loop crlf xs (fold (put crlf) (ogroup 3 a b c) st)"
| "encode_loop crlf [a, b] st = fold (put crlf) (ogroup 2 a b 0) st"
| "encode_loop crlf [a] st = fold (put crlf) (ogroup 1 a 0 0) st"
| "encode_loop crlf [] st = st"

definition encode :: "bool \<Rightarrow> byte list \<Rightarrow> byte list" where
  "encode crlf xs = (let out = fst (encode_loop crlf xs ([], 0)) in if crlf then out @ [10] else out)"

section \<open>Decoding\<close>

text \<open>Reading one symbol: the end of the input before it, or within white space; a byte that is
  no symbol; or the symbol, its value and the rest of the input.\<close>

datatype read = LengthError | Stop | Illegal | Sym byte byte "byte list"

fun skip_blank :: "byte \<Rightarrow> byte \<Rightarrow> byte list \<Rightarrow> read" where
  "skip_blank u c xs =
     (if c \<le> 32 then (case xs of [] \<Rightarrow> Stop | d # ds \<Rightarrow> skip_blank u d ds)
      else if dec_sym u c AND 0x80 \<noteq> 0 then Illegal
      else Sym c (dec_sym u c) xs)"

declare skip_blank.simps [simp del]

definition read_sym :: "byte \<Rightarrow> byte list \<Rightarrow> read" where
  "read_sym u xs = (case xs of [] \<Rightarrow> LengthError | c # cs \<Rightarrow> skip_blank u c cs)"

definition length_error :: "byte list" where
  "length_error = map (\<lambda>c. of_char c) (''b64 file length error.'' @ [CHR 0x0A])"

definition illegal_error :: "byte list" where
  "illegal_error = map (\<lambda>c. of_char c) (''Illegal character in b64 file.'' @ [CHR 0x0A])"

text \<open>The inner loop from \<open>i\<close> on, with the symbols and values read so far: a result to
  return, or a full group.\<close>

fun read_group :: "nat \<Rightarrow> byte \<Rightarrow> byte list \<Rightarrow> byte list \<Rightarrow> (byte \<times> byte) list \<Rightarrow>
    byte list + (byte \<times> byte) list \<times> byte list" where
  "read_group 0 u out xs got = Inr (got, xs)"
| "read_group (Suc k) u out xs got = (case read_sym u xs of
      LengthError \<Rightarrow> Inl length_error
    | Stop \<Rightarrow> Inl out
    | Illegal \<Rightarrow> Inl illegal_error
    | Sym a b ys \<Rightarrow> read_group k u out ys (got @ [(a, b)]))"

definition degroup :: "(byte \<times> byte) list \<Rightarrow> byte list" where
  "degroup g = (let a = map fst g; b = map snd g in
     [push_bit 2 (b ! 0) OR drop_bit 4 (b ! 1)] @
     (if a ! 2 \<noteq> 61 then [push_bit 4 (b ! 1) OR drop_bit 2 (b ! 2)] @
        (if a ! 3 \<noteq> 61 then [push_bit 6 (b ! 2) OR b ! 3] else [])
      else []))"

lemma skip_blank_shorter: "skip_blank u c xs = Sym a b ys \<Longrightarrow> length ys \<le> length xs"
  by (induction u c xs rule: skip_blank.induct)
    (subst (asm) (2) skip_blank.simps, auto split: if_splits list.splits)

lemma read_sym_shorter: "read_sym u xs = Sym a b ys \<Longrightarrow> length ys < length xs"
  by (auto simp: read_sym_def less_Suc_eq_le split: list.splits dest: skip_blank_shorter)

lemma read_group_shorter:
  "read_group k u out xs got = Inr (g, ys) \<Longrightarrow> length ys + k \<le> length xs"
proof (induction k arbitrary: xs got)
  case (Suc k)
  then obtain a b zs where z: "read_sym u xs = Sym a b zs" "read_group k u out zs (got @ [(a, b)]) = Inr (g, ys)"
    by (auto split: read.splits)
  then show ?case using Suc.IH [OF z(2)] read_sym_shorter [OF z(1)] by simp
qed simp

function decode_loop :: "byte \<Rightarrow> byte list \<Rightarrow> byte list \<Rightarrow> byte list" where
  "decode_loop u xs out =
     (if xs = [] then out
      else case read_group 4 u out xs [] of
        Inl r \<Rightarrow> r
      | Inr (g, ys) \<Rightarrow> decode_loop u ys (out @ degroup g))"
  by pat_completeness auto
termination
  by (relation "measure (\<lambda>(u, xs, out). length xs)") (auto dest: read_group_shorter)

declare decode_loop.simps [simp del]

definition decode :: "byte \<Rightarrow> byte list \<Rightarrow> byte list" where
  "decode u xs = decode_loop u xs []"

lemma etable_eq: "take 64 etable = map of_nat ([65..<91] @ [97..<123] @ [48..<58] @ [43, 47])"
  by code_simp
lemma dtable_eq: "dtable u = map of_nat (replicate 43 128 @ [62] @ replicate 3 128 @ [63] @ [52..<62] @ replicate 3 128 @ [0] @ replicate 3 128 @ [0..<26] @ replicate 6 128 @ [26..<52] @ replicate 132 128) @ [u]"
  by code_simp

definition is_sym :: "byte \<Rightarrow> byte \<Rightarrow> byte \<Rightarrow> bool" where
  "is_sym u c w \<longleftrightarrow> \<not> c \<le> 32 \<and> dec_sym u c = w \<and> w AND 0x80 = 0"

lemma sym_all: "\<forall>k \<in> set [0..<64]. let c = take 64 etable ! k in is_sym u c (of_nat k) \<and> c \<noteq> 61"
  unfolding etable_eq is_sym_def dec_sym_def dtable_eq by code_simp

lemma enc_sym_inverse:
  assumes "w < 64"
  shows "is_sym u (enc_sym w) w" "enc_sym w \<noteq> 61"
proof -
  have w: "unat w \<in> set [0..<64]" using assms by (simp add: word_less_nat_alt)
  have "take 64 etable ! unat w = etable ! unat w" using w by simp
  then show "is_sym u (enc_sym w) w" "enc_sym w \<noteq> 61"
    using bspec [OF sym_all w, of u] by (simp_all add: Let_def enc_sym_def)
qed

lemma byte_eqI:
  fixes a b :: byte
  assumes "bit a 0 = bit b 0" "bit a 1 = bit b 1" "bit a 2 = bit b 2" "bit a 3 = bit b 3"
    "bit a 4 = bit b 4" "bit a 5 = bit b 5" "bit a 6 = bit b 6" "bit a 7 = bit b 7"
  shows "a = b"
proof (rule bit_word_eqI)
  fix n :: nat
  assume "n < LENGTH(8)"
  then have "n \<in> {0, 1, 2, 3, 4, 5, 6, 7}" by auto
  then show "bit a n = bit b n" using assms by auto
qed

lemma masks: "(3 :: byte) = mask 2" "(0xF :: byte) = mask 4" "(0x3F :: byte) = mask 6"
  by code_simp+

lemma sextet_less: "take_bit 6 (w :: byte) = w \<Longrightarrow> w < 64"
proof -
  assume "take_bit 6 w = w"
  then have "take_bit 6 (unat w) = unat w" by (metis unsigned_take_bit_eq)
  then have "unat w < 64" using take_bit_nat_less_exp [of 6 "unat w"] by simp
  then show "w < 64" by (simp add: word_less_nat_alt)
qed

lemma bit_beyond_byte: "8 \<le> n \<Longrightarrow> \<not> bit (w :: byte) n"
  using bit_imp_le_length [of w n] by auto

lemma sextets:
  fixes i0 i1 i2 :: byte
  shows "drop_bit 2 i0 < 64" "push_bit 4 (i0 AND 3) OR drop_bit 4 i1 < 64"
    "push_bit 2 (i1 AND 0xF) OR drop_bit 6 i2 < 64" "i2 AND 0x3F < 64"
  unfolding masks by (intro sextet_less byte_eqI; simp add: bit_simps bit_beyond_byte)+

lemma octets:
  fixes i0 i1 i2 :: byte
  shows "push_bit 2 (drop_bit 2 i0) OR drop_bit 4 (push_bit 4 (i0 AND 3) OR drop_bit 4 i1) = i0"
   "push_bit 4 (push_bit 4 (i0 AND 3) OR drop_bit 4 i1) OR drop_bit 2 (push_bit 2 (i1 AND 0xF) OR drop_bit 6 i2) = i1"
   "push_bit 6 (push_bit 2 (i1 AND 0xF) OR drop_bit 6 i2) OR (i2 AND 0x3F) = i2"
  by (unfold masks; rule byte_eqI; simp add: bit_simps)+

text \<open>Group by group.\<close>

lemma read_sym_is_sym: "is_sym u c w \<Longrightarrow> read_sym u (c # cs) = Sym c w cs"
  by (simp add: read_sym_def skip_blank.simps [of u c] is_sym_def)

lemma read_sym_blank: "c \<le> 32 \<Longrightarrow> xs \<noteq> [] \<Longrightarrow> read_sym u (c # xs) = read_sym u xs"
  by (cases xs) (simp_all add: read_sym_def skip_blank.simps [of u c])

text \<open>White space never matters before a symbol.\<close>

definition vis :: "byte list \<Rightarrow> byte list" where
  "vis = filter (\<lambda>c. \<not> c \<le> 32)"

lemma vis_simps [simp]:
  "vis [] = []" "vis (c # cs) = (if c \<le> 32 then vis cs else c # vis cs)" "vis (xs @ ys) = vis xs @ vis ys"
  by (simp_all add: vis_def)

lemma read_sym_vis:
  assumes "vis xs = c # cs" "is_sym u c w"
  obtains ys where "read_sym u xs = Sym c w ys" "vis ys = cs"
proof -
  have "\<exists>ys. read_sym u xs = Sym c w ys \<and> vis ys = cs"
    using assms
  proof (induction xs)
    case (Cons d xs)
    show ?case
    proof (cases "d \<le> 32")
      case True
      then have "vis xs = c # cs" "xs \<noteq> []" using Cons.prems by auto
      then show ?thesis using Cons.IH Cons.prems(2) read_sym_blank [OF True] by simp
    next
      case False
      then show ?thesis using Cons.prems by (auto simp: read_sym_is_sym)
    qed
  qed simp
  then show thesis using that by blast
qed

lemma read_sym_only_blank: "vis xs = [] \<Longrightarrow> xs \<noteq> [] \<Longrightarrow> read_sym u xs = Stop"
proof (induction xs)
  case (Cons d xs)
  then have d: "d \<le> 32" "vis xs = []" by (auto split: if_splits)
  then show ?case
    using Cons.IH by (cases "xs = []") (simp_all add: read_sym_blank, simp add: read_sym_def skip_blank.simps)
qed simp

lemma read_group_vis:
  assumes "vis xs = map fst g @ rest" "\<forall>(c, w) \<in> set g. is_sym u c w"
  obtains ys where "read_group (length g) u out xs got = Inr (got @ g, ys)" "vis ys = rest"
proof -
  have "\<exists>ys. read_group (length g) u out xs got = Inr (got @ g, ys) \<and> vis ys = rest"
    using assms
  proof (induction g arbitrary: xs got)
    case (Cons p g)
    obtain c w where p: "p = (c, w)" by force
    then obtain zs where "read_sym u xs = Sym c w zs" "vis zs = map fst g @ rest"
      using read_sym_vis [of xs c "map fst g @ rest" u w] Cons.prems by auto
    then show ?case using Cons.IH [of zs "got @ [p]"] Cons.prems(2) p by simp
  qed simp
  then show thesis using that by blast
qed

text \<open>Decoding a text whose visible bytes are groups of four symbols.\<close>

lemma decode_loop_groups:
  assumes "vis xs = concat (map (map fst) gs)" "\<forall>g \<in> set gs. length g = 4 \<and> (\<forall>(c, w) \<in> set g. is_sym u c w)"
  shows "decode_loop u xs out = out @ concat (map degroup gs)"
  using assms
proof (induction gs arbitrary: xs out)
  case Nil
  then show ?case
    by (subst decode_loop.simps) (simp add: read_sym_only_blank numeral_eq_Suc)
next
  case (Cons g gs)
  obtain ys where "read_group 4 u out xs [] = Inr (g, ys)" "vis ys = concat (map (map fst) gs)"
    using read_group_vis [of xs g "concat (map (map fst) gs)" u out "[]"] Cons.prems by auto
  moreover have "xs \<noteq> []" using Cons.prems by auto
  ultimately show ?case using Cons by (simp add: decode_loop.simps [of u xs])
qed

text \<open>The groups of an encoded text, as symbols and values.\<close>

definition sextets_of :: "byte \<Rightarrow> byte \<Rightarrow> byte \<Rightarrow> byte list" where
  "sextets_of i0 i1 i2 = [drop_bit 2 i0, push_bit 4 (i0 AND 3) OR drop_bit 4 i1,
     push_bit 2 (i1 AND 0xF) OR drop_bit 6 i2, i2 AND 0x3F]"

definition group_syms :: "nat \<Rightarrow> byte \<Rightarrow> byte \<Rightarrow> byte \<Rightarrow> (byte \<times> byte) list" where
  "group_syms n i0 i1 i2 = (let v = sextets_of i0 i1 i2; g = map (\<lambda>w. (enc_sym w, w)) v
     in if n < 2 then g[2 := (61, 0)] else g)"

lemma group_syms_ogroup: "map fst (group_syms n i0 i1 i2) = ogroup n i0 i1 i2"
  by (simp add: group_syms_def sextets_of_def ogroup_def Let_def)

lemma pad_is_sym: "is_sym u 61 0"
  unfolding is_sym_def dec_sym_def dtable_eq by code_simp

lemma group_ok:
  assumes "w0 < 64" "w1 < 64" "w2 < 64" "w3 < 64"
  shows "\<forall>(c, w) \<in> set (map (\<lambda>w. (enc_sym w, w)) [w0, w1, w2, w3]). is_sym u c w"
    "\<forall>(c, w) \<in> set ((map (\<lambda>w. (enc_sym w, w)) [w0, w1, w2, w3])[2 := (61, 0)]). is_sym u c w"
  using assms by (simp_all add: enc_sym_inverse pad_is_sym numeral_2_eq_2)

lemma group_syms_ok: "length (group_syms n i0 i1 i2) = 4 \<and> (\<forall>(c, w) \<in> set (group_syms n i0 i1 i2). is_sym u c w)"
  using group_ok [OF sextets(1) [of i0] sextets(2) [of i0 i1] sextets(3) [of i1 i2] sextets(4) [of i2]]
  unfolding group_syms_def sextets_of_def Let_def by (cases "n < 2") (simp_all only: if_True if_False, simp_all)

lemma degroup_map:
  assumes "w2 < 64" "w3 < 64"
  shows "degroup (map (\<lambda>w. (enc_sym w, w)) [w0, w1, w2, w3]) =
     [push_bit 2 w0 OR drop_bit 4 w1, push_bit 4 w1 OR drop_bit 2 w2, push_bit 6 w2 OR w3]"
    "degroup ((map (\<lambda>w. (enc_sym w, w)) [w0, w1, w2, w3])[2 := (61, 0)]) = [push_bit 2 w0 OR drop_bit 4 w1]"
  using assms by (simp_all add: degroup_def Let_def enc_sym_inverse numeral_2_eq_2 numeral_3_eq_3)

lemma degroup_syms:
  "degroup (group_syms 3 a b c) = [a, b, c]" "degroup (group_syms 2 a b 0) = [a, b, 0]"
  "degroup (group_syms 1 a 0 0) = [a]"
proof -
  have "degroup (group_syms n x y z) = (if n < 2 then [x] else [x, y, z])" for n x y z
    unfolding group_syms_def sextets_of_def Let_def
    by (cases "n < 2") (simp_all only: if_True if_False degroup_map [OF sextets(3,4)] octets)
  then show "degroup (group_syms 3 a b c) = [a, b, c]" "degroup (group_syms 2 a b 0) = [a, b, 0]"
    "degroup (group_syms 1 a 0 0) = [a]" by simp_all
qed

fun groups :: "byte list \<Rightarrow> (byte \<times> byte) list list" where
  "groups (a # b # c # xs) = group_syms 3 a b c # groups xs"
| "groups [a, b] = [group_syms 2 a b 0]"
| "groups [a] = [group_syms 1 a 0 0]"
| "groups [] = []"

lemma groups_ok: "\<forall>g \<in> set (groups xs). length g = 4 \<and> (\<forall>(c, w) \<in> set g. is_sym u c w)"
  by (induction xs rule: groups.induct) (simp_all add: group_syms_ok)

lemma degroup_groups:
  "concat (map degroup (groups xs)) = xs @ (if length xs mod 3 = 2 then [0] else [])"
proof (induction xs rule: groups.induct)
  case (1 a b c xs)
  have "length (a # b # c # xs) = length xs + 3" by simp
  then have "length (a # b # c # xs) mod 3 = length xs mod 3" by (metis mod_add_self2)
  with 1 show ?case by (simp only: groups.simps list.map concat.simps degroup_syms append_Cons append_Nil)
qed (simp_all add: degroup_syms degroup_syms(3) [unfolded One_nat_def])

text \<open>The lines of the output.\<close>

lemma vis_put: "\<not> c \<le> 32 \<Longrightarrow> vis (fst (put crlf c st)) = vis (fst st) @ [c]"
  by (simp add: put_def Let_def)

lemma vis_puts: "\<forall>c \<in> set cs. \<not> c \<le> 32 \<Longrightarrow> vis (fst (fold (put crlf) cs st)) = vis (fst st) @ cs"
  by (induction cs arbitrary: st) (simp_all add: vis_put)

lemma ogroup_visible: "\<forall>c \<in> set (ogroup n a b c'). \<not> c \<le> 32"
  using group_syms_ok [of n a b c' 0] unfolding group_syms_ogroup [symmetric]
  by (auto simp: is_sym_def)

lemma vis_encode_loop:
  "vis (fst (encode_loop crlf xs st)) = vis (fst st) @ concat (map (map fst) (groups xs))"
  by (induction crlf xs st rule: encode_loop.induct)
    (simp_all add: vis_puts ogroup_visible group_syms_ogroup)

lemma vis_encode: "vis (encode crlf xs) = concat (map (map fst) (groups xs))"
  by (simp add: encode_def Let_def vis_encode_loop)

text \<open>C16: what comes out of the decoder when a file is encoded, with or without line breaks, and
  decoded again: the file itself when its length is not 2 modulo 3. Otherwise one
  NUL byte more, because the encoder writes no second padding character for such a tail.\<close>

theorem decode_encode:
  "decode u (encode crlf xs) = xs @ (if length xs mod 3 = 2 then [0] else [])"
  using decode_loop_groups [OF vis_encode groups_ok]
  by (simp add: decode_def degroup_groups)

text \<open>Lengths of the lines of a text; \<open>n\<close> is the length of the current line so far.\<close>

fun line_lengths :: "byte list \<Rightarrow> nat \<Rightarrow> nat list" where
  "line_lengths [] n = [n]"
| "line_lengths (c # cs) n = (if c = 10 then n # line_lengths cs 0 else line_lengths cs (Suc n))"

lemma line_lengths_nonempty [simp]: "line_lengths xs n \<noteq> []"
  by (induction xs n rule: line_lengths.induct) auto

lemma line_lengths_snoc:
  "line_lengths (xs @ [c]) n =
     (if c = 10 then line_lengths xs n @ [0]
      else butlast (line_lengths xs n) @ [Suc (last (line_lengths xs n))])"
  by (induction xs n rule: line_lengths.induct) auto

definition short_lines :: "byte list \<times> nat \<Rightarrow> bool" where
  "short_lines st \<longleftrightarrow> (\<forall>l \<in> set (line_lengths (fst st) 0). l \<le> LINELEN) \<and>
     last (line_lengths (fst st) 0) = snd st"

lemma short_lines_put:
  assumes "short_lines st" "\<not> c \<le> 32"
  shows "short_lines (put True c st)"
proof -
  have c: "c \<noteq> 10" using assms(2) by auto
  have "snd st \<le> LINELEN" using assms(1) unfolding short_lines_def by (metis last_in_set line_lengths_nonempty)
  moreover have "\<forall>l \<in> set (butlast (line_lengths (fst st) 0)). l \<le> LINELEN"
    using assms(1) by (auto simp: short_lines_def dest: in_set_butlastD)
  ultimately show ?thesis
    using assms(1) c by (auto simp: short_lines_def put_def Let_def line_lengths_snoc LINELEN_def)
qed

lemma short_lines_puts: "short_lines st \<Longrightarrow> \<forall>c \<in> set cs. \<not> c \<le> 32 \<Longrightarrow> short_lines (fold (put True) cs st)"
  by (induction cs arbitrary: st) (simp_all add: short_lines_put)

lemma short_lines_loop: "short_lines st \<Longrightarrow> short_lines (encode_loop True xs st)"
  by (induction True xs st rule: encode_loop.induct)
    (simp_all add: short_lines_puts ogroup_visible)

text \<open>An encoder made with line breaks writes no line of more than 72 characters, and the
  text it writes ends with a line end.\<close>

theorem encode_short_lines:
  "list_all (\<lambda>l. l \<le> LINELEN) (line_lengths (encode True xs) 0) \<and> last (encode True xs) = 10"
proof -
  have "short_lines (encode_loop True xs ([], 0))"
    by (rule short_lines_loop) (simp add: short_lines_def)
  then show ?thesis
    by (auto simp: encode_def Let_def list_all_iff short_lines_def line_lengths_snoc)
qed

end
