(* ===== verification/Varicode.thy ===== *)
theory Varicode
  imports Prelude "HOL-Library.Word"
begin

text \<open>
  The variable length character codes of the keyboard modes: PSK varicode
  (\<^verbatim>\<open>psk/pskvaricode.cxx\<close>), the IZ8BLY code of the MFSK modes
  (\<^verbatim>\<open>mfsk/mfskvaricode.cxx\<close>) and its THOR extension (\<^verbatim>\<open>thor/thorvaricode.cxx\<close>), with
  the senders that spell a character as bits and the receivers that find it again in a bit
  stream: \<^verbatim>\<open>psk::tx_char\<close>, \<^verbatim>\<open>psk::rx_bit\<close>, \<^verbatim>\<open>psk::rx_bit2\<close>, \<^verbatim>\<open>mfsk::sendchar\<close>,
  \<^verbatim>\<open>mfsk::recvbit\<close>, and the corresponding lines of \<^verbatim>\<open>thor.cxx\<close>. Shift registers are
  32-bit words. The bits travel through filters, error correction and the
  air in the program; here they go from sender to receiver, with any noise in front.
  Locale \<open>serial_code\<close> is what the three codes have in common.
\<close>

unbundle bit_operations_syntax

section \<open>Tables\<close>

definition varicodetab1 :: "string list" where
  "varicodetab1 = [
    ''1010101011'', ''1011011011'', ''1011101101'', ''1101110111'', ''1011101011'', ''1101011111'',
    ''1011101111'', ''1011111101'', ''1011111111'', ''11101111'', ''11101'', ''1101101111'',
    ''1011011101'', ''11111'', ''1101110101'', ''1110101011'', ''1011110111'', ''1011110101'',
    ''1110101101'', ''1110101111'', ''1101011011'', ''1101101011'', ''1101101101'', ''1101010111'',
    ''1101111011'', ''1101111101'', ''1110110111'', ''1101010101'', ''1101011101'', ''1110111011'',
    ''1011111011'', ''1101111111'', ''1'', ''111111111'', ''101011111'', ''111110101'',
    ''111011011'', ''1011010101'', ''1010111011'', ''101111111'', ''11111011'', ''11110111'',
    ''101101111'', ''111011111'', ''1110101'', ''110101'', ''1010111'', ''110101111'',
    ''10110111'', ''10111101'', ''11101101'', ''11111111'', ''101110111'', ''101011011'',
    ''101101011'', ''110101101'', ''110101011'', ''110110111'', ''11110101'', ''110111101'',
    ''111101101'', ''1010101'', ''111010111'', ''1010101111'', ''1010111101'', ''1111101'',
    ''11101011'', ''10101101'', ''10110101'', ''1110111'', ''11011011'', ''11111101'',
    ''101010101'', ''1111111'', ''111111101'', ''101111101'', ''11010111'', ''10111011'',
    ''11011101'', ''10101011'', ''11010101'', ''111011101'', ''10101111'', ''1101111'',
    ''1101101'', ''101010111'', ''110110101'', ''101011101'', ''101110101'', ''101111011'',
    ''1010101101'', ''111110111'', ''111101111'', ''111111011'', ''1010111111'', ''101101101'',
    ''1011011111'', ''1011'', ''1011111'', ''101111'', ''101101'', ''11'',
    ''111101'', ''1011011'', ''101011'', ''1101'', ''111101011'', ''10111111'',
    ''11011'', ''111011'', ''1111'', ''111'', ''111111'', ''110111111'',
    ''10101'', ''10111'', ''101'', ''110111'', ''1111011'', ''1101011'',
    ''11011111'', ''1011101'', ''111010101'', ''1010110111'', ''110111011'', ''1010110101'',
    ''1011010111'', ''1110110101'', ''1110111101'', ''1110111111'', ''1111010101'', ''1111010111'',
    ''1111011011'', ''1111011101'', ''1111011111'', ''1111101011'', ''1111101101'', ''1111101111'',
    ''1111110101'', ''1111110111'', ''1111111011'', ''1111111101'', ''1111111111'', ''10101010101'',
    ''10101010111'', ''10101011011'', ''10101011101'', ''10101011111'', ''10101101011'', ''10101101101'',
    ''10101101111'', ''10101110101'', ''10101110111'', ''10101111011'', ''10101111101'', ''10101111111'',
    ''10110101011'', ''10110101101'', ''10110101111'', ''10110110101'', ''10110110111'', ''10110111011'',
    ''10110111101'', ''10110111111'', ''10111010101'', ''10111010111'', ''10111011011'', ''10111011101'',
    ''10111011111'', ''10111101011'', ''10111101101'', ''10111101111'', ''10111110101'', ''10111110111'',
    ''10111111011'', ''10111111101'', ''10111111111'', ''11010101011'', ''11010101101'', ''11010101111'',
    ''11010110101'', ''11010110111'', ''11010111011'', ''11010111101'', ''11010111111'', ''11011010101'',
    ''11011010111'', ''11011011011'', ''11011011101'', ''11011011111'', ''11011101011'', ''11011101101'',
    ''11011101111'', ''11011110101'', ''11011110111'', ''11011111011'', ''11011111101'', ''11011111111'',
    ''11101010101'', ''11101010111'', ''11101011011'', ''11101011101'', ''11101011111'', ''11101101011'',
    ''11101101101'', ''11101101111'', ''11101110101'', ''11101110111'', ''11101111011'', ''11101111101'',
    ''11101111111'', ''11110101011'', ''11110101101'', ''11110101111'', ''11110110101'', ''11110110111'',
    ''11110111011'', ''11110111101'', ''11110111111'', ''11111010101'', ''11111010111'', ''11111011011'',
    ''11111011101'', ''11111011111'', ''11111101011'', ''11111101101'', ''11111101111'', ''11111110101'',
    ''11111110111'', ''11111111011'', ''11111111101'', ''11111111111'', ''101010101011'', ''101010101101'',
    ''101010101111'', ''101010110101'', ''101010110111'', ''101010111011'', ''101010111101'', ''101010111111'',
    ''101011010101'', ''101011010111'', ''101011011011'', ''101011011101'', ''101011011111'', ''101011101011'',
    ''101011101101'', ''101011101111'', ''101011110101'', ''101011110111'', ''101011111011'', ''101011111101'',
    ''101011111111'', ''101101010101'', ''101101010111'', ''101101011011'']"

definition varicodetab2 :: "nat list" where
  "varicodetab2 = [
    0x2AB, 0x2DB, 0x2ED, 0x377, 0x2EB, 0x35F, 0x2EF, 0x2FD, 0x2FF, 0x0EF, 0x01D, 0x36F,
    0x2DD, 0x01F, 0x375, 0x3AB, 0x2F7, 0x2F5, 0x3AD, 0x3AF, 0x35B, 0x36B, 0x36D, 0x357,
    0x37B, 0x37D, 0x3B7, 0x355, 0x35D, 0x3BB, 0x2FB, 0x37F, 0x001, 0x1FF, 0x15F, 0x1F5,
    0x1DB, 0x2D5, 0x2BB, 0x17F, 0x0FB, 0x0F7, 0x16F, 0x1DF, 0x075, 0x035, 0x057, 0x1AF,
    0x0B7, 0x0BD, 0x0ED, 0x0FF, 0x177, 0x15B, 0x16B, 0x1AD, 0x1AB, 0x1B7, 0x0F5, 0x1BD,
    0x1ED, 0x055, 0x1D7, 0x2AF, 0x2BD, 0x07D, 0x0EB, 0x0AD, 0x0B5, 0x077, 0x0DB, 0x0FD,
    0x155, 0x07F, 0x1FD, 0x17D, 0x0D7, 0x0BB, 0x0DD, 0x0AB, 0x0D5, 0x1DD, 0x0AF, 0x06F,
    0x06D, 0x157, 0x1B5, 0x15D, 0x175, 0x17B, 0x2AD, 0x1F7, 0x1EF, 0x1FB, 0x2BF, 0x16D,
    0x2DF, 0x00B, 0x05F, 0x02F, 0x02D, 0x003, 0x03D, 0x05B, 0x02B, 0x00D, 0x1EB, 0x0BF,
    0x01B, 0x03B, 0x00F, 0x007, 0x03F, 0x1BF, 0x015, 0x017, 0x005, 0x037, 0x07B, 0x06B,
    0x0DF, 0x05D, 0x1D5, 0x2B7, 0x1BB, 0x2B5, 0x2D7, 0x3B5, 0x3BD, 0x3BF, 0x3D5, 0x3D7,
    0x3DB, 0x3DD, 0x3DF, 0x3EB, 0x3ED, 0x3EF, 0x3F5, 0x3F7, 0x3FB, 0x3FD, 0x3FF, 0x555,
    0x557, 0x55B, 0x55D, 0x55F, 0x56B, 0x56D, 0x56F, 0x575, 0x577, 0x57B, 0x57D, 0x57F,
    0x5AB, 0x5AD, 0x5AF, 0x5B5, 0x5B7, 0x5BB, 0x5BD, 0x5BF, 0x5D5, 0x5D7, 0x5DB, 0x5DD,
    0x5DF, 0x5EB, 0x5ED, 0x5EF, 0x5F5, 0x5F7, 0x5FB, 0x5FD, 0x5FF, 0x6AB, 0x6AD, 0x6AF,
    0x6B5, 0x6B7, 0x6BB, 0x6BD, 0x6BF, 0x6D5, 0x6D7, 0x6DB, 0x6DD, 0x6DF, 0x6EB, 0x6ED,
    0x6EF, 0x6F5, 0x6F7, 0x6FB, 0x6FD, 0x6FF, 0x755, 0x757, 0x75B, 0x75D, 0x75F, 0x76B,
    0x76D, 0x76F, 0x775, 0x777, 0x77B, 0x77D, 0x77F, 0x7AB, 0x7AD, 0x7AF, 0x7B5, 0x7B7,
    0x7BB, 0x7BD, 0x7BF, 0x7D5, 0x7D7, 0x7DB, 0x7DD, 0x7DF, 0x7EB, 0x7ED, 0x7EF, 0x7F5,
    0x7F7, 0x7FB, 0x7FD, 0x7FF, 0xAAB, 0xAAD, 0xAAF, 0xAB5, 0xAB7, 0xABB, 0xABD, 0xABF,
    0xAD5, 0xAD7, 0xADB, 0xADD, 0xADF, 0xAEB, 0xAED, 0xAEF, 0xAF5, 0xAF7, 0xAFB, 0xAFD,
    0xAFF, 0xB55, 0xB57, 0xB5B]"

definition varicode :: "string list" where
  "varicode = [
    ''11101011100'', ''11101100000'', ''11101101000'', ''11101101100'', ''11101110000'', ''11101110100'',
    ''11101111000'', ''11101111100'', ''10101000'', ''11110000000'', ''11110100000'', ''11110101000'',
    ''11110101100'', ''10101100'', ''11110110000'', ''11110110100'', ''11110111000'', ''11110111100'',
    ''11111000000'', ''11111010000'', ''11111010100'', ''11111011000'', ''11111011100'', ''11111100000'',
    ''11111101000'', ''11111101100'', ''11111110000'', ''11111110100'', ''11111111000'', ''11111111100'',
    ''100000000000'', ''101000000000'', ''100'', ''111000000'', ''111111100'', ''1011011000'',
    ''1010101000'', ''1010100000'', ''1000000000'', ''110111100'', ''111110100'', ''111110000'',
    ''1010110100'', ''111100000'', ''10100000'', ''111011000'', ''111010100'', ''111101000'',
    ''11100000'', ''11110000'', ''101000000'', ''101010100'', ''101110100'', ''101100000'',
    ''101101100'', ''110100000'', ''110000000'', ''110101100'', ''111101100'', ''111111000'',
    ''1011000000'', ''111011100'', ''1010111100'', ''111010000'', ''1010000000'', ''10111100'',
    ''100000000'', ''11010100'', ''11011100'', ''10111000'', ''11111000'', ''101010000'',
    ''101011000'', ''11000000'', ''110110100'', ''101111100'', ''11110100'', ''11101000'',
    ''11111100'', ''11010000'', ''11101100'', ''110110000'', ''11011000'', ''10110100'',
    ''10110000'', ''101011100'', ''110101000'', ''101101000'', ''101110000'', ''101111000'',
    ''110111000'', ''1011101000'', ''1011010000'', ''1011101100'', ''1011010100'', ''1010110000'',
    ''1010101100'', ''10100'', ''1100000'', ''111000'', ''110100'', ''1000'',
    ''1010000'', ''1011000'', ''110000'', ''11000'', ''10000000'', ''1110000'',
    ''101100'', ''1000000'', ''11100'', ''10000'', ''1010100'', ''1111000'',
    ''100000'', ''101000'', ''1100'', ''111100'', ''1101100'', ''1101000'',
    ''1110100'', ''1011100'', ''1111100'', ''1011011100'', ''1010111000'', ''1011100000'',
    ''1011110000'', ''101010000000'', ''101010100000'', ''101010101000'', ''101010101100'', ''101010110000'',
    ''101010110100'', ''101010111000'', ''101010111100'', ''101011000000'', ''101011010000'', ''101011010100'',
    ''101011011000'', ''101011011100'', ''101011100000'', ''101011101000'', ''101011101100'', ''101011110000'',
    ''101011110100'', ''101011111000'', ''101011111100'', ''101100000000'', ''101101000000'', ''101101010000'',
    ''101101010100'', ''101101011000'', ''101101011100'', ''101101100000'', ''101101101000'', ''101101101100'',
    ''101101110000'', ''101101110100'', ''101101111000'', ''101101111100'', ''1011110100'', ''1011111000'',
    ''1011111100'', ''1100000000'', ''1101000000'', ''1101010000'', ''1101010100'', ''1101011000'',
    ''1101011100'', ''1101100000'', ''1101101000'', ''1101101100'', ''1101110000'', ''1101110100'',
    ''1101111000'', ''1101111100'', ''1110000000'', ''1110100000'', ''1110101000'', ''1110101100'',
    ''1110110000'', ''1110110100'', ''1110111000'', ''1110111100'', ''1111000000'', ''1111010000'',
    ''1111010100'', ''1111011000'', ''1111011100'', ''1111100000'', ''1111101000'', ''1111101100'',
    ''1111110000'', ''1111110100'', ''1111111000'', ''1111111100'', ''10000000000'', ''10100000000'',
    ''10101000000'', ''10101010000'', ''10101010100'', ''10101011000'', ''10101011100'', ''10101100000'',
    ''10101101000'', ''10101101100'', ''10101110000'', ''10101110100'', ''10101111000'', ''10101111100'',
    ''10110000000'', ''10110100000'', ''10110101000'', ''10110101100'', ''10110110000'', ''10110110100'',
    ''10110111000'', ''10110111100'', ''10111000000'', ''10111010000'', ''10111010100'', ''10111011000'',
    ''10111011100'', ''10111100000'', ''10111101000'', ''10111101100'', ''10111110000'', ''10111110100'',
    ''10111111000'', ''10111111100'', ''11000000000'', ''11010000000'', ''11010100000'', ''11010101000'',
    ''11010101100'', ''11010110000'', ''11010110100'', ''11010111000'', ''11010111100'', ''11011000000'',
    ''11011010000'', ''11011010100'', ''11011011000'', ''11011011100'', ''11011100000'', ''11011101000'',
    ''11011101100'', ''11011110000'', ''11011110100'', ''11011111000'', ''11011111100'', ''11100000000'',
    ''11101000000'', ''11101010000'', ''11101010100'', ''11101011000'']"

definition varidecode :: "nat list" where
  "varidecode = [
    0x75C, 0x760, 0x768, 0x76C, 0x770, 0x774, 0x778, 0x77C, 0x0A8, 0x780, 0x7A0, 0x7A8,
    0x7AC, 0x0AC, 0x7B0, 0x7B4, 0x7B8, 0x7BC, 0x7C0, 0x7D0, 0x7D4, 0x7D8, 0x7DC, 0x7E0,
    0x7E8, 0x7EC, 0x7F0, 0x7F4, 0x7F8, 0x7FC, 0x800, 0xA00, 0x004, 0x1C0, 0x1FC, 0x2D8,
    0x2A8, 0x2A0, 0x200, 0x1BC, 0x1F4, 0x1F0, 0x2B4, 0x1E0, 0x0A0, 0x1D8, 0x1D4, 0x1E8,
    0x0E0, 0x0F0, 0x140, 0x154, 0x174, 0x160, 0x16C, 0x1A0, 0x180, 0x1AC, 0x1EC, 0x1F8,
    0x2C0, 0x1DC, 0x2BC, 0x1D0, 0x280, 0x0BC, 0x100, 0x0D4, 0x0DC, 0x0B8, 0x0F8, 0x150,
    0x158, 0x0C0, 0x1B4, 0x17C, 0x0F4, 0x0E8, 0x0FC, 0x0D0, 0x0EC, 0x1B0, 0x0D8, 0x0B4,
    0x0B0, 0x15C, 0x1A8, 0x168, 0x170, 0x178, 0x1B8, 0x2E8, 0x2D0, 0x2EC, 0x2D4, 0x2B0,
    0x2AC, 0x014, 0x060, 0x038, 0x034, 0x008, 0x050, 0x058, 0x030, 0x018, 0x080, 0x070,
    0x02C, 0x040, 0x01C, 0x010, 0x054, 0x078, 0x020, 0x028, 0x00C, 0x03C, 0x06C, 0x068,
    0x074, 0x05C, 0x07C, 0x2DC, 0x2B8, 0x2E0, 0x2F0, 0xA80, 0xAA0, 0xAA8, 0xAAC, 0xAB0,
    0xAB4, 0xAB8, 0xABC, 0xAC0, 0xAD0, 0xAD4, 0xAD8, 0xADC, 0xAE0, 0xAE8, 0xAEC, 0xAF0,
    0xAF4, 0xAF8, 0xAFC, 0xB00, 0xB40, 0xB50, 0xB54, 0xB58, 0xB5C, 0xB60, 0xB68, 0xB6C,
    0xB70, 0xB74, 0xB78, 0xB7C, 0x2F4, 0x2F8, 0x2FC, 0x300, 0x340, 0x350, 0x354, 0x358,
    0x35C, 0x360, 0x368, 0x36C, 0x370, 0x374, 0x378, 0x37C, 0x380, 0x3A0, 0x3A8, 0x3AC,
    0x3B0, 0x3B4, 0x3B8, 0x3BC, 0x3C0, 0x3D0, 0x3D4, 0x3D8, 0x3DC, 0x3E0, 0x3E8, 0x3EC,
    0x3F0, 0x3F4, 0x3F8, 0x3FC, 0x400, 0x500, 0x540, 0x550, 0x554, 0x558, 0x55C, 0x560,
    0x568, 0x56C, 0x570, 0x574, 0x578, 0x57C, 0x580, 0x5A0, 0x5A8, 0x5AC, 0x5B0, 0x5B4,
    0x5B8, 0x5BC, 0x5C0, 0x5D0, 0x5D4, 0x5D8, 0x5DC, 0x5E0, 0x5E8, 0x5EC, 0x5F0, 0x5F4,
    0x5F8, 0x5FC, 0x600, 0x680, 0x6A0, 0x6A8, 0x6AC, 0x6B0, 0x6B4, 0x6B8, 0x6BC, 0x6C0,
    0x6D0, 0x6D4, 0x6D8, 0x6DC, 0x6E0, 0x6E8, 0x6EC, 0x6F0, 0x6F4, 0x6F8, 0x6FC, 0x700,
    0x740, 0x750, 0x754, 0x758]"

definition thor_varicode :: "string list" where
  "thor_varicode = [
    ''101110000000'', ''101110100000'', ''101110101000'', ''101110101100'', ''101110110000'', ''101110110100'',
    ''101110111000'', ''101110111100'', ''101111000000'', ''101111010000'', ''101111010100'', ''101111011000'',
    ''101111011100'', ''101111100000'', ''101111101000'', ''101111101100'', ''101111110000'', ''101111110100'',
    ''101111111000'', ''101111111100'', ''110000000000'', ''110100000000'', ''110101000000'', ''110101010100'',
    ''110101011000'', ''110101011100'', ''110101100000'', ''110101101000'', ''110101101100'', ''110101110000'',
    ''110101110100'', ''110101111000'', ''110101111100'', ''110110000000'', ''110110100000'', ''110110101000'',
    ''110110101100'', ''110110110000'', ''110110110100'', ''110110111000'', ''110110111100'', ''110111000000'',
    ''110111010000'', ''110111010100'', ''110111011000'', ''110111011100'', ''110111100000'', ''110111101000'',
    ''110111101100'', ''110111110000'', ''110111110100'', ''110111111000'', ''110111111100'', ''111000000000'',
    ''111010000000'', ''111010100000'', ''111010101100'', ''111010110000'', ''111010110100'', ''111010111000'',
    ''111010111100'', ''111011000000'', ''111011010000'', ''111011010100'', ''111011011000'', ''111011011100'',
    ''111011100000'', ''111011101000'', ''111011101100'', ''111011110000'', ''111011110100'', ''111011111000'',
    ''111011111100'', ''111100000000'', ''111101000000'', ''111101010000'', ''111101010100'', ''111101011000'',
    ''111101011100'', ''111101100000'', ''111101101000'', ''111101101100'', ''111101110000'', ''111101110100'',
    ''111101111000'', ''111101111100'', ''111110000000'', ''111110100000'', ''111110101000'', ''111110101100'',
    ''111110110000'']"

definition thor_varidecode :: "nat list" where
  "thor_varidecode = [
    0xB80, 0xBA0, 0xBA8, 0xBAC, 0xBB0, 0xBB4, 0xBB8, 0xBBC, 0xBC0, 0xBD0, 0xBD4, 0xBD8,
    0xBDC, 0xBE0, 0xBE8, 0xBEC, 0xBF0, 0xBF4, 0xBF8, 0xBFC, 0xC00, 0xD00, 0xD40, 0xD54,
    0xD58, 0xD5C, 0xD60, 0xD68, 0xD6C, 0xD70, 0xD74, 0xD78, 0xD7C, 0xD80, 0xDA0, 0xDA8,
    0xDAC, 0xDB0, 0xDB4, 0xDB8, 0xDBC, 0xDC0, 0xDD0, 0xDD4, 0xDD8, 0xDDC, 0xDE0, 0xDE8,
    0xDEC, 0xDF0, 0xDF4, 0xDF8, 0xDFC, 0xE00, 0xE80, 0xEA0, 0xEAC, 0xEB0, 0xEB4, 0xEB8,
    0xEBC, 0xEC0, 0xED0, 0xED4, 0xED8, 0xEDC, 0xEE0, 0xEE8, 0xEEC, 0xEF0, 0xEF4, 0xEF8,
    0xEFC, 0xF00, 0xF40, 0xF50, 0xF54, 0xF58, 0xF5C, 0xF60, 0xF68, 0xF6C, 0xF70, 0xF74,
    0xF78, 0xF7C, 0xF80, 0xFA0, 0xFA8, 0xFAC, 0xFB0]"

section \<open>Encoding and decoding one character\<close>

text \<open>The decoders' loop over a table: the first index that holds the symbol, or -1.\<close>

fun search_table :: "nat list \<Rightarrow> int \<Rightarrow> 32 word \<Rightarrow> int" where
  "search_table [] i symbol = -1"
| "search_table (t # ts) i symbol = (if unat symbol = t then i else search_table ts (i + 1) symbol)"

definition psk_varicode_encode :: "8 word \<Rightarrow> string" where
  "psk_varicode_encode c = varicodetab1 ! unat c"

definition psk_varicode_decode :: "32 word \<Rightarrow> int" where
  "psk_varicode_decode symbol = search_table varicodetab2 0 symbol"

definition varienc :: "int \<Rightarrow> string" where
  "varienc c = (if 0 \<le> c \<and> c < 256 then varicode ! nat c else varicode ! 0)"

definition varidec :: "32 word \<Rightarrow> int" where
  "varidec symbol = search_table varidecode 0 symbol"

definition thorvarienc :: "int \<Rightarrow> int \<Rightarrow> string" where
  "thorvarienc c sec =
     (if sec = 0 then varienc c
      else if 32 \<le> c \<and> c \<le> 122 then thor_varicode ! nat (c - 32)
      else varienc 0)"

definition thorvaridec :: "32 word \<Rightarrow> int" where
  "thorvaridec symbol =
     (if symbol < 0xB80 then varidec symbol
      else let i = search_table thor_varidecode 0 symbol in if i = -1 then -1 else 32 + i + 0x100)"

text \<open>\<^verbatim>\<open>*code - '0'\<close> for each character of a code.\<close>

definition code_bits :: "string \<Rightarrow> bool list" where
  "code_bits code = map (\<lambda>c. c \<noteq> CHR ''0'') code"

section \<open>Senders and receivers\<close>

text \<open>\<^verbatim>\<open>shreg = (shreg << 1) | !!bit\<close>\<close>

definition shift_in :: "bool \<Rightarrow> 32 word \<Rightarrow> 32 word" where
  "shift_in b r = push_bit 1 r OR (if b then 1 else 0)"

text \<open>
  What \<^verbatim>\<open>psk::rx_bit\<close> reads of the modem: whether the mode uses the MFSK code
  (\<^verbatim>\<open>_pskr || _xpsk || _8psk || _16psk\<close>), the comparison \<^verbatim>\<open>fecmet >= fecmet2\<close> of the two
  decoders' metrics, \<^verbatim>\<open>_disablefec\<close> and the carrier detector.
\<close>

record psk_modem =
  mfsk_code :: bool
  first_better :: bool
  disablefec :: bool
  dcd :: bool

definition psk_tx_char :: "psk_modem \<Rightarrow> 8 word \<Rightarrow> bool list" where
  "psk_tx_char m c =
     (if mfsk_code m then code_bits (varienc (uint c))
      else code_bits (psk_varicode_encode c) @ [False, False])"

text \<open>The characters passed to \<^verbatim>\<open>put_rx_char\<close> and the new shift register. The signal report
  statistics are left out.\<close>

definition psk_rx_bit :: "psk_modem \<Rightarrow> bool \<Rightarrow> 32 word \<Rightarrow> int list \<times> 32 word" where
  "psk_rx_bit m b shreg = (let shreg = shift_in b shreg in
     if mfsk_code m then
       if shreg AND 7 = 1 then let c = varidec (drop_bit 1 shreg) in
         (if (first_better m \<or> disablefec m) \<and> c \<noteq> -1 \<and> c \<noteq> 0 \<and> dcd m then [c] else [], 1)
       else ([], shreg)
     else
       if shreg AND 3 = 0 then let c = psk_varicode_decode (drop_bit 2 shreg) in
         (if c \<noteq> -1 \<and> dcd m then [c] else [], 0)
       else ([], shreg))"

definition psk_rx_bit2 :: "psk_modem \<Rightarrow> bool \<Rightarrow> 32 word \<Rightarrow> int list \<times> 32 word" where
  "psk_rx_bit2 m b shreg2 = (let shreg2 = shift_in b shreg2 in
     if shreg2 AND 7 = 1 then let c = varidec (drop_bit 1 shreg2) in
       (if (\<not> first_better m \<or> disablefec m) \<and> c \<noteq> -1 \<and> c \<noteq> 0 \<and> dcd m then [c] else [], 1)
     else ([], shreg2))"

definition mfsk_sendchar :: "8 word \<Rightarrow> bool list" where
  "mfsk_sendchar c = code_bits (varienc (uint c))"

definition mfsk_recvchar :: "int \<Rightarrow> int list" where
  "mfsk_recvchar c = (if c = -1 \<or> c = 0 then [] else [c])"

definition mfsk_recvbit :: "bool \<Rightarrow> 32 word \<Rightarrow> int list \<times> 32 word" where
  "mfsk_recvbit b r = (let r = shift_in b r in
     if r AND 7 = 1 then (mfsk_recvchar (varidec (drop_bit 1 r)), 1) else ([], r))"

text \<open>THOR has two channels for characters.\<close>

datatype thor_char = Primary "8 word" | Secondary "8 word"

definition thor_sendchar :: "8 word \<Rightarrow> int \<Rightarrow> bool list" where
  "thor_sendchar c secondary = code_bits (thorvarienc (uint c) secondary)"

definition thor_recvchar :: "int \<Rightarrow> thor_char list" where
  "thor_recvchar c =
     (if c = -1 then []
      else if (word_of_int c :: 32 word) AND 0x100 \<noteq> 0 then [Secondary (word_of_int c AND 0xFF)]
      else [Primary (word_of_int c AND 0xFF)])"

definition thor_recvbit :: "bool \<Rightarrow> 32 word \<Rightarrow> thor_char list \<times> 32 word" where
  "thor_recvbit b r = (let r = shift_in b r in
     if r AND 7 = 1 then (thor_recvchar (thorvaridec (drop_bit 1 r)), 1) else ([], r))"

section \<open>Streams of bits\<close>

fun run_bits :: "(bool \<Rightarrow> 's \<Rightarrow> 'b list \<times> 's) \<Rightarrow> bool list \<Rightarrow> 's \<Rightarrow> 'b list \<times> 's" where
  "run_bits rx [] s = ([], s)"
| "run_bits rx (b # bs) s = (let (out, s) = rx b s; (out', s) = run_bits rx bs s in (out @ out', s))"

lemma run_bits_append:
  "run_bits rx (bs @ cs) s =
     (let (out, s) = run_bits rx bs s; (out', s) = run_bits rx cs s in (out @ out', s))"
  by (induction bs arbitrary: s) (simp_all add: Let_def split: prod.splits)

text \<open>A code for characters that a receiver reads back: the bits of a character take it from its
  idle state to its idle state, and print the character; and some bits bring it to that state
  from anywhere.\<close>

locale serial_code =
  fixes bits :: "'a \<Rightarrow> bool list" and rx :: "bool \<Rightarrow> 's \<Rightarrow> 'b list \<times> 's" and idle :: 's
    and shown :: "'a \<Rightarrow> 'b list" and lead :: "bool list"
  assumes one_char: "run_bits rx (bits a) idle = (shown a, idle)"
    and lead_idle: "snd (run_bits rx lead s) = idle"
begin

lemma stream: "run_bits rx (concat (map bits cs)) idle = (concat (map shown cs), idle)"
  by (induction cs) (simp_all add: run_bits_append one_char)

lemma after_noise:
  "run_bits rx (noise @ lead @ concat (map bits cs)) s =
     (fst (run_bits rx (noise @ lead) s) @ concat (map shown cs), idle)"
proof -
  have "snd (run_bits rx (noise @ lead) s) = idle"
    using lead_idle by (simp add: run_bits_append split: prod.splits) (metis snd_conv)
  then obtain j where "run_bits rx (noise @ lead) s = (j, idle)" by (metis prod.collapse)
  then show ?thesis
    unfolding append_assoc [symmetric] by (subst run_bits_append) (simp add: stream)
qed

text \<open>One damaged stretch costs no more than itself: what follows the next lead-in is received
  in full, whatever the stretch was.\<close>

lemma resync:
  "\<exists>junk. fst (run_bits rx (concat (map bits cs) @ noise @ lead @ concat (map bits ds)) idle) =
     concat (map shown cs) @ junk @ concat (map shown ds)"
  unfolding run_bits_append [of rx "concat (map bits cs)"] stream after_noise by auto

end

end
