(* ===== verification/Varicode_Laws.thy ===== *)
theory Varicode_Laws
  imports Varicode
begin

text \<open>
  The character codes of theory Varicode read back what they spell. The tables are checked once,
  entry by entry; the three codes are then instances of locale \<open>serial_code\<close>.
\<close>

section \<open>Checking the tables\<close>

text \<open>The register, as a number, after the bits of a code; \<open>None\<close> when the delimiter pattern
  \<open>v mod m = p\<close> shows up on the way.\<close>

fun accum :: "nat \<Rightarrow> nat \<Rightarrow> string \<Rightarrow> nat \<Rightarrow> nat option" where
  "accum m p [] v = Some v"
| "accum m p (b # bs) v =
     (let v = 2 * v + (if b = CHR ''0'' then 0 else 1) in if v mod m = p then None else accum m p bs v)"

lemma psk_codes: "list_all (\<lambda>(c, t). accum 4 0 c 0 = Some t \<and> t mod 2 = 1) (zip varicodetab1 varicodetab2)"
  unfolding varicodetab1_def varicodetab2_def by (simp add: Let_def)

lemma mfsk_codes: "list_all (\<lambda>(c, t). hd c = CHR ''1'' \<and> accum 8 1 (tl c) 1 = Some t \<and> t mod 4 = 0)
    (zip varicode varidecode)"
  unfolding varicode_def varidecode_def by (simp add: Let_def)

lemma thor_codes: "list_all (\<lambda>(c, t). hd c = CHR ''1'' \<and> accum 8 1 (tl c) 1 = Some t \<and> t mod 4 = 0)
    (zip thor_varicode thor_varidecode)"
  unfolding thor_varicode_def thor_varidecode_def by (simp add: Let_def)

lemma table_lengths:
  "length varicodetab1 = 256" "length varicodetab2 = 256" "length varicode = 256"
  "length varidecode = 256" "length thor_varicode = 91" "length thor_varidecode = 91"
  unfolding varicodetab1_def varicodetab2_def varicode_def varidecode_def thor_varicode_def thor_varidecode_def
  by simp_all

lemma tables_distinct: "distinct varicodetab2" "distinct varidecode" "distinct thor_varidecode"
  unfolding varicodetab2_def varidecode_def thor_varidecode_def by simp_all

lemma table_bounds:
  "list_all (\<lambda>t. t < 2 ^ 12 \<and> t \<noteq> 0) varicodetab2" "list_all (\<lambda>t. t < 0xB80) varidecode"
  "list_all (\<lambda>t. 0xB80 \<le> t \<and> t < 2 ^ 12) thor_varidecode"
  unfolding varicodetab2_def varidecode_def thor_varidecode_def by simp_all

section \<open>Searching a table\<close>

lemma search_table_nth:
  "distinct ts \<Longrightarrow> k < length ts \<Longrightarrow> unat symbol = ts ! k \<Longrightarrow> search_table ts i symbol = i + int k"
proof (induction ts arbitrary: i k)
  case (Cons t ts)
  show ?case
  proof (cases k)
    case (Suc j)
    then have "unat symbol = ts ! j" "j < length ts" using Cons.prems by auto
    moreover then have "unat symbol \<noteq> t" using Cons.prems(1) by (metis distinct.simps(2) nth_mem)
    ultimately show ?thesis using Cons.IH [of j "i + 1"] Cons.prems Suc by simp
  qed (use Cons.prems in simp)
qed simp

lemma search_table_none: "unat symbol \<notin> set ts \<Longrightarrow> search_table ts i symbol = -1"
  by (induction ts arbitrary: i) auto

lemma psk_decode_nth: "unat symbol = varicodetab2 ! k \<Longrightarrow> k < 256 \<Longrightarrow> psk_varicode_decode symbol = int k"
  using search_table_nth [of varicodetab2 k symbol 0] by (simp add: psk_varicode_decode_def tables_distinct table_lengths)

lemma varidec_nth: "unat symbol = varidecode ! k \<Longrightarrow> k < 256 \<Longrightarrow> varidec symbol = int k"
  using search_table_nth [of varidecode k symbol 0] by (simp add: varidec_def tables_distinct table_lengths)

lemma thorvaridec_primary:
  assumes "unat symbol = varidecode ! k" "k < 256"
  shows "thorvaridec symbol = int k"
proof -
  have "varidecode ! k < 0xB80" using table_bounds(2) assms(2) by (simp add: list_all_length table_lengths)
  then have "symbol < 0xB80" using assms(1) by (simp add: word_less_nat_alt)
  then show ?thesis using varidec_nth [OF assms] by (simp add: thorvaridec_def)
qed

lemma thorvaridec_secondary:
  assumes "unat symbol = thor_varidecode ! k" "k < 91"
  shows "thorvaridec symbol = int k + 288"
proof -
  have "0xB80 \<le> thor_varidecode ! k" using table_bounds(3) assms(2) by (simp add: list_all_length table_lengths)
  then have "\<not> symbol < 0xB80" using assms(1) by (simp add: word_less_nat_alt)
  then show ?thesis
    using search_table_nth [of thor_varidecode k symbol 0] assms
    by (simp add: thorvaridec_def tables_distinct table_lengths)
qed

section \<open>Shift registers as numbers\<close>

lemma unat_shift_in_mod: "unat (shift_in b r) = (2 * unat r + (if b then 1 else 0)) mod 2 ^ 32"
proof -
  have "shift_in b r = 2 * r + (if b then 1 else 0)"
    by (simp add: shift_in_def or_one_eq push_bit_eq_mult)
  then show ?thesis by (simp add: unat_word_ariths mod_simps)
qed

lemma unat_shift_in:
  "unat r < 2 ^ 31 \<Longrightarrow> unat (shift_in b r) = 2 * unat r + (if b then 1 else 0)"
  by (simp add: unat_shift_in_mod)

lemma register_tests:
  fixes r :: "32 word"
  shows "r AND 3 = 0 \<longleftrightarrow> unat r mod 4 = 0" "r AND 7 = 1 \<longleftrightarrow> unat r mod 8 = 1"
    "unat (drop_bit k r) = unat r div 2 ^ k"
proof -
  have m: "(3 :: 32 word) = mask 2" "(7 :: 32 word) = mask 3" by (simp_all add: mask_eq_exp_minus_1)
  show "r AND 3 = 0 \<longleftrightarrow> unat r mod 4 = 0" "r AND 7 = 1 \<longleftrightarrow> unat r mod 8 = 1"
    unfolding m by (simp_all add: word_unat_eq_iff unat_mod unsigned_take_bit_eq take_bit_eq_mod flip: take_bit_eq_mask)
  show "unat (drop_bit k r) = unat r div 2 ^ k"
    unfolding unat_drop_bit_eq by (rule drop_bit_eq_div)
qed

text \<open>The low bits of the register are the last bits received.\<close>

lemma shift_in_low:
  "unat (shift_in b r) mod 2 = (if b then 1 else 0)"
  "unat (shift_in b r) mod 4 = (2 * (unat r mod 2) + (if b then 1 else 0)) mod 4"
  "unat (shift_in b r) mod 8 = (2 * (unat r mod 4) + (if b then 1 else 0)) mod 8"
proof -
  have "unat (shift_in b r) mod m = (2 * unat r + (if b then 1 else 0)) mod m" if "m dvd 2 ^ 32" for m
    unfolding unat_shift_in_mod by (rule mod_mod_cancel [OF that])
  then have e: "unat (shift_in b r) mod 2 = (2 * unat r + (if b then 1 else 0)) mod 2"
    "unat (shift_in b r) mod 4 = (2 * unat r + (if b then 1 else 0)) mod 4"
    "unat (shift_in b r) mod 8 = (2 * unat r + (if b then 1 else 0)) mod 8" by simp_all
  show "unat (shift_in b r) mod 2 = (if b then 1 else 0)" using e(1) by simp
  show "unat (shift_in b r) mod 4 = (2 * (unat r mod 2) + (if b then 1 else 0)) mod 4"
    unfolding e(2) by (cases b; simp; presburger)
  show "unat (shift_in b r) mod 8 = (2 * (unat r mod 4) + (if b then 1 else 0)) mod 8"
    unfolding e(3) by (cases b; simp; presburger)
qed

section \<open>Receivers\<close>

text \<open>The three receivers over the number in the register.\<close>

definition gated :: "nat \<Rightarrow> nat \<Rightarrow> nat \<Rightarrow> (32 word \<Rightarrow> 'b list) \<Rightarrow> 32 word \<Rightarrow> bool \<Rightarrow> 32 word \<Rightarrow> 'b list \<times> 32 word" where
  "gated m p k out clear b r = (let r = shift_in b r in
     if unat r mod m = p then (out (drop_bit k r), clear) else ([], r))"

lemma accum_mono: "accum m p code v = Some t \<Longrightarrow> v \<le> t"
proof (induction code arbitrary: v)
  case (Cons c code)
  then have "2 * v + (if c = CHR ''0'' then 0 else 1) \<le> t"
    by (auto simp: Let_def split: if_splits)
  then show ?case by simp
qed simp

lemma run_accum:
  assumes "accum m p code (unat r) = Some t" "t < 2 ^ 31"
  shows "\<exists>r'. run_bits (gated m p k out clear) (code_bits code) r = ([], r') \<and> unat r' = t"
  using assms(1)
proof (induction code arbitrary: r)
  case (Cons c code)
  let ?v = "2 * unat r + (if c = CHR ''0'' then 0 else 1)"
  have a: "?v mod m \<noteq> p" "accum m p code ?v = Some t"
    using Cons.prems by (auto simp: Let_def split: if_splits)
  then have "?v < 2 ^ 31" using accum_mono assms(2) by (meson le_less_trans)
  then have u: "unat (shift_in (c \<noteq> CHR ''0'') r) = ?v" by (subst unat_shift_in) auto
  then have "gated m p k out clear (c \<noteq> CHR ''0'') r = ([], shift_in (c \<noteq> CHR ''0'') r)"
    using a(1) by (simp add: gated_def Let_def)
  then show ?case
    using Cons.IH [of "shift_in (c \<noteq> CHR ''0'') r"] a(2) u by (auto simp: code_bits_def)
qed (simp add: code_bits_def)

lemma psk_rx_gated:
  "\<not> mfsk_code m \<Longrightarrow> psk_rx_bit m = gated 4 0 2 (\<lambda>s. let c = psk_varicode_decode s in
     if c \<noteq> -1 \<and> dcd m then [c] else []) 0"
  "mfsk_code m \<Longrightarrow> psk_rx_bit m = gated 8 1 1 (\<lambda>s. let c = varidec s in
     if (first_better m \<or> disablefec m) \<and> c \<noteq> -1 \<and> c \<noteq> 0 \<and> dcd m then [c] else []) 1"
  by (intro ext; simp add: psk_rx_bit_def gated_def register_tests Let_def)+

lemma psk_rx2_gated:
  "psk_rx_bit2 m = gated 8 1 1 (\<lambda>s. let c = varidec s in
     if (\<not> first_better m \<or> disablefec m) \<and> c \<noteq> -1 \<and> c \<noteq> 0 \<and> dcd m then [c] else []) 1"
  by (intro ext) (simp add: psk_rx_bit2_def gated_def register_tests Let_def)

lemma mfsk_rx_gated: "mfsk_recvbit = gated 8 1 1 (\<lambda>s. mfsk_recvchar (varidec s)) 1"
  by (intro ext) (simp add: mfsk_recvbit_def gated_def register_tests Let_def)

lemma thor_rx_gated: "thor_recvbit = gated 8 1 1 (\<lambda>s. thor_recvchar (thorvaridec s)) 1"
  by (intro ext) (simp add: thor_recvbit_def gated_def register_tests Let_def)

lemmas rx_gated = psk_rx_gated psk_rx2_gated mfsk_rx_gated thor_rx_gated

text \<open>The lead-ins: two zeros for PSK, \<open>001\<close> for the others.\<close>

lemma lead_psk: "snd (run_bits (gated 4 0 2 out 0) [False, False] r) = 0"
  by (auto simp: gated_def Let_def shift_in_low)

lemma lead_mfsk: "snd (run_bits (gated 8 1 1 out 1) [False, False, True] r) = 1"
  by (auto simp: gated_def Let_def shift_in_low)

lemma psk_char:
  assumes "accum 4 0 code 0 = Some t" "t < 2 ^ 12" "t mod 2 = 1"
  shows "\<exists>r. unat r = t \<and> run_bits (gated 4 0 2 out 0) (code_bits code @ [False, False]) 0 = (out r, 0)"
proof -
  obtain r where r: "run_bits (gated 4 0 2 out 0) (code_bits code) 0 = ([], r)" "unat r = t"
    using run_accum [where r = 0 and k = 2 and out = out and clear = 0] assms by fastforce
  let ?r1 = "shift_in False r" and ?r2 = "shift_in False (shift_in False r)"
  have u: "unat ?r1 = 2 * t" "unat ?r2 = 4 * t" using r(2) assms(2) by (simp_all add: unat_shift_in)
  have "(2 * t) mod 4 \<noteq> 0" using assms(3) by presburger
  moreover have "drop_bit 2 ?r2 = r"
    using u r(2) register_tests(3) [of 2 ?r2] by (simp add: word_unat_eq_iff)
  ultimately show ?thesis
    using u r by (intro exI [of _ r]) (simp add: run_bits_append gated_def Let_def)
qed

lemma mfsk_char:
  assumes "accum 8 1 code 1 = Some t" "t < 2 ^ 12" "t mod 4 = 0"
  shows "\<exists>r. unat r = t \<and> run_bits (gated 8 1 1 out 1) (code_bits code @ [True]) 1 = (out r, 1)"
proof -
  obtain r where r: "run_bits (gated 8 1 1 out 1) (code_bits code) 1 = ([], r)" "unat r = t"
    using run_accum [where r = 1 and k = 1 and out = out and clear = 1] assms by fastforce
  have u: "unat (shift_in True r) = 2 * t + 1" using r(2) assms(2) by (subst unat_shift_in) auto
  have "(2 * t + 1) mod 8 = 1" using assms(3) by presburger
  moreover have "drop_bit 1 (shift_in True r) = r"
    using u r(2) register_tests(3) [of 1 "shift_in True r"] by (simp add: word_unat_eq_iff)
  ultimately show ?thesis
    using u r by (intro exI [of _ r]) (simp add: run_bits_append gated_def Let_def)
qed

section \<open>The three codes\<close>

lemma psk_entry:
  assumes "k < 256"
  shows "accum 4 0 (varicodetab1 ! k) 0 = Some (varicodetab2 ! k)" "varicodetab2 ! k < 2 ^ 12"
    "varicodetab2 ! k mod 2 = 1"
  using psk_codes table_bounds(1) assms by (simp_all add: list_all_length table_lengths)

lemma codes_nonempty: "list_all (\<lambda>c. c \<noteq> '''') varicode" "list_all (\<lambda>c. c \<noteq> '''') thor_varicode"
  unfolding varicode_def thor_varicode_def by simp_all

lemma mfsk_entry:
  assumes "k < 256"
  shows "accum 8 1 (tl (varicode ! k)) 1 = Some (varidecode ! k)" "varidecode ! k < 2 ^ 12"
    "varidecode ! k mod 4 = 0" "hd (varicode ! k) = CHR ''1''" "varicode ! k \<noteq> ''''"
proof -
  have "varidecode ! k < 0xB80" using table_bounds(2) assms by (simp add: list_all_length table_lengths)
  then show "varidecode ! k < 2 ^ 12" by simp
  show "accum 8 1 (tl (varicode ! k)) 1 = Some (varidecode ! k)"
    "varidecode ! k mod 4 = 0" "hd (varicode ! k) = CHR ''1''" "varicode ! k \<noteq> ''''"
    using mfsk_codes codes_nonempty(1) assms by (simp_all add: list_all_length table_lengths)
qed

lemma thor_entry:
  assumes "k < 91"
  shows "accum 8 1 (tl (thor_varicode ! k)) 1 = Some (thor_varidecode ! k)" "thor_varidecode ! k < 2 ^ 12"
    "thor_varidecode ! k mod 4 = 0" "hd (thor_varicode ! k) = CHR ''1''" "thor_varicode ! k \<noteq> ''''"
  using thor_codes table_bounds(3) codes_nonempty(2) assms by (simp_all add: list_all_length table_lengths)

lemma unat_byte: "unat (c :: 8 word) < 256"
  using unsigned_less [of c, where ?'a = nat] by simp

lemma uint_byte [simp]: "uint (c :: 8 word) \<noteq> -1" "- 1 \<noteq> uint (c :: 8 word)"
  using unsigned_greater_eq [of c, where ?'a = int] by linarith+

text \<open>What a PSK modem shows of a character, by the mode it is in.\<close>

definition psk_shown :: "psk_modem \<Rightarrow> bool \<Rightarrow> 8 word \<Rightarrow> int list" where
  "psk_shown m first c =
     (if dcd m \<and> (mfsk_code m \<longrightarrow> c \<noteq> 0 \<and> (disablefec m \<or> first_better m = first)) then [uint c] else [])"

text \<open>A code of the MFSK kind as its receiver sees it: the first 1 of a code belongs to the
  character before.\<close>

definition rotated :: "string \<Rightarrow> bool list" where
  "rotated code = code_bits (tl code) @ [True]"

lemma rotated_stream:
  assumes "\<And>c. code c \<noteq> '''' \<and> hd (code c) = CHR ''1''"
  shows "concat (map (\<lambda>c. code_bits (code c)) cs) @ [True] = True # concat (map (\<lambda>c. rotated (code c)) cs)"
proof (induction cs)
  case (Cons c cs)
  have "code c = CHR ''1'' # tl (code c)" using assms [of c] by (cases "code c") auto
  then have "code_bits (code c) = code_bits (CHR ''1'' # tl (code c))" by (rule arg_cong)
  also have "\<dots> = True # code_bits (tl (code c))" by (simp add: code_bits_def)
  finally show ?case using Cons by (simp add: rotated_def)
qed simp

lemma varienc_nth: "varienc (uint (c :: 8 word)) = varicode ! unat c"
  using uint_lt2p [of c] by (simp add: varienc_def)

interpretation psk_code: serial_code "\<lambda>c. code_bits (psk_varicode_encode c) @ [False, False]"
  "psk_rx_bit \<lparr>mfsk_code = False, first_better = fb, disablefec = df, dcd = d\<rparr>" 0
  "psk_shown \<lparr>mfsk_code = False, first_better = fb, disablefec = df, dcd = d\<rparr> f" "[False, False]" for fb df d f
proof unfold_locales
  fix c :: "8 word" and r :: "32 word"
  let ?m = "\<lparr>mfsk_code = False, first_better = fb, disablefec = df, dcd = d\<rparr>"
  obtain w where w: "unat w = varicodetab2 ! unat c"
    "run_bits (psk_rx_bit ?m) (code_bits (psk_varicode_encode c) @ [False, False]) 0 =
       (let i = psk_varicode_decode w in if i \<noteq> -1 \<and> dcd ?m then [i] else [], 0)"
    using psk_char [OF psk_entry [OF unat_byte]] psk_rx_gated(1) [of ?m] by (force simp: psk_varicode_encode_def)
  then show "run_bits (psk_rx_bit ?m) (code_bits (psk_varicode_encode c) @ [False, False]) 0 = (psk_shown ?m f c, 0)"
    using psk_decode_nth [OF w(1) unat_byte] by (simp add: psk_shown_def Let_def)
  show "snd (run_bits (psk_rx_bit ?m) [False, False] r) = 0"
    using lead_psk psk_rx_gated(1) [of ?m] by simp
qed

text \<open>A receiver of the MFSK kind: the characters of a stream of codes.\<close>

lemma mfsk_kind_char:
  assumes "k < 256" "rx = gated 8 1 1 out 1"
  obtains w where "unat w = varidecode ! k" "run_bits rx (rotated (varicode ! k)) 1 = (out w, 1)"
  using mfsk_char [OF mfsk_entry(1-3) [OF assms(1)], of out] assms(2) by (auto simp: rotated_def)

interpretation mfsk_code: serial_code "\<lambda>c. rotated (varienc (uint c))" mfsk_recvbit 1
  "\<lambda>c. mfsk_recvchar (uint (c :: 8 word))" "[False, False, True]"
proof unfold_locales
  fix c :: "8 word" and r :: "32 word"
  obtain w where w: "unat w = varidecode ! unat c"
    "run_bits mfsk_recvbit (rotated (varicode ! unat c)) 1 = (mfsk_recvchar (varidec w), 1)"
    using mfsk_kind_char [OF unat_byte mfsk_rx_gated] by blast
  then show "run_bits mfsk_recvbit (rotated (varienc (uint c))) 1 = (mfsk_recvchar (uint c), 1)"
    using varidec_nth [OF w(1) unat_byte] by (simp add: varienc_nth)
  show "snd (run_bits mfsk_recvbit [False, False, True] r) = 1"
    unfolding mfsk_rx_gated by (rule lead_mfsk)
qed

interpretation pskr_code: serial_code "\<lambda>c. rotated (varienc (uint c))"
  "psk_rx_bit \<lparr>mfsk_code = True, first_better = fb, disablefec = df, dcd = d\<rparr>" 1
  "psk_shown \<lparr>mfsk_code = True, first_better = fb, disablefec = df, dcd = d\<rparr> True" "[False, False, True]" for fb df d
proof unfold_locales
  fix c :: "8 word" and r :: "32 word"
  let ?m = "\<lparr>mfsk_code = True, first_better = fb, disablefec = df, dcd = d\<rparr>"
  have g: "psk_rx_bit ?m = gated 8 1 1 (\<lambda>s. let c = varidec s in
     if (first_better ?m \<or> disablefec ?m) \<and> c \<noteq> -1 \<and> c \<noteq> 0 \<and> dcd ?m then [c] else []) 1"
    by (rule psk_rx_gated) simp
  obtain w where w: "unat w = varidecode ! unat c"
    "run_bits (psk_rx_bit ?m) (rotated (varicode ! unat c)) 1 = (let c = varidec w in
       if (first_better ?m \<or> disablefec ?m) \<and> c \<noteq> -1 \<and> c \<noteq> 0 \<and> dcd ?m then [c] else [], 1)"
    using mfsk_kind_char [OF unat_byte g] by blast
  then show "run_bits (psk_rx_bit ?m) (rotated (varienc (uint c))) 1 = (psk_shown ?m True c, 1)"
    using varidec_nth [OF w(1) unat_byte] by (auto simp: varienc_nth psk_shown_def Let_def unsigned_eq_0_iff)
  show "snd (run_bits (psk_rx_bit ?m) [False, False, True] r) = 1"
    unfolding g by (rule lead_mfsk)
qed

interpretation pskr_code2: serial_code "\<lambda>c. rotated (varienc (uint c))"
  "psk_rx_bit2 \<lparr>mfsk_code = True, first_better = fb, disablefec = df, dcd = d\<rparr>" 1
  "psk_shown \<lparr>mfsk_code = True, first_better = fb, disablefec = df, dcd = d\<rparr> False" "[False, False, True]" for fb df d
proof unfold_locales
  fix c :: "8 word" and r :: "32 word"
  let ?m = "\<lparr>mfsk_code = True, first_better = fb, disablefec = df, dcd = d\<rparr>"
  obtain w where w: "unat w = varidecode ! unat c"
    "run_bits (psk_rx_bit2 ?m) (rotated (varicode ! unat c)) 1 = (let c = varidec w in
       if (\<not> first_better ?m \<or> disablefec ?m) \<and> c \<noteq> -1 \<and> c \<noteq> 0 \<and> dcd ?m then [c] else [], 1)"
    using mfsk_kind_char [OF unat_byte psk_rx2_gated [of ?m]] by blast
  then show "run_bits (psk_rx_bit2 ?m) (rotated (varienc (uint c))) 1 = (psk_shown ?m False c, 1)"
    using varidec_nth [OF w(1) unat_byte] by (auto simp: varienc_nth psk_shown_def Let_def unsigned_eq_0_iff)
  show "snd (run_bits (psk_rx_bit2 ?m) [False, False, True] r) = 1"
    unfolding psk_rx2_gated by (rule lead_mfsk)
qed

text \<open>THOR: a character with its channel. Characters outside blank to \<open>z\<close> have no code on the
  second channel and go out as NUL.\<close>

primrec thor_code :: "thor_char \<Rightarrow> string" where
  "thor_code (Primary c) = thorvarienc (uint c) 0"
| "thor_code (Secondary c) = thorvarienc (uint c) 1"

primrec thor_shown :: "thor_char \<Rightarrow> thor_char" where
  "thor_shown (Primary c) = Primary c"
| "thor_shown (Secondary c) = (if 32 \<le> c \<and> c \<le> 122 then Secondary c else Primary 0)"

lemma channel_bit:
  assumes "0 \<le> i" "i < 2 ^ 31"
  shows "(word_of_int i :: 32 word) AND 0x100 \<noteq> 0 \<longleftrightarrow> odd (i div 256)"
proof -
  have "(0x100 :: 32 word) = 2 ^ 8" by simp
  then have "(word_of_int i :: 32 word) AND 0x100 = 0 \<longleftrightarrow> \<not> bit (word_of_int i :: 32 word) 8"
    by (simp only: and_exp_eq_0_iff_not_bit)
  moreover have "bit (word_of_int i :: 32 word) 8 \<longleftrightarrow> bit i 8" by (simp only: bit_word_of_int_iff) simp
  moreover have "bit i 8 \<longleftrightarrow> odd (i div 256)" unfolding bit_iff_odd by simp
  ultimately show ?thesis by blast
qed

lemma low_byte: "(word_of_int i :: 8 word) AND 0xFF = word_of_int i"
proof -
  have "(0xFF :: 8 word) = -1" by code_simp
  then show ?thesis by (simp only: and_minus_numerals word_and_max and.right_neutral)
qed

lemma thor_recvchar_primary: "thor_recvchar (uint (c :: 8 word)) = [Primary c]"
proof -
  have "0 \<le> uint c" "uint c < 256" using uint_lt2p [of c] by simp_all
  then have "\<not> odd (uint c div 256)" "uint c < 2 ^ 31" by simp_all
  then have "\<not> (word_of_int (uint c) :: 32 word) AND 0x100 \<noteq> 0" using channel_bit [of "uint c"] by simp
  then show ?thesis
    unfolding thor_recvchar_def low_byte by simp
qed

lemma thor_recvchar_secondary: "thor_recvchar (uint (c :: 8 word) + 256) = [Secondary c]"
proof -
  have u: "0 \<le> uint c" "uint c < 256" using uint_lt2p [of c] by simp_all
  have "(uint c + 1 * 256) div 256 = 1 + uint c div 256" by (rule div_mult_self1) simp
  then have "odd ((uint c + 256) div 256)" "uint c + 256 < 2 ^ 31" using u by simp_all
  then have "(word_of_int (uint c + 256) :: 32 word) AND 0x100 \<noteq> 0" using channel_bit [of "uint c + 256"] u by simp
  moreover have ne: "257 + uint c \<noteq> 0" using u by linarith
  moreover have "(word_of_int (uint c + 256) :: 8 word) = c"
    by (simp add: of_int_add)
  ultimately show ?thesis
    unfolding thor_recvchar_def low_byte using ne by simp
qed

lemma thor_code_rotated:
  "\<exists>t. accum 8 1 (tl (thor_code c)) 1 = Some t \<and> t < 2 ^ 12 \<and> t mod 4 = 0 \<and>
     (\<forall>w. unat w = t \<longrightarrow> thor_recvchar (thorvaridec w) = [thor_shown c]) \<and>
     thor_code c \<noteq> '''' \<and> hd (thor_code c) = CHR ''1''"
proof (cases c)
  case (Primary x)
  then have "thor_code c = varicode ! unat x" by (simp add: thorvarienc_def varienc_nth)
  moreover have "thor_recvchar (thorvaridec w) = [thor_shown c]" if "unat w = varidecode ! unat x" for w
    using thorvaridec_primary [OF that unat_byte] thor_recvchar_primary [of x] Primary by simp
  ultimately show ?thesis using mfsk_entry [OF unat_byte [of x]] by auto
next
  case (Secondary x)
  show ?thesis
  proof (cases "32 \<le> x \<and> x \<le> 122")
    case True
    then have x: "32 \<le> unat x" "unat x \<le> 122" by (simp_all add: word_le_nat_alt)
    let ?k = "unat x - 32"
    have "32 \<le> uint x" "uint x \<le> 122" using True by (simp_all add: word_le_def)
    moreover then have "nat (uint x - 32) = ?k" by (simp add: nat_diff_distrib')
    ultimately have code: "thor_code c = thor_varicode ! ?k"
      using Secondary by (simp add: thorvarienc_def)
    have "thor_recvchar (thorvaridec w) = [thor_shown c]" if "unat w = thor_varidecode ! ?k" for w
    proof -
      have "thorvaridec w = uint x + 256"
        using thorvaridec_secondary [OF that] x by (simp add: of_nat_diff)
      then show ?thesis using thor_recvchar_secondary [of x] True Secondary by simp
    qed
    then show ?thesis using thor_entry [of ?k] x code by auto
  next
    case False
    then have "\<not> (32 \<le> uint x \<and> uint x \<le> 122)" by (simp add: word_le_def)
    then have "thor_code c = varicode ! 0" using Secondary by (auto simp: thorvarienc_def varienc_def)
    moreover have "thor_recvchar (thorvaridec w) = [thor_shown c]" if "unat w = varidecode ! 0" for w
      using thorvaridec_primary [OF that] thor_recvchar_primary [of 0] Secondary False by auto
    ultimately show ?thesis using mfsk_entry [of 0] by auto
  qed
qed

interpretation thor_code: serial_code "\<lambda>c. rotated (thor_code c)" thor_recvbit 1 "\<lambda>c. [thor_shown c]"
  "[False, False, True]"
proof unfold_locales
  fix c :: thor_char and r :: "32 word"
  obtain t where t: "accum 8 1 (tl (thor_code c)) 1 = Some t" "t < 2 ^ 12" "t mod 4 = 0"
    "\<forall>w. unat w = t \<longrightarrow> thor_recvchar (thorvaridec w) = [thor_shown c]"
    using thor_code_rotated [of c] by (elim exE conjE)
  then show "run_bits thor_recvbit (rotated (thor_code c)) 1 = ([thor_shown c], 1)"
    using mfsk_char [OF t(1-3), of "\<lambda>s. thor_recvchar (thorvaridec s)"]
    unfolding thor_rx_gated rotated_def by auto
  show "snd (run_bits thor_recvbit [False, False, True] r) = 1"
    unfolding thor_rx_gated by (rule lead_mfsk)
qed

section \<open>Properties\<close>

lemma psk_received:
  assumes "\<not> mfsk_code m" "dcd m"
  shows "\<exists>junk. fst (run_bits (psk_rx_bit m) (noise @ [False, False] @ concat (map (psk_tx_char m) cs)) s) =
     junk @ map uint cs"
proof -
  obtain fb df where m: "m = \<lparr>mfsk_code = False, first_better = fb, disablefec = df, dcd = True\<rparr>"
    using assms by (cases m) simp
  have "concat (map (psk_shown m f) cs) = map uint cs" for f
    by (induction cs) (simp_all add: psk_shown_def m)
  then show ?thesis
    using psk_code.after_noise [of fb df True noise cs s] by (auto simp: psk_tx_char_def [abs_def] m)
qed

text \<open>C22: PSK. Whatever bits a receiver has seen, once two zeros have gone by it prints every
  character that \<^verbatim>\<open>tx_char\<close> spells from then on, all 256 of them, in order, and nothing
  else, as long as the carrier detector is on.\<close>

theorem psk_stream:
  assumes "\<not> mfsk_code m" "dcd m"
  shows "\<exists>junk. fst (run_bits (psk_rx_bit m) (noise @ [False, False] @ concat (map (psk_tx_char m) cs)) s) =
     junk @ map uint cs"
  by (rule psk_received [OF assms])

lemma pskr_received:
  assumes "mfsk_code m" "dcd m" "\<not> disablefec m"
  shows "\<exists>junk1 junk2.
     fst (run_bits (psk_rx_bit m) (noise @ [False, False] @ concat (map (psk_tx_char m) cs) @ [True]) s) =
       junk1 @ (if first_better m then map uint (filter (\<lambda>c. c \<noteq> 0) cs) else []) \<and>
     fst (run_bits (psk_rx_bit2 m) (noise @ [False, False] @ concat (map (psk_tx_char m) cs) @ [True]) s) =
       junk2 @ (if first_better m then [] else map uint (filter (\<lambda>c. c \<noteq> 0) cs))"
proof -
  obtain fb where m: "m = \<lparr>mfsk_code = True, first_better = fb, disablefec = False, dcd = True\<rparr>"
    using assms by (cases m) simp
  have e: "[False, False] @ concat (map (psk_tx_char m) cs) @ [True] =
      [False, False, True] @ concat (map (\<lambda>c. rotated (varienc (uint c))) cs)"
    using rotated_stream [of "\<lambda>c :: 8 word. varienc (uint c)" cs] mfsk_entry(4,5) [OF unat_byte]
    by (simp add: psk_tx_char_def [abs_def] m varienc_nth)
  have "concat (map (psk_shown m f) cs) = (if fb = f then map uint (filter (\<lambda>c. c \<noteq> 0) cs) else [])" for f
    by (induction cs) (simp_all add: psk_shown_def m)
  then show ?thesis
    using pskr_code.after_noise [of fb False True noise cs s] pskr_code2.after_noise [of fb False True noise cs s]
    unfolding e by (auto simp: m)
qed

lemma pskr_silent:
  assumes "mfsk_code m" "\<not> disablefec m"
  shows "\<not> first_better m \<Longrightarrow> fst (run_bits (psk_rx_bit m) bits s) = []"
    "first_better m \<Longrightarrow> fst (run_bits (psk_rx_bit2 m) bits s) = []"
proof -
  show "\<not> first_better m \<Longrightarrow> fst (run_bits (psk_rx_bit m) bits s) = []"
  proof (induction bits arbitrary: s)
    case (Cons b bits)
    have "fst (psk_rx_bit m b s) = []" using assms Cons.prems by (simp add: psk_rx_bit_def Let_def)
    then show ?case using Cons by (simp add: Let_def case_prod_beta)
  qed simp
  show "first_better m \<Longrightarrow> fst (run_bits (psk_rx_bit2 m) bits s) = []"
  proof (induction bits arbitrary: s)
    case (Cons b bits)
    have "fst (psk_rx_bit2 m b s) = []" using assms Cons.prems by (simp add: psk_rx_bit2_def Let_def)
    then show ?case using Cons by (simp add: Let_def case_prod_beta)
  qed simp
qed

text \<open>C23: The PSK modes with the MFSK code and two decoders. Of the two receivers exactly one
  prints: the first when its metric is at least as good, else the second. It prints every
  character but NUL once, from the first \<open>001\<close> on; the last character comes with the
  first bit of the next one. The other receiver prints nothing at all, whatever the bits.\<close>

theorem pskr_stream:
  fixes cs :: "8 word list" and noise :: "bool list"
  assumes "mfsk_code m" "dcd m" "\<not> disablefec m"
  defines "bits \<equiv> noise @ [False, False] @ concat (map (psk_tx_char m) cs) @ [True]"
  shows "\<exists>junk. fst (run_bits (psk_rx_bit m) bits s) = (if first_better m then junk @ map uint (filter (\<lambda>c. c \<noteq> 0) cs) else []) \<and>
     fst (run_bits (psk_rx_bit2 m) bits s2) = (if first_better m then [] else junk @ map uint (filter (\<lambda>c. c \<noteq> 0) cs))"
proof -
  obtain junk1 where 1: "fst (run_bits (psk_rx_bit m) bits s) = junk1 @ (if first_better m then map uint (filter (\<lambda>c. c \<noteq> 0) cs) else [])"
    using pskr_received [OF assms(1-3), of noise cs s] unfolding bits_def by blast
  obtain junk2 where 2: "fst (run_bits (psk_rx_bit2 m) bits s2) = junk2 @ (if first_better m then [] else map uint (filter (\<lambda>c. c \<noteq> 0) cs))"
    using pskr_received [OF assms(1-3), of noise cs s2] unfolding bits_def by blast
  show ?thesis
    using 1 2 pskr_silent(1) [OF assms(1,3), of bits s] pskr_silent(2) [OF assms(1,3), of bits s2]
    by (intro exI [of _ "if first_better m then junk1 else junk2"]) simp
qed

text \<open>MFSK. From any state of the register, after two zeros and the codes of a text and the
  first bit of the next code, the receiver has printed the text without its NUL characters; only
  the one character in the register may come before it.\<close>

theorem mfsk_stream:
  "\<exists>junk. length junk \<le> 2 \<and>
     fst (run_bits mfsk_recvbit ([False, False] @ concat (map mfsk_sendchar cs) @ [True]) s) =
       junk @ map uint (filter (\<lambda>c. c \<noteq> 0) cs)"
proof -
  have e: "[False, False] @ concat (map mfsk_sendchar cs) @ [True] =
      [] @ [False, False, True] @ concat (map (\<lambda>c. rotated (varienc (uint c))) cs)"
    using rotated_stream [of "\<lambda>c :: 8 word. varienc (uint c)" cs] mfsk_entry(4,5) [OF unat_byte]
    by (simp add: mfsk_sendchar_def [abs_def] varienc_nth)
  have "concat (map (\<lambda>c. mfsk_recvchar (uint c)) cs) = map uint (filter (\<lambda>c :: 8 word. c \<noteq> 0) cs)"
    by (induction cs) (simp_all add: mfsk_recvchar_def unsigned_eq_0_iff)
  moreover have "length (fst (run_bits mfsk_recvbit ([] @ [False, False, True]) s)) \<le> 2"
    by (auto simp: mfsk_rx_gated gated_def Let_def shift_in_low mfsk_recvchar_def)
  ultimately show ?thesis
    using mfsk_code.after_noise [of "[]" cs s] unfolding e by auto
qed

text \<open>THOR keeps its two channels apart: any mix of characters of the first channel and
  characters from blank to \<open>z\<close> of the second comes out as the same mix, after whatever the
  receiver has seen before. A character the second channel has no code for becomes a NUL of the
  first.\<close>

theorem thor_stream:
  "\<exists>junk. fst (run_bits thor_recvbit (noise @ [False, False] @
       concat (map (\<lambda>c. case c of Primary x \<Rightarrow> thor_sendchar x 0 | Secondary x \<Rightarrow> thor_sendchar x 1) cs) @ [True]) s) =
     junk @ map (\<lambda>c. case c of Primary x \<Rightarrow> Primary x
       | Secondary x \<Rightarrow> if 32 \<le> x \<and> x \<le> 122 then Secondary x else Primary 0) cs"
proof -
  have t: "(case c of Primary x \<Rightarrow> thor_sendchar x 0 | Secondary x \<Rightarrow> thor_sendchar x 1) = code_bits (thor_code c)"
    "(case c of Primary x \<Rightarrow> Primary x | Secondary x \<Rightarrow> if 32 \<le> x \<and> x \<le> 122 then Secondary x else Primary 0) =
       thor_shown c" for c
    by (cases c; simp add: thor_sendchar_def)+
  have e: "[False, False] @ concat (map (\<lambda>c. code_bits (thor_code c)) cs) @ [True] =
      [False, False, True] @ concat (map (\<lambda>c. rotated (thor_code c)) cs)"
    using rotated_stream [of thor_code cs] thor_code_rotated by fastforce
  have "concat (map (\<lambda>c. [thor_shown c]) cs) = map thor_shown cs"
    by (induction cs) simp_all
  then show ?thesis
    using thor_code.after_noise [of noise cs s] unfolding t e by auto
qed

text \<open>The number a code spells in binary.\<close>

definition binary :: "string \<Rightarrow> nat" where
  "binary code = fold (\<lambda>c v. 2 * v + (if c = CHR ''0'' then 0 else 1)) code 0"

lemma accum_value: "accum m p code v = Some t \<Longrightarrow> fold (\<lambda>c v. 2 * v + (if c = CHR ''0'' then 0 else 1)) code v = t"
  by (induction code arbitrary: v) (auto simp: Let_def split: if_splits)

lemma psk_table_binary: "k < 256 \<Longrightarrow> varicodetab2 ! k = binary (psk_varicode_encode (word_of_nat k))"
  using accum_value [OF psk_entry(1)] by (simp add: binary_def psk_varicode_encode_def unsigned_of_nat take_bit_nat_eq_self)

text \<open>The PSK decoder is the inverse of the encoder: a symbol is decoded to \<open>k\<close> exactly when
  it is the number that the code of \<open>k\<close> spells in binary; no other symbol is decoded.\<close>

theorem psk_varicode_inverse:
  "psk_varicode_decode symbol = int k \<longleftrightarrow> k < 256 \<and> unat symbol = binary (psk_varicode_encode (word_of_nat k))"
proof
  assume a: "psk_varicode_decode symbol = int k"
  show "k < 256 \<and> unat symbol = binary (psk_varicode_encode (word_of_nat k))"
  proof (cases "unat symbol \<in> set varicodetab2")
    case True
    then obtain j where "j < 256" "unat symbol = varicodetab2 ! j"
      by (auto simp: in_set_conv_nth table_lengths)
    then show ?thesis using psk_decode_nth [of symbol j] a psk_table_binary by simp
  next
    case False
    then show ?thesis using search_table_none [of symbol varicodetab2 0] a
      by (simp add: psk_varicode_decode_def)
  qed
qed (use psk_decode_nth psk_table_binary in metis)

theorem psk_stream_witness:
  "\<exists>junk. fst (run_bits (psk_rx_bit \<lparr>mfsk_code = False, first_better = True, disablefec = False, dcd = True\<rparr>)
     ([True, True] @ [False, False] @ concat (map (psk_tx_char
       \<lparr>mfsk_code = False, first_better = True, disablefec = False, dcd = True\<rparr>) [67, 81])) 5) = junk @ [67, 81]"
  using psk_stream [of "\<lparr>mfsk_code = False, first_better = True, disablefec = False, dcd = True\<rparr>"
      "[True, True]" "[67, 81]" 5] by simp

theorem pskr_stream_witness:
  "\<exists>junk. fst (run_bits (psk_rx_bit \<lparr>mfsk_code = True, first_better = True, disablefec = False, dcd = True\<rparr>)
     ([] @ [False, False] @ concat (map (psk_tx_char
       \<lparr>mfsk_code = True, first_better = True, disablefec = False, dcd = True\<rparr>) [67, 81]) @ [True]) 0) = junk @ [67, 81]"
  using pskr_stream [of "\<lparr>mfsk_code = True, first_better = True, disablefec = False, dcd = True\<rparr>"
      "[]" "[67, 81]" 0 0] by auto

end
