(* ===== verification/Date.thy ===== *)
theory Date
  imports Prelude
begin

text \<open>
  Class \<^verbatim>\<open>Date\<close> of \<^verbatim>\<open>logbook/date.cxx\<close>, behind the log's calendar and date fields.
  Integers are the code's \<^verbatim>\<open>int\<close>s without their bounds. A table index outside a table
  is the fault \<open>BadIndex\<close>. The date of today, which the code asks the system for, is an
  argument. The theorems relate the class to the calendar: the day count, the order, stepping by
  days and by months, and what the test for a valid date really accepts.
\<close>

section \<open>Tables\<close>

definition mdays :: "int list" where
  "mdays = [0, 31, 28, 31, 30, 31, 30, 31, 31, 30, 31, 30, 31]"

definition jdays :: "int list list" where
  "jdays = [[0, 0, 31, 59, 90, 120, 151, 181, 212, 243, 273, 304, 334],
            [0, 0, 31, 60, 91, 121, 152, 182, 213, 244, 274, 305, 335]]"

definition month_name :: "string list" where
  "month_name = [''January'', ''Febuary'', ''March'', ''April'', ''May'', ''June'', ''July'',
     ''August'', ''September'', ''October'', ''November'', ''December'']"

definition entry :: "'a list \<Rightarrow> int \<Rightarrow> 'a result" where
  "entry xs i = (if 0 \<le> i \<and> nat i < length xs then Inr (xs ! nat i) else Inl BadIndex)"

section \<open>The class\<close>

record date =
  year :: int
  month :: int
  day :: int
  date_fmt :: int

definition leapYear :: "int \<Rightarrow> bool" where
  "leapYear y \<longleftrightarrow> cmod y 400 = 0 \<or> (cmod y 100 \<noteq> 0 \<and> cmod y 4 = 0)"

definition isvalid :: "int \<Rightarrow> int \<Rightarrow> int \<Rightarrow> bool" where
  "isvalid m d y \<longleftrightarrow>
     (if y > 2035 then False
      else if m < 1 \<or> m > 12 then False
      else if d < 1 then False
      else if leapYear y then (if m = 2 \<and> d > 29 then False else True)
      else if d > mdays ! nat m then False
      else True)"

definition datevalid :: "date \<Rightarrow> bool" where
  "datevalid d = isvalid (month d) (day d) (year d)"

text \<open>\<open>now\<close> is what \<^verbatim>\<open>localtime\<close> says of today.\<close>

definition set_today :: "int \<times> int \<times> int \<Rightarrow> date \<Rightarrow> date" where
  "set_today now dt = (case now of (y, m, d) \<Rightarrow> dt\<lparr>year := y, month := m, day := d\<rparr>)"

definition setDate :: "int \<times> int \<times> int \<Rightarrow> int \<Rightarrow> int \<Rightarrow> int \<Rightarrow> date \<Rightarrow> date" where
  "setDate now mm dd yy dt =
     (if isvalid mm dd yy then dt\<lparr>year := yy, month := mm, day := dd\<rparr> else set_today now dt)"

definition daysinmonth :: "int \<Rightarrow> bool \<Rightarrow> int" where
  "daysinmonth m leap =
     (if m < 1 \<or> m > 12 then -1
      else if m = 2 then (if leap then 29 else 28)
      else mdays ! nat m)"

definition dayofyear :: "int \<Rightarrow> int \<Rightarrow> int \<Rightarrow> int result" where
  "dayofyear y mon mday =
     andthen (entry (jdays ! (if leapYear y then 1 else 0)) mon) (\<lambda>j. Inr (mday + j))"

definition dayofepoch :: "int \<Rightarrow> int \<Rightarrow> int \<Rightarrow> int result" where
  "dayofepoch y mon mday = (let
     rest = y - 1;
     quad = cdiv rest 4; rest = cmod rest 4;
     cent = cdiv quad 25; quad = cmod quad 25;
     era = cdiv cent 4; cent = cmod cent 4
     in andthen (dayofyear y mon mday) (\<lambda>doe. let
          doe = doe + era * (400 * 365 + 97);
          doe = doe + cent * (100 * 365 + 24);
          doe = doe + quad * (4 * 365 + 1);
          doe = doe + rest * 365
        in Inr doe))"

definition dayofweek :: "int \<Rightarrow> int \<Rightarrow> int \<Rightarrow> int result" where
  "dayofweek y mon mday = andthen (dayofepoch y mon mday) (\<lambda>n. Inr (cmod n 7))"

section \<open>Months and years\<close>

text \<open>\<^verbatim>\<open>while ((day >= 1) && (!datevalid ())) day--;\<close>\<close>

function clamp_day :: "date \<Rightarrow> date" where
  "clamp_day d = (if 1 \<le> day d \<and> \<not> datevalid d then clamp_day (d\<lparr>day := day d - 1\<rparr>) else d)"
  by pat_completeness auto
termination
  by (relation "measure (\<lambda>d. nat (day d))") auto

declare clamp_day.simps [simp del]

definition previous_month :: "date \<Rightarrow> date" where
  "previous_month d = clamp_day
     (if month d = 1 then d\<lparr>month := 12, year := year d - 1\<rparr> else d\<lparr>month := month d - 1\<rparr>)"

definition next_month :: "date \<Rightarrow> date" where
  "next_month d = clamp_day
     (if month d = 12 then d\<lparr>month := 1, year := year d + 1\<rparr> else d\<lparr>month := month d + 1\<rparr>)"

definition previous_year :: "date \<Rightarrow> date" where
  "previous_year d = (let d = (if month d = 2 \<and> day d = 29 then d\<lparr>day := 28\<rparr> else d)
                      in d\<lparr>year := year d - 1\<rparr>)"

definition next_year :: "date \<Rightarrow> date" where
  "next_year d = (let d = (if month d = 2 \<and> day d = 29 then d\<lparr>day := 28\<rparr> else d)
                  in d\<lparr>year := year d + 1\<rparr>)"

section \<open>Days\<close>

definition endOfMonth :: "int \<Rightarrow> date \<Rightarrow> bool result" where
  "endOfMonth n d =
     (if month d = 2 \<and> leapYear (year d) then Inr (n = 29)
      else andthen (entry mdays (month d)) (\<lambda>k. Inr (n = k)))"

definition helpIncrement :: "date \<Rightarrow> date result" where
  "helpIncrement d = andthen (endOfMonth (day d) d) (\<lambda>eom.
     Inr (if eom \<and> month d = 12 then d\<lparr>day := 1, month := 1, year := year d + 1\<rparr>
          else if eom then d\<lparr>day := 1, month := month d + 1\<rparr>
          else d\<lparr>day := day d + 1\<rparr>))"

fun add_days :: "nat \<Rightarrow> date \<Rightarrow> date result" where
  "add_days 0 d = Inr d"
| "add_days (Suc n) d = andthen (helpIncrement d) (add_days n)"

section \<open>Comparison\<close>

definition date_eq :: "date \<Rightarrow> date \<Rightarrow> bool" where
  "date_eq a b \<longleftrightarrow> (if year a \<noteq> year b then False else if month a \<noteq> month b then False
     else if day a \<noteq> day b then False else True)"

definition date_less :: "date \<Rightarrow> date \<Rightarrow> bool" where
  "date_less a b \<longleftrightarrow>
     (if year a < year b then True else if year a > year b then False
      else if month a < month b then True else if month a > month b then False
      else if day a < day b then True else False)"

definition date_greater :: "date \<Rightarrow> date \<Rightarrow> bool" where
  "date_greater a b \<longleftrightarrow> (if date_less a b then False else if date_eq a b then False else True)"

section \<open>Printing\<close>

text \<open>\<^verbatim>\<open>%02d\<close> and \<^verbatim>\<open>%nd\<close>.\<close>

definition zero_pad :: "nat \<Rightarrow> int \<Rightarrow> string" where
  "zero_pad n i = (let ds = show_nat (nat \<bar>i\<bar>); sign = (if i < 0 then ''-'' else '''')
     in sign @ replicate (n - length sign - length ds) (CHR ''0'') @ ds)"

definition blank_pad :: "nat \<Rightarrow> int \<Rightarrow> string" where
  "blank_pad n i = (let ds = show_int i in replicate (n - length ds) (CHR '' '') @ ds)"

text \<open>The buffer \<^verbatim>\<open>temp\<close> holds 19 characters.\<close>

definition szDate :: "int \<Rightarrow> date \<Rightarrow> string result" where
  "szDate f d =
     (if f = 1 then Inr (take 19 (zero_pad 2 (month d) @ ''/'' @ zero_pad 2 (day d) @ ''/'' @
        zero_pad 2 (if year d > 1999 then year d - 2000 else year d - 1900)))
      else if f = 2 then Inr (take 19 (blank_pad 4 (year d) @ zero_pad 2 (month d) @ zero_pad 2 (day d)))
      else if f = 3 then andthen (entry month_name (month d - 1)) (\<lambda>m.
        Inr (take 19 (m @ '' '' @ blank_pad 2 (day d) @ '', '' @ blank_pad 4 (year d))))
      else if f = 4 then andthen (entry month_name (month d - 1)) (\<lambda>m.
        Inr (take 19 (take 3 m @ '' '' @ blank_pad 2 (day d) @ '', '' @ blank_pad 4 (year d))))
      else if f = 5 then andthen (entry month_name (month d - 1)) (\<lambda>m.
        Inr (take 19 (zero_pad 2 (day d) @ '' '' @ take 3 m @ '' '' @ blank_pad 4 (year d))))
      else Inr (take 19 (zero_pad 2 (month d) @ ''/'' @ zero_pad 2 (day d) @ ''/'' @ zero_pad 4 (year d))))"

section \<open>The calendar\<close>

text \<open>The calendar the class is meant to implement: the length of a month, the dates it has, and
  the days before a year.\<close>

definition month_length :: "int \<Rightarrow> int \<Rightarrow> int" where
  "month_length y m = (if m = 2 then (if leapYear y then 29 else 28) else if m \<in> {4, 6, 9, 11} then 30 else 31)"

definition proper :: "date \<Rightarrow> bool" where
  "proper d \<longleftrightarrow> 1 \<le> year d \<and> 1 \<le> month d \<and> month d \<le> 12 \<and> 1 \<le> day d \<and> day d \<le> month_length (year d) (month d)"

definition next_day :: "date \<Rightarrow> date" where
  "next_day d = (if day d < month_length (year d) (month d) then d\<lparr>day := day d + 1\<rparr>
     else if month d < 12 then d\<lparr>day := 1, month := month d + 1\<rparr>
     else d\<lparr>day := 1, month := 1, year := year d + 1\<rparr>)"

lemma month_cases:
  assumes "1 \<le> m" "m \<le> (12 :: int)"
  shows "m = 1 \<or> m = 2 \<or> m = 3 \<or> m = 4 \<or> m = 5 \<or> m = 6 \<or> m = 7 \<or> m = 8 \<or> m = 9 \<or> m = 10 \<or> m = 11 \<or> m = 12"
  using assms by arith

lemma mdays_nth:
  assumes "1 \<le> m" "m \<le> 12" "\<not> (m = 2 \<and> leapYear y)"
  shows "mdays ! nat m = month_length y m"
  using month_cases [OF assms(1,2)] assms(3) by (auto simp: mdays_def month_length_def)

lemma entry_mdays: "1 \<le> m \<Longrightarrow> m \<le> 12 \<Longrightarrow> entry mdays m = Inr (mdays ! nat m)"
  by (auto simp: entry_def mdays_def)

lemma month_length_pos: "28 \<le> month_length y m"
  by (simp add: month_length_def)

text \<open>What \<^verbatim>\<open>isvalid\<close> accepts. It knows no date after 2035; in an ordinary year it accepts
  exactly the days of the calendar; in a leap year it checks February only and accepts
  every positive day number in the other eleven months.\<close>

theorem isvalid_accepts:
  "isvalid m d y \<longleftrightarrow> y \<le> 2035 \<and> 1 \<le> m \<and> m \<le> 12 \<and> 1 \<le> d \<and>
     (d \<le> month_length y m \<or> leapYear y \<and> m \<noteq> 2)"
  using mdays_nth [of m y] by (auto simp: isvalid_def month_length_def)

text \<open>The day count.\<close>

definition days_before :: "int \<Rightarrow> int" where
  "days_before y = (let r = y - 1 in 365 * r + r div 4 - r div 100 + r div 400)"

definition cumulative :: "int \<Rightarrow> int \<Rightarrow> int" where
  "cumulative y m = jdays ! (if leapYear y then 1 else 0) ! nat m"

definition day_number :: "date \<Rightarrow> int" where
  "day_number d = days_before (year d) + cumulative (year d) (month d) + day d"

lemma entry_jdays:
  "1 \<le> m \<Longrightarrow> m \<le> 12 \<Longrightarrow> entry (jdays ! (if leapYear y then 1 else 0)) m = Inr (cumulative y m)"
  by (auto simp: entry_def cumulative_def jdays_def)

lemma cycles_linear:
  fixes r :: int
  assumes "r = 4 * q + a" "q = 25 * c + b" "c = 4 * e + d"
  shows "e * (400 * 365 + 97) + d * (100 * 365 + 24) + b * (4 * 365 + 1) + a * 365 = 365 * r + q - c + e"
  unfolding assms by simp

lemma cycles:
  fixes r :: int
  shows "r div 4 div 25 div 4 * (400 * 365 + 97) + r div 4 div 25 mod 4 * (100 * 365 + 24) +
     r div 4 mod 25 * (4 * 365 + 1) + r mod 4 * 365 = 365 * r + r div 4 - r div 100 + r div 400"
proof -
  have "r div 100 = r div 4 div 25" "r div 400 = r div 4 div 25 div 4"
    by (simp_all add: zdiv_zmult2_eq [symmetric])
  then show ?thesis
    using cycles_linear [of r "r div 4" "r mod 4" "r div 4 div 25" "r div 4 mod 25" "r div 4 div 25 div 4"
        "r div 4 div 25 mod 4"] by (simp only: mult_div_mod_eq)
qed

lemma dayofepoch_number:
  assumes "1 \<le> y" "1 \<le> m" "m \<le> 12"
  shows "dayofepoch y m d = Inr (days_before y + cumulative y m + d)"
  using assms cycles [of "y - 1"]
  by (simp add: dayofepoch_def dayofyear_def entry_jdays Let_def days_before_def pos_imp_zdiv_nonneg_iff)

lemma proper_number: "proper d \<Longrightarrow> dayofepoch (year d) (month d) (day d) = Inr (day_number d)"
  by (simp add: dayofepoch_number proper_def day_number_def)

lemma div_step:
  fixes y k :: int
  assumes "0 < k"
  shows "y div k = (y - 1) div k + (if y mod k = 0 then 1 else 0)"
proof -
  have d: "y = k * (y div k) + y mod k" by simp
  show ?thesis
  proof (cases "y mod k = 0")
    case True
    have "y - 1 = k * (y div k - 1) + (k - 1)" using d True by (simp add: algebra_simps)
    then have "(y - 1) div k = (k * (y div k - 1) + (k - 1)) div k" by (rule arg_cong)
    also have "\<dots> = y div k - 1" using assms by simp
    finally show ?thesis using True by simp
  next
    case False
    then have m: "0 \<le> y mod k - 1" "y mod k - 1 < k" using assms pos_mod_sign [of k y] pos_mod_bound [of k y] by linarith+
    have "y - 1 = k * (y div k) + (y mod k - 1)" using d by linarith
    then have "(y - 1) div k = (k * (y div k) + (y mod k - 1)) div k" by (rule arg_cong)
    also have "\<dots> = y div k" using assms m by simp
    finally show ?thesis using False by simp
  qed
qed

lemma leapYear_mod: "1 \<le> y \<Longrightarrow> leapYear y \<longleftrightarrow> y mod 400 = 0 \<or> (y mod 100 \<noteq> 0 \<and> y mod 4 = 0)"
  by (simp add: leapYear_def)

lemma leap_arith:
  fixes A B C y :: int
  assumes "r \<Longrightarrow> q" "q \<Longrightarrow> p"
  shows "365 * y + (A + (if p then 1 else 0)) - (B + (if q then 1 else 0)) + (C + (if r then 1 else 0)) =
     365 * (y - 1) + A - B + C + 365 + (if r \<or> \<not> q \<and> p then 1 else 0)"
  using assms by auto

lemma year_length: "1 \<le> y \<Longrightarrow> days_before (y + 1) = days_before y + 365 + (if leapYear y then 1 else 0)"
proof -
  assume y: "1 \<le> y"
  have "400 dvd y \<Longrightarrow> 100 dvd y" "100 dvd y \<Longrightarrow> 4 dvd y"
    by (auto elim: dvd_trans [rotated])
  then have m: "y mod 400 = 0 \<Longrightarrow> y mod 100 = 0" "y mod 100 = 0 \<Longrightarrow> y mod 4 = 0"
    by (simp_all only: dvd_eq_mod_eq_0)
  have "days_before (y + 1) = 365 * y + y div 4 - y div 100 + y div 400"
    by (simp add: days_before_def Let_def)
  also have "\<dots> = 365 * y + ((y - 1) div 4 + (if y mod 4 = 0 then 1 else 0)) -
      ((y - 1) div 100 + (if y mod 100 = 0 then 1 else 0)) + ((y - 1) div 400 + (if y mod 400 = 0 then 1 else 0))"
    by (simp only: div_step [of 4 y] div_step [of 100 y] div_step [of 400 y] zero_less_numeral)
  also have "\<dots> = days_before y + 365 + (if leapYear y then 1 else 0)"
    unfolding days_before_def Let_def leapYear_mod [OF y] by (rule leap_arith [OF m])
  finally show ?thesis .
qed

lemma cumulative_step:
  "1 \<le> m \<Longrightarrow> m < 12 \<Longrightarrow> cumulative y (m + 1) = cumulative y m + month_length y m"
  "cumulative y 1 = 0" "cumulative y 12 + 31 = 365 + (if leapYear y then 1 else 0)"
  using month_cases [of m] by (auto simp: cumulative_def jdays_def month_length_def)

lemma days_before_mono:
  assumes "1 \<le> y" "y < z"
  shows "days_before y + 365 + (if leapYear y then 1 else 0) \<le> days_before z"
proof -
  have "1 \<le> y \<Longrightarrow> days_before y + 365 + (if leapYear y then 1 else 0) \<le> days_before (y + 1 + int n)" for n
  proof (induction n)
    case (Suc n)
    have "days_before (y + 1 + int n + 1) \<ge> days_before (y + 1 + int n)"
      using year_length [of "y + 1 + int n"] Suc.prems by simp
    then show ?case using Suc by (simp add: algebra_simps)
  qed (simp add: year_length)
  from this [OF assms(1), of "nat (z - y - 1)"] assms(2) show ?thesis by simp
qed

lemma cumulative_mono:
  assumes "1 \<le> m" "m < n" "n \<le> 12"
  shows "cumulative y m + month_length y m \<le> cumulative y n"
proof -
  have "1 \<le> m \<Longrightarrow> m + 1 + int k \<le> 12 \<Longrightarrow> cumulative y m + month_length y m \<le> cumulative y (m + 1 + int k)" for k
  proof (induction k)
    case (Suc k)
    have "cumulative y (m + 1 + int k) \<le> cumulative y (m + 1 + int k + 1)"
      using cumulative_step(1) [of "m + 1 + int k" y] month_length_pos [of y "m + 1 + int k"] Suc.prems by simp
    then show ?case using Suc by (simp add: algebra_simps)
  qed (simp add: cumulative_step)
  from this [OF assms(1), of "nat (n - m - 1)"] assms show ?thesis by simp
qed

lemma within_year:
  assumes "proper d"
  shows "1 \<le> cumulative (year d) (month d) + day d"
    "cumulative (year d) (month d) + day d \<le> 365 + (if leapYear (year d) then 1 else 0)"
proof -
  have d: "1 \<le> month d" "month d \<le> 12" "1 \<le> day d" "day d \<le> month_length (year d) (month d)"
    using assms by (auto simp: proper_def)
  show "1 \<le> cumulative (year d) (month d) + day d"
    using cumulative_mono [of 1 "month d" "year d"] month_length_pos [of "year d" 1] d
    by (cases "month d = 1") (auto simp: cumulative_step)
  show "cumulative (year d) (month d) + day d \<le> 365 + (if leapYear (year d) then 1 else 0)"
  proof (cases "month d = 12")
    case True
    then show ?thesis using d cumulative_step(3) [of "year d"] by (auto simp: month_length_def)
  next
    case False
    then show ?thesis using cumulative_mono [of "month d" 12 "year d"] d cumulative_step(3) [of "year d"] by auto
  qed
qed

lemma day_number_less: "proper a \<Longrightarrow> proper b \<Longrightarrow> date_less a b \<Longrightarrow> day_number a < day_number b"
proof -
  assume p: "proper a" "proper b" and l: "date_less a b"
  consider "year a < year b" | "year a = year b" "month a < month b"
    | "year a = year b" "month a = month b" "day a < day b"
    using l by (auto simp: date_less_def split: if_splits)
  then show ?thesis
  proof cases
    case 1
    then show ?thesis
      using days_before_mono [of "year a" "year b"] within_year [OF p(1)] within_year [OF p(2)] p
      by (auto simp: proper_def day_number_def)
  next
    case 2
    then show ?thesis
      using cumulative_mono [of "month a" "month b" "year b"] p by (auto simp: proper_def day_number_def)
  qed (auto simp: day_number_def)
qed

lemma date_less_linear: "date_less a b \<or> date_less b a \<or> date_eq a b"
  by (auto simp: date_less_def date_eq_def)

text \<open>The order of dates is the order of their day numbers: on dates of the calendar,
  \<^verbatim>\<open>operator<\<close>, \<^verbatim>\<open>operator==\<close> and \<^verbatim>\<open>operator>\<close> compare what \<^verbatim>\<open>dayofepoch\<close> counts.\<close>

theorem date_order_is_day_order:
  assumes "proper a" "proper b"
  shows "\<exists>m n. dayofepoch (year a) (month a) (day a) = Inr m \<and> dayofepoch (year b) (month b) (day b) = Inr n \<and>
     (date_less a b \<longleftrightarrow> m < n) \<and> (date_eq a b \<longleftrightarrow> m = n) \<and> (date_greater a b \<longleftrightarrow> n < m)"
proof -
  have "date_eq a b \<Longrightarrow> day_number a = day_number b"
    by (auto simp: date_eq_def day_number_def split: if_splits)
  then show ?thesis
    using proper_number assms day_number_less [OF assms] day_number_less [OF assms(2,1)] date_less_linear [of a b]
    by (auto simp: date_greater_def intro!: exI)
qed

section \<open>Stepping by days\<close>

lemma helpIncrement_next_day:
  assumes "proper d"
  shows "helpIncrement d = Inr (next_day d)"
proof -
  have d: "1 \<le> month d" "month d \<le> 12" "day d \<le> month_length (year d) (month d)"
    using assms by (auto simp: proper_def)
  have "endOfMonth (day d) d = Inr (day d = month_length (year d) (month d))"
    using mdays_nth [OF d(1,2), of "year d"] d
    by (auto simp: endOfMonth_def entry_mdays) (auto simp: month_length_def)
  then show ?thesis using d by (auto simp: helpIncrement_def next_day_def)
qed

lemma next_day_proper: "proper d \<Longrightarrow> proper (next_day d)"
  using month_length_pos [of "year d" "month d + 1"] month_length_pos [of "year d + 1" 1]
  by (auto simp: proper_def next_day_def)

lemma next_day_number: "proper d \<Longrightarrow> day_number (next_day d) = day_number d + 1"
proof -
  assume p: "proper d"
  consider "day d < month_length (year d) (month d)" | "day d = month_length (year d) (month d)" "month d < 12"
    | "day d = 31" "month d = 12"
    using p by (fastforce simp: proper_def month_length_def)
  then show ?thesis
  proof cases
    case 2
    then show ?thesis using p cumulative_step(1) [of "month d" "year d"]
      by (auto simp: next_day_def day_number_def proper_def)
  next
    case 3
    then show ?thesis using p year_length [of "year d"] cumulative_step(3) [of "year d"]
      by (auto simp: next_day_def day_number_def proper_def cumulative_step(2) month_length_def)
  qed (auto simp: next_day_def day_number_def)
qed

text \<open>C24: \<^verbatim>\<open>operator+=\<close> (and with one day \<^verbatim>\<open>operator++\<close>) moves a date of the calendar to
  the date of the calendar whose day number is that many days later, across months, years and
  leap years; so it also moves the day of the week as many steps.\<close>

theorem add_days_counts:
  assumes "proper d"
  shows "\<exists>d' n. add_days k d = Inr d' \<and> proper d' \<and>
     dayofepoch (year d) (month d) (day d) = Inr n \<and>
     dayofepoch (year d') (month d') (day d') = Inr (n + int k) \<and>
     dayofweek (year d') (month d') (day d') = Inr ((n + int k) mod 7)"
proof -
  have "\<exists>d'. add_days k d = Inr d' \<and> proper d' \<and> day_number d' = day_number d + int k"
    using assms
  proof (induction k arbitrary: d)
    case (Suc k)
    then show ?case
      using Suc.IH [OF next_day_proper [OF Suc.prems]] next_day_number [OF Suc.prems]
      by (auto simp: helpIncrement_next_day)
  qed simp
  then obtain d' where d': "add_days k d = Inr d'" "proper d'" "day_number d' = day_number d + int k" by blast
  have "days_before 1 = 0" by (simp add: days_before_def)
  then have "1 \<le> day_number d'"
    using within_year(1) [OF d'(2)] days_before_mono [of 1 "year d'"] d'(2)
    by (cases "year d' = 1") (auto simp: day_number_def proper_def split: if_splits)
  then have "cmod (day_number d') 7 = day_number d' mod 7" by simp
  then show ?thesis
    using d' proper_number [OF assms] proper_number [OF d'(2)]
    by (intro exI [of _ d'] exI [of _ "day_number d"]) (simp add: dayofweek_def)
qed

section \<open>Stepping by months\<close>

lemma clamp_day_result:
  assumes "1 \<le> month d" "month d \<le> 12" "1 \<le> day d"
  shows "clamp_day d = d\<lparr>day := if 2035 < year d then 0
     else if leapYear (year d) \<and> month d \<noteq> 2 then day d
     else min (day d) (month_length (year d) (month d))\<rparr>"
  using assms
proof (induction d rule: clamp_day.induct)
  case (1 d)
  let ?e = "d\<lparr>day := day d - 1\<rparr>"
  show ?case
  proof (cases "datevalid d")
    case True
    then show ?thesis
      by (subst clamp_day.simps) (auto simp: datevalid_def isvalid_accepts min_def)
  next
    case False
    then have c: "clamp_day d = clamp_day ?e" using 1(4) by (subst clamp_day.simps) simp
    show ?thesis
    proof (cases "day d = 1")
      case True
      then have "clamp_day ?e = ?e" by (subst clamp_day.simps) simp
      moreover have "2035 < year d"
        using False True 1(2,3) month_length_pos [of "year d" "month d"]
        by (auto simp: datevalid_def isvalid_accepts)
      ultimately show ?thesis using c True by simp
    next
      case d1: False
      then have "1 \<le> day ?e" using 1(4) by simp
      then have "clamp_day ?e = ?e\<lparr>day := if 2035 < year d then 0
         else if leapYear (year d) \<and> month d \<noteq> 2 then day d - 1
         else min (day d - 1) (month_length (year d) (month d))\<rparr>"
        using 1(1) False 1(2-4) by simp
      then show ?thesis
        using c False 1(2-4) by (auto simp: datevalid_def isvalid_accepts min_def)
    qed
  qed
qed

text \<open>The calendar's step to the next month. The month is the next one; the day is cut to
  the length of that month, but only in ordinary years and in February: in the other months of
  a leap year the 31st stays (31 April 2024), and from 2036 on every date steps to day 0.\<close>

theorem next_month_day:
  assumes "1 \<le> month d" "month d \<le> 12" "1 \<le> day d"
  shows "\<exists>y m. (y, m) = (if month d = 12 then (year d + 1, 1) else (year d, month d + 1)) \<and>
     next_month d = d\<lparr>year := y, month := m, day := if 2035 < y then 0
       else if leapYear y \<and> m \<noteq> 2 then day d else min (day d) (month_length y m)\<rparr>"
proof -
  let ?d = "if month d = 12 then d\<lparr>month := 1, year := year d + 1\<rparr> else d\<lparr>month := month d + 1\<rparr>"
  have "1 \<le> month ?d" "month ?d \<le> 12" "1 \<le> day ?d" using assms by auto
  from clamp_day_result [OF this] show ?thesis
    by (auto simp: next_month_def)
qed

theorem next_month_day_witness:
  "next_month \<lparr>year = 2024, month = 3, day = 31, date_fmt = 0\<rparr> =
     \<lparr>year = 2024, month = 4, day = 31, date_fmt = 0\<rparr> \<and>
   next_month \<lparr>year = 2035, month = 12, day = 5, date_fmt = 0\<rparr> =
     \<lparr>year = 2036, month = 1, day = 0, date_fmt = 0\<rparr>"
proof -
  have "leapYear 2024" by (simp add: leapYear_def)
  then show ?thesis
    using next_month_day [of "\<lparr>year = 2024, month = 3, day = 31, date_fmt = 0\<rparr>"]
      next_month_day [of "\<lparr>year = 2035, month = 12, day = 5, date_fmt = 0\<rparr>"] by auto
qed

theorem date_order_is_day_order_witness:
  "\<exists>m n. dayofepoch 2023 12 31 = Inr m \<and> dayofepoch 2024 1 1 = Inr n \<and> m < n"
  using date_order_is_day_order [of "\<lparr>year = 2023, month = 12, day = 31, date_fmt = 0\<rparr>"
      "\<lparr>year = 2024, month = 1, day = 1, date_fmt = 0\<rparr>"]
  by (auto simp: proper_def month_length_def date_less_def)

theorem add_days_counts_witness:
  "\<exists>d' n. add_days 366 \<lparr>year = 2023, month = 12, day = 31, date_fmt = 0\<rparr> = Inr d' \<and> proper d' \<and>
     dayofepoch 2023 12 31 = Inr n \<and> dayofepoch (year d') (month d') (day d') = Inr (n + 366)"
  using add_days_counts [of "\<lparr>year = 2023, month = 12, day = 31, date_fmt = 0\<rparr>" 366]
  by (auto simp: proper_def month_length_def)

section \<open>Printing\<close>

lemma length_show_nat:
  "n < 10 \<Longrightarrow> length (show_nat n) = 1" "10 \<le> n \<Longrightarrow> length (show_nat n) = Suc (length (show_nat (n div 10)))"
  by (subst show_nat.simps; simp)+

lemma length_show_year: "1000 \<le> n \<Longrightarrow> n < 10000 \<Longrightarrow> length (show_nat n) = 4"
  by (simp add: length_show_nat div_mult2_eq [symmetric])

lemma digits_value_zeros: "digits_value (replicate k (CHR ''0'') @ ds) = digits_value ds"
  by (induction k) (simp_all add: digits_value_def)

lemma zero_pad_two:
  assumes "0 \<le> i" "i < 100"
  shows "length (zero_pad 2 i) = 2 \<and> digits_value (zero_pad 2 i) = nat i"
proof -
  have "length (show_nat (nat i)) = (if nat i < 10 then 1 else 2)"
    using assms by (cases "nat i < 10") (simp_all add: length_show_nat)
  then show ?thesis
    using assms by (auto simp: zero_pad_def Let_def digits_value_zeros digits_value_show_nat)
qed

text \<open>The log's own form of a date, \<^verbatim>\<open>YYYYMMDD\<close>: on dates of the calendar with a
  four-digit year it has eight characters, and the year, the month and the day can be read
  back from columns 1 to 4, 5 to 6 and 7 to 8.\<close>

theorem szDate_compact:
  assumes "proper d" "1000 \<le> year d" "year d < 10000"
  shows "\<exists>s. szDate 2 d = Inr s \<and> length s = 8 \<and> digits_value (take 4 s) = nat (year d) \<and>
     digits_value (take 2 (drop 4 s)) = nat (month d) \<and> digits_value (drop 6 s) = nat (day d)"
proof -
  have y: "blank_pad 4 (year d) = show_nat (nat (year d))" "length (show_nat (nat (year d))) = 4"
    using assms(2,3) length_show_year [of "nat (year d)"] by (simp_all add: blank_pad_def show_int_def)
  have "day d \<le> 31" using assms(1) by (auto simp: proper_def month_length_def split: if_splits)
  then have p: "length (zero_pad 2 (month d)) = 2 \<and> digits_value (zero_pad 2 (month d)) = nat (month d)"
    "length (zero_pad 2 (day d)) = 2 \<and> digits_value (zero_pad 2 (day d)) = nat (day d)"
    using assms(1) by (auto intro!: zero_pad_two simp: proper_def)
  then show ?thesis using y by (simp add: szDate_def digits_value_show_nat)
qed

theorem szDate_compact_witness:
  "\<exists>s. szDate 2 \<lparr>year = 2024, month = 2, day = 29, date_fmt = 2\<rparr> = Inr s \<and> length s = 8 \<and> digits_value (drop 6 s) = 29"
  using szDate_compact [of "\<lparr>year = 2024, month = 2, day = 29, date_fmt = 2\<rparr>"]
  by (auto simp: proper_def month_length_def leapYear_def)

end
