(* ===== verification/Interleave.thy ===== *)
theory Interleave
  imports Prelude "HOL-Library.Word"
begin

text \<open>
  Class \<^verbatim>\<open>interleave\<close> of \<^verbatim>\<open>mfsk/interleave.cxx\<close>: the self-synchronising diagonal
  interleaver of the MFSK, THOR and PSKR modes. The flat array \<^verbatim>\<open>table\<close>, which the code reads
  only through \<^verbatim>\<open>tab(k, i, j)\<close>, is a list of \<^verbatim>\<open>depth\<close> square tables here. The
  theorem says what a receiver's interleaver does to what a sender's interleaver did: every symbol
  comes out again, on its own row, \<^verbatim>\<open>(size - 1) * depth\<close> calls later.
\<close>

unbundle bit_operations_syntax

section \<open>The class\<close>

datatype direction = INTERLEAVE_FWD | INTERLEAVE_REV

definition PUNCTURE :: "8 word" where "PUNCTURE = 128"

type_synonym rows = "8 word list list"

record interleave =
  il_size :: nat
  il_depth :: nat
  il_direction :: direction
  il_table :: "rows list"

text \<open>\<^verbatim>\<open>flush\<close>: punctures for a receiver, zeros for a sender.\<close>

definition il_flush :: "interleave \<Rightarrow> interleave" where
  "il_flush s = s\<lparr>il_table := replicate (il_depth s) (replicate (il_size s) (replicate (il_size s)
     (if il_direction s = INTERLEAVE_REV then PUNCTURE else 0)))\<rparr>"

definition il_new :: "nat \<Rightarrow> nat \<Rightarrow> direction \<Rightarrow> interleave" where
  "il_new sz depth dir =
     il_flush \<lparr>il_size = sz, il_depth = depth, il_direction = dir, il_table = []\<rparr>"

text \<open>\<^verbatim>\<open>for (j = 0; j < size - 1; j++) tab(k,i,j) = tab(k,i,j+1); tab(k,i,size-1) = psyms[i]\<close>\<close>

definition shift_row :: "8 word list \<Rightarrow> 8 word \<Rightarrow> 8 word list" where
  "shift_row row x = tl row @ [x]"

definition tap :: "nat \<Rightarrow> direction \<Rightarrow> nat \<Rightarrow> nat" where
  "tap sz dir i = (if dir = INTERLEAVE_FWD then sz - i - 1 else i)"

text \<open>One pass of the loop over \<open>k\<close>.\<close>

definition stage :: "nat \<Rightarrow> direction \<Rightarrow> rows \<Rightarrow> 8 word list \<Rightarrow> rows \<times> 8 word list" where
  "stage sz dir rows psyms = (let
     rows = map (\<lambda>i. shift_row (rows ! i) (psyms ! i)) [0..<sz]
     in (rows, map (\<lambda>i. rows ! i ! tap sz dir i) [0..<sz]))"

fun stages :: "nat \<Rightarrow> direction \<Rightarrow> rows list \<Rightarrow> 8 word list \<Rightarrow> rows list \<times> 8 word list" where
  "stages sz dir [] psyms = ([], psyms)"
| "stages sz dir (r # rs) psyms = (let
     (r, psyms) = stage sz dir r psyms;
     (rs, psyms) = stages sz dir rs psyms
     in (r # rs, psyms))"

definition symbols :: "8 word list \<Rightarrow> interleave \<Rightarrow> 8 word list \<times> interleave" where
  "symbols psyms s = (let (tbl, psyms) = stages (il_size s) (il_direction s) (il_table s) psyms
     in (psyms, s\<lparr>il_table := tbl\<rparr>))"

text \<open>\<^verbatim>\<open>bits\<close>: the low \<^verbatim>\<open>size\<close> bits of a word as symbols and back.\<close>

definition unpack_bits :: "nat \<Rightarrow> 32 word \<Rightarrow> 8 word list" where
  "unpack_bits sz w = map (\<lambda>i. ucast (drop_bit (sz - i - 1) w AND 1)) [0..<sz]"

definition pack_bits :: "8 word list \<Rightarrow> 32 word" where
  "pack_bits syms = foldl (\<lambda>w x. push_bit 1 w OR ucast x) 0 syms"

definition il_bits :: "32 word \<Rightarrow> interleave \<Rightarrow> 32 word \<times> interleave" where
  "il_bits pbits s = (let (syms, s) = symbols (unpack_bits (il_size s) pbits) s in (pack_bits syms, s))"

section \<open>Streams\<close>

fun run_symbols :: "8 word list list \<Rightarrow> interleave \<Rightarrow> 8 word list list" where
  "run_symbols [] s = []"
| "run_symbols (x # xs) s = (let (y, s) = symbols x s in y # run_symbols xs s)"

fun run_stage :: "nat \<Rightarrow> direction \<Rightarrow> 8 word list list \<Rightarrow> rows \<Rightarrow> 8 word list list" where
  "run_stage sz dir [] r = []"
| "run_stage sz dir (x # xs) r = (let (r, y) = stage sz dir r x in y # run_stage sz dir xs r)"

text \<open>Row \<open>i\<close> of a stream, and a stream delayed by \<open>d\<close> calls behind a filler.\<close>

definition row_of :: "nat \<Rightarrow> 'a list list \<Rightarrow> 'a list" where
  "row_of i xs = map (\<lambda>x. x ! i) xs"

definition delay :: "'a list \<Rightarrow> 'a list \<Rightarrow> 'a list" where
  "delay front xs = take (length xs) (front @ xs)"

lemma delay_delay:
  fixes xs :: "'a list"
  shows "delay f (delay g xs) = delay (f @ g) xs"
proof -
  have "take n (f @ take n ys) = take n (f @ ys)" for n and ys :: "'a list"
    by (simp add: take_append min_def)
  then show ?thesis by (simp add: delay_def del: take_append)
qed

lemma length_delay [simp]: "length (delay f xs) = length xs"
  by (simp add: delay_def)

text \<open>The stages work one after the other on whole streams.\<close>

lemma run_symbols_Nil: "il_table s = [] \<Longrightarrow> run_symbols xs s = xs"
  by (induction xs arbitrary: s) (simp_all add: symbols_def)

lemma run_symbols_Cons:
  "run_symbols xs (s\<lparr>il_table := r # rs\<rparr>) =
     run_symbols (run_stage (il_size s) (il_direction s) xs r) (s\<lparr>il_table := rs\<rparr>)"
proof (induction xs arbitrary: r rs)
  case (Cons x xs)
  obtain r' y where st: "stage (il_size s) (il_direction s) r x = (r', y)" by force
  obtain rs' z where sts: "stages (il_size s) (il_direction s) rs y = (rs', z)" by force
  show ?case using Cons [of r' rs'] by (simp add: symbols_def st sts)
qed simp

section \<open>What a stage does to a stream\<close>

definition fits :: "nat \<Rightarrow> 'a list list \<Rightarrow> bool" where
  "fits sz xs \<longleftrightarrow> (\<forall>x \<in> set xs. length x = sz)"

definition lag :: "nat \<Rightarrow> direction \<Rightarrow> nat \<Rightarrow> nat" where
  "lag sz dir i = (if dir = INTERLEAVE_FWD then i else sz - 1 - i)"

lemma lag_tap: "i < sz \<Longrightarrow> tap sz dir i = sz - 1 - lag sz dir i \<and> lag sz dir i < sz"
  by (auto simp: lag_def tap_def)

lemma run_stage_length [simp]: "length (run_stage sz dir xs r) = length xs"
  by (induction xs arbitrary: r) (simp_all split: prod.splits)

lemma run_stage_fits: "fits sz (run_stage sz dir xs r)"
  by (induction xs arbitrary: r) (auto simp: fits_def stage_def Let_def)

text \<open>Row \<open>i\<close> of the table holds the last \<open>sz\<close> symbols of its row; the front \<open>f\<close> is what it
  held at the start.\<close>

lemma run_stage_row:
  assumes "i < sz" "length f = sz" "length r = sz" "r ! i = f"
  shows "row_of i (run_stage sz dir xs r) = delay (drop (tap sz dir i + 1) f) (row_of i xs)"
proof -
  let ?p = "tap sz dir i"
  have p: "?p < sz" using assms(1) by (auto simp: tap_def)
  have "row_of i (run_stage sz dir xs r) = map (\<lambda>t. (r ! i @ row_of i xs) ! (t + 1 + ?p)) [0..<length xs]"
    using assms(1,3) assms(2) [folded assms(4)]
  proof (induction xs arbitrary: r)
    case (Cons x xs)
    let ?r = "map (\<lambda>i. shift_row (r ! i) (x ! i)) [0..<sz]"
    have r: "?r ! i = tl (r ! i) @ [x ! i]" "length ?r = sz" using Cons.prems(1) by (simp_all add: shift_row_def)
    obtain a as where row: "r ! i = a # as" using Cons.prems(1,3) by (cases "r ! i") auto
    have IH: "row_of i (run_stage sz dir xs ?r) =
        map (\<lambda>t. (?r ! i @ row_of i xs) ! (t + 1 + ?p)) [0..<length xs]"
      using Cons.IH [of ?r] Cons.prems r by simp
    have "run_stage sz dir (x # xs) r = map (\<lambda>i. ?r ! i ! tap sz dir i) [0..<sz] # run_stage sz dir xs ?r"
      by (simp add: stage_def Let_def)
    then have "row_of i (run_stage sz dir (x # xs) r) = ?r ! i ! ?p # row_of i (run_stage sz dir xs ?r)"
      using Cons.prems(1) by (simp add: row_of_def)
    also have "\<dots> = map (\<lambda>t. (r ! i @ row_of i (x # xs)) ! (t + 1 + ?p)) (0 # map Suc [0..<length xs])"
      using p Cons.prems(3) unfolding IH r row by (simp add: row_of_def nth_append)
    finally show ?case by (simp add: upt_conv_Cons map_Suc_upt del: upt_Suc)
  qed (simp add: row_of_def)
  also have "\<dots> = delay (drop (?p + 1) f) (row_of i xs)"
  proof (rule nth_equalityI)
    fix t assume "t < length (map (\<lambda>t. (r ! i @ row_of i xs) ! (t + 1 + ?p)) [0..<length xs])"
    then have t: "t < length xs" by simp
    have "drop (?p + 1) (f @ row_of i xs) ! t = (f @ row_of i xs) ! (?p + 1 + t)"
      by (rule nth_drop) (use p assms(2) in simp)
    moreover have "drop (?p + 1) (f @ row_of i xs) = drop (?p + 1) f @ row_of i xs" using p assms(2) by simp
    ultimately have "(drop (?p + 1) f @ row_of i xs) ! t = (f @ row_of i xs) ! (?p + 1 + t)" by simp
    then show "map (\<lambda>t. (r ! i @ row_of i xs) ! (t + 1 + ?p)) [0..<length xs] ! t =
        delay (drop (?p + 1) f) (row_of i xs) ! t"
      using t assms(4) by (simp add: delay_def row_of_def add.commute add.left_commute del: take_append)
  qed (simp add: delay_def row_of_def)
  finally show ?thesis .
qed

lemma run_stage_fill:
  assumes "i < sz"
  shows "row_of i (run_stage sz dir xs (replicate sz (replicate sz c))) = delay (replicate (lag sz dir i) c) (row_of i xs)"
  using run_stage_row [of i sz "replicate sz c" "replicate sz (replicate sz c)" dir xs] assms lag_tap [OF assms, of dir]
  by (simp add: Suc_diff_Suc)

lemma run_symbols_fill:
  assumes "i < il_size s" "il_table s = replicate d (replicate (il_size s) (replicate (il_size s) c))"
  shows "row_of i (run_symbols xs s) =
     delay (replicate (d * lag (il_size s) (il_direction s) i) c) (row_of i xs)"
  using assms
proof (induction d arbitrary: xs s)
  case 0
  then show ?case by (simp add: run_symbols_Nil delay_def)
next
  case (Suc d)
  let ?n = "il_size s" and ?l = "lag (il_size s) (il_direction s) i"
  let ?f = "replicate ?n (replicate ?n c)"
  let ?s = "s\<lparr>il_table := replicate d ?f\<rparr>"
  have "s = s\<lparr>il_table := ?f # replicate d ?f\<rparr>" using Suc.prems(2) by simp
  then have "run_symbols xs s = run_symbols (run_stage ?n (il_direction s) xs ?f) ?s"
    by (metis run_symbols_Cons)
  then have "row_of i (run_symbols xs s) = delay (replicate (d * ?l) c) (row_of i (run_stage ?n (il_direction s) xs ?f))"
    using Suc.IH [of ?s] Suc.prems(1) by simp
  then show ?case
    using run_stage_fill [OF Suc.prems(1)]
    by (simp add: delay_delay replicate_add [symmetric] add.commute)
qed

text \<open>C24: an interleaver followed by the matching de-interleaver is a pure delay: on every row the
  receiver gets what the sender put in, \<^verbatim>\<open>(size - 1) * depth\<close> symbols later, after the punctures
  and zeros the two tables held at the start.\<close>

theorem interleave_deinterleave:
  assumes "i < sz"
  shows "row_of i (run_symbols (run_symbols xs (il_new sz depth INTERLEAVE_FWD)) (il_new sz depth INTERLEAVE_REV)) =
     take (length xs) (replicate (depth * (sz - 1 - i)) PUNCTURE @ replicate (depth * i) 0 @ row_of i xs)"
proof -
  have "row_of i (run_symbols xs (il_new sz depth INTERLEAVE_FWD)) = delay (replicate (depth * i) 0) (row_of i xs)" for xs
    using run_symbols_fill [of i "il_new sz depth INTERLEAVE_FWD" depth 0] assms
    by (simp add: il_new_def il_flush_def lag_def)
  moreover have "row_of i (run_symbols ys (il_new sz depth INTERLEAVE_REV)) =
      delay (replicate (depth * (sz - 1 - i)) PUNCTURE) (row_of i ys)" for ys
    using run_symbols_fill [of i "il_new sz depth INTERLEAVE_REV" depth PUNCTURE] assms
    by (simp add: il_new_def il_flush_def lag_def)
  ultimately show ?thesis by (simp add: delay_delay) (simp add: delay_def row_of_def)
qed

theorem interleave_deinterleave_witness:
  "row_of 1 (run_symbols (run_symbols [[1, 2], [3, 4], [5, 6]] (il_new 2 1 INTERLEAVE_FWD)) (il_new 2 1 INTERLEAVE_REV)) =
     [0, 2, 4]"
  using interleave_deinterleave [of 1 2 "[[1, 2], [3, 4], [5, 6]]" 1] by (simp add: row_of_def)

end
