(* ===== verification/Ringbuffer.thy ===== *)
theory Ringbuffer
  imports Prelude "HOL-Library.Word"
begin

text \<open>
  Template \<^verbatim>\<open>ringbuffer\<close> of \<^verbatim>\<open>include/ringbuffer.h\<close>, which carries the sound samples
  between threads, and class \<^verbatim>\<open>fqueue\<close> of \<^verbatim>\<open>qrunner/fqueue.h\<close>, the queue of deferred
  calls built on it. \<^verbatim>\<open>size_t\<close> is a 64-bit word; the indices run over twice the size and are
  reduced with masks, as in the code. The buffer keeps what its unwritten half holds, so that
  reads outside the valid part would show. The abstraction is the list of elements written and
  not yet read.
\<close>

unbundle bit_operations_syntax

section \<open>The class\<close>

record 'a ringbuffer =
  rb_size :: "64 word"
  big_mask :: "64 word"
  small_mask :: "64 word"
  rb_buf :: "'a list"
  ridx :: "64 word"
  widx :: "64 word"

definition powerof2 :: "64 word \<Rightarrow> bool" where
  "powerof2 n \<longleftrightarrow> n AND (n - 1) = 0"

text \<open>The constructor; \<open>junk\<close> is what the fresh array \<^verbatim>\<open>new T[2 * size]\<close> happens to hold.\<close>

definition rb_new :: "64 word \<Rightarrow> 'a list \<Rightarrow> 'a ringbuffer" where
  "rb_new s junk = \<lparr>rb_size = s, big_mask = s * 2 - 1, small_mask = s - 1, rb_buf = junk, ridx = 0, widx = 0\<rparr>"

definition read_space :: "'a ringbuffer \<Rightarrow> 64 word" where
  "read_space rb = (widx rb - ridx rb) AND big_mask rb"

definition write_space :: "'a ringbuffer \<Rightarrow> 64 word" where
  "write_space rb = rb_size rb - read_space rb"

definition read_advance :: "64 word \<Rightarrow> 'a ringbuffer \<Rightarrow> 'a ringbuffer" where
  "read_advance n rb = rb\<lparr>ridx := (ridx rb + n) AND big_mask rb\<rparr>"

definition write_advance :: "64 word \<Rightarrow> 'a ringbuffer \<Rightarrow> 'a ringbuffer" where
  "write_advance n rb = rb\<lparr>widx := (widx rb + n) AND big_mask rb\<rparr>"

text \<open>The vectors: offsets into the buffer and lengths of the two parts, and their sum.\<close>

type_synonym parts = "(64 word \<times> 64 word) \<times> (64 word \<times> 64 word)"

definition get_parts :: "64 word \<Rightarrow> 64 word \<Rightarrow> 64 word \<Rightarrow> parts" where
  "get_parts sz index n =
     (if sz < index + n then ((index, sz - index), (0, n - (sz - index)))
      else ((index, n), (0, 0)))"

definition clip_count :: "64 word \<Rightarrow> 64 word \<Rightarrow> 64 word" where
  "clip_count n space = (if n = 0 \<or> space < n then space else n)"

definition get_rv :: "64 word \<Rightarrow> 'a ringbuffer \<Rightarrow> parts \<times> 64 word" where
  "get_rv n rb = (let n = clip_count n (read_space rb)
     in (get_parts (rb_size rb) (ridx rb AND small_mask rb) n, n))"

definition get_wv :: "64 word \<Rightarrow> 'a ringbuffer \<Rightarrow> parts \<times> 64 word" where
  "get_wv n rb = (let n = clip_count n (write_space rb)
     in (get_parts (rb_size rb) (widx rb AND small_mask rb) n, n))"

text \<open>\<^verbatim>\<open>memcpy\<close> out of and into the buffer.\<close>

definition slice :: "'a list \<Rightarrow> 64 word \<times> 64 word \<Rightarrow> 'a list" where
  "slice buf v = take (unat (snd v)) (drop (unat (fst v)) buf)"

definition store :: "64 word \<times> 64 word \<Rightarrow> 'a list \<Rightarrow> 'a list \<Rightarrow> 'a list" where
  "store v xs buf = (let k = unat (fst v); n = unat (snd v)
     in take k buf @ take n xs @ drop (k + n) buf)"

definition peek :: "64 word \<Rightarrow> 'a ringbuffer \<Rightarrow> 'a list" where
  "peek n rb = (let ((v0, v1), n) = get_rv n rb
     in slice (rb_buf rb) v0 @ (if snd v1 \<noteq> 0 then slice (rb_buf rb) v1 else []))"

definition rb_read :: "64 word \<Rightarrow> 'a ringbuffer \<Rightarrow> 'a list \<times> 'a ringbuffer" where
  "rb_read n rb = (let ((v0, v1), n) = get_rv n rb;
     dst = slice (rb_buf rb) v0 @ (if snd v1 \<noteq> 0 then slice (rb_buf rb) v1 else [])
     in (dst, read_advance n rb))"

text \<open>\<^verbatim>\<open>write(src, n)\<close>; the caller's array holds at least as many elements as are copied.\<close>

definition rb_write :: "'a list \<Rightarrow> 64 word \<Rightarrow> 'a ringbuffer \<Rightarrow> 64 word \<times> 'a ringbuffer" where
  "rb_write src n rb = (let ((v0, v1), n) = get_wv n rb;
     buf = store v0 src (rb_buf rb);
     buf = (if snd v1 \<noteq> 0 then store v1 (drop (unat (snd v0)) src) buf else buf)
     in (n, write_advance n (rb\<lparr>rb_buf := buf\<rparr>)))"

definition rb_reset :: "'a ringbuffer \<Rightarrow> 'a ringbuffer" where
  "rb_reset rb = rb\<lparr>ridx := 0, widx := 0\<rparr>"

definition rb_fill :: "'a \<Rightarrow> 'a ringbuffer \<Rightarrow> 'a ringbuffer" where
  "rb_fill v rb = (let rb = rb_reset rb;
     rb = rb\<lparr>rb_buf := fold (\<lambda>i buf. buf[i := v]) [0..<unat (rb_size rb)] (rb_buf rb)\<rparr>
     in write_advance (rb_size rb) rb)"

section \<open>The queue of deferred calls\<close>

text \<open>A slot of \<^verbatim>\<open>blocksize\<close> characters holds one function object: its first cell holds the
  object, the others are the bytes it covers.\<close>

record 'f fqueue =
  fq_rb :: "'f option ringbuffer"
  blocksize :: "64 word"

definition FQUEUE_SIZE :: "64 word" where "FQUEUE_SIZE = 2048"

definition fq_new :: "64 word \<Rightarrow> 64 word \<Rightarrow> 'f option list \<Rightarrow> 'f fqueue" where
  "fq_new count bs junk = \<lparr>fq_rb = rb_new (bs * count) junk, blocksize = bs\<rparr>"

definition fq_empty :: "'f fqueue \<Rightarrow> bool" where
  "fq_empty q \<longleftrightarrow> read_space (fq_rb q) = 0"

definition fq_full :: "'f fqueue \<Rightarrow> bool" where
  "fq_full q \<longleftrightarrow> write_space (fq_rb q) = 0"

definition fq_size :: "'f fqueue \<Rightarrow> 64 word" where
  "fq_size q = read_space (fq_rb q) div blocksize q"

definition push :: "'f \<Rightarrow> 'f fqueue \<Rightarrow> bool \<times> 'f fqueue" where
  "push f q = (let ((v0, v1), n) = get_wv (blocksize q) (fq_rb q) in
     if n < blocksize q then (False, q)
     else let rb = fq_rb q;
              rb = rb\<lparr>rb_buf := (rb_buf rb)[unat (fst v0) := Some f]\<rparr>
          in (True, q\<lparr>fq_rb := write_advance (blocksize q) rb\<rparr>))"

text \<open>\<^verbatim>\<open>pop\<close> returns the object it ran or destroyed.\<close>

definition pop :: "'f fqueue \<Rightarrow> 'f option option \<times> 'f fqueue" where
  "pop q = (let ((v0, v1), n) = get_rv (blocksize q) (fq_rb q) in
     if n < blocksize q then (None, q)
     else (Some (rb_buf (fq_rb q) ! unat (fst v0)),
           q\<lparr>fq_rb := read_advance (blocksize q) (fq_rb q)\<rparr>))"

end
