(* ===== verification/Ringbuffer_Laws.thy ===== *)
theory Ringbuffer_Laws
  imports Ringbuffer
begin

text \<open>
  The ring buffer and the call queue of theory Ringbuffer as queues: the arithmetic of the
  masked indices, copying around the end of the array, the content after every operation, and
  what a reader sees of what a writer wrote.
\<close>

section \<open>Indices\<close>

lemma mod_shift_inj:
  fixes a i j S :: nat
  assumes "i < S" "j < S" "(a + i) mod S = (a + j) mod S"
  shows "i = j"
proof -
  have "i \<le> j \<Longrightarrow> (a + i) mod S = (a + j) mod S \<Longrightarrow> j < S \<Longrightarrow> i = j" for i j
  proof -
    assume h: "i \<le> j" "(a + i) mod S = (a + j) mod S" "j < S"
    then have "S dvd (a + j) - (a + i)" using mod_eq_dvd_iff_nat [of "a + i" "a + j" S] by simp
    then have "S dvd j - i" by simp
    then show "i = j" using h by (auto dest: dvd_imp_le)
  qed
  then show ?thesis using assms by (metis linorder_le_cases)
qed

lemma unat_and_mask: "m \<le> 64 \<Longrightarrow> unat ((w :: 64 word) AND mask m) = unat w mod 2 ^ m"
  unfolding take_bit_eq_mask [symmetric] unsigned_take_bit_eq by (rule take_bit_eq_mod)

lemma unat_sub_masked:
  fixes w r :: "64 word"
  assumes "m \<le> 63" "unat r < 2 ^ m"
  shows "unat ((w - r) AND mask m) = (unat w + 2 ^ m - unat r) mod 2 ^ m"
proof (cases "unat r \<le> unat w")
  case True
  then have "unat w + 2 ^ m - unat r = unat (w - r) + 2 ^ m" by (simp add: unat_sub_if')
  then show ?thesis using assms(1) by (simp add: unat_and_mask)
next
  case False
  have p: "(2 :: nat) ^ 64 = 2 ^ m * 2 ^ (64 - m)" using assms(1) by (simp add: power_add [symmetric])
  have "1 \<le> (2 :: nat) ^ (64 - m)" by simp
  then have "(2 :: nat) ^ 64 = 2 ^ m + 2 ^ m * (2 ^ (64 - m) - 1)" unfolding p by (simp add: algebra_simps)
  then have "unat (w - r) = (unat w + 2 ^ m - unat r) + 2 ^ m * (2 ^ (64 - m) - 1)"
    using False assms(2) by (simp add: unat_sub_if')
  then show ?thesis using assms(1) by (simp add: unat_and_mask)
qed

lemma unat_add_masked:
  fixes w n :: "64 word"
  assumes "m \<le> 63"
  shows "unat ((w + n) AND mask m) = (unat w + unat n) mod 2 ^ m"
proof -
  have "(2 :: nat) ^ m dvd 2 ^ 64" by (rule le_imp_power_dvd) (use assms in simp)
  then show ?thesis using assms by (simp add: unat_and_mask unat_word_ariths mod_mod_cancel)
qed

section \<open>Well-formed buffers and their content\<close>

text \<open>\<open>k\<close> is the logarithm of the size.\<close>

definition rb_ok :: "nat \<Rightarrow> 'a ringbuffer \<Rightarrow> bool" where
  "rb_ok k rb \<longleftrightarrow> k \<le> 61 \<and> rb_size rb = 2 ^ k \<and> big_mask rb = mask (Suc k) \<and> small_mask rb = mask k \<and>
     unat (ridx rb) < 2 ^ Suc k \<and> unat (widx rb) < 2 ^ Suc k \<and> unat (read_space rb) \<le> 2 ^ k \<and>
     length (rb_buf rb) = 2 * 2 ^ k"

definition ring_get :: "nat \<Rightarrow> 'a list \<Rightarrow> nat \<Rightarrow> nat \<Rightarrow> 'a list" where
  "ring_get S buf a n = map (\<lambda>i. buf ! ((a + i) mod S)) [0..<n]"

definition content :: "nat \<Rightarrow> 'a ringbuffer \<Rightarrow> 'a list" where
  "content k rb = ring_get (2 ^ k) (rb_buf rb) (unat (ridx rb)) (unat (read_space rb))"

lemma length_ring_get [simp]: "length (ring_get S buf a n) = n"
  by (simp add: ring_get_def)

lemma unat_exp: "k \<le> 63 \<Longrightarrow> unat (2 ^ k :: 64 word) = 2 ^ k"
proof -
  assume k: "k \<le> 63"
  then have "(2 :: nat) ^ k < 2 ^ 64" by (intro power_strict_increasing) simp_all
  then have "unat (word_of_nat (2 ^ k) :: 64 word) = 2 ^ k"
    using k by (simp only: unsigned_of_nat) (simp add: take_bit_nat_eq_self)
  then show ?thesis by simp
qed

lemma read_space_nat:
  "rb_ok k rb \<Longrightarrow> unat (read_space rb) = (unat (widx rb) + 2 ^ Suc k - unat (ridx rb)) mod 2 ^ Suc k"
proof -
  assume "rb_ok k rb"
  then have "Suc k \<le> 63" "unat (ridx rb) < 2 ^ Suc k" "big_mask rb = mask (Suc k)" by (auto simp: rb_ok_def)
  then show ?thesis unfolding read_space_def by (simp only: unat_sub_masked)
qed

lemma write_space_nat: "rb_ok k rb \<Longrightarrow> unat (write_space rb) = 2 ^ k - unat (read_space rb)"
  by (simp add: rb_ok_def write_space_def unat_sub_if' unat_exp)

lemma clip_count_nat:
  "unat (clip_count n space) = (if unat n = 0 \<or> unat space < unat n then unat space else unat n)"
  by (auto simp: clip_count_def word_less_nat_alt unat_eq_0)

lemma clip_count_le: "unat (clip_count n space) \<le> unat space"
  by (auto simp: clip_count_nat)

text \<open>The two parts cover \<open>n\<close> cells from the index on, around the end.\<close>

lemma get_parts_nat:
  assumes "k \<le> 61" "sz = 2 ^ k" "unat index < 2 ^ k" "unat n \<le> 2 ^ k"
  obtains "unat index + unat n \<le> 2 ^ k" "get_parts sz index n = ((index, n), (0, 0))"
  | "2 ^ k < unat index + unat n" "get_parts sz index n = ((index, sz - index), (0, n - (sz - index)))"
    "unat (sz - index) = 2 ^ k - unat index" "unat (n - (sz - index)) = unat index + unat n - 2 ^ k"
    "n - (sz - index) \<noteq> 0"
proof -
  have sz: "unat sz = 2 ^ k" using assms by (simp add: unat_exp)
  have "(2 :: nat) ^ k \<le> 2 ^ 61" using assms(1) by (intro power_increasing) simp_all
  then have "unat index + unat n < 2 ^ 64" using assms(3,4) by simp
  then have sum: "unat (index + n) = unat index + unat n" by (simp add: unat_word_ariths)
  have part: "unat (sz - index) = 2 ^ k - unat index" using assms(3) sz by (simp add: unat_sub_if')
  show thesis
  proof (cases "unat index + unat n \<le> 2 ^ k")
    case True
    then show thesis using sum sz by (intro that(1)) (simp_all add: get_parts_def word_less_nat_alt)
  next
    case False
    have rest: "unat (n - (sz - index)) = unat index + unat n - 2 ^ k"
    proof -
      have "sz - index \<le> n" using False assms(3) unfolding word_le_nat_alt part by linarith
      then show ?thesis using unat_sub [of "sz - index" n] assms(3) unfolding part by linarith
    qed
    then have "n - (sz - index) \<noteq> 0" using False by (metis linorder_not_le unat_0 zero_less_diff less_irrefl)
    then show thesis using False sum sz part rest
      by (intro that(2)) (simp_all add: get_parts_def word_less_nat_alt)
  qed
qed

section \<open>Copying around the end\<close>

text \<open>The buffer with \<open>n\<close> cells from \<open>a\<close> on overwritten, around the end.\<close>

definition ring_put :: "nat \<Rightarrow> 'a list \<Rightarrow> nat \<Rightarrow> nat \<Rightarrow> 'a list \<Rightarrow> 'a list" where
  "ring_put S xs a n buf = fold (\<lambda>i buf. buf[(a + i) mod S := xs ! i]) [0..<n] buf"

lemma ring_put_Suc: "ring_put S xs a (Suc n) buf = (ring_put S xs a n buf)[(a + n) mod S := xs ! n]"
  by (simp add: ring_put_def)

lemma length_ring_put [simp]: "length (ring_put S xs a n buf) = length buf"
  by (induction n) (simp_all add: ring_put_Suc, simp add: ring_put_def)

lemma ring_put_hit:
  "i < n \<Longrightarrow> n \<le> S \<Longrightarrow> S \<le> length buf \<Longrightarrow> ring_put S xs a n buf ! ((a + i) mod S) = xs ! i"
proof (induction n)
  case (Suc n)
  have "0 < S" using Suc.prems by simp
  then have l: "(a + n) mod S < length buf" using Suc.prems by (meson less_le_trans mod_less_divisor)
  show ?case
  proof (cases "i = n")
    case False
    then have "(a + i) mod S \<noteq> (a + n) mod S" using mod_shift_inj [of i S n a] Suc.prems by auto
    then show ?thesis using Suc False by (simp add: ring_put_Suc)
  qed (use l in \<open>simp add: ring_put_Suc\<close>)
qed simp

lemma ring_put_miss: "(\<And>i. i < n \<Longrightarrow> (a + i) mod S \<noteq> j) \<Longrightarrow> ring_put S xs a n buf ! j = buf ! j"
proof (induction n)
  case (Suc n)
  have "(a + n) mod S \<noteq> j" using Suc.prems by blast
  moreover have "ring_put S xs a n buf ! j = buf ! j" using Suc.IH Suc.prems less_SucI by blast
  ultimately show ?case by (simp add: ring_put_Suc)
qed (simp add: ring_put_def)

lemma mod_split:
  "a < S \<Longrightarrow> i < S \<Longrightarrow> (a + i) mod S = (if a + i < S then a + i else a + i - (S :: nat))"
  by (auto simp: mod_if)

lemma slice_straight:
  assumes "a + n \<le> S" "S \<le> length buf" "unat v = a" "unat w = n"
  shows "slice buf (v, w) = ring_get S buf a n"
  using assms by (intro nth_equalityI) (auto simp: slice_def ring_get_def)

lemma slice_wrapped:
  assumes "a < S" "n \<le> S" "S < a + n" "S \<le> length buf" "unat v = a" "unat w = S - a" "unat u = a + n - S"
  shows "slice buf (v, w) @ slice buf (0, u) = ring_get S buf a n"
  using assms by (intro nth_equalityI) (auto simp: slice_def ring_get_def nth_append mod_split add.commute)

lemma ring_get_mod: "ring_get S buf (a mod S) n = ring_get S buf a n"
  by (simp add: ring_get_def mod_add_left_eq)

text \<open>\<^verbatim>\<open>read\<close> and \<^verbatim>\<open>peek\<close> deliver the first elements of the content.\<close>

lemma small_index:
  assumes "rb_ok k rb"
  shows "unat (ridx rb AND small_mask rb) = unat (ridx rb) mod 2 ^ k"
    "unat (widx rb AND small_mask rb) = unat (widx rb) mod 2 ^ k"
  using assms unat_and_mask [of k] by (auto simp: rb_ok_def)

lemma peek_ring_get:
  assumes "rb_ok k rb"
  shows "peek n rb = ring_get (2 ^ k) (rb_buf rb) (unat (ridx rb)) (unat (clip_count n (read_space rb)))"
proof -
  let ?n = "clip_count n (read_space rb)" and ?i = "ridx rb AND small_mask rb"
  have ok: "k \<le> 61" "rb_size rb = 2 ^ k" "length (rb_buf rb) = 2 * 2 ^ k" "unat (read_space rb) \<le> 2 ^ k"
    using assms by (auto simp: rb_ok_def)
  have i: "unat ?i = unat (ridx rb) mod 2 ^ k" "unat ?i < 2 ^ k" using small_index [OF assms] by simp_all
  have n: "unat ?n \<le> 2 ^ k" using clip_count_le ok(4) le_trans by blast
  from get_parts_nat [OF ok(1,2) i(2) n] show ?thesis
  proof cases
    case 1
    then show ?thesis
      using slice_straight [OF 1(1), of "rb_buf rb" ?i ?n] ok(3)
      by (simp add: peek_def get_rv_def Let_def i(1) ring_get_mod)
  next
    case 2
    then show ?thesis
      using slice_wrapped [OF i(2) n 2(1), of "rb_buf rb" ?i "rb_size rb - ?i" "?n - (rb_size rb - ?i)"] ok(3)
      by (simp add: peek_def get_rv_def Let_def i(1) ring_get_mod)
  qed
qed

lemma ring_get_take: "n \<le> m \<Longrightarrow> ring_get S buf a n = take n (ring_get S buf a m)"
  by (simp add: ring_get_def take_map)

lemma peek_content:
  assumes "rb_ok k rb"
  shows "peek n rb = take (unat (clip_count n (read_space rb))) (content k rb)"
  unfolding peek_ring_get [OF assms] content_def by (rule ring_get_take) (rule clip_count_le)

text \<open>Storing.\<close>

lemma store_nth:
  assumes "unat (fst v) + unat (snd v) \<le> length buf" "unat (snd v) \<le> length xs" "j < length buf"
  shows "store v xs buf ! j = (if unat (fst v) \<le> j \<and> j < unat (fst v) + unat (snd v)
     then xs ! (j - unat (fst v)) else buf ! j)" "length (store v xs buf) = length buf"
  using assms by (auto simp: store_def Let_def nth_append min_def)

lemma store_straight:
  assumes "a + n \<le> S" "S \<le> length buf" "n \<le> length xs" "unat v = a" "unat w = n"
  shows "store (v, w) xs buf = ring_put S xs a n buf"
proof (rule nth_equalityI)
  show "length (store (v, w) xs buf) = length (ring_put S xs a n buf)"
    using assms by (simp add: store_def Let_def)
  fix j assume "j < length (store (v, w) xs buf)"
  then have j: "j < length buf" using assms by (simp add: store_def Let_def)
  have st: "store (v, w) xs buf ! j = (if a \<le> j \<and> j < a + n then xs ! (j - a) else buf ! j)"
    using store_nth(1) [of "(v, w)" buf xs j] assms j by simp
  show "store (v, w) xs buf ! j = ring_put S xs a n buf ! j"
  proof (cases "a \<le> j \<and> j < a + n")
    case True
    then have "ring_put S xs a n buf ! ((a + (j - a)) mod S) = xs ! (j - a)"
      using assms by (intro ring_put_hit) auto
    then show ?thesis using True st assms by simp
  next
    case False
    then have "(a + i) mod S \<noteq> j" if "i < n" for i using that assms by auto
    then show ?thesis using False st ring_put_miss [of n a S j xs buf] by metis
  qed
qed

lemma store_wrapped:
  assumes "a < S" "n \<le> S" "S < a + n" "S \<le> length buf" "n \<le> length xs" "unat v = a" "unat w = S - a" "unat u = a + n - S"
  shows "store (0, u) (drop (S - a) xs) (store (v, w) xs buf) = ring_put S xs a n buf"
proof (rule nth_equalityI)
  have l: "length (store (v, w) xs buf) = length buf" using assms by (simp add: store_def Let_def)
  show l2: "length (store (0, u) (drop (S - a) xs) (store (v, w) xs buf)) = length (ring_put S xs a n buf)"
    using assms l by (simp add: store_def [of "(0, u)"] Let_def)
  fix j assume "j < length (store (0, u) (drop (S - a) xs) (store (v, w) xs buf))"
  then have j: "j < length buf" using l2 by simp
  have s1: "store (v, w) xs buf ! j = (if a \<le> j \<and> j < S then xs ! (j - a) else buf ! j)"
    using store_nth(1) [of "(v, w)" buf xs j] assms j by simp
  have s2: "store (0, u) (drop (S - a) xs) (store (v, w) xs buf) ! j =
      (if j < a + n - S then drop (S - a) xs ! j else store (v, w) xs buf ! j)"
    using store_nth(1) [of "(0, u)" "store (v, w) xs buf" "drop (S - a) xs" j] assms j l by simp
  show "store (0, u) (drop (S - a) xs) (store (v, w) xs buf) ! j = ring_put S xs a n buf ! j"
  proof (cases "j < a + n - S \<or> a \<le> j \<and> j < S")
    case True
    define i where "i = (if j < a + n - S then S - a + j else j - a)"
    have i: "i < n" "(a + i) mod S = j" using True assms by (auto simp: i_def mod_split)
    have "ring_put S xs a n buf ! j = xs ! i" using ring_put_hit [OF i(1) assms(2,4)] i(2) by metis
    then show ?thesis using s1 s2 True assms by (auto simp: i_def)
  next
    case False
    have "(a + i) mod S \<noteq> j" if "i < n" for i
      using that False assms by (auto simp: mod_split split: if_splits)
    then show ?thesis using False s1 s2 ring_put_miss [of n a S j xs buf] by metis
  qed
qed

section \<open>Reading and writing\<close>

lemma rb_write_put:
  assumes "rb_ok k rb" "unat (clip_count n (write_space rb)) \<le> length src"
  shows "rb_write src n rb = (let n = clip_count n (write_space rb) in
     (n, write_advance n (rb\<lparr>rb_buf := ring_put (2 ^ k) src (unat (widx rb) mod 2 ^ k) (unat n) (rb_buf rb)\<rparr>)))"
proof -
  let ?n = "clip_count n (write_space rb)" and ?i = "widx rb AND small_mask rb"
  have ok: "k \<le> 61" "rb_size rb = 2 ^ k" "length (rb_buf rb) = 2 * 2 ^ k"
    using assms(1) by (auto simp: rb_ok_def)
  have i: "unat ?i = unat (widx rb) mod 2 ^ k" "unat ?i < 2 ^ k" using small_index [OF assms(1)] by simp_all
  have n: "unat ?n \<le> 2 ^ k" using clip_count_le [of n "write_space rb"] write_space_nat [OF assms(1)] by simp
  from get_parts_nat [OF ok(1,2) i(2) n] show ?thesis
  proof cases
    case 1
    then show ?thesis
      using store_straight [OF 1(1), of "rb_buf rb" src ?i ?n] ok(3) assms(2)
      by (simp add: rb_write_def get_wv_def Let_def i(1))
  next
    case 2
    then show ?thesis
      using store_wrapped [OF i(2) n 2(1), of "rb_buf rb" src ?i "rb_size rb - ?i" "?n - (rb_size rb - ?i)"] ok(3) assms(2)
      by (simp add: rb_write_def get_wv_def Let_def i(1))
  qed
qed

lemma mod_between: "a \<le> b \<Longrightarrow> b < 2 * (m :: nat) \<Longrightarrow> a < m \<Longrightarrow> b - a < m \<Longrightarrow> (b - a) mod m = b - a"
  by simp

text \<open>Advancing the write index by what there is space for, the read index by what there is.\<close>

lemma space_after_write:
  fixes r w n m :: nat
  assumes "r < m" "w < m" "(w + m - r) mod m + n \<le> h" "h < m"
  shows "((w + n) mod m + m - r) mod m = (w + m - r) mod m + n"
proof -
  have "((w + n) mod m + m - r) mod m = ((w + n) mod m + (m - r)) mod m" using assms(1) by simp
  also have "\<dots> = (w + n + (m - r)) mod m" by (simp add: mod_add_left_eq)
  also have "\<dots> = ((w + m - r) + n) mod m" using assms(1) by (simp add: algebra_simps)
  also have "\<dots> = ((w + m - r) mod m + n) mod m" by (simp add: mod_add_left_eq)
  finally show ?thesis using assms(3,4) by simp
qed

lemma space_after_read:
  fixes r w n m :: nat
  assumes "r < m" "w < m" "n \<le> (w + m - r) mod m"
  shows "(w + m - (r + n) mod m) mod m = (w + m - r) mod m - n"
proof -
  define u where "u = (w + m - r) mod m"
  have u: "n \<le> u" "u < m" using assms by (simp_all add: u_def)
  have "(r + u) mod m = (r + (w + m - r)) mod m" by (simp add: u_def mod_add_right_eq)
  then have w: "w = (r + u) mod m" using assms(1,2) by simp
  show ?thesis
    using assms(1,2) u w unfolding u_def [symmetric] by (auto simp: mod_if split: if_splits)
qed

lemma write_advance_ok:
  assumes "rb_ok k rb" "unat n \<le> unat (write_space rb)" "length buf = length (rb_buf rb)"
  shows "rb_ok k (write_advance n (rb\<lparr>rb_buf := buf\<rparr>))"
    "unat (read_space (write_advance n (rb\<lparr>rb_buf := buf\<rparr>))) = unat (read_space rb) + unat n"
proof -
  let ?rb = "write_advance n (rb\<lparr>rb_buf := buf\<rparr>)"
  have ok: "k \<le> 61" "big_mask rb = mask (Suc k)" "unat (ridx rb) < 2 ^ Suc k" "unat (widx rb) < 2 ^ Suc k"
    "unat (read_space rb) \<le> 2 ^ k" using assms(1) by (auto simp: rb_ok_def)
  have w: "unat (widx ?rb) = (unat (widx rb) + unat n) mod 2 ^ Suc k"
    using ok(1,2) unat_add_masked [of "Suc k"] by (simp add: write_advance_def)
  have "unat (read_space ?rb) = (unat (widx ?rb) + 2 ^ Suc k - unat (ridx rb)) mod 2 ^ Suc k"
    using ok(1-3) unat_sub_masked [of "Suc k" "ridx rb" "widx ?rb"] by (simp add: read_space_def write_advance_def)
  also have "\<dots> = (unat (widx rb) + 2 ^ Suc k - unat (ridx rb)) mod 2 ^ Suc k + unat n"
    unfolding w
  proof (rule space_after_write)
    show "(unat (widx rb) + 2 ^ Suc k - unat (ridx rb)) mod 2 ^ Suc k + unat n \<le> 2 ^ k"
      using assms(2) ok(5) write_space_nat [OF assms(1)] read_space_nat [OF assms(1)] by linarith
  qed (use ok in simp_all)
  finally show s: "unat (read_space ?rb) = unat (read_space rb) + unat n"
    using read_space_nat [OF assms(1)] by simp
  have "unat (read_space rb) + unat n \<le> 2 ^ k" using assms(2) ok(5) write_space_nat [OF assms(1)] by linarith
  then show "rb_ok k ?rb"
    using assms(1,3) w s by (auto simp: rb_ok_def write_advance_def)
qed

lemma read_advance_ok:
  assumes "rb_ok k rb" "unat n \<le> unat (read_space rb)"
  shows "rb_ok k (read_advance n rb)"
    "unat (read_space (read_advance n rb)) = unat (read_space rb) - unat n"
    "unat (ridx (read_advance n rb)) = (unat (ridx rb) + unat n) mod 2 ^ Suc k"
proof -
  let ?rb = "read_advance n rb"
  have ok: "k \<le> 61" "big_mask rb = mask (Suc k)" "unat (ridx rb) < 2 ^ Suc k" "unat (widx rb) < 2 ^ Suc k"
    "unat (read_space rb) \<le> 2 ^ k" using assms(1) by (auto simp: rb_ok_def)
  show r: "unat (ridx ?rb) = (unat (ridx rb) + unat n) mod 2 ^ Suc k"
    using ok(1,2) unat_add_masked [of "Suc k"] by (simp add: read_advance_def)
  have "unat (read_space ?rb) = (unat (widx rb) + 2 ^ Suc k - unat (ridx ?rb)) mod 2 ^ Suc k"
    using ok(1,2) unat_sub_masked [of "Suc k" "ridx ?rb" "widx rb"] r by (simp add: read_space_def read_advance_def)
  also have "\<dots> = (unat (widx rb) + 2 ^ Suc k - unat (ridx rb)) mod 2 ^ Suc k - unat n"
    unfolding r by (rule space_after_read) (use ok assms(2) read_space_nat [OF assms(1)] in simp_all)
  finally show s: "unat (read_space ?rb) = unat (read_space rb) - unat n"
    using read_space_nat [OF assms(1)] by simp
  then show "rb_ok k ?rb"
    using assms(1) r by (auto simp: rb_ok_def read_advance_def)
qed

text \<open>The cell that holds element \<open>i\<close> of the content.\<close>

lemma nth_content: "i < unat (read_space rb) \<Longrightarrow> content k rb ! i = rb_buf rb ! ((unat (ridx rb) + i) mod 2 ^ k)"
  by (simp add: content_def ring_get_def)

lemma length_content [simp]: "length (content k rb) = unat (read_space rb)"
  by (simp add: content_def)

lemma mod_double: "(a :: nat) mod 2 ^ Suc k mod 2 ^ k = a mod 2 ^ k"
  by (rule mod_mod_cancel) simp

lemma widx_mod:
  assumes "rb_ok k rb"
  shows "unat (widx rb) mod 2 ^ k = (unat (ridx rb) + unat (read_space rb)) mod 2 ^ k"
proof -
  let ?u = "unat (read_space rb)" and ?r = "unat (ridx rb)" and ?w = "unat (widx rb)"
  have "?r < 2 ^ Suc k" "?w < 2 ^ Suc k" using assms by (auto simp: rb_ok_def)
  then have "(?r + ?u) mod 2 ^ Suc k = ?w"
    unfolding read_space_nat [OF assms] by (simp add: mod_add_right_eq)
  then show ?thesis by (metis mod_double)
qed

lemma content_write:
  assumes "rb_ok k rb" "unat (clip_count n (write_space rb)) \<le> length src"
  shows "content k (snd (rb_write src n rb)) = content k rb @ take (unat (clip_count n (write_space rb))) src"
proof -
  define m where "m = clip_count n (write_space rb)"
  define buf where "buf = ring_put (2 ^ k) src (unat (widx rb) mod 2 ^ k) (unat m) (rb_buf rb)"
  let ?rb = "write_advance m (rb\<lparr>rb_buf := buf\<rparr>)"
  have rb: "snd (rb_write src n rb) = ?rb"
    using rb_write_put [OF assms] by (simp add: Let_def m_def buf_def)
  have m: "unat m \<le> unat (write_space rb)" unfolding m_def by (rule clip_count_le)
  have len: "length buf = length (rb_buf rb)" "length (rb_buf rb) = 2 * 2 ^ k"
    using assms(1) by (simp_all add: buf_def rb_ok_def)
  have space: "unat (read_space rb) + unat m \<le> 2 ^ k"
  proof -
    have "unat (read_space rb) \<le> 2 ^ k" using assms(1) by (simp add: rb_ok_def)
    then show ?thesis using m write_space_nat [OF assms(1)] by linarith
  qed
  note after = write_advance_ok(2) [OF assms(1) m len(1)]
  let ?u = "unat (read_space rb)" and ?r = "unat (ridx rb)" and ?w = "unat (widx rb)"
  have pos: "(?w mod 2 ^ k + i) mod 2 ^ k = (?r + (?u + i)) mod 2 ^ k" for i
    unfolding widx_mod [OF assms(1)] by (simp add: mod_add_left_eq add.assoc)
  show ?thesis
    unfolding rb m_def [symmetric]
  proof (rule nth_equalityI)
    show "length (content k ?rb) = length (content k rb @ take (unat m) src)"
      using after assms(2) by (simp add: m_def min_absorb2)
    fix i assume "i < length (content k ?rb)"
    then have i: "i < ?u + unat m" using after by simp
    have "content k ?rb ! i = buf ! ((?r + i) mod 2 ^ k)"
      using i after nth_content [of i ?rb k] by (simp add: write_advance_def)
    also have "\<dots> = (content k rb @ take (unat m) src) ! i"
    proof (cases "i < ?u")
      case True
      have "(?w mod 2 ^ k + j) mod 2 ^ k \<noteq> (?r + i) mod 2 ^ k" if "j < unat m" for j
        using mod_shift_inj [of "?u + j" "2 ^ k" i ?r] that True space unfolding pos by auto
      then show ?thesis
        using True nth_content [OF True, of k] ring_put_miss unfolding buf_def by (metis length_content nth_append)
    next
      case False
      then have j: "i - ?u < unat m" using i by simp
      have "buf ! ((?w mod 2 ^ k + (i - ?u)) mod 2 ^ k) = src ! (i - ?u)"
        unfolding buf_def by (rule ring_put_hit [OF j]) (use space len in simp_all)
      then show ?thesis using False j pos [of "i - ?u"] by (simp add: nth_append)
    qed
    finally show "content k ?rb ! i = (content k rb @ take (unat m) src) ! i" .
  qed
qed

lemma content_read_advance:
  assumes "rb_ok k rb" "unat n \<le> unat (read_space rb)"
  shows "content k (read_advance n rb) = drop (unat n) (content k rb)"
proof (rule nth_equalityI)
  show "length (content k (read_advance n rb)) = length (drop (unat n) (content k rb))"
    using read_advance_ok(2) [OF assms] by simp
  fix i assume "i < length (content k (read_advance n rb))"
  then have i: "i < unat (read_space (read_advance n rb))" "i < unat (read_space rb) - unat n"
    using read_advance_ok(2) [OF assms] by simp_all
  have "content k (read_advance n rb) ! i = rb_buf rb ! (((unat (ridx rb) + unat n) mod 2 ^ Suc k + i) mod 2 ^ k)"
    unfolding nth_content [OF i(1)] read_advance_ok(3) [OF assms] by (simp add: read_advance_def)
  also have "((unat (ridx rb) + unat n) mod 2 ^ Suc k + i) mod 2 ^ k = (unat (ridx rb) + (unat n + i)) mod 2 ^ k"
    by (metis mod_double mod_add_left_eq add.assoc)
  finally show "content k (read_advance n rb) ! i = drop (unat n) (content k rb) ! i"
    using i(2) nth_content [of "unat n + i" rb k] by simp
qed

section \<open>The interface\<close>

text \<open>A bounded queue: what its operations promise about the list of elements in it.\<close>

locale bounded_queue =
  fixes valid :: "'q \<Rightarrow> bool" and elements :: "'q \<Rightarrow> 'a list" and room :: "'q \<Rightarrow> nat"
    and put :: "'a list \<Rightarrow> 'q \<Rightarrow> 'q" and get :: "nat \<Rightarrow> 'q \<Rightarrow> 'a list \<times> 'q"
  assumes put_valid: "valid q \<Longrightarrow> length xs \<le> room q \<Longrightarrow> valid (put xs q)"
    and put_elements: "valid q \<Longrightarrow> length xs \<le> room q \<Longrightarrow> elements (put xs q) = elements q @ xs"
    and get_valid: "valid q \<Longrightarrow> n \<le> length (elements q) \<Longrightarrow> valid (snd (get n q))"
    and get_elements: "valid q \<Longrightarrow> n \<le> length (elements q) \<Longrightarrow>
      fst (get n q) = take n (elements q) \<and> elements (snd (get n q)) = drop n (elements q)"

text \<open>A use of the queue: puts of at most what there is room for, gets of at most what is there.\<close>

datatype 'a queue_op = Put "'a list" | Get nat

fun run_queue :: "('a list \<Rightarrow> 'q \<Rightarrow> 'q) \<Rightarrow> (nat \<Rightarrow> 'q \<Rightarrow> 'a list \<times> 'q) \<Rightarrow> 'a queue_op list \<Rightarrow> 'q \<Rightarrow> 'a list \<times> 'q" where
  "run_queue put get [] q = ([], q)"
| "run_queue put get (Put xs # ops) q = run_queue put get ops (put xs q)"
| "run_queue put get (Get n # ops) q = (let (xs, q) = get n q; (ys, q) = run_queue put get ops q in (xs @ ys, q))"

fun permitted :: "('q \<Rightarrow> 'a list) \<Rightarrow> ('q \<Rightarrow> nat) \<Rightarrow> ('a list \<Rightarrow> 'q \<Rightarrow> 'q) \<Rightarrow> (nat \<Rightarrow> 'q \<Rightarrow> 'a list \<times> 'q) \<Rightarrow> 'a queue_op list \<Rightarrow> 'q \<Rightarrow> bool" where
  "permitted elements room put get [] q \<longleftrightarrow> True"
| "permitted elements room put get (Put xs # ops) q \<longleftrightarrow> length xs \<le> room q \<and> permitted elements room put get ops (put xs q)"
| "permitted elements room put get (Get n # ops) q \<longleftrightarrow>
     n \<le> length (elements q) \<and> permitted elements room put get ops (snd (get n q))"

fun written :: "'a queue_op list \<Rightarrow> 'a list" where
  "written [] = []"
| "written (Put xs # ops) = xs @ written ops"
| "written (Get n # ops) = written ops"

context bounded_queue
begin

text \<open>Nothing is lost, doubled or reordered: what was read, followed by what is still in the
  queue, is what was in it, followed by what was written.\<close>

lemma fifo:
  "valid q \<Longrightarrow> permitted elements room put get ops q \<Longrightarrow>
     valid (snd (run_queue put get ops q)) \<and>
     fst (run_queue put get ops q) @ elements (snd (run_queue put get ops q)) = elements q @ written ops"
proof (induction ops arbitrary: q)
  case (Cons op ops)
  show ?case
  proof (cases op)
    case (Put xs)
    then show ?thesis using Cons.IH [of "put xs q"] Cons.prems by (simp add: put_valid put_elements)
  next
    case (Get n)
    have n: "n \<le> length (elements q)" using Cons.prems(2) Get by simp
    obtain xs q1 where g: "get n q = (xs, q1)" by force
    obtain ys q2 where r: "run_queue put get ops q1 = (ys, q2)" by force
    have "valid q1" "xs = take n (elements q)" "elements q1 = drop n (elements q)"
      using get_valid [OF Cons.prems(1) n] get_elements [OF Cons.prems(1) n] g by simp_all
    moreover have "permitted elements room put get ops q1" using Cons.prems(2) Get g by simp
    ultimately show ?thesis using Cons.IH [of q1] Get g r by simp
  qed
qed simp

end

text \<open>The ring buffer, with \<^verbatim>\<open>write\<close> and \<^verbatim>\<open>read\<close> asked for as many elements as the
  caller has or wants.\<close>

definition put_all :: "'a list \<Rightarrow> 'a ringbuffer \<Rightarrow> 'a ringbuffer" where
  "put_all xs rb = (if xs = [] then rb else snd (rb_write xs (word_of_nat (length xs)) rb))"

definition get_n :: "nat \<Rightarrow> 'a ringbuffer \<Rightarrow> 'a list \<times> 'a ringbuffer" where
  "get_n n rb = (if n = 0 then ([], rb) else rb_read (word_of_nat n) rb)"

lemma count_word:
  assumes "rb_ok k rb" "n \<le> 2 ^ k"
  shows "unat (word_of_nat n :: 64 word) = n"
proof -
  have "k \<le> 61" using assms(1) by (simp add: rb_ok_def)
  then have "(2 :: nat) ^ k < 2 ^ 64" by (intro power_strict_increasing) simp_all
  then have "n < 2 ^ 64" using assms(2) by simp
  then show ?thesis by (simp add: unsigned_of_nat take_bit_nat_eq_self)
qed

lemma read_space_le: "rb_ok k rb \<Longrightarrow> unat (read_space rb) \<le> 2 ^ k"
  by (simp add: rb_ok_def)

lemma clip_fits:
  "unat n \<noteq> 0 \<Longrightarrow> unat n \<le> unat space \<Longrightarrow> clip_count n space = n"
  by (auto simp: clip_count_def word_less_nat_alt)

lemma rb_read_peek: "rb_read n rb = (peek n rb, read_advance (clip_count n (read_space rb)) rb)"
  by (simp add: rb_read_def peek_def get_rv_def Let_def split: prod.splits)

interpretation ring: bounded_queue "rb_ok k" "content k" "\<lambda>rb. unat (write_space rb)" put_all get_n for k
proof unfold_locales
  fix q :: "'a ringbuffer" and xs :: "'a list"
  assume ok: "rb_ok k q" and len: "length xs \<le> unat (write_space q)"
  have le: "length xs \<le> 2 ^ k" using len write_space_nat [OF ok] by simp
  note n = count_word [OF ok le]
  have c: "clip_count (word_of_nat (length xs)) (write_space q) = word_of_nat (length xs)" if "xs \<noteq> []"
    by (rule clip_fits) (use that n len in simp_all)
  show "rb_ok k (put_all xs q)"
    using ok write_advance_ok(1) [OF ok, of "word_of_nat (length xs)"] rb_write_put [OF ok, of "word_of_nat (length xs)" xs] n len c
    by (auto simp: put_all_def Let_def)
  show "content k (put_all xs q) = content k q @ xs"
    using content_write [OF ok, of "word_of_nat (length xs)" xs] n c by (auto simp: put_all_def)
next
  fix q :: "'a ringbuffer" and n :: nat
  assume ok: "rb_ok k q" and le: "n \<le> length (content k q)"
  have "n \<le> 2 ^ k" using le read_space_le [OF ok] by simp
  note n = count_word [OF ok this]
  have c: "clip_count (word_of_nat n) (read_space q) = word_of_nat n" if "n \<noteq> 0"
    by (rule clip_fits) (use that n le in simp_all)
  show "rb_ok k (snd (get_n n q))"
    using ok read_advance_ok(1) [OF ok, of "word_of_nat n"] n le c by (auto simp: get_n_def rb_read_peek)
  show "fst (get_n n q) = take n (content k q) \<and> content k (snd (get_n n q)) = drop n (content k q)"
    using content_read_advance [OF ok, of "word_of_nat n"] peek_content [OF ok, of "word_of_nat n"] n le c
    by (auto simp: get_n_def rb_read_peek)
qed

text \<open>C25: the ring buffer is a queue. Starting from any well-formed buffer, for any sequence of
  writes of no more than the free space and reads of no more than the content, what is
  read and then what is left is what was there and then what was written, in order.\<close>

theorem ringbuffer_fifo:
  assumes "rb_ok k rb" "permitted (content k) (\<lambda>rb. unat (write_space rb)) put_all get_n ops rb"
  shows "rb_ok k (snd (run_queue put_all get_n ops rb)) \<and>
     fst (run_queue put_all get_n ops rb) @ content k (snd (run_queue put_all get_n ops rb)) =
       content k rb @ written ops"
  using ring.fifo [OF assms] .

lemma rb_new_good:
  assumes "k \<le> 61" "length junk = 2 * 2 ^ k"
  shows "rb_ok k (rb_new (2 ^ k) junk)" "content k (rb_new (2 ^ k) junk) = []"
    "unat (write_space (rb_new (2 ^ k) junk)) = 2 ^ k"
proof -
  have "(2 :: 64 word) ^ k * 2 - 1 = mask (Suc k)" "(2 :: 64 word) ^ k - 1 = mask k"
    by (simp_all add: mask_eq_exp_minus_1 mult.commute)
  then show ok: "rb_ok k (rb_new (2 ^ k) junk)"
    using assms by (simp add: rb_ok_def rb_new_def read_space_def)
  have z: "unat (read_space (rb_new (2 ^ k) junk)) = 0" by (simp add: rb_new_def read_space_def)
  show "content k (rb_new (2 ^ k) junk) = []" using z by (simp add: content_def ring_get_def)
  show "unat (write_space (rb_new (2 ^ k) junk)) = 2 ^ k" using write_space_nat [OF ok] z by simp
qed

theorem ringbuffer_fifo_witness:
  "fst (run_queue put_all get_n [Put [1, 2, 3], Get 2, Put [4, 5, 6], Get 4]
       (rb_new (2 ^ 2) (replicate 8 (0 :: nat)))) = [1, 2, 3, 4, 5, 6]"
proof -
  let ?rb = "rb_new (2 ^ 2) (replicate 8 (0 :: nat))" and ?ops = "[Put [1, 2, 3], Get 2, Put [4, 5, 6], Get 4] :: nat queue_op list"
  have ok: "rb_ok 2 ?rb" and c: "content 2 ?rb = []" by (rule rb_new_good; simp)+
  let ?g = "rb_new 4 (replicate 8 (0 :: nat))"
  have "permitted (content 2) (\<lambda>rb. unat (write_space rb)) put_all get_n ?ops ?rb"
    by code_simp
  note f = ringbuffer_fifo [OF ok this, THEN conjunct2]
  have "content 2 ?rb @ written ?ops = [1, 2, 3, 4, 5, 6]" unfolding c by simp
  with f have "fst (run_queue put_all get_n ?ops ?rb) @ content 2 (snd (run_queue put_all get_n ?ops ?rb)) = [1, 2, 3, 4, 5, 6]"
    by (rule trans)
  moreover have "content 2 (snd (run_queue put_all get_n ?ops ?rb)) = []" by code_simp
  ultimately show ?thesis by (simp only: append_Nil2)
qed

lemma counts_parts:
  assumes "rb_ok k rb" "n' = (if unat n = 0 then unat (write_space rb) else min (unat n) (unat (write_space rb)))"
    and "m' = (if unat m = 0 then unat (read_space rb) else min (unat m) (unat (read_space rb)))"
  shows "n' \<le> length src \<longrightarrow> unat (fst (rb_write src n rb)) = n' \<and>
       content k (snd (rb_write src n rb)) = content k rb @ take n' src"
    and "fst (rb_read m rb) = take m' (content k rb) \<and> content k (snd (rb_read m rb)) = drop m' (content k rb)"
proof -
  have n: "unat (clip_count n (write_space rb)) = n'" "unat (clip_count m (read_space rb)) = m'"
    using assms(2,3) by (auto simp: clip_count_nat)
  show "n' \<le> length src \<longrightarrow> unat (fst (rb_write src n rb)) = n' \<and>
       content k (snd (rb_write src n rb)) = content k rb @ take n' src"
    using content_write [OF assms(1), of n src] rb_write_put [OF assms(1), of n src] n(1) by (simp add: Let_def)
  show "fst (rb_read m rb) = take m' (content k rb) \<and> content k (snd (rb_read m rb)) = drop m' (content k rb)"
    using content_read_advance [OF assms(1) clip_count_le, of m] peek_content [OF assms(1), of m] n(2)
    by (simp add: rb_read_peek)
qed

text \<open>C28: \<^verbatim>\<open>write\<close> and \<^verbatim>\<open>read\<close> with any count: they move as many elements as asked for, at
  most what fits or is there; a count of 0 means as many as possible.\<close>

theorem ringbuffer_counts:
  assumes "rb_ok k rb" "n' = (if unat n = 0 then unat (write_space rb) else min (unat n) (unat (write_space rb)))"
    and "m' = (if unat m = 0 then unat (read_space rb) else min (unat m) (unat (read_space rb)))" "n' \<le> length src"
  shows "unat (fst (rb_write src n rb)) = n' \<and> content k (snd (rb_write src n rb)) = content k rb @ take n' src \<and>
     fst (rb_read m rb) = take m' (content k rb) \<and> content k (snd (rb_read m rb)) = drop m' (content k rb)"
  using counts_parts(1) [OF assms(1-3), of src] counts_parts(2) [OF assms(1-3)] assms(4) by simp

section \<open>A writer and a reader at the same time\<close>

text \<open>
  The buffer is shared between two threads without a lock: one only writes, the other only
  reads. Each of the two operations is three kinds of step here: taking the space and the count,
  copying one cell, and publishing the new index. Steps of the two threads interleave in
  any order (memory accesses take effect in that order, which is what the barriers ask for).
  \<open>sent\<close> and \<open>got\<close> record what was published on either side.
\<close>

datatype 'a writer = WIdle | WCopy "'a list" nat
datatype 'a reader = RIdle | RCopy nat "'a list"

record 'a shared =
  sbuf :: "'a ringbuffer"
  wr :: "'a writer"
  rd :: "'a reader"
  sent :: "'a list"
  got :: "'a list"

definition cell :: "nat \<Rightarrow> 64 word \<Rightarrow> nat \<Rightarrow> nat" where
  "cell k idx i = (unat idx + i) mod 2 ^ k"

inductive spsc_step :: "nat \<Rightarrow> 'a shared \<Rightarrow> 'a shared \<Rightarrow> bool" for k where
  w_begin: "wr s = WIdle \<Longrightarrow> length src = unat (clip_count n (write_space (sbuf s))) \<Longrightarrow>
     spsc_step k s (s\<lparr>wr := WCopy src 0\<rparr>)"
| w_cell: "wr s = WCopy src i \<Longrightarrow> i < length src \<Longrightarrow>
     spsc_step k s (s\<lparr>wr := WCopy src (Suc i),
       sbuf := (sbuf s)\<lparr>rb_buf := (rb_buf (sbuf s))[cell k (widx (sbuf s)) i := src ! i]\<rparr>\<rparr>)"
| w_end: "wr s = WCopy src (length src) \<Longrightarrow>
     spsc_step k s (s\<lparr>wr := WIdle, sbuf := write_advance (word_of_nat (length src)) (sbuf s), sent := sent s @ src\<rparr>)"
| r_begin: "rd s = RIdle \<Longrightarrow> spsc_step k s (s\<lparr>rd := RCopy (unat (clip_count n (read_space (sbuf s)))) []\<rparr>)"
| r_cell: "rd s = RCopy n acc \<Longrightarrow> length acc < n \<Longrightarrow>
     spsc_step k s (s\<lparr>rd := RCopy n (acc @ [rb_buf (sbuf s) ! cell k (ridx (sbuf s)) (length acc)])\<rparr>)"
| r_end: "rd s = RCopy n acc \<Longrightarrow> length acc = n \<Longrightarrow>
     spsc_step k s (s\<lparr>rd := RIdle, sbuf := read_advance (word_of_nat n) (sbuf s), got := got s @ acc\<rparr>)"

inductive spsc_reachable :: "nat \<Rightarrow> 'a shared \<Rightarrow> 'a shared \<Rightarrow> bool" for k s0 where
  start: "spsc_reachable k s0 s0"
| step: "spsc_reachable k s0 s \<Longrightarrow> spsc_step k s t \<Longrightarrow> spsc_reachable k s0 t"

text \<open>What both threads may rely on: the published content is what was sent and not yet got; the
  writer's cells lie outside it, the reader's copy is its beginning.\<close>

definition spsc_inv :: "nat \<Rightarrow> 'a shared \<Rightarrow> bool" where
  "spsc_inv k s \<longleftrightarrow> rb_ok k (sbuf s) \<and> got s @ content k (sbuf s) = sent s \<and>
     (case wr s of WIdle \<Rightarrow> True | WCopy src i \<Rightarrow> length src \<le> unat (write_space (sbuf s)) \<and> i \<le> length src \<and>
        (\<forall>j < i. rb_buf (sbuf s) ! cell k (widx (sbuf s)) j = src ! j)) \<and>
     (case rd s of RIdle \<Rightarrow> True | RCopy n acc \<Rightarrow> n \<le> unat (read_space (sbuf s)) \<and> length acc \<le> n \<and>
        acc = take (length acc) (content k (sbuf s)))"

lemma cell_widx:
  assumes "rb_ok k rb"
  shows "cell k (widx rb) i = cell k (ridx rb) (unat (read_space rb) + i)"
  unfolding cell_def using widx_mod [OF assms] by (metis mod_add_left_eq add.assoc)

lemma cell_inj: "i < 2 ^ k \<Longrightarrow> j < 2 ^ k \<Longrightarrow> cell k idx i = cell k idx j \<Longrightarrow> i = j"
  unfolding cell_def by (rule mod_shift_inj)

lemma nth_content_cell: "i < unat (read_space rb) \<Longrightarrow> content k rb ! i = rb_buf rb ! cell k (ridx rb) i"
  by (simp add: nth_content cell_def)

text \<open>Storing into a free cell changes neither the content nor well-formedness.\<close>

lemma free_cell:
  assumes "rb_ok k rb" "i < unat (write_space rb)"
  shows "content k (rb\<lparr>rb_buf := (rb_buf rb)[cell k (widx rb) i := x]\<rparr>) = content k rb"
    "rb_ok k (rb\<lparr>rb_buf := (rb_buf rb)[cell k (widx rb) i := x]\<rparr>)"
proof -
  let ?rb = "rb\<lparr>rb_buf := (rb_buf rb)[cell k (widx rb) i := x]\<rparr>"
  have same: "read_space ?rb = read_space rb" "ridx ?rb = ridx rb" by (simp_all add: read_space_def)
  have u: "unat (read_space rb) + i < 2 ^ k"
    using assms(2) write_space_nat [OF assms(1)] read_space_le [OF assms(1)] by linarith
  show "content k ?rb = content k rb"
  proof (rule nth_equalityI)
    fix j assume "j < length (content k ?rb)"
    then have j: "j < unat (read_space rb)" using same by simp
    then have "cell k (widx rb) i \<noteq> cell k (ridx rb) j"
      unfolding cell_widx [OF assms(1)] using cell_inj [of "unat (read_space rb) + i" k j] u by auto
    then show "content k ?rb ! j = content k rb ! j"
      using j nth_content_cell [of j ?rb k] nth_content_cell [of j rb k] same by simp
  qed (simp add: same)
  show "rb_ok k ?rb" using assms(1) by (simp add: rb_ok_def same)
qed

lemma content_write_advance:
  assumes "rb_ok k rb" "length src \<le> unat (write_space rb)" "\<And>j. j < length src \<Longrightarrow> rb_buf rb ! cell k (widx rb) j = src ! j"
  shows "rb_ok k (write_advance (word_of_nat (length src)) rb)"
    "content k (write_advance (word_of_nat (length src)) rb) = content k rb @ src"
proof -
  let ?rb = "write_advance (word_of_nat (length src)) rb" and ?u = "unat (read_space rb)"
  have "length src \<le> 2 ^ k" using assms(2) write_space_nat [OF assms(1)] by simp
  note n = count_word [OF assms(1) this]
  have after: "rb_ok k ?rb" "unat (read_space ?rb) = ?u + length src"
    using write_advance_ok [OF assms(1), of "word_of_nat (length src)" "rb_buf rb"] assms(2) n by simp_all
  show "rb_ok k ?rb" by (rule after)
  show "content k ?rb = content k rb @ src"
  proof (rule nth_equalityI)
    fix i assume "i < length (content k ?rb)"
    then have i: "i < unat (read_space ?rb)" by simp
    have "content k ?rb ! i = rb_buf rb ! cell k (ridx rb) i"
      using nth_content_cell [OF i, of k] by (simp add: write_advance_def)
    also have "\<dots> = (content k rb @ src) ! i"
    proof (cases "i < ?u")
      case True
      then show ?thesis using nth_content_cell [OF True, of k] by (simp add: nth_append)
    next
      case False
      then have "i - ?u < length src" using i after(2) by simp
      from assms(3) [OF this] show ?thesis
        unfolding cell_widx [OF assms(1)] using False by (simp add: nth_append)
    qed
    finally show "content k ?rb ! i = (content k rb @ src) ! i" .
  qed (simp add: after)
qed

inductive_cases spsc_stepE: "spsc_step k s t"

lemma spsc_step_inv:
  assumes "spsc_step k s t" "spsc_inv k s"
  shows "spsc_inv k t"
  using assms
proof (cases rule: spsc_step.cases)
  case (w_begin src n)
  then show ?thesis using assms(2) clip_count_le [of n "write_space (sbuf s)"]
    by (auto simp: spsc_inv_def split: reader.splits)
next
  case (w_cell src i)
  then have i: "i < unat (write_space (sbuf s))" and ok: "rb_ok k (sbuf s)" using assms(2) by (auto simp: spsc_inv_def)
  let ?buf = "(rb_buf (sbuf s))[cell k (widx (sbuf s)) i := src ! i]"
  have w: "unat (write_space (sbuf s)) \<le> 2 ^ k" using write_space_nat [OF ok] by simp
  have "cell k (widx (sbuf s)) i < length (rb_buf (sbuf s))"
  proof -
    have "cell k (widx (sbuf s)) i < 2 ^ k" by (simp add: cell_def)
    then show ?thesis using ok by (simp add: rb_ok_def)
  qed
  moreover have ne: "cell k (widx (sbuf s)) i \<noteq> cell k (widx (sbuf s)) j" if "j < i" for j
    using cell_inj [of i k j "widx (sbuf s)"] i w that by fastforce
  ultimately have cells: "\<forall>j < Suc i. ?buf ! cell k (widx (sbuf s)) j = src ! j"
    using assms(2) w_cell ne by (auto simp: spsc_inv_def less_Suc_eq)
  have same: "read_space (sbuf s\<lparr>rb_buf := ?buf\<rparr>) = read_space (sbuf s)"
    "write_space (sbuf s\<lparr>rb_buf := ?buf\<rparr>) = write_space (sbuf s)" by (simp_all add: read_space_def write_space_def)
  show ?thesis
    using assms(2) w_cell cells free_cell [OF ok i, of "src ! i"] same
    by (auto simp: spsc_inv_def split: reader.splits)
next
  case (w_end src)
  then have h: "rb_ok k (sbuf s)" "length src \<le> unat (write_space (sbuf s))"
    "\<And>j. j < length src \<Longrightarrow> rb_buf (sbuf s) ! cell k (widx (sbuf s)) j = src ! j" using assms(2) by (auto simp: spsc_inv_def)
  note adv = content_write_advance [OF h]
  then have "unat (read_space (sbuf s)) \<le> unat (read_space (sbuf t))"
    using length_content [of k "sbuf t"] w_end by simp
  then show ?thesis using assms(2) w_end adv by (auto simp: spsc_inv_def split: reader.splits)
next
  case (r_begin n)
  then show ?thesis using assms(2) clip_count_le [of n "read_space (sbuf s)"]
    by (auto simp: spsc_inv_def split: writer.splits)
next
  case (r_cell n acc)
  then have "length acc < unat (read_space (sbuf s))" using assms(2) by (auto simp: spsc_inv_def)
  then show ?thesis using assms(2) r_cell nth_content_cell [of "length acc" "sbuf s" k]
    by (auto simp: spsc_inv_def take_Suc_conv_app_nth split: writer.splits)
next
  case (r_end n acc)
  then have ok: "rb_ok k (sbuf s)" and n: "n \<le> unat (read_space (sbuf s))" and acc: "acc = take n (content k (sbuf s))"
    using assms(2) by (auto simp: spsc_inv_def)
  have le: "n \<le> 2 ^ k" using n read_space_le [OF ok] by simp
  note w = count_word [OF ok le]
  have adv: "rb_ok k (sbuf t)" "content k (sbuf t) = drop n (content k (sbuf s))"
    "unat (read_space (sbuf t)) = unat (read_space (sbuf s)) - n"
    using read_advance_ok [OF ok, of "word_of_nat n"] content_read_advance [OF ok, of "word_of_nat n"] n w r_end by simp_all
  have sp: "unat (write_space (sbuf s)) \<le> unat (write_space (sbuf t))"
    using write_space_nat [OF ok] write_space_nat [OF adv(1)] adv(3) by simp
  have same: "rb_buf (sbuf t) = rb_buf (sbuf s)" "widx (sbuf t) = widx (sbuf s)" "wr t = wr s" "rd t = RIdle"
    "got t = got s @ acc" "sent t = sent s" using r_end by (simp_all add: read_advance_def)
  show ?thesis
    using assms(2) adv acc sp unfolding spsc_inv_def same
    by (auto split: writer.splits)
qed

text \<open>C26: one writer and one reader never disturb each other. However their steps interleave,
  what the reader has got, followed by what the indices say is in the buffer, is what the
  writer has published: nothing is lost, torn, doubled or reordered.\<close>

theorem spsc_fifo:
  assumes "spsc_reachable k s0 s" "rb_ok k (sbuf s0)" "content k (sbuf s0) = []"
    and "wr s0 = WIdle" "rd s0 = RIdle" "sent s0 = []" "got s0 = []"
  shows "got s @ content k (sbuf s) = sent s \<and> rb_ok k (sbuf s)"
proof -
  have "spsc_inv k s0" using assms(2-) by (simp add: spsc_inv_def)
  with assms(1) have "spsc_inv k s"
    by (induction rule: spsc_reachable.induct) (auto intro: spsc_step_inv)
  then show ?thesis by (simp add: spsc_inv_def)
qed

theorem ringbuffer_counts_witness:
  "unat (fst (rb_write [7, 8, 9] 3 (rb_new (2 ^ 1) (replicate 4 (0 :: nat))))) = 2"
proof -
  have ok: "rb_ok 1 (rb_new (2 ^ 1) (replicate 4 (0 :: nat)))" by (rule rb_new_good) simp_all
  have w: "unat (write_space (rb_new (2 ^ 1) (replicate 4 (0 :: nat)))) = 2" by (subst rb_new_good) simp_all
  show ?thesis
    using ringbuffer_counts [OF ok refl refl, of 3 "[7, 8, 9]" 0] by (simp only: w) simp
qed

theorem spsc_fifo_witness:
  "\<exists>s. spsc_reachable 1 \<lparr>sbuf = rb_new (2 ^ 1) [0, 0, 0, 0 :: nat], wr = WIdle, rd = RIdle, sent = [], got = []\<rparr> s \<and>
     wr s = WCopy [5] 0 \<and> got s @ content 1 (sbuf s) = sent s"
proof -
  let ?s0 = "\<lparr>sbuf = rb_new (2 ^ 1) [0, 0, 0, 0 :: nat], wr = WIdle, rd = RIdle, sent = [], got = []\<rparr>"
  have good: "rb_ok 1 (sbuf ?s0)" "content 1 (sbuf ?s0) = []" "unat (write_space (sbuf ?s0)) = 2"
    using rb_new_good [of 1 "[0, 0, 0, 0 :: nat]"] by simp_all
  have "unat (clip_count 1 (write_space (sbuf ?s0))) = length [5 :: nat]"
    unfolding clip_count_nat good by simp
  then have "spsc_step 1 ?s0 (?s0\<lparr>wr := WCopy [5] 0\<rparr>)"
    by (intro spsc_step.w_begin [where n = 1]) simp_all
  then have r: "spsc_reachable 1 ?s0 (?s0\<lparr>wr := WCopy [5] 0\<rparr>)"
    by (rule spsc_reachable.step [OF spsc_reachable.start])
  from spsc_fifo [OF r good(1,2)] have "got (?s0\<lparr>wr := WCopy [5] 0\<rparr>) @ content 1 (sbuf (?s0\<lparr>wr := WCopy [5] 0\<rparr>)) =
      sent (?s0\<lparr>wr := WCopy [5] 0\<rparr>)" by simp
  then show ?thesis using r by (intro exI [of _ "?s0\<lparr>wr := WCopy [5] 0\<rparr>"]) simp
qed

section \<open>The queue of calls\<close>

text \<open>\<open>b\<close> is the logarithm of \<^verbatim>\<open>blocksize\<close>; the indices stand at block borders.\<close>

definition fq_ok :: "nat \<Rightarrow> nat \<Rightarrow> 'f fqueue \<Rightarrow> bool" where
  "fq_ok k b q \<longleftrightarrow> rb_ok k (fq_rb q) \<and> b \<le> k \<and> blocksize q = 2 ^ b \<and>
     unat (ridx (fq_rb q)) mod 2 ^ b = 0 \<and> unat (widx (fq_rb q)) mod 2 ^ b = 0"

definition jobs :: "nat \<Rightarrow> nat \<Rightarrow> 'f fqueue \<Rightarrow> 'f option list" where
  "jobs k b q = map (\<lambda>i. content k (fq_rb q) ! (i * 2 ^ b)) [0..<unat (read_space (fq_rb q)) div 2 ^ b]"

lemma mod_multiple: "b \<le> k \<Longrightarrow> (a :: nat) mod 2 ^ k mod 2 ^ b = a mod 2 ^ b"
  by (intro mod_mod_cancel le_imp_power_dvd)

lemma fq_blocks:
  assumes "fq_ok k b q"
  shows "unat (blocksize q) = 2 ^ b" "unat (read_space (fq_rb q)) mod 2 ^ b = 0"
    "unat (write_space (fq_rb q)) mod 2 ^ b = 0"
proof -
  have ok: "rb_ok k (fq_rb q)" "b \<le> k" "blocksize q = 2 ^ b" "k \<le> 61"
    "2 ^ b dvd unat (ridx (fq_rb q))" "2 ^ b dvd unat (widx (fq_rb q))"
    using assms by (auto simp: fq_ok_def rb_ok_def)
  show "unat (blocksize q) = 2 ^ b" using ok by (simp add: unat_exp)
  have "2 ^ b dvd (2 :: nat) ^ Suc k" using ok(2) by (intro le_imp_power_dvd) simp
  then have "2 ^ b dvd unat (widx (fq_rb q)) + 2 ^ Suc k - unat (ridx (fq_rb q))"
    using ok by (intro dvd_diff_nat dvd_add) simp_all
  then show r: "unat (read_space (fq_rb q)) mod 2 ^ b = 0"
    unfolding read_space_nat [OF ok(1)] using mod_multiple [of b "Suc k"] ok(2) by simp
  have "2 ^ b dvd (2 :: nat) ^ k" using ok(2) by (rule le_imp_power_dvd)
  then show "unat (write_space (fq_rb q)) mod 2 ^ b = 0"
    unfolding write_space_nat [OF ok(1)] using r by (simp add: dvd_diff_nat mod_0_imp_dvd)
qed

lemma multiple_less: "(n :: nat) mod m = 0 \<Longrightarrow> n < m \<longleftrightarrow> n = 0 \<and> 0 < m"
  by (auto dest: mod_less)

lemma advance_aligned:
  assumes "fq_ok k b q" "n = 2 ^ b"
  shows "unat ((w + n) AND big_mask (fq_rb q)) mod 2 ^ b = unat w mod 2 ^ b"
proof -
  have "Suc k \<le> 63" "big_mask (fq_rb q) = mask (Suc k)" "b \<le> Suc k" "unat n = 2 ^ b"
    using assms by (auto simp: fq_ok_def rb_ok_def unat_exp)
  then show ?thesis by (simp only: unat_add_masked mod_multiple) simp
qed

text \<open>One block never reaches around the end of the array.\<close>

lemma block_in_one_part:
  assumes "fq_ok k b q" "unat idx mod 2 ^ b = 0"
  shows "get_parts (rb_size (fq_rb q)) (idx AND small_mask (fq_rb q)) (blocksize q) =
     ((idx AND small_mask (fq_rb q), blocksize q), (0, 0))"
proof -
  let ?i = "idx AND small_mask (fq_rb q)"
  have ok: "k \<le> 61" "rb_size (fq_rb q) = 2 ^ k" "small_mask (fq_rb q) = mask k" "b \<le> k"
    using assms by (auto simp: fq_ok_def rb_ok_def)
  have bs: "unat (blocksize q) = 2 ^ b" by (rule fq_blocks [OF assms(1)])
  have p: "(2 :: nat) ^ k = 2 ^ b * 2 ^ (k - b)" using ok(4) by (simp add: power_add [symmetric])
  have i: "unat ?i = unat idx mod 2 ^ k" using ok(1,3) by (simp add: unat_and_mask)
  then have "unat ?i mod 2 ^ b = 0" using assms(2) ok(4) by (simp add: mod_multiple)
  then obtain c where c: "unat ?i = 2 ^ b * c" by (auto simp: dvd_def mod_eq_0_iff_dvd)
  have lt: "unat ?i < 2 ^ k" using i by simp
  then have "c < 2 ^ (k - b)" unfolding c p by simp
  then have "2 ^ b * Suc c \<le> 2 ^ b * 2 ^ (k - b)" by (intro mult_le_mono2) simp
  then have sum: "unat ?i + unat (blocksize q) \<le> 2 ^ k" unfolding bs c p by simp
  have n: "unat (blocksize q) \<le> 2 ^ k" using sum by simp
  from get_parts_nat [OF ok(1,2) lt n] show ?thesis
    by cases (use sum in simp_all)
qed

lemma jobs_append:
  assumes "length xs mod 2 ^ b = 0" "length ys = 2 ^ b"
  shows "map (\<lambda>i. (xs @ ys) ! (i * 2 ^ b)) [0..<length (xs @ ys) div 2 ^ b] =
     map (\<lambda>i. xs ! (i * 2 ^ b)) [0..<length xs div 2 ^ b] @ [ys ! 0]"
proof -
  have l: "length xs = length xs div 2 ^ b * 2 ^ b" using assms(1) by (metis add.right_neutral mult.commute mult_div_mod_eq)
  have "length (xs @ ys) div 2 ^ b = Suc (length xs div 2 ^ b)"
    using assms(2) div_add_self2 [of "2 ^ b" "length xs"] by simp
  moreover have "(xs @ ys) ! (i * 2 ^ b) = xs ! (i * 2 ^ b)" if "i < length xs div 2 ^ b" for i
  proof -
    have "i * 2 ^ b < length xs" using that l by (metis mult_less_cancel2 zero_less_power zero_less_numeral)
    then show ?thesis by (simp add: nth_append)
  qed
  moreover have "(xs @ ys) ! (length xs div 2 ^ b * 2 ^ b) = ys ! 0" unfolding l [symmetric] by (simp add: nth_append)
  ultimately show ?thesis by simp
qed

lemma push_jobs:
  assumes "fq_ok k b q"
  shows "push f q = (if unat (write_space (fq_rb q)) = 0 then (False, q)
       else (True, q\<lparr>fq_rb := write_advance (blocksize q)
         ((fq_rb q)\<lparr>rb_buf := (rb_buf (fq_rb q))[cell k (widx (fq_rb q)) 0 := Some f]\<rparr>)\<rparr>))"
    and "fst (push f q) \<Longrightarrow> fq_ok k b (snd (push f q)) \<and> jobs k b (snd (push f q)) = jobs k b q @ [Some f]"
proof -
  let ?rb = "fq_rb q"
  have ok: "rb_ok k ?rb" "blocksize q = 2 ^ b" "unat (widx ?rb) mod 2 ^ b = 0" "b \<le> k" using assms by (auto simp: fq_ok_def)
  note bl = fq_blocks [OF assms]
  have small: "unat (widx ?rb AND small_mask ?rb) = cell k (widx ?rb) 0"
    using small_index [OF ok(1)] by (simp add: cell_def)
  have full: "clip_count (blocksize q) (write_space ?rb) < blocksize q \<longleftrightarrow> unat (write_space ?rb) = 0"
    using multiple_less [OF bl(3)] bl(1) by (auto simp: word_less_nat_alt clip_count_nat)
  have clip: "clip_count (blocksize q) (write_space ?rb) = blocksize q" if "unat (write_space ?rb) \<noteq> 0"
    by (rule clip_fits) (use that multiple_less [OF bl(3)] bl(1) in auto)
  show p: "push f q = (if unat (write_space ?rb) = 0 then (False, q)
       else (True, q\<lparr>fq_rb := write_advance (blocksize q) (?rb\<lparr>rb_buf := (rb_buf ?rb)[cell k (widx ?rb) 0 := Some f]\<rparr>)\<rparr>))"
    using full clip block_in_one_part [OF assms ok(3)]
    by (auto simp: push_def get_wv_def Let_def small split: prod.splits)
  assume "fst (push f q)"
  then have free: "unat (write_space ?rb) \<noteq> 0" using p by (auto split: if_splits)
  then have room: "2 ^ b \<le> unat (write_space ?rb)" using multiple_less [OF bl(3)] by auto
  let ?rb1 = "?rb\<lparr>rb_buf := (rb_buf ?rb)[cell k (widx ?rb) 0 := Some f]\<rparr>"
  have c1: "content k ?rb1 = content k ?rb" "rb_ok k ?rb1" using free_cell [OF ok(1), of 0] free by simp_all
  have w1: "write_space ?rb1 = write_space ?rb" "widx ?rb1 = widx ?rb" by (simp_all add: write_space_def read_space_def)
  define src where "src = map (\<lambda>j. rb_buf ?rb1 ! cell k (widx ?rb) j) [0..<2 ^ b]"
  have src: "length src = 2 ^ b" "src ! 0 = Some f"
  proof -
    have "cell k (widx ?rb) 0 < 2 ^ k" by (simp add: cell_def)
    then have "cell k (widx ?rb) 0 < length (rb_buf ?rb)" using ok(1) by (simp add: rb_ok_def)
    then show "length src = 2 ^ b" "src ! 0 = Some f" by (simp_all add: src_def)
  qed
  have n: "word_of_nat (length src) = blocksize q" using src ok(2) by simp
  have adv: "rb_ok k (write_advance (blocksize q) ?rb1)"
    "content k (write_advance (blocksize q) ?rb1) = content k ?rb @ src"
    using content_write_advance [OF c1(2), of src] room w1 src(1) c1(1) unfolding n by (simp_all add: src_def)
  have q1: "snd (push f q) = q\<lparr>fq_rb := write_advance (blocksize q) ?rb1\<rparr>" using p free by simp
  have "jobs k b (snd (push f q)) = jobs k b q @ [Some f]"
    using jobs_append [of "content k ?rb" b src] src bl(2) length_content [of k "write_advance (blocksize q) ?rb1"]
    by (simp add: jobs_def q1 adv(2))
  moreover have "fq_ok k b (snd (push f q))"
    using assms adv(1) advance_aligned [OF assms ok(2), of "widx ?rb"]
    by (simp add: fq_ok_def q1 write_advance_def)
  ultimately show "fq_ok k b (snd (push f q)) \<and> jobs k b (snd (push f q)) = jobs k b q @ [Some f]" by simp
qed

lemma pop_jobs:
  assumes "fq_ok k b q"
  shows "pop q = (if jobs k b q = [] then (None, q)
       else (Some (hd (jobs k b q)), q\<lparr>fq_rb := read_advance (blocksize q) (fq_rb q)\<rparr>))"
    and "jobs k b q \<noteq> [] \<Longrightarrow> fq_ok k b (snd (pop q)) \<and> jobs k b (snd (pop q)) = tl (jobs k b q)"
    and "jobs k b q = [] \<longleftrightarrow> unat (read_space (fq_rb q)) = 0"
proof -
  let ?rb = "fq_rb q" and ?u = "unat (read_space (fq_rb q))"
  have ok: "rb_ok k ?rb" "blocksize q = 2 ^ b" "unat (ridx ?rb) mod 2 ^ b = 0" "b \<le> k" using assms by (auto simp: fq_ok_def)
  note bl = fq_blocks [OF assms]
  show e: "jobs k b q = [] \<longleftrightarrow> ?u = 0"
  proof -
    have "jobs k b q = [] \<longleftrightarrow> ?u div 2 ^ b = 0" by (simp add: jobs_def)
    also have "\<dots> \<longleftrightarrow> ?u < 2 ^ b" by (simp add: div_eq_0_iff)
    also have "\<dots> \<longleftrightarrow> ?u = 0" using multiple_less [OF bl(2)] by simp
    finally show ?thesis .
  qed
  have small: "unat (ridx ?rb AND small_mask ?rb) = cell k (ridx ?rb) 0"
    using small_index [OF ok(1)] by (simp add: cell_def)
  have none: "clip_count (blocksize q) (read_space ?rb) < blocksize q \<longleftrightarrow> ?u = 0"
    using multiple_less [OF bl(2)] bl(1) by (auto simp: word_less_nat_alt clip_count_nat)
  have clip: "clip_count (blocksize q) (read_space ?rb) = blocksize q" if "?u \<noteq> 0"
    by (rule clip_fits) (use that multiple_less [OF bl(2)] bl(1) in auto)
  have hd: "hd (jobs k b q) = rb_buf ?rb ! cell k (ridx ?rb) 0" if "?u \<noteq> 0"
    using that e nth_content_cell [of 0 ?rb k] by (simp add: jobs_def hd_map)
  show p: "pop q = (if jobs k b q = [] then (None, q)
       else (Some (hd (jobs k b q)), q\<lparr>fq_rb := read_advance (blocksize q) ?rb\<rparr>))"
  proof (cases "?u = 0")
    case True
    then have "clip_count (blocksize q) (read_space ?rb) < blocksize q" using none by simp
    then show ?thesis using True e by (simp add: pop_def get_rv_def Let_def split: prod.splits)
  next
    case False
    then have "\<not> blocksize q < blocksize q" "get_rv (blocksize q) ?rb =
        (((ridx ?rb AND small_mask ?rb, blocksize q), (0, 0)), blocksize q)"
      using clip block_in_one_part [OF assms ok(3)] by (simp_all add: get_rv_def Let_def)
    then show ?thesis using False e hd small by (simp add: pop_def)
  qed
  assume some: "jobs k b q \<noteq> []"
  then have u: "2 ^ b \<le> ?u" using e multiple_less [OF bl(2)] by auto
  have n: "unat (blocksize q) \<le> ?u" using u bl(1) by simp
  let ?rb1 = "read_advance (blocksize q) ?rb"
  have q1: "snd (pop q) = q\<lparr>fq_rb := ?rb1\<rparr>" using p some by simp
  have sp: "unat (read_space ?rb1) = ?u - 2 ^ b" using read_advance_ok(2) [OF ok(1) n] bl(1) by simp
  have div: "?u div 2 ^ b = Suc ((?u - 2 ^ b) div 2 ^ b)" using u div_if [of ?u "2 ^ b"] by simp
  have "jobs k b (snd (pop q)) = tl (jobs k b q)"
  proof (rule nth_equalityI)
    show "length (jobs k b (snd (pop q))) = length (tl (jobs k b q))"
      by (simp add: jobs_def q1 sp div)
    fix i assume "i < length (jobs k b (snd (pop q)))"
    then have i: "i < (?u - 2 ^ b) div 2 ^ b" by (simp add: jobs_def q1 sp)
    have "content k ?rb1 ! (i * 2 ^ b) = content k ?rb ! (2 ^ b + i * 2 ^ b)"
      unfolding content_read_advance [OF ok(1) n] bl(1) using u by (subst nth_drop) simp_all
    then show "jobs k b (snd (pop q)) ! i = tl (jobs k b q) ! i"
      using i by (simp add: jobs_def q1 sp div nth_tl del: upt_Suc)
  qed
  moreover have "fq_ok k b (snd (pop q))"
    using assms read_advance_ok(1) [OF ok(1) n] advance_aligned [OF assms ok(2), of "ridx ?rb"]
    by (simp add: fq_ok_def q1 read_advance_def)
  ultimately show "fq_ok k b (snd (pop q)) \<and> jobs k b (snd (pop q)) = tl (jobs k b q)" by simp
qed

lemma fqueue_parts:
  assumes "fq_ok k b q"
  shows "(if fq_full q then push f q = (False, q)
       else fst (push f q) \<and> fq_ok k b (snd (push f q)) \<and> jobs k b (snd (push f q)) = jobs k b q @ [Some f])"
    and "(if fq_empty q then jobs k b q = [] \<and> pop q = (None, q)
       else fst (pop q) = Some (hd (jobs k b q)) \<and> fq_ok k b (snd (pop q)) \<and> jobs k b (snd (pop q)) = tl (jobs k b q))"
    and "snd (fst (get_wv (blocksize q) (fq_rb q))) = (0, 0) \<or> fq_full q"
proof -
  have w: "fq_full q \<longleftrightarrow> unat (write_space (fq_rb q)) = 0" by (simp add: fq_full_def unat_eq_0)
  have r: "fq_empty q \<longleftrightarrow> unat (read_space (fq_rb q)) = 0" by (simp add: fq_empty_def unat_eq_0)
  note pj = push_jobs [OF assms, of f] and pp = pop_jobs [OF assms]
  show "(if fq_full q then push f q = (False, q)
       else fst (push f q) \<and> fq_ok k b (snd (push f q)) \<and> jobs k b (snd (push f q)) = jobs k b q @ [Some f])"
    using pj unfolding w by auto
  show "(if fq_empty q then jobs k b q = [] \<and> pop q = (None, q)
       else fst (pop q) = Some (hd (jobs k b q)) \<and> fq_ok k b (snd (pop q)) \<and> jobs k b (snd (pop q)) = tl (jobs k b q))"
    using pp unfolding r by auto
  have "clip_count (blocksize q) (write_space (fq_rb q)) = blocksize q" if "\<not> fq_full q"
    by (rule clip_fits) (use that w multiple_less [OF fq_blocks(3) [OF assms]] fq_blocks(1) [OF assms] in auto)
  then show "snd (fst (get_wv (blocksize q) (fq_rb q))) = (0, 0) \<or> fq_full q"
    using block_in_one_part [OF assms, of "widx (fq_rb q)"] assms by (auto simp: get_wv_def Let_def fq_ok_def)
qed

text \<open>The queue of deferred calls runs them in the order they were pushed: \<^verbatim>\<open>push\<close>
  appends unless the queue is full, when it says so and changes nothing; \<^verbatim>\<open>pop\<close> takes
  the oldest call, or none from an empty queue; a call object never straddles the end of the
  array, which the code takes for granted.\<close>

theorem fqueue_order:
  assumes "fq_ok k b q"
  shows "(if fq_full q then push f q = (False, q)
       else fst (push f q) \<and> fq_ok k b (snd (push f q)) \<and> jobs k b (snd (push f q)) = jobs k b q @ [Some f] \<and>
         snd (fst (get_wv (blocksize q) (fq_rb q))) = (0, 0)) \<and>
     (if fq_empty q then jobs k b q = [] \<and> pop q = (None, q)
       else fst (pop q) = Some (hd (jobs k b q)) \<and> fq_ok k b (snd (pop q)) \<and> jobs k b (snd (pop q)) = tl (jobs k b q))"
  using fqueue_parts(1) [OF assms, of f] fqueue_parts(2,3) [OF assms] by (auto split: if_splits)

lemma fq_new_ok:
  assumes "k \<le> 61" "b \<le> k" "length junk = 2 * 2 ^ k" "bs * count = 2 ^ k" "bs = 2 ^ b"
  shows "fq_ok k b (fq_new count bs junk)" "jobs k b (fq_new count bs junk) = []"
proof -
  have z: "unat (read_space (rb_new (2 ^ k) junk)) = 0" by (simp add: rb_new_def read_space_def)
  show "fq_ok k b (fq_new count bs junk)"
    unfolding fq_new_def using assms rb_new_good(1) [OF assms(1,3)] by (simp add: fq_ok_def) (simp add: rb_new_def)
  show "jobs k b (fq_new count bs junk) = []" unfolding fq_new_def using assms(4) z by (simp add: jobs_def)
qed

theorem fqueue_order_witness:
  "\<exists>q. push ''a'' (fq_new 1 2 (replicate 4 None)) = (True, q) \<and> jobs 1 1 q = [Some ''a'']"
proof -
  let ?q = "fq_new 1 2 (replicate 4 None) :: string fqueue"
  have ok: "fq_ok 1 1 ?q" "jobs 1 1 ?q = []" by (rule fq_new_ok; simp)+
  have "\<not> fq_full ?q" by code_simp
  then show ?thesis using fqueue_order [OF ok(1), of "''a''"] ok(2)
    by (cases "push ''a'' ?q") auto
qed

end
