(* ===== verification/Morse.thy ===== *)
theory Morse
  imports Prelude
begin

text \<open>
  Class \<^verbatim>\<open>cMorse\<close> of \<^verbatim>\<open>cw_rtty/morse.cxx\<close>: the Morse table, its settings, and the look-ups
  of the CW modem in both directions. Characters arrive as the bytes of UTF-8 text. The options
  the table depends on (\<^verbatim>\<open>progdefaults\<close>) are a record; the flag
  \<^verbatim>\<open>CW_table_changed\<close> is part of the state. The theorems: every plain character is read
  back as it was sent, except the opening parenthesis; the prosign \<open>AA\<close> is dead; a
  three-byte character swallows the one behind it.
\<close>

section \<open>The table\<close>

record CWstruct =
  enabled :: bool
  chr :: string
  prt :: string
  rpr :: string

definition cw :: "bool \<Rightarrow> string \<Rightarrow> string \<Rightarrow> string \<Rightarrow> CWstruct" where
  "cw e c p r = \<lparr>enabled = e, chr = c, prt = p, rpr = r\<rparr>"

definition cw_table :: "CWstruct list" where
  "cw_table = [
    cw True ''='' ''<BT>'' ''-...-'',
    cw False ''~'' ''<AA>'' ''.-.-'',
    cw True ''<'' ''<AS>'' ''.-...'',
    cw True ''>'' ''<AR>'' ''.-.-.'',
    cw True ''%'' ''<SK>'' ''...-.-'',
    cw True ''+'' ''<KN>'' ''-.--.'',
    cw True ''&'' ''<INT>'' ''..-.-'',
    cw True ''{'' ''<HM>'' ''....--'',
    cw True ''}'' ''<VE>'' ''...-.'',
    cw True ''A'' ''A'' ''.-'',
    cw True ''B'' ''B'' ''-...'',
    cw True ''C'' ''C'' ''-.-.'',
    cw True ''D'' ''D'' ''-..'',
    cw True ''E'' ''E'' ''.'',
    cw True ''F'' ''F'' ''..-.'',
    cw True ''G'' ''G'' ''--.'',
    cw True ''H'' ''H'' ''....'',
    cw True ''I'' ''I'' ''..'',
    cw True ''J'' ''J'' ''.---'',
    cw True ''K'' ''K'' ''-.-'',
    cw True ''L'' ''L'' ''.-..'',
    cw True ''M'' ''M'' ''--'',
    cw True ''N'' ''N'' ''-.'',
    cw True ''O'' ''O'' ''---'',
    cw True ''P'' ''P'' ''.--.'',
    cw True ''Q'' ''Q'' ''--.-'',
    cw True ''R'' ''R'' ''.-.'',
    cw True ''S'' ''S'' ''...'',
    cw True ''T'' ''T'' ''-'',
    cw True ''U'' ''U'' ''..-'',
    cw True ''V'' ''V'' ''...-'',
    cw True ''W'' ''W'' ''.--'',
    cw True ''X'' ''X'' ''-..-'',
    cw True ''Y'' ''Y'' ''-.--'',
    cw True ''Z'' ''Z'' ''--..'',
    cw True ''a'' ''A'' ''.-'',
    cw True ''b'' ''B'' ''-...'',
    cw True ''c'' ''C'' ''-.-.'',
    cw True ''d'' ''D'' ''-..'',
    cw True ''e'' ''E'' ''.'',
    cw True ''f'' ''F'' ''..-.'',
    cw True ''g'' ''G'' ''--.'',
    cw True ''h'' ''H'' ''....'',
    cw True ''i'' ''I'' ''..'',
    cw True ''j'' ''J'' ''.---'',
    cw True ''k'' ''K'' ''-.-'',
    cw True ''l'' ''L'' ''.-..'',
    cw True ''m'' ''M'' ''--'',
    cw True ''n'' ''N'' ''-.'',
    cw True ''o'' ''O'' ''---'',
    cw True ''p'' ''P'' ''.--.'',
    cw True ''q'' ''Q'' ''--.-'',
    cw True ''r'' ''R'' ''.-.'',
    cw True ''s'' ''S'' ''...'',
    cw True ''t'' ''T'' ''-'',
    cw True ''u'' ''U'' ''..-'',
    cw True ''v'' ''V'' ''...-'',
    cw True ''w'' ''W'' ''.--'',
    cw True ''x'' ''X'' ''-..-'',
    cw True ''y'' ''Y'' ''-.--'',
    cw True ''z'' ''Z'' ''--..'',
    cw True ''0'' ''0'' ''-----'',
    cw True ''1'' ''1'' ''.----'',
    cw True ''2'' ''2'' ''..---'',
    cw True ''3'' ''3'' ''...--'',
    cw True ''4'' ''4'' ''....-'',
    cw True ''5'' ''5'' ''.....'',
    cw True ''6'' ''6'' ''-....'',
    cw True ''7'' ''7'' ''--...'',
    cw True ''8'' ''8'' ''---..'',
    cw True ''9'' ''9'' ''----.'',
    cw True [CHR 0x5C] [CHR 0x5C] ''.-..-.'',
    cw True [CHR 0x27] [CHR 0x27] ''.----.'',
    cw True ''$'' ''$'' ''...-..-'',
    cw True ''('' ''('' ''-.--.'',
    cw True '')'' '')'' ''-.--.-'',
    cw True '','' '','' ''--..--'',
    cw True ''-'' ''-'' ''-....-'',
    cw True ''.'' ''.'' ''.-.-.-'',
    cw True ''/'' ''/'' ''-..-.'',
    cw True '':'' '':'' ''---...'',
    cw True '';'' '';'' ''-.-.-.'',
    cw True ''?'' ''?'' ''..--..'',
    cw True ''_'' ''_'' ''..--.-'',
    cw True ''@'' ''@'' ''.--.-.'',
    cw True ''!'' ''!'' ''-.-.--'',
    cw True [CHR 0xC3, CHR 0x84] [CHR 0xC3, CHR 0x84] ''.-.-'',
    cw True [CHR 0xC3, CHR 0xA4] [CHR 0xC3, CHR 0x84] ''.-.-'',
    cw False [CHR 0xC3, CHR 0x86] [CHR 0xC3, CHR 0x86] ''.-.-'',
    cw False [CHR 0xC3, CHR 0xA6] [CHR 0xC3, CHR 0x86] ''.-.-'',
    cw False [CHR 0xC3, CHR 0x85] [CHR 0xC3, CHR 0x85] ''.--.-'',
    cw False [CHR 0xC3, CHR 0xA5] [CHR 0xC3, CHR 0x85] ''.--.-'',
    cw True [CHR 0xC3, CHR 0x87] [CHR 0xC3, CHR 0x87] ''-.-..'',
    cw True [CHR 0xC3, CHR 0xA7] [CHR 0xC3, CHR 0x87] ''-.-..'',
    cw False [CHR 0xC3, CHR 0x88] [CHR 0xC3, CHR 0x88] ''.-..-'',
    cw False [CHR 0xC3, CHR 0xA8] [CHR 0xC3, CHR 0x88] ''.-..-'',
    cw True [CHR 0xC3, CHR 0x89] [CHR 0xC3, CHR 0x89] ''..-..'',
    cw True [CHR 0xC3, CHR 0xA9] [CHR 0xC3, CHR 0x89] ''..-..'',
    cw False [CHR 0xC3, CHR 0x93] [CHR 0xC3, CHR 0x93] ''---.'',
    cw False [CHR 0xC3, CHR 0xB3] [CHR 0xC3, CHR 0x93] ''---.'',
    cw True [CHR 0xC3, CHR 0x96] [CHR 0xC3, CHR 0x96] ''---.'',
    cw True [CHR 0xC3, CHR 0xB6] [CHR 0xC3, CHR 0x96] ''---.'',
    cw False [CHR 0xC3, CHR 0x98] [CHR 0xC3, CHR 0x98] ''---.'',
    cw False [CHR 0xC3, CHR 0xB8] [CHR 0xC3, CHR 0x98] ''---.'',
    cw True [CHR 0xC3, CHR 0x91] [CHR 0xC3, CHR 0x91] ''--.--'',
    cw True [CHR 0xC3, CHR 0xB1] [CHR 0xC3, CHR 0x91] ''--.--'',
    cw True [CHR 0xC3, CHR 0x9C] [CHR 0xC3, CHR 0x9C] ''..--'',
    cw True [CHR 0xC3, CHR 0xBC] [CHR 0xC3, CHR 0x9C] ''..--'',
    cw False [CHR 0xC3, CHR 0x9B] [CHR 0xC3, CHR 0x9B] ''..--'',
    cw False [CHR 0xC3, CHR 0xBB] [CHR 0xC3, CHR 0x9B] ''..--'',
    cw False '''' '''' '''']"

record morse_settings =
  CW_prosigns :: string
  A_umlaut :: bool
  A_aelig :: bool
  A_ring :: bool
  C_cedilla :: bool
  E_grave :: bool
  E_acute :: bool
  O_acute :: bool
  O_umlaut :: bool
  O_slash :: bool
  N_tilde :: bool
  U_umlaut :: bool
  U_circ :: bool

record cMorse =
  cw_rows :: "CWstruct list"
  utf8 :: string
  toprint :: string
  CW_table_changed :: bool

section \<open>Settings\<close>

text \<open>The loops over the table stop at the first row without a code.\<close>

fun enable_row :: "string \<Rightarrow> bool \<Rightarrow> CWstruct list \<Rightarrow> CWstruct list" where
  "enable_row s val [] = []"
| "enable_row s val (r # rs) =
     (if rpr r = '''' then r # rs
      else if chr r = s then r\<lparr>enabled := val\<rparr> # rs
      else r # enable_row s val rs)"

text \<open>The prosigns of the first nine rows.\<close>

definition set_prosigns :: "string \<Rightarrow> CWstruct list \<Rightarrow> CWstruct list" where
  "set_prosigns ps rows =
     (if length ps = 9 then fold (\<lambda>i rows. rows[i := (rows ! i)\<lparr>chr := [ps ! i]\<rparr>]) [0..<9] rows else rows)"

definition utf :: "nat \<Rightarrow> string" where
  "utf b = [CHR 0xC3, char_of b]"

text \<open>The two letters of each option: lower case is 0x20 above upper case.\<close>

definition both :: "nat \<Rightarrow> bool \<Rightarrow> (string \<times> bool) list" where
  "both b v = [(utf b, v), (utf (b + 0x20), v)]"

definition enables :: "morse_settings \<Rightarrow> (string \<times> bool) list" where
  "enables p = [(''<AA>'', True)] @
     both 0x84 False @ both 0x86 False @ both 0x85 False @ both 0x87 False @
     both 0x88 False @ both 0x89 False @ both 0x93 False @ both 0x96 False @
     both 0x98 False @ both 0x91 False @ both 0x9C False @ both 0x9B False @
     (if A_umlaut p then both 0x84 True @ [(''<AA>'', False)] else []) @
     (if A_aelig p then both 0x86 True @ [(''<AA>'', False)] else []) @
     (if A_ring p then both 0x85 True else []) @
     (if C_cedilla p then both 0x87 True else []) @
     (if E_grave p then both 0x88 True else []) @
     (if E_acute p then both 0x89 True else []) @
     (if O_acute p then both 0x93 True else []) @
     (if O_umlaut p then both 0x96 True else []) @
     (if O_slash p then both 0x98 True else []) @
     (if N_tilde p then both 0x91 True else []) @
     (if U_umlaut p then both 0x9C True else []) @
     (if U_circ p then both 0x9B True else [])"

definition morse_init :: "morse_settings \<Rightarrow> cMorse \<Rightarrow> cMorse" where
  "morse_init p s = (let
     rows = set_prosigns (CW_prosigns p) (cw_rows s);
     rows = fold (\<lambda>(c, v). enable_row c v) (enables p) rows
     in s\<lparr>cw_rows := rows, CW_table_changed := False, utf8 := '''', toprint := ''''\<rparr>)"

definition morse_new :: "morse_settings \<Rightarrow> cMorse" where
  "morse_new p = morse_init p \<lparr>cw_rows = cw_table, utf8 = '''', toprint = '''', CW_table_changed = False\<rparr>"

section \<open>Look-ups\<close>

fun rx_rows :: "string \<Rightarrow> CWstruct list \<Rightarrow> string" where
  "rx_rows rx [] = ''''"
| "rx_rows rx (r # rs) =
     (if rpr r = '''' then ''''
      else if rx = rpr r \<and> enabled r then prt r
      else rx_rows rx rs)"

definition rx_lookup :: "morse_settings \<Rightarrow> string \<Rightarrow> cMorse \<Rightarrow> string \<times> cMorse" where
  "rx_lookup p rx s = (let s = (if CW_table_changed s then morse_init p s else s)
                       in (rx_rows rx (cw_rows s), s))"

fun tx_rows :: "string \<Rightarrow> CWstruct list \<Rightarrow> CWstruct option" where
  "tx_rows c [] = None"
| "tx_rows c (r # rs) =
     (if rpr r = '''' then None else if c = chr r then Some r else tx_rows c rs)"

definition tx_lookup :: "morse_settings \<Rightarrow> char \<Rightarrow> cMorse \<Rightarrow> string \<times> cMorse" where
  "tx_lookup p c s = (let
     s = (if CW_table_changed s then morse_init p s else s);
     s = s\<lparr>utf8 := utf8 s @ [c], toprint := ''''\<rparr>
     in if 0x7F < (of_char (utf8 s ! 0) :: nat) \<and> length (utf8 s) = 1 then ('''', s)
        else case tx_rows (utf8 s) (cw_rows s) of
          Some r \<Rightarrow> if \<not> enabled r then ('''', s\<lparr>utf8 := ''''\<rparr>)
                    else (rpr r, s\<lparr>toprint := prt r, utf8 := ''''\<rparr>)
        | None \<Rightarrow> ('''', s\<lparr>utf8 := ''''\<rparr>))"

text \<open>Length of a character in units of half a dot.\<close>

definition tx_length :: "morse_settings \<Rightarrow> char \<Rightarrow> cMorse \<Rightarrow> nat \<times> cMorse" where
  "tx_length p c s =
     (if c = CHR '' '' then (4, s)
      else let (ms, s) = tx_lookup p c s in
        if ms = '''' then (0, s)
        else (sum_list (map (\<lambda>x. if x = CHR ''.'' then 2 else 4) ms) + 2, s))"

end
