(* ===== verification/Morse_Laws.thy ===== *)
theory Morse_Laws
  imports Morse
begin

text \<open>
  What holds of the Morse table in every reachable state (\<open>table_ok\<close>, kept by every change of
  settings), and the look-ups in both directions over whole texts.
\<close>

section \<open>What every table in use has in common\<close>

text \<open>Settings change the characters of the nine prosign rows and switch accented letters on and
  off, nothing else.\<close>

definition table_ok :: "CWstruct list \<Rightarrow> bool" where
  "table_ok rows \<longleftrightarrow> map prt rows = map prt cw_table \<and> map rpr rows = map rpr cw_table \<and>
     map enabled (take 86 rows) = map enabled (take 86 cw_table) \<and>
     map chr (drop 9 rows) = map chr (drop 9 cw_table) \<and> list_all (\<lambda>r. length (chr r) = 1) (take 9 rows)"

lemma cw_table_facts:
  "length cw_table = 111"
  "list_all (\<lambda>r. length (chr r) = 1 \<and> rpr r \<noteq> '''') (take 86 cw_table)"
  "list_all (\<lambda>r. length (chr r) = 2 \<longrightarrow> hd (chr r) = CHR 0xC3) cw_table"
  "list_all (\<lambda>r. length (chr r) \<le> 2) cw_table"
  unfolding cw_table_def by (simp_all add: cw_def)

lemma table_ok_cw_table: "table_ok cw_table"
  unfolding table_ok_def cw_table_def by (simp add: cw_def)

lemma table_ok_length: "table_ok rows \<Longrightarrow> length rows = 111"
  unfolding table_ok_def by (metis cw_table_facts(1) length_map)

text \<open>The first 86 rows are spelled with one character each.\<close>

lemma table_ok_front:
  assumes "table_ok rows" "r \<in> set (take 86 rows)"
  shows "length (chr r) = 1" "rpr r \<noteq> ''''"
proof -
  have len: "length rows = 111" by (rule table_ok_length [OF assms(1)])
  obtain i where i: "i < 86" "r = rows ! i" using assms(2) len by (auto simp: in_set_conv_nth)
  have "map rpr rows ! i = map rpr cw_table ! i" using assms(1) by (simp add: table_ok_def)
  then show "rpr r \<noteq> ''''"
    using i len cw_table_facts(1,2) by (auto simp: list_all_length)
  show "length (chr r) = 1"
  proof (cases "i < 9")
    case True
    then have "r \<in> set (take 9 rows)" using i len by (auto simp: in_set_conv_nth intro!: exI [of _ i])
    then show ?thesis using assms(1) by (auto simp: table_ok_def list_all_iff)
  next
    case False
    then have "map chr (drop 9 rows) ! (i - 9) = map chr (drop 9 cw_table) ! (i - 9)"
      using assms(1) by (simp add: table_ok_def)
    then have "chr r = chr (cw_table ! i)" using False i len cw_table_facts(1) by simp
    then show ?thesis using i cw_table_facts(1,2) by (auto simp: list_all_length)
  qed
qed

lemma enable_row_front:
  "(\<And>r. r \<in> set front \<Longrightarrow> chr r \<noteq> s \<and> rpr r \<noteq> '''') \<Longrightarrow> enable_row s v (front @ rest) = front @ enable_row s v rest"
  by (induction front) auto

lemma enable_row_frame:
  "map prt (enable_row s v rows) = map prt rows" "map rpr (enable_row s v rows) = map rpr rows"
  "map chr (enable_row s v rows) = map chr rows"
  by (induction rows) auto

lemma table_ok_enable:
  assumes "table_ok rows" "length s \<noteq> 1"
  shows "table_ok (enable_row s v rows)"
proof -
  have len: "length rows = 111" by (rule table_ok_length [OF assms(1)])
  have "enable_row s v (take 86 rows @ drop 86 rows) = take 86 rows @ enable_row s v (drop 86 rows)"
    using table_ok_front [OF assms(1)] assms(2) by (intro enable_row_front) auto
  then have front: "take 86 (enable_row s v rows) = take 86 rows" using len by simp
  moreover have "take 9 ys = take 9 (take 86 ys)" for ys :: "CWstruct list" by simp
  ultimately have "take 9 (enable_row s v rows) = take 9 rows" by metis
  moreover have "map chr (drop 9 (enable_row s v rows)) = map chr (drop 9 rows)"
    by (simp only: drop_map [symmetric] enable_row_frame)
  ultimately show ?thesis
    using assms(1) front by (simp add: table_ok_def enable_row_frame)
qed

lemma enables_long: "\<forall>(c, v) \<in> set (enables p). length c \<noteq> 1"
  unfolding enables_def both_def utf_def by (auto split: if_splits)

lemma table_ok_enables: "\<forall>(c, v) \<in> set xs. length c \<noteq> 1 \<Longrightarrow> table_ok rows \<Longrightarrow> table_ok (fold (\<lambda>(c, v). enable_row c v) xs rows)"
  by (induction xs arbitrary: rows) (auto simp: table_ok_enable)

text \<open>Replacing the characters of the prosigns.\<close>

lemma set_chr_ok:
  assumes "table_ok rows" "i < 9"
  shows "table_ok (rows[i := (rows ! i)\<lparr>chr := [x]\<rparr>])"
proof -
  have len: "length rows = 111" by (rule table_ok_length [OF assms(1)])
  let ?rows = "rows[i := (rows ! i)\<lparr>chr := [x]\<rparr>]"
  have m0: "map f ?rows = map f rows" if "\<And>r. f (r\<lparr>chr := [x]\<rparr>) = f r" for f :: "CWstruct \<Rightarrow> 'a"
    using len assms(2) by (simp add: map_update that list_update_same_conv)
  have m: "map prt ?rows = map prt rows" "map rpr ?rows = map rpr rows" "map enabled ?rows = map enabled rows"
    by (rule m0; simp)+
  have "take 9 ?rows = (take 9 rows)[i := (rows ! i)\<lparr>chr := [x]\<rparr>]" "drop 9 ?rows = drop 9 rows"
    using assms(2) by (simp_all add: take_update_swap)
  moreover have "list_all (\<lambda>r. length (chr r) = 1) ((take 9 rows)[i := (rows ! i)\<lparr>chr := [x]\<rparr>])"
    using assms(1) by (auto simp: table_ok_def list_all_iff dest!: set_update_subset_insert [THEN subsetD])
  moreover have "map enabled (take 86 ?rows) = map enabled (take 86 rows)"
    using m(3) by (metis take_map)
  ultimately show ?thesis using assms(1) m(1,2) by (simp add: table_ok_def)
qed

lemma table_ok_prosigns: "table_ok rows \<Longrightarrow> table_ok (set_prosigns ps rows)"
proof -
  have "\<forall>i \<in> set xs. i < 9 \<Longrightarrow> table_ok rows \<Longrightarrow> table_ok (fold (\<lambda>i rows. rows[i := (rows ! i)\<lparr>chr := [ps ! i]\<rparr>]) xs rows)"
    for xs rows by (induction xs arbitrary: rows) (auto simp: set_chr_ok)
  then show "table_ok rows \<Longrightarrow> table_ok (set_prosigns ps rows)" by (simp add: set_prosigns_def)
qed

lemma morse_init_ok: "table_ok (cw_rows s) \<Longrightarrow> table_ok (cw_rows (morse_init p s))"
  using table_ok_enables [OF enables_long table_ok_prosigns] by (simp add: morse_init_def Let_def)

section \<open>States of the program\<close>

text \<open>Constructed with some settings; then settings change, characters are received and sent.\<close>

inductive morse_state :: "cMorse \<Rightarrow> bool" where
  new: "morse_state (morse_new p)"
| changed: "morse_state s \<Longrightarrow> morse_state (s\<lparr>CW_table_changed := True\<rparr>)"
| rx: "morse_state s \<Longrightarrow> morse_state (snd (rx_lookup p x s))"
| tx: "morse_state s \<Longrightarrow> morse_state (snd (tx_lookup p c s))"

lemma tx_lookup_rows: "cw_rows (snd (tx_lookup p c s)) = (if CW_table_changed s then cw_rows (morse_init p s) else cw_rows s)"
  by (auto simp: tx_lookup_def Let_def split: option.splits)

lemma morse_state_ok: "morse_state s \<Longrightarrow> table_ok (cw_rows s)"
proof (induction rule: morse_state.induct)
  case (new p)
  then show ?case by (simp add: morse_new_def morse_init_ok table_ok_cw_table)
qed (simp_all add: rx_lookup_def tx_lookup_rows morse_init_ok Let_def)

section \<open>Plain characters\<close>

definition plain_rows :: "CWstruct list" where
  "plain_rows = take 77 (drop 9 cw_table)"

lemma table_ok_split:
  assumes "table_ok rows"
  obtains P rest where "rows = P @ plain_rows @ rest" "length P = 9"
    "map enabled P = map enabled (take 9 cw_table)" "map prt P = map prt (take 9 cw_table)"
    "map rpr P = map rpr (take 9 cw_table)" "list_all (\<lambda>r. length (chr r) = 1) P"
proof -
  have len: "length rows = 111" by (rule table_ok_length [OF assms])
  have ok: "map prt rows = map prt cw_table" "map rpr rows = map rpr cw_table"
    "map enabled (take 86 rows) = map enabled (take 86 cw_table)" "map chr (drop 9 rows) = map chr (drop 9 cw_table)"
    "list_all (\<lambda>r. length (chr r) = 1) (take 9 rows)" using assms by (auto simp: table_ok_def)
  have nth: "prt (rows ! i) = prt (cw_table ! i)" "rpr (rows ! i) = rpr (cw_table ! i)"
    "i < 86 \<Longrightarrow> enabled (rows ! i) = enabled (cw_table ! i)" "9 \<le> i \<Longrightarrow> chr (rows ! i) = chr (cw_table ! i)"
    if "i < 111" for i
  proof -
    show "prt (rows ! i) = prt (cw_table ! i)" "rpr (rows ! i) = rpr (cw_table ! i)"
      using arg_cong [OF ok(1), of "\<lambda>l. l ! i"] arg_cong [OF ok(2), of "\<lambda>l. l ! i"] that len cw_table_facts(1) by simp_all
    show "i < 86 \<Longrightarrow> enabled (rows ! i) = enabled (cw_table ! i)"
      using arg_cong [OF ok(3), of "\<lambda>l. l ! i"] that len cw_table_facts(1) by simp
    show "9 \<le> i \<Longrightarrow> chr (rows ! i) = chr (cw_table ! i)"
      using arg_cong [OF ok(4), of "\<lambda>l. l ! (i - 9)"] that len cw_table_facts(1) by simp
  qed
  have mid: "take 77 (drop 9 rows) = plain_rows"
    unfolding plain_rows_def by (rule nth_equalityI) (use len cw_table_facts(1) nth in \<open>auto intro!: CWstruct.equality\<close>)
  show thesis
  proof (rule that [of "take 9 rows" "drop 86 rows"])
    have "drop 86 rows = drop 77 (drop 9 rows)" by simp
    then have "rows = take 9 rows @ take 77 (drop 9 rows) @ drop 86 rows" by (metis append_take_drop_id)
    then show "rows = take 9 rows @ plain_rows @ drop 86 rows" unfolding mid .
    show "length (take 9 rows) = 9" using len by simp
    show "map enabled (take 9 rows) = map enabled (take 9 cw_table)"
      by (rule nth_equalityI) (use len cw_table_facts(1) nth in auto)
    show "map prt (take 9 rows) = map prt (take 9 cw_table)" "map rpr (take 9 rows) = map rpr (take 9 cw_table)"
      using ok(1,2) by (metis take_map)+
  qed (rule ok(5))
qed

text \<open>Looking codes up does not depend on the characters.\<close>

lemma rx_rows_cong:
  "map enabled as = map enabled bs \<Longrightarrow> map prt as = map prt bs \<Longrightarrow> map rpr as = map rpr bs \<Longrightarrow>
     rx_rows x (as @ cs) = rx_rows x (bs @ cs)"
proof (induction as arbitrary: bs)
  case (Cons a as)
  then obtain b bs' where "bs = b # bs'" by (cases bs) auto
  with Cons show ?case by simp
qed simp

lemma rx_rows_prefix: "rx_rows x as \<noteq> '''' \<Longrightarrow> rx_rows x (as @ bs) = rx_rows x as"
  by (induction as) auto

lemma cw_table_chars: "distinct (map chr plain_rows)"
  unfolding plain_rows_def cw_table_def by (simp add: cw_def)

text \<open>Small letters are spelled like capitals; otherwise the codes of the rows in use differ.\<close>

definition code_rows :: "CWstruct list" where
  "code_rows = filter (\<lambda>r. enabled r \<and> chr r \<noteq> ''('')
     (take 9 cw_table @ take 26 (drop 9 cw_table) @ take 25 (drop 61 cw_table))"

lemma cw_table_codes:
  "distinct (map rpr code_rows)"
  "list_all2 (\<lambda>a b. rpr a = rpr b \<and> prt a = prt b) (take 26 (drop 9 cw_table)) (take 26 (drop 35 cw_table))"
  unfolding code_rows_def cw_table_def by (simp_all add: cw_def)

lemma cw_table_letters:
  "list_all (\<lambda>r. enabled r \<and> chr r \<noteq> ''('') (take 26 (drop 9 cw_table))"
  "list_all (\<lambda>r. rpr r \<noteq> '''' \<and> prt r \<noteq> '''') (take 86 cw_table)"
  "list_all (\<lambda>r. enabled r \<and> (chr r = ''('' \<longleftrightarrow> rpr r = ''-.--.'')) plain_rows"
  "list_all (\<lambda>r. chr r = ''('' \<longrightarrow> rpr r = ''-.--.'') (take 86 cw_table)"
  "rx_rows ''-.--.'' (take 9 cw_table) = ''<KN>''"
  unfolding plain_rows_def cw_table_def by (simp_all add: cw_def)

lemma take_86: "take 9 cw_table @ plain_rows = take 86 cw_table"
  unfolding plain_rows_def by (simp flip: take_add)

lemma set_take_86:
  "set (take 86 cw_table) = set (take 9 cw_table @ take 26 (drop 9 cw_table) @ take 25 (drop 61 cw_table)) \<union> set (take 26 (drop 35 cw_table))"
proof -
  have "take (9 + (26 + (26 + 25))) xs = take 9 xs @ take 26 (drop 9 xs) @ take 26 (drop 35 xs) @ take 25 (drop 61 xs)"
    for xs :: "CWstruct list" unfolding take_add by simp
  then have "take 86 cw_table = take 9 cw_table @ take 26 (drop 9 cw_table) @ take 26 (drop 35 cw_table) @ take 25 (drop 61 cw_table)"
    by simp
  from arg_cong [OF this, of set] show ?thesis by (simp only: set_append Un_ac)
qed

lemma code_row:
  assumes "r \<in> set (take 86 cw_table)" "enabled r" "chr r \<noteq> ''(''"
  obtains u where "u \<in> set code_rows" "rpr u = rpr r" "prt u = prt r"
proof (cases "r \<in> set (take 26 (drop 35 cw_table))")
  case True
  then obtain i where i: "i < length (take 26 (drop 35 cw_table))" "r = take 26 (drop 35 cw_table) ! i"
    by (metis in_set_conv_nth)
  have l: "i < length (take 26 (drop 9 cw_table))" using i(1) list_all2_lengthD [OF cw_table_codes(2)] by simp
  let ?u = "take 26 (drop 9 cw_table) ! i"
  have u: "?u \<in> set (take 26 (drop 9 cw_table))" using l by (rule nth_mem)
  then have "enabled ?u \<and> chr ?u \<noteq> ''(''" using cw_table_letters(1) unfolding list_all_iff by blast
  then have "?u \<in> set code_rows" using u unfolding code_rows_def by auto
  moreover have "rpr ?u = rpr r \<and> prt ?u = prt r" using list_all2_nthD2 [OF cw_table_codes(2) i(1)] i(2) by simp
  ultimately show ?thesis using that by blast
next
  case False
  then have "r \<in> set code_rows" using assms set_take_86 unfolding code_rows_def by auto
  then show ?thesis using that by blast
qed

lemma code_rows_unique:
  assumes "u \<in> set code_rows" "w \<in> set code_rows" "rpr u = rpr w" shows "u = w"
  using assms cw_table_codes(1) by (meson distinct_map inj_onD)

lemma rx_rows_first:
  assumes "r \<in> set A" "enabled r" "\<And>r'. r' \<in> set A \<Longrightarrow> rpr r' \<noteq> []"
    "\<And>r'. r' \<in> set A \<Longrightarrow> enabled r' \<and> rpr r' = rpr r \<Longrightarrow> prt r' = prt r"
  shows "rx_rows (rpr r) (A @ B) = prt r"
  using assms
proof (induction A)
  case (Cons a A)
  have a: "rpr a \<noteq> []" "enabled a \<and> rpr a = rpr r \<Longrightarrow> prt a = prt r"
    by (rule Cons.prems, rule list.set_intros(1))+
  show ?case
  proof (cases "enabled a \<and> rpr a = rpr r")
    case True
    then show ?thesis using a by (metis (no_types) append_Cons rx_rows.simps(2))
  next
    case False
    then have "r \<in> set A" using Cons.prems(1,2) by auto
    then have "rx_rows (rpr r) (A @ B) = prt r"
    proof (rule Cons.IH [OF _ assms(2)])
      fix r' assume r': "r' \<in> set A"
      then have m: "r' \<in> set (a # A)" by (rule list.set_intros(2))
      show "rpr r' \<noteq> []" by (rule Cons.prems(3) [OF m])
      show "prt r' = prt r" if "enabled r' \<and> rpr r' = rpr r" by (rule Cons.prems(4) [OF m that])
    qed
    then show ?thesis using False a(1) by (metis append_Cons rx_rows.simps(2))
  qed
qed simp

lemma rx_plain_rows:
  assumes r: "r \<in> set plain_rows"
  shows "rx_rows (rpr r) (take 9 cw_table @ plain_rows @ B) = (if chr r = ''('' then ''<KN>'' else prt r)"
proof (cases "chr r = ''(''")
  case True
  then have "rpr r = ''-.--.''" using r cw_table_letters(3) by (simp add: list_all_iff)
  then show ?thesis
    using True cw_table_letters(5) rx_rows_prefix [of "''-.--.''" "take 9 cw_table" "plain_rows @ B"] by simp
next
  case False
  have m: "r \<in> set (take 86 cw_table)" using r unfolding take_86 [symmetric] by simp
  have e: "enabled r" "rpr r \<noteq> ''-.--.''" using r False cw_table_letters(3) by (auto simp: list_all_iff)
  obtain u where u: "u \<in> set code_rows" "rpr u = rpr r" "prt u = prt r" using code_row [OF m e(1) False] by blast
  have "rx_rows (rpr r) (take 86 cw_table @ B) = prt r"
  proof (rule rx_rows_first [OF m e(1)])
    fix r' assume r': "r' \<in> set (take 86 cw_table)"
    then show "rpr r' \<noteq> []" using cw_table_letters(2) by (simp add: list_all_iff)
    show "prt r' = prt r" if c: "enabled r' \<and> rpr r' = rpr r"
    proof -
      have "chr r' \<noteq> ''(''" using r' c cw_table_letters(4) e(2) by (auto simp: list_all_iff)
      then obtain w where "w \<in> set code_rows" "rpr w = rpr r'" "prt w = prt r'"
        using code_row [OF r'] c by blast
      then show ?thesis using code_rows_unique [OF u(1)] u c by metis
    qed
  qed
  then show ?thesis using False unfolding take_86 [symmetric] by simp
qed

lemma tx_rows_front:
  "(\<And>r. r \<in> set front \<Longrightarrow> chr r \<noteq> c \<and> rpr r \<noteq> '''') \<Longrightarrow> tx_rows c (front @ rest) = tx_rows c rest"
  by (induction front) auto

lemma tx_rows_member:
  "distinct (map chr rows) \<Longrightarrow> r \<in> set rows \<Longrightarrow> \<forall>r \<in> set rows. rpr r \<noteq> '''' \<Longrightarrow> tx_rows (chr r) (rows @ rest) = Some r"
  by (induction rows) (auto simp: image_iff)

lemma rx_plain:
  assumes "table_ok rows" "r \<in> set plain_rows"
  shows "rx_rows (rpr r) rows = (if chr r = ''('' then ''<KN>'' else prt r)"
proof -
  obtain P rest where P: "rows = P @ plain_rows @ rest"
    "map enabled P = map enabled (take 9 cw_table)" "map prt P = map prt (take 9 cw_table)"
    "map rpr P = map rpr (take 9 cw_table)" using table_ok_split [OF assms(1)] by metis
  show ?thesis unfolding P(1) rx_rows_cong [OF P(2-4)] by (rule rx_plain_rows [OF assms(2)])
qed

lemma tx_plain:
  assumes "table_ok rows" "r \<in> set plain_rows" "chr r \<notin> chr ` set (take 9 rows)"
  shows "tx_rows (chr r) rows = Some r"
proof -
  obtain P rest where P: "rows = P @ plain_rows @ rest" "length P = 9" using table_ok_split [OF assms(1)] by metis
  have t: "take 9 rows = P" using P by simp
  have m: "x \<in> set (take 86 rows)" if "x \<in> set P" for x using that P by simp
  have "chr x \<noteq> chr r \<and> rpr x \<noteq> ''''" if "x \<in> set P" for x
    using assms(3) table_ok_front(2) [OF assms(1) m [OF that]] that unfolding t by (metis imageI)
  then have "tx_rows (chr r) rows = tx_rows (chr r) (plain_rows @ rest)" unfolding P(1) by (rule tx_rows_front)
  moreover have "\<forall>r \<in> set plain_rows. rpr r \<noteq> ''''"
    using cw_table_letters(2) unfolding take_86 [symmetric] by (simp add: list_all_iff)
  ultimately show ?thesis using tx_rows_member [OF cw_table_chars assms(2)] by simp
qed

section \<open>Texts\<close>

text \<open>The modem sends a text byte by byte.\<close>

fun tx_string :: "morse_settings \<Rightarrow> string \<Rightarrow> cMorse \<Rightarrow> string list \<times> cMorse" where
  "tx_string p [] s = ([], s)"
| "tx_string p (c # cs) s =
     (let (code, s) = tx_lookup p c s; (codes, s) = tx_string p cs s in (code # codes, s))"

definition plain_chars :: string where
  "plain_chars = ''ABCDEFGHIJKLMNOPQRSTUVWXYZabcdefghijklmnopqrstuvwxyz0123456789$),-./:;?_@!'' @ [CHR 0x5C, CHR 0x27]"

definition capital :: "char \<Rightarrow> char" where
  "capital c = (let n = of_char c :: nat in if 0x61 \<le> n \<and> n \<le> 0x7A then char_of (n - 32) else c)"

lemma plain_char_rows:
  "list_all (\<lambda>c. [c] \<in> chr ` set plain_rows) plain_chars"
  "list_all (\<lambda>r. length (chr r) = 1 \<and> of_char (chr r ! 0) \<le> (0x7F :: nat) \<and> prt r = [capital (chr r ! 0)]) plain_rows"
  "CHR ''('' \<notin> set plain_chars"
  unfolding plain_rows_def cw_table_def plain_chars_def capital_def by (simp_all add: cw_def char_of_def bit_Suc_0_iff)

lemma tx_lookup_plain:
  assumes s: "morse_state s" "utf8 s = []" "\<not> CW_table_changed s"
    and c: "c \<in> set plain_chars" "[c] \<notin> chr ` set (take 9 (cw_rows s))"
  obtains r where "r \<in> set plain_rows" "chr r = [c]" "tx_lookup p c s = (rpr r, s\<lparr>toprint := [capital c]\<rparr>)"
proof -
  obtain r where r: "r \<in> set plain_rows" "chr r = [c]" using plain_char_rows(1) c(1) by (auto simp: list_all_iff)
  have small: "of_char c \<le> (0x7F :: nat)" "prt r = [capital c]" using r plain_char_rows(2) by (auto simp: list_all_iff)
  have row: "tx_rows [c] (cw_rows s) = Some r" using tx_plain [OF morse_state_ok [OF s(1)] r(1)] r(2) c(2) by simp
  have "enabled r" using r(1) cw_table_letters(3) by (simp add: list_all_iff)
  then have "tx_lookup p c s = (rpr r, s\<lparr>toprint := [capital c]\<rparr>)"
    unfolding tx_lookup_def Let_def using s(2,3) small row by simp
  then show thesis using that r by blast
qed

lemma morse_text_codes:
  assumes s: "morse_state s" "utf8 s = []" "\<not> CW_table_changed s"
    and t: "morse_state t" "\<not> CW_table_changed t"
    and cs: "set cs \<subseteq> set plain_chars" "(\<lambda>c. [c]) ` set cs \<inter> chr ` set (take 9 (cw_rows s)) = {}"
  shows "map (\<lambda>code. fst (rx_lookup q code t)) (fst (tx_string p cs s)) = map (\<lambda>c. [capital c]) cs"
  using s cs
proof (induction cs arbitrary: s)
  case (Cons c cs)
  have c: "c \<in> set plain_chars" "[c] \<notin> chr ` set (take 9 (cw_rows s))" using Cons.prems by auto
  obtain r where r: "r \<in> set plain_rows" "chr r = [c]" "tx_lookup p c s = (rpr r, s\<lparr>toprint := [capital c]\<rparr>)"
    using tx_lookup_plain [OF Cons.prems(1-3) c] by blast
  have "chr r \<noteq> ''(''" using r(2) c(1) plain_char_rows(3) by auto
  moreover have "prt r = [capital c]" using r(1,2) plain_char_rows(2) by (auto simp: list_all_iff)
  ultimately have "fst (rx_lookup q (rpr r) t) = [capital c]"
    using rx_plain [OF morse_state_ok [OF t(1)] r(1)] t(2) by (simp add: rx_lookup_def)
  moreover have "morse_state (s\<lparr>toprint := [capital c]\<rparr>)"
    using morse_state.tx [OF Cons.prems(1), of p c] r(3) by simp
  ultimately show ?case using Cons.IH [of "s\<lparr>toprint := [capital c]\<rparr>"] Cons.prems r(3)
    by (simp add: case_prod_beta Let_def)
qed simp

text \<open>A character that starts no row.\<close>

lemma tx_rows_none: "\<forall>r \<in> set rows. chr r \<noteq> c \<or> rpr r = '''' \<Longrightarrow> tx_rows c rows = None"
  by (induction rows) auto

lemma table_ok_chars:
  assumes "table_ok rows" "r \<in> set rows"
  shows "length (chr r) \<le> 1 \<or> length (chr r) = 2 \<and> hd (chr r) = CHR 0xC3"
proof -
  obtain P rest where P: "rows = P @ plain_rows @ rest" "length P = 9" "list_all (\<lambda>r. length (chr r) = 1) P"
    using table_ok_split [OF assms(1)] by metis
  show ?thesis
  proof (cases "r \<in> set P")
    case True
    then show ?thesis using P(3) by (simp add: list_all_iff)
  next
    case False
    then have "r \<in> set (drop 9 rows)" using assms(2) P(1,2) by auto
    then have "chr r \<in> set (map chr (drop 9 rows))" by simp
    then have "chr r \<in> set (map chr (drop 9 cw_table))" using assms(1) by (simp only: table_ok_def)
    then obtain q where "q \<in> set cw_table" "chr r = chr q" by (auto dest: in_set_dropD)
    then show ?thesis using cw_table_facts(3,4) by (auto simp: list_all_iff le_Suc_eq numeral_2_eq_2)
  qed
qed

lemma morse_init_flag: "\<not> CW_table_changed (morse_init p s)" "utf8 (morse_init p s) = ''''"
  by (simp_all add: morse_init_def Let_def)

lemma tx_lookup_high:
  assumes "morse_state s" "utf8 s = ''''" "0x7F < (of_char c :: nat)"
  shows "fst (tx_lookup p c s) = ''''" "utf8 (snd (tx_lookup p c s)) = [c]"
    "\<not> CW_table_changed (snd (tx_lookup p c s))"
  using assms by (simp_all add: tx_lookup_def Let_def morse_init_flag)

lemma tx_lookup_pair:
  assumes "morse_state s" "utf8 s = [b]" "b \<noteq> CHR 0xC3" "\<not> CW_table_changed s"
  shows "fst (tx_lookup p c s) = ''''" "utf8 (snd (tx_lookup p c s)) = ''''"
    "\<not> CW_table_changed (snd (tx_lookup p c s))"
proof -
  have "tx_rows [b, c] (cw_rows s) = None"
    using table_ok_chars [OF morse_state_ok [OF assms(1)]] assms(3) by (intro tx_rows_none) fastforce
  then show "fst (tx_lookup p c s) = ''''" "utf8 (snd (tx_lookup p c s)) = ''''"
    "\<not> CW_table_changed (snd (tx_lookup p c s))"
    using assms(2,4) by (simp_all add: tx_lookup_def Let_def)
qed

lemma rx_rows_in: "rx_rows x rows = '''' \<or> (\<exists>r \<in> set rows. enabled r \<and> rx_rows x rows = prt r)"
  by (induction rows) auto

lemma tx_rows_in: "tx_rows c rows = Some r \<Longrightarrow> r \<in> set rows"
  by (induction rows) (auto split: if_splits)

lemma cw_table_aa:
  "\<not> enabled (cw_table ! 1)" "prt (cw_table ! 1) = ''<AA>''"
  "list_all (\<lambda>i. prt (cw_table ! i) = ''<AA>'' \<longrightarrow> i = 1) [0..<111]"
  unfolding cw_table_def by (simp_all add: cw_def upt_rec)

lemma table_ok_aa:
  assumes "table_ok rows"
  shows "\<not> enabled (rows ! 1) \<and> prt (rows ! 1) = ''<AA>'' \<and> (\<forall>r \<in> set rows. enabled r \<longrightarrow> prt r \<noteq> ''<AA>'')"
proof -
  have len: "length rows = 111" by (rule table_ok_length [OF assms])
  have "map enabled (take 86 rows) ! 1 = map enabled (take 86 cw_table) ! 1" using assms by (simp only: table_ok_def)
  then have e: "\<not> enabled (rows ! 1)" using len cw_table_facts(1) cw_table_aa(1) by simp
  have p: "prt (rows ! i) = prt (cw_table ! i)" if "i < 111" for i
  proof -
    have "map prt rows ! i = map prt cw_table ! i" using assms by (simp only: table_ok_def)
    then show ?thesis using that len cw_table_facts(1) by simp
  qed
  have "i = 1" if "i < 111" "prt (rows ! i) = ''<AA>''" for i
    using that cw_table_aa(3) p by (simp add: list_all_iff)
  then have "\<forall>r \<in> set rows. enabled r \<longrightarrow> prt r \<noteq> ''<AA>''" using e len by (metis in_set_conv_nth)
  then show ?thesis using e p [of 1] cw_table_aa(2) by simp
qed

section \<open>The properties\<close>

text \<open>C27: what is sent is printed: a text of letters, digits and punctuation (the double quotation
  mark and the opening parenthesis excepted), none of them standing for a prosign in the sender's
  settings, is printed by any receiver in capitals, whatever the settings of the two stations.\<close>

theorem morse_text:
  assumes "morse_state s" "utf8 s = ''''" "\<not> CW_table_changed s" "morse_state t" "\<not> CW_table_changed t"
    and "set cs \<subseteq> set plain_chars" "(\<lambda>c. [c]) ` set cs \<inter> chr ` set (take 9 (cw_rows s)) = {}"
  shows "map (\<lambda>code. fst (rx_lookup q code t)) (fst (tx_string p cs s)) = map (\<lambda>c. [capital c]) cs"
  by (rule morse_text_codes [OF assms])

text \<open>C28: the prosign \<open>AA\<close> cannot be received or sent in any reachable state: the
  constructor means to enable it, but \<open>enable\<close> compares characters with \<open><AA>\<close>, so the
  row keeps its initial value.\<close>

theorem prosign_aa_dead:
  assumes "morse_state s"
  shows "\<not> enabled (cw_rows s ! 1) \<and> prt (cw_rows s ! 1) = ''<AA>'' \<and> fst (rx_lookup p code s) \<noteq> ''<AA>'' \<and>
    toprint (snd (tx_lookup p c s)) \<noteq> ''<AA>''"
proof -
  have row: "\<not> enabled (rows ! 1) \<and> prt (rows ! 1) = ''<AA>'' \<and> (\<forall>r \<in> set rows. enabled r \<longrightarrow> prt r \<noteq> ''<AA>'')"
    if "table_ok rows" for rows by (rule table_ok_aa [OF that])
  have ok: "table_ok (cw_rows s)" "table_ok (cw_rows (snd (rx_lookup p code s)))" "table_ok (cw_rows (snd (tx_lookup p c s)))"
    using assms by (auto intro: morse_state_ok morse_state.intros)
  have "fst (rx_lookup p code s) = rx_rows code (cw_rows (snd (rx_lookup p code s)))"
    by (simp add: rx_lookup_def Let_def)
  moreover have "toprint (snd (tx_lookup p c s)) = '''' \<or>
      (\<exists>r \<in> set (cw_rows (snd (tx_lookup p c s))). enabled r \<and> toprint (snd (tx_lookup p c s)) = prt r)"
    by (auto simp: tx_lookup_def Let_def split: option.splits dest: tx_rows_in)
  ultimately have "fst (rx_lookup p code s) \<noteq> ''<AA>''" "toprint (snd (tx_lookup p c s)) \<noteq> ''<AA>''"
    using row [OF ok(2)] row [OF ok(3)] rx_rows_in [of code "cw_rows (snd (rx_lookup p code s))"] by force+
  then show ?thesis using row [OF ok(1)] by blast
qed

text \<open>A character of three bytes swallows the character behind it: the look-up waits for
  exactly one byte after any byte above 0x7F.\<close>

theorem three_bytes_swallow:
  assumes "morse_state s" "utf8 s = ''''" "b1 \<noteq> CHR 0xC3" "b3 \<noteq> CHR 0xC3" "0x7F < (of_char b1 :: nat)" "0x7F < (of_char b3 :: nat)"
  shows "fst (tx_string p [b1, b2, b3, c] s) = ['''', '''', '''', '''']"
proof -
  let ?n = "\<lambda>c s. snd (tx_lookup p c s)"
  let ?s1 = "?n b1 s" and ?s2 = "?n b2 (?n b1 s)" and ?s3 = "?n b3 (?n b2 (?n b1 s))"
  note h1 = tx_lookup_high [OF assms(1,2,5), of p]
  have m1: "morse_state ?s1" by (rule morse_state.tx [OF assms(1)])
  note h2 = tx_lookup_pair [OF m1 h1(2) assms(3) h1(3), of p b2]
  have m2: "morse_state ?s2" by (rule morse_state.tx [OF m1])
  note h3 = tx_lookup_high [OF m2 h2(2) assms(6), of p]
  have m3: "morse_state ?s3" by (rule morse_state.tx [OF m2])
  note h4 = tx_lookup_pair [OF m3 h3(2) assms(4) h3(3), of p c]
  show ?thesis using h1(1) h2(1) h3(1) h4(1) by (simp add: case_prod_beta Let_def)
qed

section \<open>Witnesses\<close>

lemma take_9_enable:
  assumes "table_ok rows" "length s \<noteq> 1"
  shows "take 9 (enable_row s v rows) = take 9 rows"
proof -
  have "enable_row s v (take 86 rows @ drop 86 rows) = take 86 rows @ enable_row s v (drop 86 rows)"
    using table_ok_front [OF assms(1)] assms(2) by (intro enable_row_front) auto
  then have "take 86 (enable_row s v rows) = take 86 rows" using table_ok_length [OF assms(1)] by simp
  moreover have "take 9 ys = take 9 (take 86 ys)" for ys :: "CWstruct list" by simp
  ultimately show ?thesis by metis
qed

lemma take_9_enables:
  "\<forall>(c, v) \<in> set xs. length c \<noteq> 1 \<Longrightarrow> table_ok rows \<Longrightarrow> take 9 (fold (\<lambda>(c, v). enable_row c v) xs rows) = take 9 rows"
  by (induction xs arbitrary: rows) (auto simp: table_ok_enable take_9_enable)

lemma take_9_new:
  assumes "length (CW_prosigns p) \<noteq> 9" shows "take 9 (cw_rows (morse_new p)) = take 9 cw_table"
  using take_9_enables [OF enables_long table_ok_cw_table] assms
  by (simp add: morse_new_def morse_init_def set_prosigns_def Let_def)

definition some_settings :: morse_settings where
  "some_settings = \<lparr>CW_prosigns = '''', A_umlaut = False, A_aelig = False, A_ring = True, C_cedilla = True,
     E_grave = True, E_acute = True, O_acute = False, O_umlaut = False, O_slash = True, N_tilde = True,
     U_umlaut = True, U_circ = False\<rparr>"

lemma new_flag: "\<not> CW_table_changed (morse_new p)" "utf8 (morse_new p) = ''''"
  by (simp_all add: morse_new_def morse_init_flag)

lemma morse_text_witness:
  "map (\<lambda>code. fst (rx_lookup some_settings code (morse_new some_settings)))
       (fst (tx_string some_settings ''cq73'' (morse_new some_settings))) = [''C'', ''Q'', ''7'', ''3'']"
proof -
  have "(\<lambda>c. [c]) ` set ''cq73'' \<inter> chr ` set (take 9 cw_table) = {}"
    unfolding cw_table_def by (simp add: cw_def)
  then have "(\<lambda>c. [c]) ` set ''cq73'' \<inter> chr ` set (take 9 (cw_rows (morse_new some_settings))) = {}"
    using take_9_new [of some_settings] by (simp add: some_settings_def)
  from morse_text [OF morse_state.new new_flag(2,1) morse_state.new new_flag(1) _ this]
  show ?thesis by (simp add: plain_chars_def capital_def char_of_def bit_Suc_0_iff)
qed

lemma prosign_aa_dead_witness: "\<not> enabled (cw_rows (morse_new some_settings) ! 1)"
  using prosign_aa_dead [OF morse_state.new] by blast

lemma three_bytes_swallow_witness:
  "fst (tx_string some_settings [CHR 0xE2, CHR 0x82, CHR 0xAC, CHR ''A''] (morse_new some_settings)) = ['''', '''', '''', '''']"
  by (rule three_bytes_swallow [OF morse_state.new new_flag(2)]) simp_all

end
