(* ===== verification/Bits.thy ===== *)
theory Bits
  imports Prelude
begin

text \<open>
  The bit functions of \<^verbatim>\<open>misc/misc.cxx\<close>: Hamming weights, parity, bit reversal,
  the base-two logarithm, and the Gray code of the MFSK tones. An \<^verbatim>\<open>unsigned long\<close> has
  64 bits. The theorems say what each computes; \<^verbatim>\<open>rbits8\<close> does not reverse a byte.
\<close>

unbundle bit_operations_syntax

section \<open>The functions\<close>

definition hweight32 :: "64 word \<Rightarrow> 64 word" where
  "hweight32 w = (let
     w = (w AND 0x55555555) + (drop_bit 1 w AND 0x55555555);
     w = (w AND 0x33333333) + (drop_bit 2 w AND 0x33333333);
     w = (w AND 0x0F0F0F0F) + (drop_bit 4 w AND 0x0F0F0F0F);
     w = (w AND 0x00FF00FF) + (drop_bit 8 w AND 0x00FF00FF);
     w = (w AND 0x0000FFFF) + (drop_bit 16 w AND 0x0000FFFF)
     in w)"

definition hweight16 :: "16 word \<Rightarrow> 16 word" where
  "hweight16 w = (let
     w = (w AND 0x5555) + (drop_bit 1 w AND 0x5555);
     w = (w AND 0x3333) + (drop_bit 2 w AND 0x3333);
     w = (w AND 0x0F0F) + (drop_bit 4 w AND 0x0F0F);
     w = (w AND 0x00FF) + (drop_bit 8 w AND 0x00FF)
     in w)"

definition hweight8 :: "8 word \<Rightarrow> 8 word" where
  "hweight8 w = (let
     w = (w AND 0x55) + (drop_bit 1 w AND 0x55);
     w = (w AND 0x33) + (drop_bit 2 w AND 0x33);
     w = (w AND 0x0F) + (drop_bit 4 w AND 0x0F)
     in w)"

definition parity :: "64 word \<Rightarrow> nat" where
  "parity w = unat (hweight32 w AND 1)"

definition rbits32 :: "64 word \<Rightarrow> 64 word" where
  "rbits32 w = (let
     w = (drop_bit 1 w AND 0x55555555) OR (push_bit 1 w AND 0xAAAAAAAA);
     w = (drop_bit 2 w AND 0x33333333) OR (push_bit 2 w AND 0xCCCCCCCC);
     w = (drop_bit 4 w AND 0x0F0F0F0F) OR (push_bit 4 w AND 0xF0F0F0F0);
     w = (drop_bit 8 w AND 0x00FF00FF) OR (push_bit 8 w AND 0xFF00FF00);
     w = (drop_bit 16 w AND 0x0000FFFF) OR (push_bit 16 w AND 0xFFFF0000)
     in w)"

definition rbits16 :: "16 word \<Rightarrow> 16 word" where
  "rbits16 w = (let
     w = (drop_bit 1 w AND 0x5555) OR (push_bit 1 w AND 0xAAAA);
     w = (drop_bit 2 w AND 0x3333) OR (push_bit 2 w AND 0xCCCC);
     w = (drop_bit 4 w AND 0x0F0F) OR (push_bit 4 w AND 0xF0F0);
     w = (drop_bit 8 w AND 0x00FF) OR (push_bit 8 w AND 0xFF00)
     in w)"

definition rbits8 :: "8 word \<Rightarrow> 8 word" where
  "rbits8 w = (let
     w = (drop_bit 1 w AND 0x55) OR (push_bit 1 w AND 0xFF);
     w = (drop_bit 2 w AND 0x33) OR (push_bit 2 w AND 0xCC);
     w = (drop_bit 4 w AND 0x0F) OR (push_bit 4 w AND 0xF0)
     in w)"

text \<open>The loop of \<^verbatim>\<open>log2u\<close>: \<^verbatim>\<open>x\<close> is halved until it is zero.\<close>

function log2u_loop :: "32 word \<Rightarrow> nat \<Rightarrow> nat" where
  "log2u_loop x y = (if x = 0 then y else log2u_loop (drop_bit 1 x) (y + 1))"
  by pat_completeness auto
termination
proof (relation "measure (\<lambda>(x, y). unat x)", simp, clarsimp)
  fix x :: "32 word" assume "x \<noteq> 0"
  then have "0 < unat x" using unat_gt_0 by blast
  then have "unat x div 2 < unat x" by simp
  then show "unat (drop_bit (Suc 0) x) < unat x" unfolding unat_drop_bit_eq by (simp add: drop_bit_Suc)
qed

declare log2u_loop.simps [simp del]

definition log2u :: "32 word \<Rightarrow> nat" where
  "log2u x = log2u_loop (drop_bit 1 x) 0"

definition grayencode :: "8 word \<Rightarrow> 8 word" where
  "grayencode data = data XOR drop_bit 1 data XOR drop_bit 2 data XOR drop_bit 3 data XOR
     drop_bit 4 data XOR drop_bit 5 data XOR drop_bit 6 data XOR drop_bit 7 data"

definition graydecode :: "8 word \<Rightarrow> 8 word" where
  "graydecode data = data XOR drop_bit 1 data"

section \<open>Fields of a number\<close>

text \<open>A number as fields of \<open>b\<close> bits, the lowest first.\<close>

abbreviation join :: "nat \<Rightarrow> nat list \<Rightarrow> nat" where
  "join b fs \<equiv> horner_sum id (2 ^ b) fs"

fun evens :: "nat list \<Rightarrow> nat list" where
  "evens (x # y # xs) = x # evens xs"
| "evens xs = xs"

fun pairs :: "nat list \<Rightarrow> nat list" where
  "pairs (x # y # xs) = (x + y) # pairs xs"
| "pairs xs = xs"

text \<open>The mask with the low \<open>b\<close> of each \<open>2 b\<close> bits.\<close>

abbreviation alternate :: "nat \<Rightarrow> nat \<Rightarrow> nat" where
  "alternate b n \<equiv> join (2 * b) (replicate n (mask b))"

lemma split_fields:
  fixes a c :: nat
  assumes "a < 2 ^ k"
  shows "take_bit k (a + 2 ^ k * c) = a" "drop_bit k (a + 2 ^ k * c) = c"
  using assms by (simp_all add: take_bit_eq_mod drop_bit_eq_div)

lemma and_split:
  fixes a c d m :: nat
  assumes "a < 2 ^ k" "m < 2 ^ k"
  shows "(a + 2 ^ k * c) AND (m + 2 ^ k * d) = (a AND m) + 2 ^ k * (c AND d)"
proof -
  let ?x = "(a + 2 ^ k * c) AND (m + 2 ^ k * d)"
  have "?x = take_bit k ?x + push_bit k (drop_bit k ?x)" using bits_ident [of k ?x] by (simp add: add.commute)
  also have "\<dots> = (a AND m) + push_bit k (c AND d)" by (simp only: take_bit_and drop_bit_and split_fields assms)
  finally show ?thesis by (simp add: push_bit_eq_mult mult.commute)
qed

lemma and_alternate:
  assumes "2 * n \<le> length fs" "\<forall>f \<in> set fs. f < 2 ^ b"
  shows "join b fs AND alternate b n = join (2 * b) (evens (take (2 * n) fs))"
  using assms
proof (induction n arbitrary: fs)
  case (Suc n)
  then obtain x y zs where fs: "fs = x # y # zs" by (cases fs; cases "tl fs") auto
  have b: "x < 2 ^ b" "y < 2 ^ b" "\<forall>f \<in> set zs. f < 2 ^ b" using Suc.prems(2) fs by auto
  have s: "x + 2 ^ b * y < 2 ^ (2 * b)"
  proof -
    have "x + 2 ^ b * y < 2 ^ b + 2 ^ b * y" using b by simp
    also have "\<dots> = 2 ^ b * (y + 1)" by simp
    also have "\<dots> \<le> 2 ^ b * 2 ^ b" using b(2) by (intro mult_le_mono2) simp
    finally show ?thesis by (simp add: power2_eq_square [symmetric] power_mult [symmetric] mult.commute)
  qed
  have m: "mask b < (2 :: nat) ^ (2 * b)"
    by (rule order.strict_trans2 [of _ "2 ^ b"]) (simp_all add: mask_eq_exp_minus_1)
  have "join b fs = (x + 2 ^ b * y) + 2 ^ (2 * b) * join b zs"
    unfolding fs by (simp add: distrib_left mult_2 power_add mult.assoc)
  moreover have "(x + 2 ^ b * y) AND mask b = x" using split_fields(1) [OF b(1), of y] by (simp add: take_bit_eq_mask)
  moreover have "join b zs AND alternate b n = join (2 * b) (evens (take (2 * n) zs))"
    by (rule Suc.IH) (use Suc.prems(1) b(3) fs in auto)
  moreover have "alternate b (Suc n) = mask b + 2 ^ (2 * b) * alternate b n" by simp
  moreover have "join (2 * b) (evens (take (2 * Suc n) fs)) = x + 2 ^ (2 * b) * join (2 * b) (evens (take (2 * n) zs))"
    by (simp add: fs)
  ultimately show ?case by (simp only: and_split [OF s m])
qed simp

lemma drop_join:
  assumes "x < 2 ^ b" shows "drop_bit b (join b (x # fs)) = join b fs"
  using split_fields(2) [OF assms, of "join b fs"] by simp

lemma evens_pairs: "length fs = 2 * n \<Longrightarrow> join k (evens fs) + join k (evens (tl fs @ [0])) = join k (pairs fs)"
proof (induction n arbitrary: fs)
  case (Suc n)
  then obtain x y zs where fs: "fs = x # y # zs" by (cases fs; cases "tl fs") auto
  show ?case
  proof (cases zs)
    case Nil then show ?thesis using fs by simp
  next
    case (Cons z ws)
    then show ?thesis using Suc.IH [of zs] Suc.prems fs by (simp flip: distrib_left)
  qed
qed simp

text \<open>One step of a Hamming weight adds neighbouring fields.\<close>

lemma hweight_step:
  assumes "length fs = 2 * n" "0 < n" "\<forall>f \<in> set fs. f < 2 ^ b"
  shows "(join b fs AND alternate b n) + (drop_bit b (join b fs) AND alternate b n) = join (2 * b) (pairs fs)"
proof -
  obtain x zs where fs: "fs = x # zs" using assms(1,2) by (cases fs) auto
  have "join b zs = join b (zs @ [0])" by (simp add: horner_sum_append)
  then have "drop_bit b (join b fs) = join b (tl fs @ [0])" using fs drop_join [of x b zs] assms(3) by simp
  then show ?thesis
    using and_alternate [of n fs b] and_alternate [of n "tl fs @ [0]" b] evens_pairs [OF assms(1)] assms fs by simp
qed

lemma pairs_facts:
  "length fs = 2 * n \<Longrightarrow> length (pairs fs) = n"
  "length fs = 2 * n \<Longrightarrow> sum_list (pairs fs) = sum_list fs"
  "length fs = 2 * n \<Longrightarrow> \<forall>f \<in> set fs. f \<le> b \<Longrightarrow> \<forall>f \<in> set (pairs fs). f \<le> 2 * b"
  by (induction fs arbitrary: n rule: pairs.induct) (auto, (case_tac n; fastforce)+)

section \<open>Hamming weights\<close>

definition ones :: "'a::len word \<Rightarrow> nat \<Rightarrow> nat" where
  "ones w n = (\<Sum>i<n. of_bool (bit w i))"

abbreviation bit_fields :: "nat \<Rightarrow> nat \<Rightarrow> nat list" where
  "bit_fields w n \<equiv> map (\<lambda>i. of_bool (bit w i)) [0..<n]"

lemma join_bit_fields: "join 1 (bit_fields w n) = take_bit n w"
proof -
  have "join 1 (bit_fields w n) = horner_sum of_bool 2 (map (bit w) [0..<n])"
    by (simp add: horner_sum_eq_sum_funpow [symmetric] horner_sum_foldr foldr_map comp_def)
  then show ?thesis by (simp add: horner_sum_bit_eq_take_bit)
qed

lemma sum_bit_fields: "sum_list (bit_fields w n) = (\<Sum>i<n. of_bool (bit w i))"
  by (simp add: sum_list_distinct_conv_sum_set atLeast_upt)

fun halve :: "nat \<Rightarrow> nat \<Rightarrow> nat list \<Rightarrow> nat list" where
  "halve 0 n fs = fs"
| "halve (Suc k) n fs = pairs (halve k n fs)"

text \<open>The steps on words, read as numbers.\<close>

definition hstep :: "'a::len word \<Rightarrow> nat \<Rightarrow> 'a word \<Rightarrow> 'a word" where
  "hstep m b w = (w AND m) + (drop_bit b w AND m)"

lemma unat_hstep:
  assumes "unat (w :: 'a::len word) = join b fs" "unat m = alternate b n" "length fs = 2 * n" "0 < n"
    "\<forall>f \<in> set fs. f < 2 ^ b" "2 * unat m < 2 ^ LENGTH('a)"
  shows "unat (hstep m b w) = join (2 * b) (pairs fs)"
proof -
  have le: "(w AND m) \<le> m" "(drop_bit b w AND m) \<le> m" by (simp_all add: word_and_le1)
  then have "unat (w AND m) + unat (drop_bit b w AND m) < 2 ^ LENGTH('a)"
    using assms(6) unfolding word_le_nat_alt by linarith
  then have "unat (hstep m b w) = unat (w AND m) + unat (drop_bit b w AND m)"
    unfolding hstep_def by (simp add: unat_word_ariths)
  also have "\<dots> = (join b fs AND alternate b n) + (drop_bit b (join b fs) AND alternate b n)"
    unfolding unsigned_and_eq unat_drop_bit_eq assms(1,2) ..
  finally show ?thesis using hweight_step [OF assms(3,4,5)] by simp
qed

lemma alternate_closed: "(2 ^ b + 1) * alternate b n + 1 = 2 ^ (2 * b * n)"
proof (induction n)
  case (Suc n)
  have m: "(2 ^ b + 1) * mask b + 1 = (2 :: nat) ^ (2 * b)"
    unfolding mask_eq_exp_minus_1 by (simp add: algebra_simps power_mult power2_eq_square diff_mult_distrib2)
  have "(2 ^ b + 1) * alternate b (Suc n) + 1 = ((2 ^ b + 1) * mask b + 1) + 2 ^ (2 * b) * ((2 ^ b + 1) * alternate b n)"
    by (simp add: algebra_simps)
  also have "\<dots> = 2 ^ (2 * b) * ((2 ^ b + 1) * alternate b n + 1)" unfolding m by (simp add: algebra_simps)
  also have "\<dots> = 2 ^ (2 * b * Suc n)" unfolding Suc by (simp add: power_add)
  finally show ?case .
qed simp

lemma alternate_masks:
  "alternate 1 16 = 0x55555555" "alternate 2 8 = 0x33333333" "alternate 4 4 = 0x0F0F0F0F"
  "alternate 8 2 = 0x00FF00FF" "alternate 16 1 = 0x0000FFFF"
  "alternate 1 8 = 0x5555" "alternate 2 4 = 0x3333" "alternate 4 2 = 0x0F0F" "alternate 8 1 = 0x00FF"
  "alternate 1 4 = 0x55" "alternate 2 2 = 0x33" "alternate 4 1 = 0x0F"
  using alternate_closed [of 1 16] alternate_closed [of 2 8] alternate_closed [of 4 4] alternate_closed [of 8 2]
    alternate_closed [of 16 1] alternate_closed [of 1 8] alternate_closed [of 2 4] alternate_closed [of 4 2]
    alternate_closed [of 8 1] alternate_closed [of 1 4] alternate_closed [of 2 2] alternate_closed [of 4 1]
  by (simp_all del: horner_sum_simps replicate.simps)

text \<open>A word that holds \<open>n\<close> counters of \<open>b\<close> bits, each at most \<open>b\<close>, with sum \<open>t\<close>.\<close>

definition counters :: "nat \<Rightarrow> nat \<Rightarrow> nat \<Rightarrow> 'a::len word \<Rightarrow> bool" where
  "counters b n t w \<longleftrightarrow> (\<exists>fs. unat w = join b fs \<and> length fs = n \<and> (\<forall>f \<in> set fs. f \<le> b) \<and> sum_list fs = t)"

lemma counters_hstep:
  assumes "counters b (2 * n) t (w :: 'a::len word)" "unat m = alternate b n" "0 < n" "2 * unat m < 2 ^ LENGTH('a)"
  shows "counters (2 * b) n t (hstep m b w)"
proof -
  obtain fs where fs: "unat w = join b fs" "length fs = 2 * n" "\<forall>f \<in> set fs. f \<le> b" "sum_list fs = t"
    using assms(1) unfolding counters_def by blast
  have "\<forall>f \<in> set fs. f < 2 ^ b" using fs(3) by (meson le_less_trans less_exp)
  from unat_hstep [OF fs(1) assms(2) fs(2) assms(3) this assms(4)] pairs_facts [OF fs(2)] fs(3,4)
  show ?thesis unfolding counters_def by blast
qed

lemma counters_one: "counters b 1 t w \<Longrightarrow> unat w = t"
  unfolding counters_def by (auto simp: length_Suc_conv)

lemma counters_bits:
  assumes "unat w < 2 ^ n" shows "counters 1 n (ones w n) w"
proof -
  have "unat w = join 1 (bit_fields (unat w) n)" using assms unfolding join_bit_fields by (simp add: take_bit_nat_eq_self)
  moreover have "sum_list (bit_fields (unat w) n) = ones w n"
    unfolding sum_bit_fields ones_def by (intro sum.cong) (auto simp: bit_unsigned_iff dest: bit_imp_le_length)
  ultimately show ?thesis unfolding counters_def by (intro exI [of _ "bit_fields (unat w) n"]) auto
qed

lemma unat_hweight8: "unat (hweight8 w) = ones w 8"
proof -
  have "unat w < 2 ^ 8" using unsigned_less [of w] by simp
  then have "counters 1 8 (ones w 8) w" by (rule counters_bits)
  then have "counters (2 * 1) 4 (ones w 8) (hstep 0x55 1 w)" 
    by (intro counters_hstep) (simp_all only: alternate_masks, simp_all)
  then have "counters (2 * 2) 2 (ones w 8) (hstep 0x33 2 (hstep 0x55 1 w))"
    by (intro counters_hstep) (simp_all only: alternate_masks, simp_all)
  then have "counters (2 * 4) 1 (ones w 8) (hstep 0x0F 4 (hstep 0x33 2 (hstep 0x55 1 w)))"
    by (intro counters_hstep) (simp_all only: alternate_masks, simp_all)
  from counters_one [OF this] show ?thesis by (simp add: hweight8_def hstep_def Let_def)
qed

lemma unat_hweight16: "unat (hweight16 w) = ones w 16"
proof -
  have "unat w < 2 ^ 16" using unsigned_less [of w] by simp
  then have "counters 1 16 (ones w 16) w" by (rule counters_bits)
  then have "counters (2 * 1) 8 (ones w 16) (hstep 0x5555 1 w)"
    by (intro counters_hstep) (simp_all only: alternate_masks, simp_all)
  then have "counters (2 * 2) 4 (ones w 16) (hstep 0x3333 2 (hstep 0x5555 1 w))"
    by (intro counters_hstep) (simp_all only: alternate_masks, simp_all)
  then have "counters (2 * 4) 2 (ones w 16) (hstep 0x0F0F 4 (hstep 0x3333 2 (hstep 0x5555 1 w)))"
    by (intro counters_hstep) (simp_all only: alternate_masks, simp_all)
  then have "counters (2 * 8) 1 (ones w 16) (hstep 0x00FF 8 (hstep 0x0F0F 4 (hstep 0x3333 2 (hstep 0x5555 1 w))))"
    by (intro counters_hstep) (simp_all only: alternate_masks, simp_all)
  from counters_one [OF this] show ?thesis by (simp add: hweight16_def hstep_def Let_def)
qed

text \<open>The masks of the first step drop everything above bit 31.\<close>

lemma hstep_low: "hstep 0x55555555 1 w = hstep 0x55555555 1 (take_bit 32 w)" for w :: "64 word"
proof -
  have m: "(0x55555555 :: 64 word) = take_bit 31 0x55555555" by simp
  have "z AND take_bit 31 k = take_bit 31 z AND take_bit 31 k" for z k :: "64 word"
    by (rule bit_eqI) (auto simp: bit_simps)
  from this [of _ "0x55555555"] have h: "z AND 0x55555555 = take_bit 31 z AND 0x55555555" for z :: "64 word"
    unfolding m [symmetric] .
  have "x AND 0x55555555 = y AND 0x55555555" if "take_bit 31 x = take_bit 31 y" for x y :: "64 word"
  proof -
    have "x AND 0x55555555 = take_bit 31 x AND 0x55555555" by (rule h)
    also have "\<dots> = take_bit 31 y AND 0x55555555" by (simp only: that)
    also have "\<dots> = y AND 0x55555555" by (rule h [symmetric])
    finally show ?thesis .
  qed
  note and_low = this
  have "w AND 0x55555555 = take_bit 32 w AND 0x55555555" by (rule and_low) simp
  moreover have "drop_bit 1 w AND 0x55555555 = drop_bit 1 (take_bit 32 w) AND 0x55555555"
    by (rule and_low) (rule bit_eqI, auto simp: bit_simps)
  ultimately show ?thesis by (simp only: hstep_def)
qed

lemma unat_hweight32: "unat (hweight32 w) = ones w 32"
proof -
  let ?w = "take_bit 32 w"
  have o: "ones ?w 32 = ones w 32" by (simp add: ones_def bit_take_bit_iff)
  have "unat ?w < 2 ^ 32" unfolding unsigned_take_bit_eq by (rule take_bit_nat_less_exp)
  then have "counters 1 32 (ones w 32) ?w" using counters_bits [of ?w 32] o by simp
  then have "counters (2 * 1) 16 (ones w 32) (hstep 0x55555555 1 ?w)"
    by (intro counters_hstep) (simp_all only: alternate_masks, simp_all)
  then have "counters (2 * 2) 8 (ones w 32) (hstep 0x33333333 2 (hstep 0x55555555 1 ?w))"
    by (intro counters_hstep) (simp_all only: alternate_masks, simp_all)
  then have "counters (2 * 4) 4 (ones w 32) (hstep 0x0F0F0F0F 4 (hstep 0x33333333 2 (hstep 0x55555555 1 ?w)))"
    by (intro counters_hstep) (simp_all only: alternate_masks, simp_all)
  then have "counters (2 * 8) 2 (ones w 32)
      (hstep 0x00FF00FF 8 (hstep 0x0F0F0F0F 4 (hstep 0x33333333 2 (hstep 0x55555555 1 ?w))))"
    by (intro counters_hstep) (simp_all only: alternate_masks, simp_all)
  then have "counters (2 * 16) 1 (ones w 32)
      (hstep 0x0000FFFF 16 (hstep 0x00FF00FF 8 (hstep 0x0F0F0F0F 4 (hstep 0x33333333 2 (hstep 0x55555555 1 ?w)))))"
    by (intro counters_hstep) (simp_all only: alternate_masks, simp_all)
  from counters_one [OF this] show ?thesis unfolding hweight32_def Let_def hstep_low [symmetric] by (simp add: hstep_def)
qed

section \<open>Parity\<close>

lemma parity_ones: "parity w = ones w 32 mod 2"
proof -
  have "unat (hweight32 w AND 1) = unat (hweight32 w) AND 1" by (simp add: unsigned_and_eq)
  then show ?thesis by (simp add: parity_def unat_hweight32 and_one_eq)
qed

lemma parity_step:
  fixes a b c :: nat
  assumes "a mod 2 = (b + c) mod 2"
  shows "(a + of_bool (p \<noteq> q)) mod 2 = ((b + of_bool p) + (c + of_bool q)) mod 2"
proof -
  have "(of_bool (p \<noteq> q) :: nat) mod 2 = (of_bool p + of_bool q) mod 2" by (cases p; cases q) simp_all
  from mod_add_cong [OF assms this] show ?thesis by (simp add: add.assoc add.left_commute)
qed

lemma ones_xor: "ones (v XOR w) n mod 2 = (ones v n + ones w n) mod 2"
  unfolding ones_def
proof (induction n)
  case (Suc n)
  then show ?case unfolding sum.lessThan_Suc bit_xor_iff by (rule parity_step)
qed simp

lemma parity_xor: "parity (v XOR w) = (parity v + parity w) mod 2"
  by (simp add: parity_ones ones_xor mod_add_eq)

lemma parity_le: "parity w \<le> 1"
  by (simp add: parity_ones)

section \<open>Reversal\<close>

lemma nat_less_16: "i < 16 \<Longrightarrow> i \<in> {0, 1, 2, 3, 4, 5, 6, 7, 8, 9, 10, 11, 12, 13, 14, 15}" for i :: nat
  by (simp, arith)

text \<open>One step exchanges neighbouring fields.\<close>

definition swap_fields :: "nat \<Rightarrow> 'a::len word \<Rightarrow> 'a word \<Rightarrow> 'a word \<Rightarrow> 'a word" where
  "swap_fields b m m' w = (drop_bit b w AND m) OR (push_bit b w AND m')"

lemma bit_swap_fields:
  "bit (swap_fields b m m' w) i \<longleftrightarrow> bit w (b + i) \<and> bit m i \<or> b \<le> i \<and> bit w (i - b) \<and> bit m' i"
  by (auto simp: swap_fields_def bit_simps dest: bit_imp_le_length)

lemma rbits16_swaps:
  "rbits16 w = swap_fields 8 0x00FF 0xFF00 (swap_fields 4 0x0F0F 0xF0F0
     (swap_fields 2 0x3333 0xCCCC (swap_fields 1 0x5555 0xAAAA w)))"
  unfolding rbits16_def swap_fields_def Let_def ..

lemma rbits16_bits: "i < 16 \<Longrightarrow> bit (rbits16 w) i = bit w (15 - i)"
  unfolding rbits16_swaps
  by (drule nat_less_16, elim insertE emptyE; simp add: bit_swap_fields numeral_2_eq_2 [symmetric] numeral_3_eq_3 [symmetric])

text \<open>The reversal of 32 bits drops the rest of the word.\<close>

lemma rbits32_swaps:
  "rbits32 w = swap_fields 16 0x0000FFFF 0xFFFF0000 (swap_fields 8 0x00FF00FF 0xFF00FF00
     (swap_fields 4 0x0F0F0F0F 0xF0F0F0F0 (swap_fields 2 0x33333333 0xCCCCCCCC (swap_fields 1 0x55555555 0xAAAAAAAA w))))"
  unfolding rbits32_def swap_fields_def Let_def ..

lemma nat_less_32: "i < 32 \<Longrightarrow> i \<in> {0, 1, 2, 3, 4, 5, 6, 7, 8, 9, 10, 11, 12, 13, 14, 15} \<union>
    {16, 17, 18, 19, 20, 21, 22, 23, 24, 25, 26, 27, 28, 29, 30, 31}" for i :: nat
  by (simp, arith)

lemma rbits32_bits: "i < 32 \<Longrightarrow> bit (rbits32 w) i = bit w (31 - i)"
  unfolding rbits32_swaps
  by (drule nat_less_32, elim UnE insertE emptyE; simp add: bit_swap_fields numeral_2_eq_2 [symmetric] numeral_3_eq_3 [symmetric])

lemma rbits32_high: "32 \<le> i \<Longrightarrow> \<not> bit (rbits32 w) i"
proof -
  have m: "(0xFFFF :: 64 word) = take_bit 32 0xFFFF" "(0xFFFF0000 :: 64 word) = take_bit 32 0xFFFF0000" by simp_all
  assume "32 \<le> i"
  then have "\<not> bit (take_bit 32 k) i" for k :: "64 word" by (simp add: bit_take_bit_iff)
  then have "\<not> bit (0xFFFF :: 64 word) i" "\<not> bit (0xFFFF0000 :: 64 word) i" using m by metis+
  then show ?thesis unfolding rbits32_swaps by (subst bit_swap_fields) simp
qed

section \<open>Logarithm\<close>

lemma log2u_loop_bounds:
  "x \<noteq> 0 \<Longrightarrow> y \<le> log2u_loop x y \<and> 2 ^ (log2u_loop x y - y) \<le> 2 * unat x \<and> unat x < 2 ^ (log2u_loop x y - y)"
proof (induction x y rule: log2u_loop.induct)
  case (1 x y)
  have d: "unat (drop_bit 1 x) = unat x div 2" unfolding unat_drop_bit_eq by (simp add: drop_bit_Suc)
  have pos: "0 < unat x" using 1(2) unat_gt_0 by blast
  have step: "log2u_loop x y = log2u_loop (drop_bit 1 x) (y + 1)" using 1(2) by (simp add: log2u_loop.simps)
  show ?case
  proof (cases "drop_bit 1 x = 0")
    case True
    then have "unat x div 2 = 0" using d by simp
    then have "unat x = 1" using pos by simp
    moreover have "log2u_loop x y = y + 1" unfolding step True by (simp add: log2u_loop.simps)
    ultimately show ?thesis by simp
  next
    case False
    let ?l = "log2u_loop (drop_bit 1 x) (y + 1)"
    have IH: "y + 1 \<le> ?l" "2 ^ (?l - (y + 1)) \<le> 2 * (unat x div 2)" "unat x div 2 < 2 ^ (?l - (y + 1))"
      using 1(1) [OF 1(2) False] d by simp_all
    have "?l - y = Suc (?l - (y + 1))" using IH(1) by simp
    then have "(2 :: nat) ^ (?l - y) = 2 * 2 ^ (?l - (y + 1))" by (metis power_Suc)
    moreover have a: "2 * k \<le> 2 * n \<and> n < 2 * k" if "k \<le> 2 * (n div 2)" "n div 2 < k" for n k :: nat
      using that by auto
    from a [OF IH(2,3)] have "2 * 2 ^ (?l - (y + 1)) \<le> 2 * unat x \<and> unat x < 2 * 2 ^ (?l - (y + 1))" .
    ultimately show ?thesis unfolding step using IH(1) by auto
  qed
qed

lemma log2u_bounds: "x \<noteq> 0 \<Longrightarrow> 2 ^ log2u x \<le> unat x \<and> unat x < 2 ^ (log2u x + 1)"
proof -
  assume x: "x \<noteq> 0"
  have step: "log2u_loop x 0 = log2u_loop (drop_bit 1 x) 1" using x by (subst log2u_loop.simps) simp
  have s: "log2u_loop z (Suc y) = Suc (log2u_loop z y)" for z y
  proof (induction z y rule: log2u_loop.induct)
    case (1 z y)
    show ?case
    proof (cases "z = 0")
      case False
      have "log2u_loop z (Suc y) = log2u_loop (drop_bit 1 z) (Suc y + 1)" "log2u_loop z y = log2u_loop (drop_bit 1 z) (y + 1)"
        using False by (simp_all only: log2u_loop.simps [of z] if_False)
      then show ?thesis using 1 [OF False] by simp
    qed (simp add: log2u_loop.simps)
  qed
  have "log2u_loop x 0 = Suc (log2u x)" unfolding step log2u_def using s by simp
  then show ?thesis using log2u_loop_bounds [OF x, of 0] by simp
qed

section \<open>Gray code\<close>

lemma xor_cancel: "a XOR (a XOR b) = b" for a b :: "'a::len word"
  by (simp flip: xor.assoc)

lemma graydecode_encode: "graydecode (grayencode x) = x"
proof -
  have "unat x < 2 ^ 8" using unsigned_less [of x] by simp
  then have "unat (drop_bit 8 x) = 0" unfolding unat_drop_bit_eq by (simp add: drop_bit_eq_div)
  then have "drop_bit 8 x = 0" by (simp only: unsigned_eq_0_iff)
  then show ?thesis
    unfolding graydecode_def grayencode_def
    by (simp add: drop_bit_xor drop_bit_drop_bit xor.assoc xor.left_commute xor_cancel numeral_2_eq_2 [symmetric] numeral_3_eq_3 [symmetric])
qed

lemma grayencode_inj: "inj grayencode"
  by (metis graydecode_encode injI)

lemma grayencode_decode: "grayencode (graydecode x) = x"
proof -
  have "surj grayencode" using grayencode_inj by (intro finite_UNIV_inj_surj) simp_all
  then obtain y where "x = grayencode y" by (metis surjD)
  then show ?thesis by (simp add: graydecode_encode)
qed

section \<open>The properties\<close>

text \<open>The Hamming weights count the one bits of the low 32, 16 or 8 bits, and the parity is
  the exclusive or of the low 32 bits.\<close>

theorem hamming_weights:
  "unat (hweight32 v) = ones v 32 \<and> unat (hweight16 w) = ones w 16 \<and> unat (hweight8 x) = ones x 8 \<and>
   parity v = ones v 32 mod 2"
  by (intro conjI unat_hweight32 unat_hweight16 unat_hweight8 parity_ones)

text \<open>The reversals of 32 and of 16 bits put bit \<open>i\<close> where bit \<open>31 - i\<close> or
  \<open>15 - i\<close> was; the reversal of a byte does not (the first mask is 0xFF for 0xAA): it turns 2 into
  0x50.\<close>

theorem bit_reversal:
  "(\<forall>i. bit (rbits32 v) i \<longleftrightarrow> i < 32 \<and> bit v (31 - i)) \<and> (\<forall>i. bit (rbits16 w) i \<longleftrightarrow> i < 16 \<and> bit w (15 - i)) \<and>
   rbits8 2 = 0x50"
proof (intro conjI allI)
  show "bit (rbits32 v) i \<longleftrightarrow> i < 32 \<and> bit v (31 - i)" for i
    using rbits32_bits [of i v] rbits32_high [of i v] by (cases "i < 32") auto
  show "bit (rbits16 w) i \<longleftrightarrow> i < 16 \<and> bit w (15 - i)" for i
    using rbits16_bits [of i w] bit_imp_le_length [of "rbits16 w" i] by (cases "i < 16") auto
  show "rbits8 2 = 0x50" by (simp add: rbits8_def Let_def)
qed

text \<open>C29: \<^verbatim>\<open>log2u\<close> ends and returns the position of the highest one bit.\<close>

theorem log2u_floor: "x \<noteq> 0 \<Longrightarrow> 2 ^ log2u x \<le> unat x \<and> unat x < 2 ^ (log2u x + 1)"
  by (rule log2u_bounds)

lemma log2u_floor_witness: "2 ^ log2u 5 \<le> (5 :: nat) \<and> 5 < (2 :: nat) ^ (log2u 5 + 1)"
  using log2u_floor [of 5] by simp

text \<open>The Gray decoding undoes the encoding and the other way round, on every byte.\<close>

theorem gray_code: "graydecode (grayencode x) = x \<and> grayencode (graydecode x) = x"
  by (simp add: graydecode_encode grayencode_decode)

end
