(* ===== verification/Viterbi.thy ===== *)
theory Viterbi
  imports Bits
begin

text \<open>
  The convolutional code of the PSK, MFSK, THOR and DominoEX modems, \<^verbatim>\<open>filters/viterbi.cxx\<close>:
  classes \<^verbatim>\<open>encoder\<close> and \<^verbatim>\<open>viterbi\<close>. The decoder is given with its two rings
  of \<^verbatim>\<open>PATHMEM\<close> rows, the traceback and the renormalisation. A metric is an \<^verbatim>\<open>int\<close>
  of the source; here it is an unbounded integer, and the theorem \<open>viterbi_metrics_bounded\<close> of
  \<^verbatim>\<open>Viterbi_Laws\<close> shows how long the two agree.
\<close>

unbundle bit_operations_syntax

section \<open>The encoder\<close>

text \<open>Two bits for each content of the shift register.\<close>

definition code_output :: "nat \<Rightarrow> nat \<Rightarrow> nat \<Rightarrow> nat" where
  "code_output poly1 poly2 i =
     parity (word_of_nat (poly1 AND i)) OR push_bit 1 (parity (word_of_nat (poly2 AND i)))"

record encoder =
  enc_output :: "nat list"
  shreg :: "32 word"
  shregmask :: "32 word"

definition encoder_new :: "nat \<Rightarrow> nat \<Rightarrow> nat \<Rightarrow> encoder" where
  "encoder_new k poly1 poly2 =
     \<lparr>enc_output = map (code_output poly1 poly2) [0..<2 ^ k], shreg = 0, shregmask = 2 ^ k - 1\<rparr>"

definition enc_encode :: "bool \<Rightarrow> encoder \<Rightarrow> nat \<times> encoder" where
  "enc_encode b e = (let s = push_bit 1 (shreg e) OR of_bool b
                     in (enc_output e ! unat (s AND shregmask e), e\<lparr>shreg := s\<rparr>))"

section \<open>The decoder\<close>

definition PATHMEM :: nat where "PATHMEM = 256"

definition INT_MAX :: int where "INT_MAX = 2 ^ 31 - 1"
definition INT_MIN :: int where "INT_MIN = - (2 ^ 31)"

record viterbi =
  traceback_len :: nat
  chunksize :: nat
  nstates :: nat
  vit_output :: "nat list"
  metrics :: "int list list"
  history :: "nat list list"
  states_seq :: "nat list"
  ptr :: nat

text \<open>The table of the metrics of a soft bit, \<^verbatim>\<open>mettab[b][i]\<close>.\<close>

definition mettab :: "nat \<Rightarrow> nat \<Rightarrow> int" where
  "mettab b i = (if b = 0 then 128 - int i else int i - 128)"

definition viterbi_reset :: "viterbi \<Rightarrow> viterbi" where
  "viterbi_reset v = v\<lparr>metrics := replicate PATHMEM (replicate (nstates v) 0),
     history := replicate PATHMEM (replicate (nstates v) 0), ptr := 0\<rparr>"

definition viterbi_new :: "nat \<Rightarrow> nat \<Rightarrow> nat \<Rightarrow> viterbi" where
  "viterbi_new k poly1 poly2 = viterbi_reset
     \<lparr>traceback_len = k * 12, chunksize = 8, nstates = 2 ^ (k - 1),
      vit_output = map (code_output poly1 poly2) [0..<2 ^ k], metrics = [], history = [],
      states_seq = replicate PATHMEM 0, ptr = 0\<rparr>"

definition settraceback :: "int \<Rightarrow> viterbi \<Rightarrow> int \<times> viterbi" where
  "settraceback trace v =
     (if trace < 0 \<or> trace > int PATHMEM - 1 then (-1, v) else (0, v\<lparr>traceback_len := nat trace\<rparr>))"

definition setchunksize :: "int \<Rightarrow> viterbi \<Rightarrow> int \<times> viterbi" where
  "setchunksize chunk v =
     (if chunk < 1 \<or> chunk > int (traceback_len v) then (-1, v) else (0, v\<lparr>chunksize := nat chunk\<rparr>))"

text \<open>\<^verbatim>\<open>(p - 1) % PATHMEM\<close> on an \<^verbatim>\<open>unsigned int\<close>.\<close>

definition prev_slot :: "nat \<Rightarrow> nat" where
  "prev_slot p = (p + (2 ^ 32 - 1)) mod 2 ^ 32 mod PATHMEM"

text \<open>The first state with the best metric.\<close>

definition best_state :: "int list \<Rightarrow> nat \<Rightarrow> int \<times> nat" where
  "best_state row n = fold (\<lambda>i (best, state). if row ! i > best then (row ! i, i) else (best, state)) [0..<n] (INT_MIN, 0)"

text \<open>Steps back through the histories: each stores the state before.\<close>

fun trace_steps :: "nat \<Rightarrow> nat list list \<Rightarrow> nat \<Rightarrow> nat list \<Rightarrow> nat \<times> nat list" where
  "trace_steps 0 hist p sq = (p, sq)"
| "trace_steps (Suc n) hist p sq = trace_steps n hist (prev_slot p) (sq[prev_slot p := hist ! p ! (sq ! p)])"

text \<open>Steps forward again: the low bit of a state is the input before it.\<close>

fun chunk_bits :: "nat \<Rightarrow> nat list \<Rightarrow> nat \<Rightarrow> 32 word \<Rightarrow> nat \<times> 32 word" where
  "chunk_bits 0 sq p c = (p, c)"
| "chunk_bits (Suc n) sq p c =
     chunk_bits n sq ((p + 1) mod PATHMEM) (push_bit 1 c OR word_of_nat (sq ! p AND 1))"

text \<open>The decoded chunk and the metric the source stores through its pointer.\<close>

definition traceback :: "viterbi \<Rightarrow> int \<times> int \<times> viterbi" where
  "traceback v = (let
     p = prev_slot (ptr v);
     (best, state) = best_state (metrics v ! p) (nstates v);
     (p, sq) = trace_steps (traceback_len v) (history v) p ((states_seq v)[p := state]);
     m0 = metrics v ! p ! (sq ! p);
     (p, c) = chunk_bits (chunksize v) sq p 0
     in (sint c, metrics v ! p ! (sq ! p) - m0, v\<lparr>states_seq := sq\<rparr>))"

text \<open>Metrics of the four pairs of bits for two soft bits.\<close>

definition met :: "nat \<times> nat \<Rightarrow> int list" where
  "met sy = (case sy of (sym0, sym1) \<Rightarrow>
     [mettab 0 sym1 + mettab 0 sym0, mettab 0 sym1 + mettab 1 sym0,
      mettab 1 sym1 + mettab 0 sym0, mettab 1 sym1 + mettab 1 sym0])"

text \<open>Add, compare, select for one state: its metric and the better state before it.\<close>

definition select_path :: "nat \<Rightarrow> nat list \<Rightarrow> int list \<Rightarrow> int list \<Rightarrow> nat \<Rightarrow> int \<times> nat" where
  "select_path nst out row mt n = (let
     s0 = n; s1 = n + nst;
     p0 = drop_bit 1 s0; p1 = drop_bit 1 s1;
     m0 = row ! p0 + mt ! (out ! s0);
     m1 = row ! p1 + mt ! (out ! s1)
     in if m0 > m1 then (m0, p0) else (m1, p1))"

definition select_row :: "nat \<Rightarrow> nat list \<Rightarrow> int list \<Rightarrow> int list \<Rightarrow> (int \<times> nat) list" where
  "select_row nst out row mt = map (select_path nst out row mt) [0..<nst]"

definition add_all :: "int \<Rightarrow> int list list \<Rightarrow> int list list" where
  "add_all d = map (map (\<lambda>m. m + d))"

definition renormalise :: "nat \<Rightarrow> viterbi \<Rightarrow> viterbi" where
  "renormalise cur v = (let
     v = (if metrics v ! cur ! 0 > INT_MAX div 2 then v\<lparr>metrics := add_all (- (INT_MAX div 2)) (metrics v)\<rparr> else v);
     v = (if metrics v ! cur ! 0 < INT_MIN div 2 then v\<lparr>metrics := add_all (INT_MIN div 2) (metrics v)\<rparr> else v)
     in v)"

text \<open>One pair of soft bits. The first result is -1, or the chunk when one is complete; the second
  the metric, then.\<close>

definition decode_sym :: "nat \<times> nat \<Rightarrow> viterbi \<Rightarrow> int \<times> int option \<times> viterbi" where
  "decode_sym sy v = (let
     cur = ptr v;
     row = select_row (nstates v) (vit_output v) (metrics v ! prev_slot cur) (met sy);
     v = v\<lparr>metrics := (metrics v)[cur := map fst row], history := (history v)[cur := map snd row],
           ptr := (ptr v + 1) mod PATHMEM\<rparr>
     in if ptr v mod chunksize v = 0
        then let (c, m, v) = traceback v in (c, Some m, v)
        else (-1, None, renormalise cur v))"

end
