(* ===== verification/Viterbi_Laws.thy ===== *)
theory Viterbi_Laws
  imports Viterbi
begin

text \<open>
  What the decoder of \<^verbatim>\<open>Viterbi\<close> computes. The rings hold the rows of metrics and
  histories of the last 256 steps (\<open>ring_ok\<close>); a state with the best metric was reached over
  branches with the bits that were sent (\<open>survivor\<close>); two paths with the same outputs differ
  by a path without outputs (\<open>silent\<close>), which a code that can be observed in \<open>L\<close> branches
  does not have. So a clean stream is decoded to the bits sent, a traceback late.
\<close>

unbundle bit_operations_syntax

section \<open>Runs of the decoder\<close>

definition vstep :: "nat \<times> nat \<Rightarrow> viterbi \<Rightarrow> viterbi" where
  "vstep sy v = snd (snd (decode_sym sy v))"

text \<open>Rows of metrics and histories, without the rings: \<open>mrow syms i\<close> are the metrics after
  \<open>i\<close> pairs of soft bits.\<close>

fun mrow :: "nat \<Rightarrow> nat list \<Rightarrow> (nat \<times> nat) list \<Rightarrow> nat \<Rightarrow> int list" where
  "mrow nst out syms 0 = replicate nst 0"
| "mrow nst out syms (Suc i) = map fst (select_row nst out (mrow nst out syms i) (met (syms ! i)))"

definition hrow :: "nat \<Rightarrow> nat list \<Rightarrow> (nat \<times> nat) list \<Rightarrow> nat \<Rightarrow> nat list" where
  "hrow nst out syms i = map snd (select_row nst out (mrow nst out syms i) (met (syms ! i)))"

lemma length_select_row [simp]: "length (select_row nst out row mt) = nst"
  by (simp add: select_row_def)

lemma length_mrow [simp]: "length (mrow nst out syms i) = nst"
  by (cases i) simp_all

lemma length_hrow [simp]: "length (hrow nst out syms i) = nst"
  by (simp add: hrow_def)

definition byte_pair :: "nat \<times> nat \<Rightarrow> bool" where
  "byte_pair sy \<longleftrightarrow> fst sy < 256 \<and> snd sy < 256"

lemma met_bound: "byte_pair sy \<Longrightarrow> x \<in> set (met sy) \<Longrightarrow> \<bar>x\<bar> \<le> 256"
  by (cases sy) (auto simp: met_def mettab_def byte_pair_def)

lemma code_output_le: "code_output p1 p2 i < 4"
proof -
  have bits: "parity w = 0 \<or> parity w = 1" for w using parity_le [of w] by (cases "parity w") auto
  show ?thesis unfolding code_output_def
    using bits [of "word_of_nat (p1 AND i)"] bits [of "word_of_nat (p2 AND i)"] by auto
qed

lemma select_path_cases:
  "select_path nst out row mt n = (row ! (n div 2) + mt ! (out ! n), n div 2) \<or>
   select_path nst out row mt n = (row ! ((n + nst) div 2) + mt ! (out ! (n + nst)), (n + nst) div 2)"
  by (simp add: select_path_def Let_def drop_bit_Suc)

lemma select_path_best:
  "fst (select_path nst out row mt n) = max (row ! (n div 2) + mt ! (out ! n)) (row ! ((n + nst) div 2) + mt ! (out ! (n + nst)))"
  by (simp add: select_path_def Let_def drop_bit_Suc)

section \<open>Bounds\<close>

text \<open>A table for \<open>nst\<close> states.\<close>

definition code_table :: "nat \<Rightarrow> nat list \<Rightarrow> bool" where
  "code_table nst out \<longleftrightarrow> 0 < nst \<and> length out = 2 * nst \<and> (\<forall>x \<in> set out. x < 4)"

lemma length_met [simp]: "length (met sy) = 4"
  by (cases sy) (simp add: met_def)

lemma branch_bound:
  assumes "code_table nst out" "s < 2 * nst" "byte_pair sy"
  shows "\<bar>met sy ! (out ! s)\<bar> \<le> 256"
proof -
  have "out ! s < 4" using assms(1,2) by (auto simp: code_table_def)
  then show ?thesis using met_bound [OF assms(3)] by simp
qed

lemma select_path_state:
  assumes "n < nst" shows "snd (select_path nst out row mt n) < nst"
  using select_path_cases [of nst out row mt n] assms by auto

lemma mrow_bound:
  assumes "code_table nst out" "\<forall>j<i. byte_pair (syms ! j)" "n < nst"
  shows "\<bar>mrow nst out syms i ! n\<bar> \<le> 256 * int i"
  using assms(2,3)
proof (induction i arbitrary: n)
  case (Suc i)
  let ?row = "mrow nst out syms i" and ?mt = "met (syms ! i)"
  have IH: "p < nst \<Longrightarrow> \<bar>?row ! p\<bar> \<le> 256 * int i" for p using Suc by simp
  have "\<bar>?mt ! (out ! s)\<bar> \<le> 256" if "s < 2 * nst" for s
    using branch_bound [OF assms(1) that] Suc.prems(1) by simp
  then have b: "\<bar>?mt ! (out ! n)\<bar> \<le> 256" "\<bar>?mt ! (out ! (n + nst))\<bar> \<le> 256" using Suc.prems(2) by simp_all
  have "fst (select_path nst out ?row ?mt n) = ?row ! (n div 2) + ?mt ! (out ! n) \<or>
      fst (select_path nst out ?row ?mt n) = ?row ! ((n + nst) div 2) + ?mt ! (out ! (n + nst))"
    using select_path_cases [of nst out ?row ?mt n] by (elim disjE) simp_all
  then have "\<bar>fst (select_path nst out ?row ?mt n)\<bar> \<le> 256 * int i + 256"
    using IH [of "n div 2"] IH [of "(n + nst) div 2"] b Suc.prems(2) by (elim disjE) linarith+
  then show ?case using Suc.prems(2) by (simp add: select_row_def)
qed simp

section \<open>The rings\<close>

lemma prev_slot_mod: "prev_slot (t mod 256) = (t + 255) mod 256"
proof -
  have "prev_slot (t mod 256) = (t mod 256 + (2 ^ 32 - 1)) mod 256"
    unfolding prev_slot_def PATHMEM_def by (rule mod_mod_cancel) simp
  also have "\<dots> = (t + (2 ^ 32 - 1)) mod 256" by (simp add: mod_add_left_eq)
  also have "\<dots> = (t + 255 + 256 * 16777215) mod 256" by (simp add: add.commute)
  also have "\<dots> = (t + 255) mod 256" by (rule mod_mult_self2)
  finally show ?thesis .
qed

lemma prev_slot_Suc: "prev_slot (Suc i mod 256) = i mod 256"
  unfolding prev_slot_mod by simp

lemma slots_differ: "i < t \<Longrightarrow> t < i + 256 \<Longrightarrow> i mod 256 \<noteq> t mod (256 :: nat)"
proof
  assume a: "i < t" "t < i + 256" "i mod 256 = t mod 256"
  then have "256 dvd (t - i)" by (metis mod_eq_dvd_iff_nat less_imp_le_nat)
  then show False using a(1,2) by (auto dest: dvd_imp_le)
qed

definition ring_ok :: "nat \<Rightarrow> nat list \<Rightarrow> (nat \<times> nat) list \<Rightarrow> nat \<Rightarrow> viterbi \<Rightarrow> bool" where
  "ring_ok nst out syms t v \<longleftrightarrow> nstates v = nst \<and> vit_output v = out \<and> ptr v = t mod 256 \<and>
     length (metrics v) = 256 \<and> length (history v) = 256 \<and> length (states_seq v) = 256 \<and>
     metrics v ! prev_slot (t mod 256) = mrow nst out syms t \<and>
     (\<forall>i<t. t \<le> i + 256 \<longrightarrow>
        metrics v ! (i mod 256) = mrow nst out syms (Suc i) \<and> history v ! (i mod 256) = hrow nst out syms i)"

lemma renormalise_id:
  "metrics v ! cur ! 0 \<le> 2 ^ 30 - 1 \<Longrightarrow> - (2 ^ 30) \<le> metrics v ! cur ! 0 \<Longrightarrow> renormalise cur v = v"
  by (simp add: renormalise_def INT_MAX_def INT_MIN_def)

lemma length_trace_steps [simp]: "length (snd (trace_steps n hist p sq)) = length sq"
  by (induction n hist p sq rule: trace_steps.induct) simp_all

lemma traceback_frame:
  "\<exists>sq. snd (snd (traceback v)) = v\<lparr>states_seq := sq\<rparr> \<and> length sq = length (states_seq v)"
proof -
  let ?t = "trace_steps (traceback_len v) (history v) (prev_slot (ptr v))
    ((states_seq v)[prev_slot (ptr v) := snd (best_state (metrics v ! prev_slot (ptr v)) (nstates v))])"
  have "snd (snd (traceback v)) = v\<lparr>states_seq := snd ?t\<rparr>"
    by (simp add: traceback_def Let_def case_prod_beta)
  then show ?thesis by (intro exI [of _ "snd ?t"]) simp
qed

text \<open>The decoder without its last part: the rows entered and the pointer moved.\<close>

definition enter_row :: "nat \<times> nat \<Rightarrow> viterbi \<Rightarrow> viterbi" where
  "enter_row sy v = (let row = select_row (nstates v) (vit_output v) (metrics v ! prev_slot (ptr v)) (met sy)
     in v\<lparr>metrics := (metrics v)[ptr v := map fst row], history := (history v)[ptr v := map snd row],
          ptr := (ptr v + 1) mod PATHMEM\<rparr>)"

lemma decode_sym_enter:
  "decode_sym sy v = (let w = enter_row sy v in
     if ptr w mod chunksize w = 0 then let (c, m, w) = traceback w in (c, Some m, w)
     else (-1, None, renormalise (ptr v) w))"
  by (simp add: decode_sym_def enter_row_def Let_def)

lemma ring_ok_enter:
  assumes "ring_ok nst out syms t v"
  shows "ring_ok nst out syms (Suc t) (enter_row (syms ! t) v)"
proof -
  let ?w = "enter_row (syms ! t) v" and ?s = "t mod 256"
  have v: "nstates v = nst" "vit_output v = out" "ptr v = ?s" "length (metrics v) = 256" "length (history v) = 256"
    "metrics v ! prev_slot ?s = mrow nst out syms t" "length (states_seq v) = 256"
    using assms by (simp_all add: ring_ok_def)
  have m: "metrics ?w = (metrics v)[?s := mrow nst out syms (Suc t)]"
    and h: "history ?w = (history v)[?s := hrow nst out syms t]"
    by (simp_all add: enter_row_def v hrow_def Let_def)
  have "metrics ?w ! (i mod 256) = mrow nst out syms (Suc i) \<and> history ?w ! (i mod 256) = hrow nst out syms i"
    if i: "i < Suc t" "Suc t \<le> i + 256" for i
  proof (cases "i = t")
    case True then show ?thesis using v by (simp add: m h del: mrow.simps)
  next
    case False
    then have "i mod 256 \<noteq> ?s" using slots_differ [of i t] i by simp
    then show ?thesis using assms False i by (simp add: m h ring_ok_def del: mrow.simps)
  qed
  moreover have "metrics ?w ! prev_slot (Suc t mod 256) = mrow nst out syms (Suc t)"
    unfolding prev_slot_Suc using v by (simp add: m del: mrow.simps)
  moreover have "ptr ?w = Suc t mod 256" by (simp add: enter_row_def v PATHMEM_def mod_Suc_eq Let_def)
  ultimately show ?thesis using v by (simp add: ring_ok_def enter_row_def Let_def del: mrow.simps)
qed

lemma ring_ok_frame: "ring_ok nst out syms t v \<Longrightarrow> length sq = 256 \<Longrightarrow> ring_ok nst out syms t (v\<lparr>states_seq := sq\<rparr>)"
  by (simp add: ring_ok_def)

lemma ring_ok_step:
  assumes "ring_ok nst out syms t v" "code_table nst out" "\<forall>j\<le>t. byte_pair (syms ! j)" "t < 2 ^ 22 - 1"
  shows "ring_ok nst out syms (Suc t) (vstep (syms ! t) v)"
    "traceback_len (vstep (syms ! t) v) = traceback_len v" "chunksize (vstep (syms ! t) v) = chunksize v"
proof -
  let ?w = "enter_row (syms ! t) v"
  have w: "ring_ok nst out syms (Suc t) ?w" by (rule ring_ok_enter [OF assms(1)])
  have "metrics ?w ! ptr v = mrow nst out syms (Suc t)"
    using w assms(1) unfolding ring_ok_def prev_slot_Suc by simp
  moreover have "\<bar>mrow nst out syms (Suc t) ! 0\<bar> \<le> 256 * int (Suc t)"
    by (rule mrow_bound [OF assms(2)]) (use assms(2,3) in \<open>auto simp: code_table_def less_Suc_eq_le\<close>)
  ultimately have "renormalise (ptr v) ?w = ?w" using assms(4) by (intro renormalise_id) auto
  moreover obtain sq where "snd (snd (traceback ?w)) = ?w\<lparr>states_seq := sq\<rparr>" "length sq = length (states_seq ?w)"
    using traceback_frame by blast
  ultimately have c: "vstep (syms ! t) v = ?w \<or> (\<exists>sq. length sq = 256 \<and> vstep (syms ! t) v = ?w\<lparr>states_seq := sq\<rparr>)"
    using w by (auto simp: vstep_def decode_sym_enter Let_def case_prod_beta ring_ok_def)
  then show "ring_ok nst out syms (Suc t) (vstep (syms ! t) v)" using w ring_ok_frame by metis
  show "traceback_len (vstep (syms ! t) v) = traceback_len v" "chunksize (vstep (syms ! t) v) = chunksize v"
    using c by (auto simp: enter_row_def Let_def)
qed

section \<open>The traceback\<close>

text \<open>The survivor that ends in state \<open>z\<close> after pair \<open>i\<close>, read backwards.\<close>

fun chain :: "nat \<Rightarrow> nat list \<Rightarrow> (nat \<times> nat) list \<Rightarrow> nat \<Rightarrow> nat \<Rightarrow> nat \<Rightarrow> nat" where
  "chain nst out syms i z 0 = z"
| "chain nst out syms i z (Suc j) = hrow nst out syms (i - j) ! chain nst out syms i z j"

lemma trace_steps_chain:
  assumes hist: "\<And>a. a \<le> i \<Longrightarrow> i < a + 256 \<Longrightarrow> hist ! (a mod 256) = hrow nst out syms a"
    and "d + n \<le> i" "d + n \<le> 255" "length sq = 256"
    and "\<forall>j\<le>d. sq ! ((i - j) mod 256) = chain nst out syms i z j"
  shows "fst (trace_steps n hist ((i - d) mod 256) sq) = (i - (d + n)) mod 256 \<and>
    (\<forall>j\<le>d + n. snd (trace_steps n hist ((i - d) mod 256) sq) ! ((i - j) mod 256) = chain nst out syms i z j)"
  using assms(2-)
proof (induction n arbitrary: d sq)
  case (Suc n)
  let ?p = "(i - d) mod 256" and ?q = "(i - Suc d) mod 256"
  let ?sq = "sq[?q := hist ! ?p ! (sq ! ?p)]"
  have "Suc (i - Suc d) = i - d" using Suc.prems(1) by simp
  then have q: "prev_slot ?p = ?q" using prev_slot_Suc [of "i - Suc d"] by simp
  have v: "hist ! ?p ! (sq ! ?p) = chain nst out syms i z (Suc d)"
    using hist [of "i - d"] Suc.prems(1,2,4) by simp
  have "?sq ! ((i - j) mod 256) = chain nst out syms i z j" if j: "j \<le> Suc d" for j
  proof (cases "j = Suc d")
    case True then show ?thesis using v Suc.prems(3) by simp
  next
    case False
    then have "(i - Suc d) mod 256 \<noteq> (i - j) mod 256"
      using j Suc.prems(1,2) by (intro slots_differ) auto
    then show ?thesis using Suc.prems(4) j False by simp
  qed
  then have "fst (trace_steps n hist ?q ?sq) = (i - (Suc d + n)) mod 256 \<and>
      (\<forall>j\<le>Suc d + n. snd (trace_steps n hist ?q ?sq) ! ((i - j) mod 256) = chain nst out syms i z j)"
    using Suc.prems by (intro Suc.IH) auto
  then show ?case unfolding trace_steps.simps q by simp
qed simp

text \<open>Bits packed into an \<^verbatim>\<open>unsigned int\<close>, the first one highest.\<close>

definition pack_chunk :: "bool list \<Rightarrow> 32 word" where
  "pack_chunk bs = foldl (\<lambda>c b. push_bit 1 c OR of_bool b) 0 bs"

lemma chunk_bits_fold:
  "chunk_bits n sq (a mod 256) c =
     ((a + n) mod 256, foldl (\<lambda>c b. push_bit 1 c OR of_bool b) c (map (\<lambda>j. odd (sq ! ((a + j) mod 256))) [0..<n]))"
proof (induction n arbitrary: a c)
  case (Suc n)
  have "word_of_nat (x AND 1) = (of_bool (odd x) :: 32 word)" for x :: nat by (simp add: and_one_eq mod_2_eq_odd)
  moreover have "(a mod 256 + 1) mod PATHMEM = Suc a mod 256" by (simp add: PATHMEM_def mod_Suc_eq)
  ultimately have "chunk_bits (Suc n) sq (a mod 256) c =
      chunk_bits n sq (Suc a mod 256) (push_bit 1 c OR of_bool (odd (sq ! (a mod 256))))" by simp
  moreover have "map (\<lambda>j. odd (sq ! ((a + j) mod 256))) [0..<Suc n] =
      odd (sq ! (a mod 256)) # map (\<lambda>j. odd (sq ! ((Suc a + j) mod 256))) [0..<n]"
    by (simp add: upt_conv_Cons comp_def flip: map_Suc_upt del: upt_Suc)
  ultimately show ?case by (simp only: Suc foldl_Cons add_Suc_right add_Suc)
qed simp

lemma best_state_max:
  assumes "\<forall>i<n. INT_MIN < row ! i" "0 < n"
  shows "fst (best_state row n) = row ! snd (best_state row n)" "snd (best_state row n) < n"
    "\<forall>i<n. row ! i \<le> fst (best_state row n)"
proof -
  let ?f = "\<lambda>i (best, state). if row ! i > best then (row ! i, i) else (best, state)"
  have "let (b, s) = fold ?f [0..<m] (INT_MIN, 0) in (m = 0 \<and> b = INT_MIN \<or> b = row ! s \<and> s < m) \<and> (\<forall>i<m. row ! i \<le> b)"
    if "m \<le> n" for m
    using that
  proof (induction m)
    case (Suc m)
    then show ?case using assms(1) by (fastforce simp: Let_def less_Suc_eq split: prod.splits if_splits)
  qed simp
  from this [of n] show "fst (best_state row n) = row ! snd (best_state row n)" "snd (best_state row n) < n"
    "\<forall>i<n. row ! i \<le> fst (best_state row n)"
    using assms(2) by (auto simp: best_state_def case_prod_beta Let_def)
qed

lemma decode_chunk:
  assumes ok: "ring_ok nst out syms i v" and "(Suc i mod 256) mod chunksize v = 0"
    and T: "traceback_len v \<le> i" "traceback_len v \<le> 255" "chunksize v \<le> traceback_len v"
    and z: "z = snd (best_state (mrow nst out syms (Suc i)) nst)"
  shows "fst (decode_sym (syms ! i) v) =
    sint (pack_chunk (map (\<lambda>j. odd (chain nst out syms i z (traceback_len v - j))) [0..<chunksize v]))"
proof -
  let ?w = "enter_row (syms ! i) v" and ?T = "traceback_len v" and ?s = "i mod 256"
  let ?sq0 = "(states_seq ?w)[?s := z]"
  let ?r = "trace_steps ?T (history ?w) ?s ?sq0"
  have w: "ring_ok nst out syms (Suc i) ?w" by (rule ring_ok_enter [OF ok])
  have f: "traceback_len ?w = ?T" "chunksize ?w = chunksize v" by (simp_all add: enter_row_def Let_def)
  have row: "metrics ?w ! ?s = mrow nst out syms (Suc i)" "nstates ?w = nst" "ptr ?w = Suc i mod 256"
    "length (states_seq ?w) = 256"
    using w unfolding ring_ok_def prev_slot_Suc by simp_all
  have hist: "a \<le> i \<Longrightarrow> i < a + 256 \<Longrightarrow> history ?w ! (a mod 256) = hrow nst out syms a" for a
    using w by (auto simp: ring_ok_def)
  have steps: "fst (trace_steps ?T (history ?w) ((i - 0) mod 256) ?sq0) = (i - (0 + ?T)) mod 256 \<and>
      (\<forall>j\<le>0 + ?T. snd (trace_steps ?T (history ?w) ((i - 0) mod 256) ?sq0) ! ((i - j) mod 256) = chain nst out syms i z j)"
    by (rule trace_steps_chain [OF hist]) (use T row(4) in simp_all)
  then obtain sq where r1: "?r = ((i - ?T) mod 256, sq)" by (metis add_0 diff_zero prod.collapse)
  have r: "snd ?r ! ((i - j) mod 256) = chain nst out syms i z j" if "j \<le> ?T" for j
    using that steps by simp
  obtain b where b: "best_state (mrow nst out syms (Suc i)) nst = (b, z)" using z by (metis prod.collapse)
  have "fst (traceback ?w) = sint (snd (chunk_bits (chunksize v) (snd ?r) ((i - ?T) mod 256) 0))"
    unfolding traceback_def Let_def f row(2,3) prev_slot_Suc row(1) by (simp add: b r1 case_prod_beta del: mrow.simps)
  also have "snd (chunk_bits (chunksize v) (snd ?r) ((i - ?T) mod 256) 0) =
      pack_chunk (map (\<lambda>j. odd (snd ?r ! ((i - ?T + j) mod 256))) [0..<chunksize v])"
    unfolding chunk_bits_fold pack_chunk_def by simp
  also have "map (\<lambda>j. odd (snd ?r ! ((i - ?T + j) mod 256))) [0..<chunksize v] =
      map (\<lambda>j. odd (chain nst out syms i z (?T - j))) [0..<chunksize v]"
  proof (rule map_cong [OF refl])
    fix j assume "j \<in> set [0..<chunksize v]"
    then have "i - ?T + j = i - (?T - j)" "?T - j \<le> ?T" using T by auto
    then show "odd (snd ?r ! ((i - ?T + j) mod 256)) = odd (chain nst out syms i z (?T - j))" using r by metis
  qed
  finally show ?thesis using assms(2) unfolding decode_sym_enter Let_def f row(3) by (simp add: case_prod_beta)
qed

section \<open>The survivor of a clean stream\<close>

text \<open>Soft bits on the right side of 128.\<close>

definition agrees :: "nat \<Rightarrow> nat \<times> nat \<Rightarrow> bool" where
  "agrees o1 sy \<longleftrightarrow> byte_pair sy \<and> (if bit o1 0 then 128 < fst sy else fst sy < 128) \<and>
     (if bit o1 1 then 128 < snd sy else snd sy < 128)"

lemma less_4: "x < 4 \<Longrightarrow> x = 0 \<or> x = 1 \<or> x = 2 \<or> x = 3" for x :: nat
  by arith

lemma bit_2_3: "bit (2 :: nat) 0 = False" "bit (2 :: nat) 1" "bit (3 :: nat) 0" "bit (3 :: nat) 1"
  by (simp_all add: bit_iff_odd)

lemma agrees_best:
  assumes "agrees o1 sy" "o1 < 4" "o2 < 4" "o2 \<noteq> o1"
  shows "met sy ! o2 < met sy ! o1"
  using assms less_4 [OF assms(2)] less_4 [OF assms(3)]
  by (cases sy) (auto simp: agrees_def met_def mettab_def bit_2_3 bit_0)

text \<open>The sender: \<open>r t\<close> is the content of its register after bit \<open>t\<close>, \<open>r t div 2\<close> its
  state before.\<close>

definition sender :: "nat \<Rightarrow> nat list \<Rightarrow> (nat \<times> nat) list \<Rightarrow> nat \<Rightarrow> (nat \<Rightarrow> nat) \<Rightarrow> bool" where
  "sender nst out syms n r \<longleftrightarrow> code_table nst out \<and>
     (\<forall>t<n. r t < 2 * nst \<and> agrees (out ! r t) (syms ! t)) \<and> (\<forall>t. Suc t < n \<longrightarrow> r (Suc t) div 2 = r t mod nst)"

definition best_sum :: "nat list \<Rightarrow> (nat \<times> nat) list \<Rightarrow> (nat \<Rightarrow> nat) \<Rightarrow> nat \<Rightarrow> int" where
  "best_sum out syms r t = (\<Sum>j<t. met (syms ! j) ! (out ! r j))"

lemma branch_le:
  assumes "sender nst out syms n r" "t < n" "s < 2 * nst"
  shows "met (syms ! t) ! (out ! s) \<le> met (syms ! t) ! (out ! r t)"
    "met (syms ! t) ! (out ! s) = met (syms ! t) ! (out ! r t) \<Longrightarrow> out ! s = out ! r t"
proof -
  have "out ! s < 4" "out ! r t < 4" "agrees (out ! r t) (syms ! t)"
    using assms by (auto simp: sender_def code_table_def)
  then show "met (syms ! t) ! (out ! s) \<le> met (syms ! t) ! (out ! r t)"
    "met (syms ! t) ! (out ! s) = met (syms ! t) ! (out ! r t) \<Longrightarrow> out ! s = out ! r t"
    using agrees_best [of "out ! r t" "syms ! t" "out ! s"] by (cases "out ! s = out ! r t"; fastforce)+
qed

lemma best_sum_Suc: "best_sum out syms r (Suc t) = best_sum out syms r t + met (syms ! t) ! (out ! r t)"
  by (simp add: best_sum_def)

lemma mrow_le_best:
  assumes "sender nst out syms n r" "t \<le> n" "m < nst"
  shows "mrow nst out syms t ! m \<le> best_sum out syms r t"
  using assms(2,3)
proof (induction t arbitrary: m)
  case (Suc t)
  have IH: "mrow nst out syms t ! p \<le> best_sum out syms r t" if "p < nst" for p using Suc that by simp
  have "mrow nst out syms (Suc t) ! m = max (mrow nst out syms t ! (m div 2) + met (syms ! t) ! (out ! m))
      (mrow nst out syms t ! ((m + nst) div 2) + met (syms ! t) ! (out ! (m + nst)))"
    using Suc.prems(2) by (simp add: select_row_def select_path_best)
  moreover have "met (syms ! t) ! (out ! m) \<le> met (syms ! t) ! (out ! r t)"
    "met (syms ! t) ! (out ! (m + nst)) \<le> met (syms ! t) ! (out ! r t)"
    using branch_le(1) [OF assms(1)] Suc.prems by simp_all
  moreover have "m div 2 < nst" "(m + nst) div 2 < nst" using Suc.prems(2) by auto
  then have "mrow nst out syms t ! (m div 2) \<le> best_sum out syms r t"
    "mrow nst out syms t ! ((m + nst) div 2) \<le> best_sum out syms r t" by (auto intro: IH)
  ultimately show ?case unfolding best_sum_Suc by (simp only: max.bounded_iff add_mono)
qed (simp add: best_sum_def)

lemma register_cases:
  fixes s nst m :: nat
  assumes "s < 2 * nst" "m = s mod nst"
  shows "s = m \<or> s = m + nst"
  using assms by (cases "s < nst") (auto simp: mod_if le_mod_geq not_less)

lemma mrow_sender:
  assumes "sender nst out syms n r" "t < n"
  shows "mrow nst out syms (Suc t) ! (r t mod nst) = best_sum out syms r (Suc t)"
  using assms(2)
proof (induction t)
  case 0
  let ?m = "r 0 mod nst"
  have r: "r 0 < 2 * nst" "0 < nst" using assms(1) 0 by (auto simp: sender_def code_table_def)
  have le: "mrow nst out syms 1 ! ?m \<le> best_sum out syms r 1" using mrow_le_best [OF assms(1), of 1 ?m] 0 r(2) by simp
  have "mrow nst out syms 1 ! ?m = max (met (syms ! 0) ! (out ! ?m)) (met (syms ! 0) ! (out ! (?m + nst)))"
  proof -
    have "?m < nst" "?m div 2 < nst" "(?m + nst) div 2 < nst" using r(2) mod_less_divisor [OF r(2), of "r 0"] by auto
    then show ?thesis by (simp add: select_row_def select_path_best)
  qed
  then have "met (syms ! 0) ! (out ! r 0) \<le> mrow nst out syms 1 ! ?m"
    using register_cases [OF r(1) refl] by (elim disjE) (metis max.cobounded1, metis max.cobounded2)
  then show ?case using le by (simp add: best_sum_def)
next
  case (Suc t)
  let ?m = "r (Suc t) mod nst" and ?row = "mrow nst out syms (Suc t)" and ?mt = "met (syms ! Suc t)"
  have r: "r (Suc t) < 2 * nst" "0 < nst" "r (Suc t) div 2 = r t mod nst"
    using assms(1) Suc.prems by (auto simp: sender_def code_table_def)
  have "mrow nst out syms (Suc (Suc t)) ! ?m = max (?row ! (?m div 2) + ?mt ! (out ! ?m))
      (?row ! ((?m + nst) div 2) + ?mt ! (out ! (?m + nst)))"
    unfolding mrow.simps(2) [of _ _ _ "Suc t"] using r(2) by (simp add: select_row_def select_path_best del: mrow.simps)
  then have "?row ! (r (Suc t) div 2) + ?mt ! (out ! r (Suc t)) \<le> mrow nst out syms (Suc (Suc t)) ! ?m"
    using register_cases [OF r(1) refl] by (elim disjE) (metis max.cobounded1, metis max.cobounded2)
  then have "best_sum out syms r (Suc (Suc t)) \<le> mrow nst out syms (Suc (Suc t)) ! ?m"
    unfolding r(3) best_sum_Suc [of _ _ _ "Suc t"] using Suc by simp
  moreover have "mrow nst out syms (Suc (Suc t)) ! ?m \<le> best_sum out syms r (Suc (Suc t))"
    using mrow_le_best [OF assms(1), of "Suc (Suc t)" ?m] Suc.prems r(2) by simp
  ultimately show ?case by simp
qed

text \<open>A state with the best metric was reached from one with the best metric, by a branch with the
  bits sent.\<close>

lemma survivor:
  assumes "sender nst out syms n r" "t < n" "m < nst" "mrow nst out syms (Suc t) ! m = best_sum out syms r (Suc t)"
  shows "\<exists>s<2 * nst. s mod nst = m \<and> s div 2 = hrow nst out syms t ! m \<and> out ! s = out ! r t \<and>
    mrow nst out syms t ! (s div 2) = best_sum out syms r t"
proof -
  let ?row = "mrow nst out syms t" and ?mt = "met (syms ! t)"
  obtain s where s: "s < 2 * nst" "s mod nst = m" "select_path nst out ?row ?mt m = (?row ! (s div 2) + ?mt ! (out ! s), s div 2)"
  proof (cases "select_path nst out ?row ?mt m = (?row ! (m div 2) + ?mt ! (out ! m), m div 2)")
    case True
    with that [of m] assms(3) show ?thesis by simp
  next
    case False
    then have "select_path nst out ?row ?mt m = (?row ! ((m + nst) div 2) + ?mt ! (out ! (m + nst)), (m + nst) div 2)"
      using select_path_cases [of nst out ?row ?mt m] by blast
    with that [of "m + nst"] assms(3) show ?thesis by simp
  qed
  have h: "hrow nst out syms t ! m = s div 2" and "mrow nst out syms (Suc t) ! m = ?row ! (s div 2) + ?mt ! (out ! s)"
    using assms(3) s(3) by (simp_all add: hrow_def select_row_def)
  then have e: "?row ! (s div 2) + ?mt ! (out ! s) = best_sum out syms r t + ?mt ! (out ! r t)"
    using assms(4) unfolding best_sum_Suc by simp
  have "?row ! (s div 2) \<le> best_sum out syms r t" using mrow_le_best [OF assms(1)] assms(2) s(1) by simp
  moreover have "?mt ! (out ! s) \<le> ?mt ! (out ! r t)" by (rule branch_le(1) [OF assms(1,2) s(1)])
  ultimately have "?row ! (s div 2) = best_sum out syms r t" "?mt ! (out ! s) = ?mt ! (out ! r t)" using e by linarith+
  then show ?thesis using s h branch_le(2) [OF assms(1,2) s(1)] by metis
qed

section \<open>Silent differences\<close>

text \<open>A difference of states that \<open>n\<close> more branches need not show.\<close>

fun silent :: "nat \<Rightarrow> nat list \<Rightarrow> nat \<Rightarrow> nat \<Rightarrow> bool" where
  "silent nst out 0 d = True"
| "silent nst out (Suc n) d \<longleftrightarrow>
     (out ! (2 * d) = 0 \<and> silent nst out n ((2 * d) mod nst)) \<or>
     (out ! (2 * d + 1) = 0 \<and> silent nst out n ((2 * d + 1) mod nst))"

definition observable :: "nat \<Rightarrow> nat list \<Rightarrow> nat \<Rightarrow> bool" where
  "observable nst out L \<longleftrightarrow> list_all (\<lambda>d. \<not> silent nst out L d) [1..<nst]"

lemma silent_mono: "silent nst out n d \<Longrightarrow> m \<le> n \<Longrightarrow> silent nst out m d"
proof (induction nst out n d arbitrary: m rule: silent.induct)
  case (2 nst out n d)
  then show ?case by (cases m) auto
qed simp

lemma conj_xor: "p AND (a XOR b) = (p AND a) XOR (p AND b)" for p a b :: nat
  by (rule bit_eqI) (auto simp: bit_simps)

lemma word_xor: "(word_of_nat (a XOR b) :: 64 word) = word_of_nat a XOR word_of_nat b"
  by (rule bit_word_eqI) (simp add: bit_simps)

lemma code_output_xor:
  assumes "code_output p1 p2 a = code_output p1 p2 b" shows "code_output p1 p2 (a XOR b) = 0"
proof -
  have bits: "parity w = 0 \<or> parity w = 1" for w using parity_le [of w] by (cases "parity w") auto
  let ?p = "\<lambda>q x. parity (word_of_nat (q AND x))"
  have "?p p1 a = ?p p1 b" "?p p2 a = ?p p2 b"
    using assms bits [of "word_of_nat (p1 AND a)"] bits [of "word_of_nat (p1 AND b)"]
      bits [of "word_of_nat (p2 AND a)"] bits [of "word_of_nat (p2 AND b)"] unfolding code_output_def by auto
  then have "?p p1 (a XOR b) = 0" "?p p2 (a XOR b) = 0"
    unfolding conj_xor word_xor parity_xor by simp_all
  then show ?thesis by (simp add: code_output_def)
qed

lemma xor_half: "(a XOR b) div 2 = (a div 2) XOR (b div 2)" for a b :: nat
  using drop_bit_xor [of 1 a b] by (simp add: drop_bit_eq_div)

lemma xor_state: "(a XOR b) mod 2 ^ q = (a mod 2 ^ q) XOR (b mod 2 ^ q)" for a b :: nat
  using take_bit_xor [of q a b] by (simp add: take_bit_eq_mod)

text \<open>The difference of two paths with the same outputs is silent.\<close>

lemma silent_step:
  assumes out: "out = map (code_output p1 p2) [0..<2 * 2 ^ q]"
    and s: "s < 2 * 2 ^ q" "u < 2 * 2 ^ q" "out ! s = out ! u"
    and rest: "silent (2 ^ q) out n ((s mod 2 ^ q) XOR (u mod 2 ^ q))"
  shows "silent (2 ^ q) out (Suc n) ((s div 2) XOR (u div 2))"
proof -
  let ?x = "s XOR u" and ?d = "(s div 2) XOR (u div 2)"
  have "?x mod 2 ^ Suc q = ?x" unfolding xor_state using s(1,2) by simp
  then have lt: "?x < 2 ^ Suc q" by (metis mod_less_divisor zero_less_numeral zero_less_power)
  then have "?x < 2 * 2 ^ q" by simp
  moreover have "code_output p1 p2 s = code_output p1 p2 u" using s unfolding out by simp
  ultimately have z: "out ! ?x = 0" using code_output_xor unfolding out by simp
  have "?x = 2 * ?d + ?x mod 2" using xor_half [of s u] by (metis mult_div_mod_eq)
  then have "?x = 2 * ?d \<or> ?x = 2 * ?d + 1" by (cases "?x mod 2 = 0") auto
  then show ?thesis using z rest unfolding xor_state [symmetric] by (elim disjE) simp_all
qed

lemma xor_zero_eq: "a XOR b = 0 \<longleftrightarrow> a = b" for a b :: nat
proof
  assume "a XOR b = 0"
  then have "bit (a XOR b) i = False" for i by simp
  then show "a = b" by (intro bit_eqI) (auto simp: bit_xor_iff)
qed simp

lemma xor_state_less:
  fixes a b :: nat
  assumes "a < 2 ^ q" "b < 2 ^ q" shows "a XOR b < 2 ^ q"
proof -
  have "(a XOR b) mod 2 ^ q = a XOR b" unfolding xor_state using assms by simp
  then show ?thesis by (metis mod_less_divisor zero_less_numeral zero_less_power)
qed

lemma chain_best:
  assumes "sender nst out syms n r" "i < n" "z < nst" "mrow nst out syms (Suc i) ! z = best_sum out syms r (Suc i)" "j \<le> i"
  shows "chain nst out syms i z j < nst \<and>
    mrow nst out syms (Suc (i - j)) ! chain nst out syms i z j = best_sum out syms r (Suc (i - j))"
  using assms(5)
proof (induction j)
  case (Suc j)
  let ?m = "chain nst out syms i z j"
  have m: "?m < nst" "mrow nst out syms (Suc (i - j)) ! ?m = best_sum out syms r (Suc (i - j))" "i - j < n"
    using Suc assms(2) by auto
  have e: "Suc (i - Suc j) = i - j" using Suc.prems by simp
  from survivor [OF assms(1) m(3,1,2)] obtain s where "s < 2 * nst" "s div 2 = hrow nst out syms (i - j) ! ?m"
    "mrow nst out syms (i - j) ! (s div 2) = best_sum out syms r (i - j)" by blast
  then show ?case unfolding e by auto
qed (use assms in simp)

lemma chain_silent:
  assumes snd: "sender (2 ^ q) out syms n r" and i: "i < n" and z: "z < 2 ^ q"
    "mrow (2 ^ q) out syms (Suc i) ! z = best_sum out syms r (Suc i)"
    and out: "out = map (code_output p1 p2) [0..<2 * 2 ^ q]" and j: "j \<le> i"
  shows "silent (2 ^ q) out j (chain (2 ^ q) out syms i z j XOR (r (i - j) mod 2 ^ q))"
  using j
proof (induction j)
  case (Suc j)
  let ?m = "chain (2 ^ q) out syms i z j" and ?u = "r (i - j)"
  have m: "?m < 2 ^ q" "mrow (2 ^ q) out syms (Suc (i - j)) ! ?m = best_sum out syms r (Suc (i - j))"
    using chain_best [OF snd i z, of j] Suc.prems by auto
  have t: "i - j < n" using i by simp
  have u: "?u < 2 * 2 ^ q" "?u div 2 = r (i - Suc j) mod 2 ^ q"
  proof -
    have e: "Suc (i - Suc j) = i - j" using Suc.prems by simp
    show "?u < 2 * 2 ^ q" using snd t by (auto simp: sender_def)
    have "Suc (i - Suc j) < n" using e t by simp
    then have "r (Suc (i - Suc j)) div 2 = r (i - Suc j) mod 2 ^ q" using snd unfolding sender_def by blast
    then show "?u div 2 = r (i - Suc j) mod 2 ^ q" unfolding e .
  qed
  obtain s where s: "s < 2 * 2 ^ q" "s mod 2 ^ q = ?m" "s div 2 = hrow (2 ^ q) out syms (i - j) ! ?m" "out ! s = out ! ?u"
    using survivor [OF snd t m] by blast
  have "silent (2 ^ q) out (Suc j) ((s div 2) XOR (?u div 2))"
    by (rule silent_step [OF out s(1) u(1) s(4)]) (use Suc s(2) in simp)
  then show ?case using s(3) u(2) by simp
qed simp

text \<open>Far enough back the survivor is the path of the sender.\<close>

lemma chain_sender:
  assumes snd: "sender (2 ^ q) out syms n r" and i: "i < n" and z: "z < 2 ^ q"
    "mrow (2 ^ q) out syms (Suc i) ! z = best_sum out syms r (Suc i)"
    and out: "out = map (code_output p1 p2) [0..<2 * 2 ^ q]" and obs: "observable (2 ^ q) out L"
    and j: "L \<le> j" "j \<le> i"
  shows "chain (2 ^ q) out syms i z j = r (i - j) mod 2 ^ q"
proof -
  let ?d = "chain (2 ^ q) out syms i z j XOR (r (i - j) mod 2 ^ q)"
  have "silent (2 ^ q) out L ?d" using silent_mono [OF chain_silent [OF snd i z out j(2)] j(1)] .
  moreover have "?d < 2 ^ q" using chain_best [OF snd i z j(2)] by (intro xor_state_less) auto
  ultimately have "?d = 0" using obs unfolding observable_def list_all_iff by (cases "?d = 0") (auto simp: Suc_le_eq)
  then show ?thesis by (simp only: xor_zero_eq)
qed

lemma best_state_sender:
  assumes snd: "sender nst out syms n r" and i: "i < n" "n \<le> 2 ^ 22"
    and z: "z = snd (best_state (mrow nst out syms (Suc i)) nst)"
  shows "z < nst" "mrow nst out syms (Suc i) ! z = best_sum out syms r (Suc i)"
proof -
  let ?row = "mrow nst out syms (Suc i)"
  have nst: "0 < nst" "code_table nst out" using snd by (auto simp: sender_def code_table_def)
  have "INT_MIN < ?row ! m" if "m < nst" for m
  proof -
    have "\<forall>j<Suc i. byte_pair (syms ! j)" using snd i by (auto simp: sender_def agrees_def)
    then have "\<bar>?row ! m\<bar> \<le> 256 * int (Suc i)" by (rule mrow_bound [OF nst(2) _ that])
    then show ?thesis using i by (simp add: INT_MIN_def del: mrow.simps)
  qed
  note b = best_state_max [of nst ?row, OF _ nst(1)]
  then show "z < nst" using z \<open>\<And>m. m < nst \<Longrightarrow> INT_MIN < ?row ! m\<close> by blast
  then have "?row ! z \<le> best_sum out syms r (Suc i)" using mrow_le_best [OF snd, of "Suc i" z] i by simp
  moreover have "?row ! (r i mod nst) \<le> ?row ! z"
    using b \<open>\<And>m. m < nst \<Longrightarrow> INT_MIN < ?row ! m\<close> nst(1) unfolding z by (metis mod_less_divisor)
  moreover have "?row ! (r i mod nst) = best_sum out syms r (Suc i)" by (rule mrow_sender [OF snd i(1)])
  ultimately show "?row ! z = best_sum out syms r (Suc i)" by simp
qed

section \<open>The encoder as a sender\<close>

fun enc_stream :: "bool list \<Rightarrow> encoder \<Rightarrow> nat list" where
  "enc_stream [] e = []"
| "enc_stream (b # bs) e = (let (o1, e) = enc_encode b e in o1 # enc_stream bs e)"

text \<open>The register after some bits.\<close>

definition register :: "32 word \<Rightarrow> bool list \<Rightarrow> 32 word" where
  "register s bs = foldl (\<lambda>s b. push_bit 1 s OR of_bool b) s bs"

lemma unat_push_bit_mod: "unat (push_bit 1 s OR of_bool b :: 32 word) mod 2 ^ n = (2 * unat s + of_bool b) mod 2 ^ n" if "n \<le> 32"
proof -
  have "push_bit 1 s OR of_bool b = 2 * s + of_bool b"
    by (cases b) (simp_all add: or_one_eq)
  then have e: "unat (push_bit 1 s OR of_bool b :: 32 word) = (2 * unat s + of_bool b) mod 2 ^ 32"
    by (cases b) (simp_all add: unat_word_ariths mod_Suc_eq mult.commute)
  show ?thesis unfolding e by (rule mod_mod_cancel) (rule le_imp_power_dvd [OF that])
qed

lemma unat_low_bits: "unat (s AND (2 ^ k - 1) :: 32 word) = unat s mod 2 ^ k"
proof -
  have e: "s AND (2 ^ k - 1) = take_bit k s" by (simp only: take_bit_eq_mask mask_eq_exp_minus_1)
  show ?thesis unfolding e unsigned_take_bit_eq by (rule take_bit_eq_mod)
qed

lemma enc_stream_register:
  assumes "enc_output e = out" "shregmask e = 2 ^ k - 1" "k \<le> 32"
  shows "enc_stream bs e = map (\<lambda>t. out ! (unat (register (shreg e) (take (Suc t) bs)) mod 2 ^ k)) [0..<length bs]"
  using assms(1,2)
proof (induction bs arbitrary: e)
  case (Cons b bs)
  let ?s = "push_bit 1 (shreg e) OR of_bool b"
  have "enc_stream (b # bs) e = out ! (unat ?s mod 2 ^ k) # enc_stream bs (e\<lparr>shreg := ?s\<rparr>)"
    using Cons.prems by (simp add: enc_encode_def Let_def unat_low_bits)
  also have "enc_stream bs (e\<lparr>shreg := ?s\<rparr>) =
      map (\<lambda>t. out ! (unat (register ?s (take (Suc t) bs)) mod 2 ^ k)) [0..<length bs]"
    using Cons.IH [of "e\<lparr>shreg := ?s\<rparr>"] Cons.prems by simp
  also have "\<dots> = map (\<lambda>t. out ! (unat (register (shreg e) (take (Suc (Suc t)) (b # bs))) mod 2 ^ k)) [0..<length bs]"
    by (simp add: register_def)
  finally show ?case
    by (simp add: upt_conv_Cons register_def comp_def flip: map_Suc_upt del: upt_Suc)
qed simp

lemma register_snoc: "register s (bs @ [b]) = push_bit 1 (register s bs) OR of_bool b"
  by (simp add: register_def)

text \<open>What the register holds after bit \<open>t\<close>.\<close>

definition content :: "nat \<Rightarrow> 32 word \<Rightarrow> bool list \<Rightarrow> nat \<Rightarrow> nat" where
  "content k s bs t = unat (register s (take (Suc t) bs)) mod 2 ^ k"

lemma content_shift:
  assumes "t < length bs" "k \<le> 32"
  shows "content k s bs t = (2 * unat (register s (take t bs)) + of_bool (bs ! t)) mod 2 ^ k"
  using assms unat_push_bit_mod [OF assms(2)] by (simp add: content_def take_Suc_conv_app_nth register_snoc)

lemma content_state:
  assumes "Suc t < length bs" "Suc q \<le> 32"
  shows "content (Suc q) s bs (Suc t) div 2 = content (Suc q) s bs t mod 2 ^ q"
proof -
  let ?u = "unat (register s (take (Suc t) bs))"
  have "content (Suc q) s bs (Suc t) div 2 = (2 * ?u + of_bool (bs ! Suc t)) mod (2 * 2 ^ q) div 2"
    using content_shift [OF assms] by simp
  also have "\<dots> = ?u mod 2 ^ q" by (cases "bs ! Suc t") (simp_all add: mod_mult2_eq)
  also have "\<dots> = content (Suc q) s bs t mod 2 ^ q" by (simp add: content_def mod_mod_cancel le_imp_power_dvd)
  finally show ?thesis .
qed

lemma content_bit:
  assumes "t < length bs" "Suc q \<le> 32" "1 \<le> q"
  shows "odd (content (Suc q) s bs t mod 2 ^ q) \<longleftrightarrow> bs ! t"
proof -
  have "2 dvd (2 :: nat) ^ q" "2 dvd (2 :: nat) ^ Suc q" using assms(3) by simp_all
  then have "odd (content (Suc q) s bs t mod 2 ^ q) = odd (2 * unat (register s (take t bs)) + of_bool (bs ! t))"
    unfolding content_shift [OF assms(1,2)] by (metis dvd_mod_iff)
  then show ?thesis by simp
qed

lemma encoder_sender:
  assumes out: "out = map (code_output p1 p2) [0..<2 * 2 ^ q]" and q: "Suc q \<le> 32"
    and e: "enc_output e = out" "shregmask e = 2 ^ Suc q - 1"
    and syms: "list_all2 agrees (enc_stream bs e) syms"
  shows "sender (2 ^ q) out syms (length bs) (content (Suc q) (shreg e) bs)"
proof -
  have "agrees (out ! content (Suc q) (shreg e) bs t) (syms ! t)" if "t < length bs" for t
    using list_all2_nthD [OF syms, of t] that
    unfolding enc_stream_register [OF e q] content_def by simp
  moreover have "content (Suc q) (shreg e) bs t < 2 * 2 ^ q" for t by (simp add: content_def)
  moreover have "code_table (2 ^ q) out" using code_output_le unfolding out code_table_def by auto
  ultimately show ?thesis unfolding sender_def using content_state [OF _ q] by blast
qed

section \<open>From a new decoder\<close>

text \<open>A decoder as the modems make it: constructed, then the traceback and the chunk set.\<close>

definition decoder :: "nat \<Rightarrow> nat \<Rightarrow> nat \<Rightarrow> int \<Rightarrow> int \<Rightarrow> viterbi" where
  "decoder k p1 p2 T c = snd (setchunksize c (snd (settraceback T (viterbi_new k p1 p2))))"

lemma decoder_fields:
  assumes "0 < c" "c \<le> T" "T \<le> 255"
  shows "traceback_len (decoder k p1 p2 (int T) (int c)) = T" "chunksize (decoder k p1 p2 (int T) (int c)) = c"
    "ring_ok (2 ^ (k - 1)) (map (code_output p1 p2) [0..<2 ^ k]) syms 0 (decoder k p1 p2 (int T) (int c))"
  using assms prev_slot_mod [of 0]
  by (simp_all add: decoder_def setchunksize_def settraceback_def viterbi_new_def viterbi_reset_def ring_ok_def PATHMEM_def
    del: upt_Suc)

text \<open>The state before pair \<open>i\<close>.\<close>

lemma ring_ok_run:
  assumes "code_table nst out" "\<forall>sy \<in> set syms. byte_pair sy" "length syms < 2 ^ 22" "ring_ok nst out syms 0 v"
    and "i \<le> length syms"
  shows "ring_ok nst out syms i (fold vstep (take i syms) v) \<and>
    traceback_len (fold vstep (take i syms) v) = traceback_len v \<and> chunksize (fold vstep (take i syms) v) = chunksize v"
  using assms(5)
proof (induction i)
  case (Suc i)
  let ?v = "fold vstep (take i syms) v"
  have IH: "ring_ok nst out syms i ?v" "traceback_len ?v = traceback_len v" "chunksize ?v = chunksize v"
    using Suc by auto
  have "fold vstep (take (Suc i) syms) v = vstep (syms ! i) ?v"
    using Suc.prems by (simp add: take_Suc_conv_app_nth)
  moreover have "\<forall>j\<le>i. byte_pair (syms ! j)" using assms(2) Suc.prems by simp
  ultimately show ?case using ring_ok_step [OF IH(1) assms(1)] IH(2,3) assms(3) Suc.prems by simp
qed (use assms in simp)

text \<open>Sender and receiver of a clean stream.\<close>

definition clean_link :: "nat \<Rightarrow> nat \<Rightarrow> nat \<Rightarrow> 32 word \<Rightarrow> bool list \<Rightarrow> (nat \<times> nat) list \<Rightarrow> bool" where
  "clean_link k p1 p2 s bs syms \<longleftrightarrow>
     list_all2 agrees (enc_stream bs ((encoder_new k p1 p2)\<lparr>shreg := s\<rparr>)) syms"

definition code_seen :: "nat \<Rightarrow> nat \<Rightarrow> nat \<Rightarrow> nat \<Rightarrow> bool" where
  "code_seen k p1 p2 L \<longleftrightarrow> observable (2 ^ (k - 1)) (map (code_output p1 p2) [0..<2 ^ k]) L"

lemma length_enc_stream [simp]: "length (enc_stream bs e) = length bs"
  by (induction bs arbitrary: e) (simp_all add: case_prod_beta Let_def)

lemma link_state:
  assumes k: "2 \<le> k" "k \<le> 32" and link: "clean_link k p1 p2 s bs syms" and len: "length bs < 2 ^ 22"
    and c: "0 < c" "c \<le> T" "T \<le> 255" and i: "i \<le> length bs"
  shows "sender (2 ^ (k - 1)) (map (code_output p1 p2) [0..<2 * 2 ^ (k - 1)]) syms (length bs) (content k s bs)"
    "ring_ok (2 ^ (k - 1)) (map (code_output p1 p2) [0..<2 * 2 ^ (k - 1)]) syms i
       (fold vstep (take i syms) (decoder k p1 p2 (int T) (int c)))"
    "traceback_len (fold vstep (take i syms) (decoder k p1 p2 (int T) (int c))) = T"
    "chunksize (fold vstep (take i syms) (decoder k p1 p2 (int T) (int c))) = c"
proof -
  obtain q where q: "k = Suc q" "1 \<le> q" using k(1) by (cases k) auto
  let ?out = "map (code_output p1 p2) [0..<2 * 2 ^ q]" and ?nst = "2 ^ q"
  let ?v = "fold vstep (take i syms) (decoder k p1 p2 (int T) (int c))"
  let ?e = "(encoder_new k p1 p2)\<lparr>shreg := s\<rparr>"
  have n: "length syms = length bs" using link by (auto simp: clean_link_def dest: list_all2_lengthD)
  have "sender ?nst ?out syms (length bs) (content (Suc q) (shreg ?e) bs)"
    by (rule encoder_sender [OF refl]) (use k(2) link q(1) in \<open>simp_all add: clean_link_def encoder_new_def\<close>)
  then show snd: "sender (2 ^ (k - 1)) (map (code_output p1 p2) [0..<2 * 2 ^ (k - 1)]) syms (length bs) (content k s bs)"
    using q(1) by simp
  have bytes: "\<forall>sy \<in> set syms. byte_pair sy"
    using snd n unfolding sender_def agrees_def by (metis in_set_conv_nth)
  have table: "code_table ?nst ?out" using snd q(1) by (simp add: sender_def)
  have "ring_ok ?nst ?out syms 0 (decoder k p1 p2 (int T) (int c))" using decoder_fields(3) [OF c, of k p1 p2] q(1) by simp
  from ring_ok_run [OF table bytes _ this, of i] len n i
  have v: "ring_ok ?nst ?out syms i ?v" "traceback_len ?v = T" "chunksize ?v = c"
    using decoder_fields(1,2) [OF c] by auto
  then show "ring_ok (2 ^ (k - 1)) (map (code_output p1 p2) [0..<2 * 2 ^ (k - 1)]) syms i ?v" using q(1) by simp
  show "traceback_len ?v = T" "chunksize ?v = c" by (fact v)+
qed

lemma decoded_chunk:
  assumes k: "2 \<le> k" "k \<le> 32" and seen: "code_seen k p1 p2 L" and link: "clean_link k p1 p2 s bs syms"
    and len: "length bs < 2 ^ 22"
    and c: "0 < c" "L + c \<le> T + 1" "c \<le> T" "T \<le> 255" and i: "T \<le> i" "i < length bs" "(Suc i mod 256) mod c = 0"
  shows "fst (decode_sym (syms ! i) (fold vstep (take i syms) (decoder k p1 p2 (int T) (int c)))) =
    sint (pack_chunk (take c (drop (i - T) bs)))"
proof -
  obtain q where q: "k = Suc q" "1 \<le> q" using k(1) by (cases k) auto
  let ?out = "map (code_output p1 p2) [0..<2 * 2 ^ q]" and ?nst = "2 ^ q"
  let ?v = "fold vstep (take i syms) (decoder k p1 p2 (int T) (int c))"
  let ?r = "content (Suc q) s bs"
  have i': "i \<le> length bs" using i(2) by simp
  note st = link_state [OF k link len c(1,3,4) i']
  have snd: "sender ?nst ?out syms (length bs) ?r" using st(1) q(1) by simp
  have v: "ring_ok ?nst ?out syms i ?v" "traceback_len ?v = T" "chunksize ?v = c" using st(2-4) q(1) by simp_all
  define z where "z = snd (best_state (mrow ?nst ?out syms (Suc i)) ?nst)"
  have obs: "observable ?nst ?out L" using seen q(1) by (simp add: code_seen_def)
  have lim: "length bs \<le> 2 ^ 22" using len by simp
  note z = best_state_sender [OF snd i(2) lim z_def]
  have "odd (chain ?nst ?out syms i z (T - j)) = take c (drop (i - T) bs) ! j" if j: "j < c" for j
  proof -
    have "chain ?nst ?out syms i z (T - j) = ?r (i - (T - j)) mod ?nst"
      by (rule chain_sender [OF snd i(2) z refl obs]) (use c i(1) j in auto)
    moreover have "i - (T - j) = i - T + j" using c(3) i(1) j by simp
    moreover have "i - T + j < length bs" using c(3) i(1,2) j by simp
    ultimately show ?thesis using content_bit [of "i - T + j" bs q s] k(2) q j i by simp
  qed
  then have "map (\<lambda>j. odd (chain ?nst ?out syms i z (T - j))) [0..<c] = take c (drop (i - T) bs)"
    using c(3) i(1,2) by (intro nth_equalityI) auto
  moreover have "fst (decode_sym (syms ! i) ?v) = sint (pack_chunk (map (\<lambda>j. odd (chain ?nst ?out syms i z (T - j))) [0..<c]))"
    using decode_chunk [OF v(1) _ _ _ _ z_def] v(2,3) i c by simp
  ultimately show ?thesis by simp
qed

section \<open>Chunks as bits\<close>

lemma bit_pack_chunk:
  "length bs \<le> 31 \<Longrightarrow> uint (pack_chunk bs) < 2 ^ length bs \<and> (\<forall>i. bit (pack_chunk bs) i \<longleftrightarrow> i < length bs \<and> bs ! (length bs - 1 - i))"
proof (induction bs rule: rev_induct)
  case Nil
  show ?case by (simp add: pack_chunk_def)
next
  case (snoc b bs)
  let ?w = "pack_chunk bs"
  have p: "pack_chunk (bs @ [b]) = push_bit 1 ?w OR of_bool b" by (simp add: pack_chunk_def)
  have IH: "uint ?w < 2 ^ length bs" "bit ?w i \<longleftrightarrow> i < length bs \<and> bs ! (length bs - 1 - i)" for i using snoc by auto
  have "bit (pack_chunk (bs @ [b])) i \<longleftrightarrow> i < Suc (length bs) \<and> (bs @ [b]) ! (length bs - i)" for i
  proof (cases i)
    case 0 then show ?thesis unfolding p by (simp only: bit_or_iff bit_push_bit_iff) (simp add: bit_0)
  next
    case (Suc j)
    then have "bit (pack_chunk (bs @ [b])) i \<longleftrightarrow> Suc j < 32 \<and> bit ?w j"
      unfolding p by (simp only: bit_or_iff bit_push_bit_iff) (auto simp: bit_of_bool_iff)
    also have "\<dots> \<longleftrightarrow> i < Suc (length bs) \<and> (bs @ [b]) ! (length bs - i)"
      using IH(2) [of j] snoc.prems Suc by (auto simp: nth_append)
    finally show ?thesis .
  qed
  moreover have "uint (pack_chunk (bs @ [b])) < 2 ^ Suc (length bs)"
  proof -
    have "push_bit 1 ?w OR of_bool b = 2 * ?w + of_bool b" by (cases b) (simp_all add: or_one_eq)
    moreover have "uint (2 * ?w + of_bool b) \<le> 2 * uint ?w + of_bool b"
    proof -
      have "uint (2 * ?w) \<le> 2 * uint ?w" unfolding mult_2 by (rule uint_add_le)
      moreover have "uint (of_bool b :: 32 word) = of_bool b" by (cases b) simp_all
      ultimately show ?thesis using uint_add_le [of "2 * ?w" "of_bool b"] by linarith
    qed
    ultimately have "uint (pack_chunk (bs @ [b])) \<le> 2 * uint ?w + of_bool b" unfolding p by (simp only:)
    moreover have "(of_bool b :: int) \<le> 1" by simp
    moreover have "(2 :: int) ^ Suc (length bs) = 2 * 2 ^ length bs" by simp
    ultimately show ?thesis using IH(1) by linarith
  qed
  ultimately show ?case by simp
qed

lemma sint_pack_chunk:
  assumes "length bs \<le> 31"
  shows "sint (pack_chunk bs) = uint (pack_chunk bs)"
proof -
  have "uint (pack_chunk bs) < 2 ^ length bs" using bit_pack_chunk [OF assms] by blast
  also have "\<dots> \<le> 2 ^ 31" using assms by (intro power_increasing) simp_all
  finally show ?thesis unfolding sint_uint by (intro signed_take_bit_int_eq_self order.trans [OF _ uint_ge_0]) simp_all
qed

text \<open>How the modems take a chunk apart: \<^verbatim>\<open>rx_bit(c & 0x08)\<close> and so on.\<close>

definition chunk_parts :: "nat \<Rightarrow> int \<Rightarrow> bool list" where
  "chunk_parts n c = (if c = -1 then [] else map (\<lambda>j. bit c (n - 1 - j)) [0..<n])"

lemma chunk_parts_pack:
  assumes "length bs \<le> 31"
  shows "chunk_parts (length bs) (sint (pack_chunk bs)) = bs"
proof -
  have n: "sint (pack_chunk bs) \<noteq> -1" unfolding sint_pack_chunk [OF assms] using uint_ge_0 [of "pack_chunk bs"] by linarith
  have pack_at: "bit (pack_chunk bs) i \<longleftrightarrow> i < length bs \<and> bs ! (length bs - 1 - i)" for i
    using bit_pack_chunk [OF assms] by blast
  have h: "bit (sint (pack_chunk bs)) (length bs - 1 - j) \<longleftrightarrow> bs ! j" if "j < length bs" for j
  proof -
    have "bit (sint (pack_chunk bs)) (length bs - 1 - j) \<longleftrightarrow> bit (pack_chunk bs) (length bs - 1 - j)"
      unfolding sint_pack_chunk [OF assms] bit_uint_iff using that assms by auto
    also have "\<dots> \<longleftrightarrow> bs ! (length bs - 1 - (length bs - 1 - j))" 
      using that by (simp only: pack_at) auto
    also have "length bs - 1 - (length bs - 1 - j) = j" using that by simp
    finally show ?thesis .
  qed
  have "map (\<lambda>j. bit (sint (pack_chunk bs)) (length bs - 1 - j)) [0..<length bs] = map (\<lambda>j. bs ! j) [0..<length bs]"
    by (rule map_cong [OF refl]) (rule h, simp)
  then have "map (\<lambda>j. bit (sint (pack_chunk bs)) (length bs - 1 - j)) [0..<length bs] = bs"
    by (simp only: map_nth)
  then show ?thesis using n unfolding chunk_parts_def by (simp only: if_False)
qed

text \<open>The bits a decoder hands on.\<close>

fun decoded :: "nat \<Rightarrow> (nat \<times> nat) list \<Rightarrow> viterbi \<Rightarrow> bool list" where
  "decoded n [] v = []"
| "decoded n (sy # syms) v = (let (c, m, w) = decode_sym sy v in chunk_parts n c @ decoded n syms w)"

lemma decoded_append: "decoded n (xs @ ys) v = decoded n xs v @ decoded n ys (fold vstep xs v)"
  by (induction xs arbitrary: v) (simp_all add: vstep_def case_prod_beta Let_def)

lemma traceback_pack: "\<exists>bs. length bs = chunksize v \<and> fst (traceback v) = sint (pack_chunk bs)"
proof -
  let ?p = "prev_slot (ptr v)"
  let ?t = "trace_steps (traceback_len v) (history v) ?p ((states_seq v)[?p := snd (best_state (metrics v ! ?p) (nstates v))])"
  let ?bs = "map (\<lambda>j. odd (snd ?t ! ((fst ?t + j) mod 256))) [0..<chunksize v]"
  have "trace_steps n hist p sq = (fst (trace_steps n hist p sq) mod 256, snd (trace_steps n hist p sq))" if "p < 256" for n hist p sq
    using that by (induction n hist p sq rule: trace_steps.induct) (simp_all add: prev_slot_def PATHMEM_def)
  moreover have "?p < 256" by (simp add: prev_slot_def PATHMEM_def)
  ultimately have "?t = (fst ?t mod 256, snd ?t)" by blast
  then have "chunk_bits (chunksize v) (snd ?t) (fst ?t) 0 = ((fst ?t + chunksize v) mod 256, pack_chunk ?bs)"
    using chunk_bits_fold [of "chunksize v" "snd ?t" "fst ?t" 0] by (simp add: pack_chunk_def prod_eq_iff)
  then have "fst (traceback v) = sint (pack_chunk ?bs)" by (simp add: traceback_def Let_def case_prod_beta)
  then show ?thesis by (intro exI [of _ ?bs]) simp
qed

text \<open>Between chunks the decoder hands on nothing.\<close>

lemma decode_sym_result:
  assumes "ptr v < 256" 
  shows "if (Suc (ptr v) mod 256) mod chunksize v = 0
    then \<exists>bs. length bs = chunksize v \<and> fst (decode_sym sy v) = sint (pack_chunk bs) else fst (decode_sym sy v) = -1"
proof -
  have "ptr (enter_row sy v) = Suc (ptr v) mod 256" "chunksize (enter_row sy v) = chunksize v"
    by (simp_all add: enter_row_def Let_def PATHMEM_def)
  then show ?thesis using traceback_pack [of "enter_row sy v"] by (simp add: decode_sym_enter Let_def case_prod_beta)
qed

section \<open>The stream of decoded bits\<close>

lemma decoded_upto:
  assumes "n \<le> length syms"
  shows "decoded c (take n syms) v =
    concat (map (\<lambda>i. chunk_parts c (fst (decode_sym (syms ! i) (fold vstep (take i syms) v)))) [0..<n])"
  using assms by (induction n) (simp_all add: take_Suc_conv_app_nth decoded_append case_prod_beta Let_def)

text \<open>A list cut into chunks of which all but every \<open>c\<close>-th is empty.\<close>

lemma concat_periodic:
  fixes f :: "nat \<Rightarrow> bool list"
  assumes "0 < c" "\<And>i. i < m * c \<Longrightarrow> Suc i mod c \<noteq> 0 \<Longrightarrow> f i = []"
  shows "concat (map f [0..<m * c]) = concat (map (\<lambda>j. f (j * c + c - 1)) [0..<m])"
  using assms(2)
proof (induction m)
  case (Suc m)
  have "[0..<Suc m * c] = [0..<m * c] @ [m * c..<m * c + c]"
    by (metis add.commute mult_Suc upt_add_eq_append zero_le)
  moreover have "[m * c..<m * c + c] = [m * c..<m * c + (c - 1)] @ [m * c + c - 1]"
    using assms(1) upt_Suc_append [of "m * c" "m * c + (c - 1)"] by (cases c) simp_all
  moreover have "f i = []" if "i \<in> set [m * c..<m * c + (c - 1)]" for i
  proof -
    from that have "m * c \<le> i" "i - m * c < c - 1" by auto
    then obtain d where d: "i = m * c + d" "Suc d < c" by (metis Suc_diff_1 Suc_less_eq add_diff_inverse_nat assms(1) not_less)
    then have "Suc i mod c = Suc d" by (metis add_Suc_right mod_less mod_mult_self3)
    then show ?thesis using Suc.prems d by simp
  qed
  then have "concat (map f [m * c..<m * c + (c - 1)]) = []" by (simp add: concat_eq_Nil_conv)
  ultimately show ?case using Suc by simp
qed simp

lemma concat_slices:
  "j0 \<le> m \<Longrightarrow> concat (map (\<lambda>j. take c (drop (s0 + (j - j0) * c) bs)) [j0..<m]) = take ((m - j0) * c) (drop s0 bs)"
proof (induction m)
  case (Suc m)
  show ?case
  proof (cases "j0 = Suc m")
    case False
    then have j: "j0 \<le> m" "Suc m - j0 = Suc (m - j0)" using Suc.prems(1) by auto
    have e: "(Suc m - j0) * c = (m - j0) * c + c" using j(2) by simp
    have "take ((Suc m - j0) * c) (drop s0 bs) = take ((m - j0) * c) (drop s0 bs) @ take c (drop (s0 + (m - j0) * c) bs)"
      unfolding e take_add drop_drop by (simp only: add.commute)
    moreover have "concat (map (\<lambda>j. take c (drop (s0 + (j - j0) * c) bs)) [j0..<m]) = take ((m - j0) * c) (drop s0 bs)"
      by (rule Suc.IH [OF j(1)])
    ultimately show ?thesis using j(1) by simp
  qed simp
qed simp

lemma decoded_stream:
  assumes k: "2 \<le> k" "k \<le> 32" and seen: "code_seen k p1 p2 L" and link: "clean_link k p1 p2 s bs syms"
    and len: "length bs < 2 ^ 22" "c dvd length bs" "T < length bs"
    and c: "c dvd 256" "c \<le> 31" "L + c \<le> T + 1" "c \<le> T" "T \<le> 255"
  shows "\<exists>noise. length noise = T div c * c \<and>
    decoded c syms (decoder k p1 p2 (int T) (int c)) = noise @ take (length bs - T div c * c) (drop (c - 1 - T mod c) bs)"
proof -
  let ?v = "decoder k p1 p2 (int T) (int c)"
  let ?r = "\<lambda>i. fst (decode_sym (syms ! i) (fold vstep (take i syms) ?v))"
  let ?f = "\<lambda>i. chunk_parts c (?r i)"
  have c0: "0 < c" using c(1) by (cases c) auto
  obtain m where m: "length bs = m * c" using len(2) by (metis dvd_div_mult_self)
  have n: "length syms = length bs" using link by (auto simp: clean_link_def dest: list_all2_lengthD)
  have ring: "ptr (fold vstep (take i syms) ?v) = i mod 256 \<and> chunksize (fold vstep (take i syms) ?v) = c"
    if i: "i \<le> length bs" for i
    using link_state(2,4) [OF k link len(1) c0 c(4,5) i] by (simp add: ring_ok_def)
  have phase: "(Suc i mod 256) mod c = Suc i mod c" for i using c(1) by (simp add: mod_mod_cancel)
  have quiet: "?f i = []" if "i < m * c" "Suc i mod c \<noteq> 0" for i
    using decode_sym_result [of "fold vstep (take i syms) ?v" "syms ! i"] ring [of i] that m phase [of i]
    by (simp add: chunk_parts_def mod_Suc_eq)
  have "decoded c syms ?v = concat (map ?f [0..<m * c])" using decoded_upto [of "length syms" syms c ?v] n m by simp
  also have "\<dots> = concat (map (\<lambda>j. ?f (j * c + c - 1)) [0..<m])" by (rule concat_periodic [OF c0 quiet])
  finally have all: "decoded c syms ?v = concat (map (\<lambda>j. ?f (j * c + c - 1)) [0..<m])" .
  let ?j0 = "T div c"
  have "?j0 < m" using len(3) m by (simp add: less_mult_imp_div_less)
  then have split: "[0..<m] = [0..<?j0] @ [?j0..<m]" by (metis le_eq_less_or_eq le_add_diff_inverse upt_add_eq_append zero_le)
  have early: "length (?f (j * c + c - 1)) = c" if "j < m" for j
  proof -
    have "Suc (j * c + c - 1) = Suc j * c" using c0 by simp
    then have z: "Suc (j * c + c - 1) mod c = 0" by simp
    have "Suc j * c \<le> m * c" using that by (intro mult_le_mono1) simp
    then have l: "j * c + c - 1 \<le> length bs" using m by simp
    obtain bs' where "length bs' = c" "?r (j * c + c - 1) = sint (pack_chunk bs')"
      using decode_sym_result [of "fold vstep (take (j * c + c - 1) syms) ?v" "syms ! (j * c + c - 1)"] ring [OF l] z phase
      by (auto simp: mod_Suc_eq)
    then show ?thesis using chunk_parts_pack [of bs'] c(2) by simp
  qed
  have late: "?f (j * c + c - 1) = take c (drop (c - 1 - T mod c + (j - ?j0) * c) bs)" if j: "?j0 \<le> j" "j < m" for j
  proof -
    have s: "Suc (j * c + c - 1) = Suc j * c" using c0 by simp
    have "Suc j * c \<le> m * c" using j(2) by (intro mult_le_mono1) simp
    then have l: "j * c + c - 1 < length bs" using m s by simp
    have t: "T = ?j0 * c + T mod c" "T mod c < c" using c0 by simp_all
    have jc: "?j0 * c \<le> j * c" "(j - ?j0) * c = j * c - ?j0 * c" using j(1) by (simp_all add: diff_mult_distrib)
    then have T: "T \<le> j * c + c - 1" "j * c + c - 1 - T = c - 1 - T mod c + (j - ?j0) * c" using t by linarith+
    have "?r (j * c + c - 1) = sint (pack_chunk (take c (drop (j * c + c - 1 - T) bs)))"
      by (rule decoded_chunk [OF k seen link len(1) c0 c(3,4,5) T(1) l]) (unfold s mod_mod_cancel [OF c(1)], simp)
    moreover have "j * c + c - 1 - T + c \<le> length bs" using l c(4) by linarith
    then have "length (take c (drop (j * c + c - 1 - T) bs)) = c" by simp
    ultimately show ?thesis using chunk_parts_pack [of "take c (drop (j * c + c - 1 - T) bs)"] c(2) T(2) by simp
  qed
  have "concat (map (\<lambda>j. ?f (j * c + c - 1)) [?j0..<m]) = concat (map (\<lambda>j. take c (drop (c - 1 - T mod c + (j - ?j0) * c) bs)) [?j0..<m])"
    by (intro arg_cong [of _ _ concat] map_cong refl late) auto
  also have "\<dots> = take ((m - ?j0) * c) (drop (c - 1 - T mod c) bs)"
    by (rule concat_slices) (use \<open>?j0 < m\<close> in simp)
  finally have clean: "concat (map (\<lambda>j. ?f (j * c + c - 1)) [?j0..<m]) = take (length bs - T div c * c) (drop (c - 1 - T mod c) bs)"
    using m by (simp add: diff_mult_distrib)
  have "length (concat (map (\<lambda>j. ?f (j * c + c - 1)) [0..<?j0])) = ?j0 * c"
  proof -
    have "map length (map (\<lambda>j. ?f (j * c + c - 1)) [0..<?j0]) = replicate ?j0 c"
      using early \<open>?j0 < m\<close> by (intro nth_equalityI) auto
    then show ?thesis unfolding length_concat by (simp add: sum_list_replicate)
  qed
  moreover have "decoded c syms ?v = concat (map (\<lambda>j. ?f (j * c + c - 1)) [0..<?j0]) @
      take (length bs - T div c * c) (drop (c - 1 - T mod c) bs)"
    unfolding all split map_append concat_append clean ..
  ultimately show ?thesis by blast
qed

section \<open>The properties\<close>

text \<open>The codes of the modems: NASA's of MFSK, THOR, DominoEX and PSKR, and that of QPSK.\<close>

lemma code_seen_nasa: "code_seen 7 0x6d 0x4f 6"
  by code_simp

lemma code_seen_qpsk: "code_seen 5 0x17 0x19 4"
  by code_simp

text \<open>C8: a decoder that is fed soft bits on the right side of 128 hands on the bits that were
  encoded, in order and without a gap, from any state of the encoder: the first \<open>T div c\<close> chunks
  are noise (of the rings before the stream began); then follow the bits from
  \<open>c - 1 - T mod c\<close> on, up to the last complete traceback. The code must be observable in at most
  \<open>T - c + 1\<close> branches.\<close>

theorem viterbi_stream:
  assumes "2 \<le> k" "k \<le> 32" "code_seen k p1 p2 L" "clean_link k p1 p2 s bs syms"
    and "length bs < 2 ^ 22" "c dvd length bs" "T < length bs"
    and "c dvd 256" "c \<le> 31" "L + c \<le> T + 1" "c \<le> T" "T \<le> 255"
  shows "\<exists>noise. length noise = T div c * c \<and>
    decoded c syms (decoder k p1 p2 (int T) (int c)) = noise @ take (length bs - T div c * c) (drop (c - 1 - T mod c) bs)"
  by (rule decoded_stream [OF assms])

text \<open>C30: whatever soft bits arrive, every metric entered in the first \<open>2 ^ 22\<close> steps of a new
  decoder is at most 256 times the number of steps, so below \<open>2 ^ 30\<close>: until then no sum of the
  source overflows an \<^verbatim>\<open>int\<close>.\<close>

theorem viterbi_metrics_bounded:
  assumes "0 < c" "c \<le> T" "T \<le> 255" "0 < k" "\<forall>sy \<in> set syms. byte_pair sy" "length syms < 2 ^ 22"
    and "v = fold vstep syms (decoder k p1 p2 (int T) (int c))" "n < 2 ^ (k - 1)"
  shows "\<bar>metrics v ! prev_slot (ptr v) ! n\<bar> \<le> 256 * int (length syms)"
proof -
  obtain q where q: "k = Suc q" using assms(4) by (cases k) auto
  let ?out = "map (code_output p1 p2) [0..<2 * 2 ^ q]"
  have table: "code_table (2 ^ q) ?out" using code_output_le unfolding code_table_def by auto
  have "ring_ok (2 ^ q) ?out syms 0 (decoder k p1 p2 (int T) (int c))"
    using decoder_fields(3) [OF assms(1-3), of k p1 p2] q by simp
  from ring_ok_run [OF table assms(5,6) this, of "length syms"] assms(7)
  have "metrics v ! prev_slot (ptr v) = mrow (2 ^ q) ?out syms (length syms)" by (simp add: ring_ok_def)
  moreover have "\<bar>mrow (2 ^ q) ?out syms (length syms) ! n\<bar> \<le> 256 * int (length syms)"
    by (rule mrow_bound [OF table]) (use assms(5,8) q in auto)
  ultimately show ?thesis by simp
qed

lemma viterbi_metrics_bounded_witness:
  "\<bar>metrics (fold vstep [(0, 255), (130, 7)] (decoder 5 0x17 0x19 (int 60) (int 8))) !
     prev_slot (ptr (fold vstep [(0, 255), (130, 7)] (decoder 5 0x17 0x19 (int 60) (int 8)))) ! 3\<bar> \<le> 512"
  using viterbi_metrics_bounded [of 8 60 5 "[(0, 255), (130, 7)]"
      "fold vstep [(0, 255), (130, 7)] (decoder 5 0x17 0x19 (int 60) (int 8))" "0x17" "0x19" 3]
  by (simp add: byte_pair_def)

text \<open>Hard soft bits for a code.\<close>

definition hard_pair :: "nat \<Rightarrow> nat \<times> nat" where
  "hard_pair o1 = (if bit o1 0 then 255 else 0, if bit o1 1 then 255 else 0)"

lemma clean_hard: "clean_link k p1 p2 s bs (map hard_pair (enc_stream bs ((encoder_new k p1 p2)\<lparr>shreg := s\<rparr>)))"
  by (simp add: clean_link_def list_all2_map2 list_all2_same agrees_def hard_pair_def byte_pair_def)

lemma viterbi_stream_witness:
  "\<exists>noise. length noise = 56 \<and>
    decoded 8 (map hard_pair (enc_stream (replicate 40 True @ replicate 40 False) ((encoder_new 5 0x17 0x19)\<lparr>shreg := 9\<rparr>)))
      (decoder 5 0x17 0x19 (int 60) (int 8)) = noise @ replicate 24 True"
proof -
  have "drop 3 (replicate 40 True @ replicate 40 False) = replicate 37 True @ replicate 40 False" by simp
  then have "take 24 (drop 3 (replicate 40 True @ replicate 40 False)) = replicate 24 True" by simp
  then show ?thesis
    using viterbi_stream [OF _ _ code_seen_qpsk clean_hard, of "replicate 40 True @ replicate 40 False" 8 60 9] by simp
qed

end
