(* ===== verification/Psk_Fec.thy ===== *)
theory Psk_Fec
  imports Varicode_Laws Viterbi_Laws Interleave
begin

text \<open>
  The PSK modes with forward error correction (\<^verbatim>\<open>psk/psk.cxx\<close>): from the bits of the
  varicode through the convolutional encoder (and, except in PSK63F, the interleaver) to symbols, and
  from received symbols through two decoders, one half a pair late, or the one of QPSK, back to bits.
  The theorems put varicode, encoder and decoder together: what is typed is printed. What lies between
  the symbol sent and the symbol received (carrier, filters, soft decision, all in floating point) is a
  hypothesis.
\<close>

unbundle bit_operations_syntax

section \<open>PSKR and PSK63F\<close>

text \<open>\<^verbatim>\<open>tx_bit\<close>, the branch of the PSKR modes: symbols 0 and 2.\<close>

definition tx_bit_pskr :: "bool \<Rightarrow> bool \<Rightarrow> encoder \<times> interleave \<Rightarrow> nat list \<times> encoder \<times> interleave" where
  "tx_bit_pskr psk63f b = (\<lambda>(enc, inlv). (let
     (o1, enc) = enc_encode b enc;
     (o1, inlv) = (if psk63f then (o1, inlv) else let (w, inlv) = il_bits (word_of_nat o1) inlv in (unat w, inlv))
     in ([push_bit 1 (o1 AND 1), o1 AND 2], enc, inlv)))"

record pskr_rx =
  symbolpair :: "8 word \<times> 8 word"
  rxbitstate :: nat
  dec :: viterbi
  dec2 :: viterbi
  Rxinlv :: interleave
  Rxinlv2 :: interleave

text \<open>The pair of soft bits for the decoder, swapped.\<close>

definition soft_pair :: "8 word list \<Rightarrow> nat \<times> nat" where
  "soft_pair twosym = (unat (twosym ! 1), unat (twosym ! 0))"

text \<open>\<^verbatim>\<open>rx_pskr\<close>: the bits passed to \<^verbatim>\<open>rx_bit\<close> and those passed to
  \<^verbatim>\<open>rx_bit2\<close>. The flag \<open>ordered\<close> stands for the modes that know the order of their bits
  (XPSK, 16PSK and punctured 8PSK) and use one decoder. The averages of the two metrics are left out.\<close>

definition rx_pskr :: "bool \<Rightarrow> bool \<Rightarrow> 8 word \<Rightarrow> pskr_rx \<Rightarrow> bool list \<times> bool list \<times> pskr_rx" where
  "rx_pskr psk63f ordered sy st = (let
     pair = (sy, fst (symbolpair st));
     st = st\<lparr>symbolpair := pair\<rparr>;
     twosym = [fst pair, snd pair]
     in if rxbitstate st = 0 then
          if ordered then ([], [], st\<lparr>rxbitstate := 1\<rparr>) else let
          (twosym, inlv) = (if psk63f then (twosym, Rxinlv2 st) else symbols twosym (Rxinlv2 st));
          (c, m, d) = decode_sym (soft_pair twosym) (dec2 st)
          in ([], chunk_parts 4 c, st\<lparr>rxbitstate := 1, Rxinlv2 := inlv, dec2 := d\<rparr>)
        else let
          (twosym, inlv) = (if psk63f then (twosym, Rxinlv st) else symbols twosym (Rxinlv st));
          (c, m, d) = decode_sym (soft_pair twosym) (dec st)
          in (chunk_parts 4 c, [], st\<lparr>rxbitstate := 0, Rxinlv := inlv, dec := d\<rparr>))"

text \<open>The decoder the constructor makes for these modes.\<close>

definition pskr_decoder :: viterbi where
  "pskr_decoder = snd (setchunksize 4 (viterbi_new 7 0x6d 0x4f))"

section \<open>QPSK\<close>

definition tx_bit_qpsk :: "bool \<Rightarrow> encoder \<Rightarrow> nat \<times> encoder" where
  "tx_bit_qpsk b enc = (let (o1, enc) = enc_encode b enc in (o1 AND 3, enc))"

text \<open>The step of the carrier in quarter turns, less the half turn of symbol 0 (\<^verbatim>\<open>tx_carriers\<close>).\<close>

definition carrier_step :: "bool \<Rightarrow> nat \<Rightarrow> nat" where
  "carrier_step rvs sym1 = (if \<not> rvs then (4 - sym1) AND 3 else sym1)"

definition rx_qpsk :: "bool \<Rightarrow> nat \<Rightarrow> viterbi \<Rightarrow> bool list \<times> viterbi" where
  "rx_qpsk rvs bits v = (let
     bits = (if \<not> rvs then (4 - bits) AND 3 else bits);
     sy = (if bits AND 1 \<noteq> 0 then 255 else 0, if bits AND 2 \<noteq> 0 then 0 else 255);
     (c, m, v) = decode_sym sy v
     in (chunk_parts 8 c, v))"

definition qpsk_decoder :: viterbi where
  "qpsk_decoder = viterbi_new 5 0x17 0x19"

section \<open>Whole transmissions\<close>

fun send_pskr :: "bool \<Rightarrow> bool list \<Rightarrow> encoder \<times> interleave \<Rightarrow> nat list" where
  "send_pskr f [] s = []"
| "send_pskr f (b # bs) s = (let (syms, s) = tx_bit_pskr f b s in syms @ send_pskr f bs s)"

fun receive_pskr :: "bool \<Rightarrow> 8 word list \<Rightarrow> pskr_rx \<Rightarrow> bool list \<times> bool list" where
  "receive_pskr f [] st = ([], [])"
| "receive_pskr f (sy # sys) st = (let (b1, b2, st) = rx_pskr f False sy st; (c1, c2) = receive_pskr f sys st in (b1 @ c1, b2 @ c2))"

fun send_qpsk :: "bool \<Rightarrow> bool list \<Rightarrow> encoder \<Rightarrow> nat list" where
  "send_qpsk rvs [] e = []"
| "send_qpsk rvs (b # bs) e = (let (sy, e) = tx_bit_qpsk b e in carrier_step rvs sy # send_qpsk rvs bs e)"

fun receive_qpsk :: "bool \<Rightarrow> nat list \<Rightarrow> viterbi \<Rightarrow> bool list" where
  "receive_qpsk rvs [] v = []"
| "receive_qpsk rvs (r # rs) v = (let (bs, v) = rx_qpsk rvs r v in bs @ receive_qpsk rvs rs v)"

section \<open>QPSK from end to end\<close>

lemma qpsk_round:
  assumes "o1 < 4" "t = (if \<not> rvs then (4 - o1) AND 3 else o1)" "r = (t + 2) mod 4"
  shows "let bits = (if \<not> rvs then (4 - r) AND 3 else r) in
    (if bits AND 1 \<noteq> 0 then 255 else 0, if bits AND 2 \<noteq> 0 then 0 else 255) = hard_pair o1"
  using less_4 [OF assms(1)] assms(2,3)
  by (cases rvs) (auto simp: hard_pair_def Let_def bit_2_3 bit_iff_odd numeral_2_eq_2 [symmetric])

lemma enc_encode_less:
  assumes "enc_output e = map (code_output p1 p2) [0..<2 ^ k]" "shregmask e = 2 ^ k - 1"
  shows "fst (enc_encode b e) < 4" "enc_output (snd (enc_encode b e)) = enc_output e"
    "shregmask (snd (enc_encode b e)) = shregmask e"
proof -
  have "unat ((push_bit 1 (shreg e) OR of_bool b) AND (2 ^ k - 1) :: 32 word) < 2 ^ k"
    unfolding unat_low_bits by simp
  then show "fst (enc_encode b e) < 4"
    using assms code_output_le by (simp add: enc_encode_def Let_def del: upt_Suc)
  show "enc_output (snd (enc_encode b e)) = enc_output e" "shregmask (snd (enc_encode b e)) = shregmask e"
    by (simp_all add: enc_encode_def Let_def)
qed

lemma length_send_qpsk [simp]: "length (send_qpsk rvs bs e) = length bs"
  by (induction bs arbitrary: e) (simp_all add: case_prod_beta Let_def)

text \<open>Each step arrives half a turn on (a symbol 0 is a reversal of the carrier).\<close>

lemma receive_qpsk_decoded:
  assumes "enc_output e = map (code_output p1 p2) [0..<2 ^ k]" "shregmask e = 2 ^ k - 1"
  shows "receive_qpsk rvs (map (\<lambda>t. (t + 2) mod 4) (send_qpsk rvs bs e)) v =
    decoded 8 (map hard_pair (enc_stream bs e)) v"
  using assms
proof (induction bs arbitrary: e v)
  case (Cons b bs)
  note l = enc_encode_less [OF Cons.prems, of b]
  let ?o = "fst (enc_encode b e)"
  have o3: "?o AND 3 = ?o" using less_4 [OF l(1)] by auto
  define r where "r = ((if \<not> rvs then (4 - ?o) AND 3 else ?o) + 2) mod 4"
  have q: "(if (if \<not> rvs then (4 - r) AND 3 else r) AND 1 \<noteq> 0 then 255 else 0,
      if (if \<not> rvs then (4 - r) AND 3 else r) AND 2 \<noteq> 0 then 0 else 255) = hard_pair ?o"
    using qpsk_round [OF l(1) refl r_def] by (simp only: Let_def)
  have "rx_qpsk rvs r v = (chunk_parts 8 (fst (decode_sym (hard_pair ?o) v)), vstep (hard_pair ?o) v)"
    unfolding rx_qpsk_def Let_def q by (simp add: vstep_def case_prod_beta)
  then have rx: "receive_qpsk rvs (r # rs) v = chunk_parts 8 (fst (decode_sym (hard_pair ?o) v)) @ receive_qpsk rvs rs (vstep (hard_pair ?o) v)" for rs
    by simp
  have tx: "map (\<lambda>t. (t + 2) mod 4) (send_qpsk rvs (b # bs) e) = r # map (\<lambda>t. (t + 2) mod 4) (send_qpsk rvs bs (snd (enc_encode b e)))"
    by (simp add: tx_bit_qpsk_def carrier_step_def case_prod_beta Let_def o3 r_def)
  have d: "decoded 8 (map hard_pair (enc_stream (b # bs) e)) v = chunk_parts 8 (fst (decode_sym (hard_pair ?o) v)) @
      decoded 8 (map hard_pair (enc_stream bs (snd (enc_encode b e)))) (vstep (hard_pair ?o) v)"
    by (simp add: case_prod_beta Let_def vstep_def)
  show ?case unfolding tx rx d using Cons.IH [of "snd (enc_encode b e)" "vstep (hard_pair ?o) v"] Cons.prems l by simp
qed simp

lemma qpsk_decoder_default: "qpsk_decoder = decoder 5 0x17 0x19 (int 60) (int 8)"
  by (simp add: qpsk_decoder_def decoder_def setchunksize_def settraceback_def viterbi_new_def viterbi_reset_def PATHMEM_def)

lemma pskr_decoder_default: "pskr_decoder = decoder 7 0x6d 0x4f (int 84) (int 4)"
  by (simp add: pskr_decoder_def decoder_def setchunksize_def settraceback_def viterbi_new_def viterbi_reset_def PATHMEM_def)

text \<open>What a decoder keeps of a transmission: all but its ends.\<close>

lemma kept_core:
  assumes "bs = pre @ core @ post" "d \<le> length pre" "length pre + length core \<le> d + n"
  shows "\<exists>rest. take n (drop d bs) = drop d pre @ core @ rest"
proof -
  have "take n (drop d bs) = take n ((drop d pre @ core) @ post)" using assms(1,2) by simp
  also have "\<dots> = (drop d pre @ core) @ take (n - length (drop d pre @ core)) post" using assms(2,3) by simp
  finally show ?thesis by auto
qed

lemma run_bits_prefix: "\<exists>tail. fst (run_bits rx (xs @ ys) s) = fst (run_bits rx xs s) @ tail"
  by (simp add: run_bits_append case_prod_beta Let_def)

lemma qpsk_printed:
  assumes m: "\<not> mfsk_code m" "dcd m"
    and bs: "bs = pre @ [False, False] @ concat (map (psk_tx_char m) cs) @ post" "3 \<le> length pre" "53 \<le> length post"
    and len: "8 dvd length bs" "length bs < 2 ^ 22"
    and e: "e = (encoder_new 5 0x17 0x19)\<lparr>shreg := reg\<rparr>"
  shows "\<exists>junk tail. fst (run_bits (psk_rx_bit m)
     (receive_qpsk rvs (map (\<lambda>t. (t + 2) mod 4) (send_qpsk rvs bs e)) qpsk_decoder) s) = junk @ map uint cs @ tail"
proof -
  let ?out = "receive_qpsk rvs (map (\<lambda>t. (t + 2) mod 4) (send_qpsk rvs bs e)) qpsk_decoder"
  have "?out = decoded 8 (map hard_pair (enc_stream bs e)) qpsk_decoder"
    by (rule receive_qpsk_decoded [of _ "0x17" "0x19" 5]) (simp_all add: e encoder_new_def del: upt_Suc)
  moreover have "clean_link 5 0x17 0x19 reg bs (map hard_pair (enc_stream bs e))" unfolding e by (rule clean_hard)
  moreover have long: "60 < length bs"
  proof -
    have "58 \<le> length bs" using bs by simp
    moreover obtain j where "length bs = 8 * j" using len(1) by blast
    ultimately show ?thesis by presburger
  qed
  ultimately obtain noise where "?out = noise @ take (length bs - 60 div 8 * 8) (drop (8 - 1 - 60 mod 8) bs)"
    using decoded_stream [OF _ _ code_seen_qpsk _ len(2,1) long, of reg "map hard_pair (enc_stream bs e)"]
    unfolding qpsk_decoder_default by auto
  moreover have shape: "bs = pre @ ([False, False] @ concat (map (psk_tx_char m) cs)) @ post" using bs(1) by simp
  have "length pre + length ([False, False] @ concat (map (psk_tx_char m) cs)) \<le> 3 + (length bs - 56)"
    unfolding shape using bs(3) by simp
  from kept_core [OF shape bs(2) this] obtain rest where "take (length bs - 56) (drop 3 bs) =
      drop 3 pre @ ([False, False] @ concat (map (psk_tx_char m) cs)) @ rest" by blast
  ultimately have "?out = (noise @ drop 3 pre @ [False, False] @ concat (map (psk_tx_char m) cs)) @ rest" by simp
  moreover obtain junk where "fst (run_bits (psk_rx_bit m) ((noise @ drop 3 pre) @ [False, False] @ concat (map (psk_tx_char m) cs)) s) =
      junk @ map uint cs" using psk_received [OF m] by blast
  ultimately show ?thesis using run_bits_prefix [of "psk_rx_bit m" "noise @ drop 3 pre @ [False, False] @ concat (map (psk_tx_char m) cs)" rest s]
    by auto
qed

section \<open>PSK63F\<close>

text \<open>A soft bit on the side of 128 of its symbol.\<close>

definition near_symbol :: "nat \<Rightarrow> 8 word \<Rightarrow> bool" where
  "near_symbol sym1 soft \<longleftrightarrow> (if sym1 = 0 then unat soft < 128 else 128 < unat soft)"

fun pairs_of :: "8 word list \<Rightarrow> (nat \<times> nat) list" where
  "pairs_of (a # b # xs) = (unat a, unat b) # pairs_of xs"
| "pairs_of xs = []"

lemma rx_pskr_pair:
  assumes "rxbitstate st = 0"
  shows "\<exists>st'. fst (receive_pskr True (a # b # xs) st) =
      chunk_parts 4 (fst (decode_sym (unat a, unat b) (dec st))) @ fst (receive_pskr True xs st') \<and>
    rxbitstate st' = 0 \<and> dec st' = vstep (unat a, unat b) (dec st)"
proof -
  define st1 where "st1 = snd (snd (rx_pskr True False a st))"
  define st2 where "st2 = snd (snd (rx_pskr True False b st1))"
  have 1: "fst (rx_pskr True False a st) = []" "rxbitstate st1 = 1" "dec st1 = dec st" "fst (symbolpair st1) = a"
    using assms by (simp_all add: st1_def rx_pskr_def Let_def case_prod_beta)
  have 2: "fst (rx_pskr True False b st1) = chunk_parts 4 (fst (decode_sym (unat a, unat b) (dec st)))" "rxbitstate st2 = 0"
    "dec st2 = vstep (unat a, unat b) (dec st)"
    using 1 by (simp_all add: st2_def rx_pskr_def Let_def case_prod_beta soft_pair_def vstep_def)
  have "fst (receive_pskr True (a # b # xs) st) = fst (rx_pskr True False a st) @ fst (rx_pskr True False b st1) @ fst (receive_pskr True xs st2)"
    by (simp add: case_prod_beta Let_def st1_def st2_def)
  then show ?thesis using 1 2 by auto
qed

lemma receive_pskr_decoded:
  "even (length sys) \<Longrightarrow> rxbitstate st = 0 \<Longrightarrow> fst (receive_pskr True sys st) = decoded 4 (pairs_of sys) (dec st)"
proof (induction sys arbitrary: st rule: pairs_of.induct)
  case (1 a b xs)
  from rx_pskr_pair [OF 1(3)] obtain st' where "fst (receive_pskr True (a # b # xs) st) =
      chunk_parts 4 (fst (decode_sym (unat a, unat b) (dec st))) @ fst (receive_pskr True xs st')"
    "rxbitstate st' = 0" "dec st' = vstep (unat a, unat b) (dec st)" by metis
  then show ?case using 1 by (simp add: case_prod_beta Let_def vstep_def)
qed simp_all

lemma pairs_agree:
  assumes "list_all2 near_symbol (send_pskr True bs (e, i)) sys"
    and "enc_output e = map (code_output p1 p2) [0..<2 ^ k]" "shregmask e = 2 ^ k - 1"
  shows "even (length sys) \<and> list_all2 agrees (enc_stream bs e) (pairs_of sys)"
  using assms
proof (induction bs arbitrary: e sys)
  case (Cons b bs)
  note l = enc_encode_less [OF Cons.prems(2,3), of b]
  let ?o = "fst (enc_encode b e)" and ?e = "snd (enc_encode b e)"
  have "send_pskr True (b # bs) (e, i) = [push_bit 1 (?o AND 1), ?o AND 2] @ send_pskr True bs (?e, i)"
    by (simp add: tx_bit_pskr_def case_prod_beta Let_def)
  then obtain a c ys where sys: "sys = a # c # ys" "near_symbol (push_bit 1 (?o AND 1)) a" "near_symbol (?o AND 2) c"
    "list_all2 near_symbol (send_pskr True bs (?e, i)) ys"
    using Cons.prems(1) by (auto simp: list_all2_Cons1)
  have "unat a < 256" "unat c < 256" using unsigned_less [of a] unsigned_less [of c] by simp_all
  then have "agrees ?o (unat a, unat c)"
    using less_4 [OF l(1)] sys(2,3) by (auto simp: agrees_def near_symbol_def byte_pair_def bit_2_3 bit_iff_odd)
  then show ?case using Cons.IH [OF sys(4)] Cons.prems l sys(1) by (simp add: case_prod_beta Let_def)
qed simp

lemma psk63f_printed:
  assumes nasa: "code_seen 7 0x6d 0x4f 6"
    and m: "mfsk_code m" "dcd m" "\<not> disablefec m" "first_better m"
    and bs: "bs = pre @ [False, False] @ concat (map (psk_tx_char m) cs) @ [True] @ post" "3 \<le> length pre" "81 \<le> length post"
    and len: "4 dvd length bs" "length bs < 2 ^ 22"
    and e: "e = (encoder_new 7 0x6d 0x4f)\<lparr>shreg := reg\<rparr>"
    and sys: "list_all2 near_symbol (send_pskr True bs (e, i)) sys"
    and st: "rxbitstate st = 0" "dec st = pskr_decoder"
  shows "\<exists>junk tail. fst (run_bits (psk_rx_bit m) (fst (receive_pskr True sys st)) s) =
    junk @ map uint (filter (\<lambda>c. c \<noteq> 0) cs) @ tail"
proof -
  let ?core = "[False, False] @ concat (map (psk_tx_char m) cs) @ [True]"
  let ?out = "fst (receive_pskr True sys st)"
  have p: "even (length sys)" "list_all2 agrees (enc_stream bs e) (pairs_of sys)"
    using pairs_agree [OF sys, of "0x6d" "0x4f" 7] by (simp_all add: e encoder_new_def del: upt_Suc)
  have "?out = decoded 4 (pairs_of sys) pskr_decoder" using receive_pskr_decoded [OF p(1) st(1)] st(2) by simp
  moreover have "clean_link 7 0x6d 0x4f reg bs (pairs_of sys)" using p(2) unfolding clean_link_def e .
  moreover have long: "84 < length bs" using bs by simp
  ultimately obtain noise where "?out = noise @ take (length bs - 84 div 4 * 4) (drop (4 - 1 - 84 mod 4) bs)"
    using decoded_stream [OF _ _ nasa _ len(2,1) long, of reg "pairs_of sys"] unfolding pskr_decoder_default by auto
  moreover have shape: "bs = pre @ ?core @ post" using bs(1) by simp
  have "length pre + length ?core \<le> 3 + (length bs - 84)" unfolding shape using bs(3) by simp
  from kept_core [OF shape bs(2) this] obtain rest where "take (length bs - 84) (drop 3 bs) = drop 3 pre @ ?core @ rest" by blast
  ultimately have "?out = (noise @ drop 3 pre @ ?core) @ rest" by simp
  moreover obtain junk where "fst (run_bits (psk_rx_bit m) ((noise @ drop 3 pre) @ ?core) s) =
      junk @ map uint (filter (\<lambda>c. c \<noteq> 0) cs)"
    using pskr_received [OF m(1-3), of "noise @ drop 3 pre" cs s] m(4) by auto
  ultimately show ?thesis using run_bits_prefix [of "psk_rx_bit m" "noise @ drop 3 pre @ ?core" rest s] by auto
qed

section \<open>The properties\<close>

text \<open>C9: QPSK from end to end. The bits of a text (after three bits and the two zeros that end a
  character, and with at least 53 bits behind them, the traceback) are encoded, sent as steps of the
  carrier that arrive half a turn on, decoded by a new decoder and printed: the text comes out whole
  and in order, from any state of the sender's encoder and of the receiver's register, reversed or not.\<close>

theorem qpsk_link:
  assumes "\<not> mfsk_code m" "dcd m"
    and "bs = pre @ [False, False] @ concat (map (psk_tx_char m) cs) @ post" "3 \<le> length pre" "53 \<le> length post"
    and "8 dvd length bs" "length bs < 2 ^ 22"
    and "e = (encoder_new 5 0x17 0x19)\<lparr>shreg := reg\<rparr>"
  shows "\<exists>junk tail. fst (run_bits (psk_rx_bit m)
     (receive_qpsk rvs (map (\<lambda>t. (t + 2) mod 4) (send_qpsk rvs bs e)) qpsk_decoder) s) = junk @ map uint cs @ tail"
  by (rule qpsk_printed [OF assms])

text \<open>PSK63F from end to end. Every soft bit received may be anything on the right side of 128;
  the first decoder, when it is the better one, hands on the bits of the text, and the receiver prints
  the text without its NUL characters.\<close>

theorem psk63f_link:
  assumes "mfsk_code m" "dcd m" "\<not> disablefec m" "first_better m"
    and "bs = pre @ [False, False] @ concat (map (psk_tx_char m) cs) @ [True] @ post" "3 \<le> length pre" "81 \<le> length post"
    and "4 dvd length bs" "length bs < 2 ^ 22"
    and "e = (encoder_new 7 0x6d 0x4f)\<lparr>shreg := reg\<rparr>"
    and "list_all2 near_symbol (send_pskr True bs (e, i)) sys"
    and "rxbitstate st = 0" "dec st = pskr_decoder"
  shows "\<exists>junk tail. fst (run_bits (psk_rx_bit m) (fst (receive_pskr True sys st)) s) =
    junk @ map uint (filter (\<lambda>c. c \<noteq> 0) cs) @ tail"
  by (rule psk63f_printed [OF code_seen_nasa assms])

definition plain_modem :: "bool \<Rightarrow> psk_modem" where
  "plain_modem b = \<lparr>mfsk_code = b, first_better = True, disablefec = False, dcd = True\<rparr>"

text \<open>Padding a transmission to whole chunks.\<close>

definition padding :: "nat \<Rightarrow> nat \<Rightarrow> nat \<Rightarrow> bool list" where
  "padding n c len = replicate (n + (c - (len + n) mod c)) False"

lemma padding_ok: "0 < c \<Longrightarrow> n \<le> length (padding n c len) \<and> c dvd (len + length (padding n c len))"
proof -
  assume c: "0 < c"
  have "len + (n + (c - (len + n) mod c)) = (len + n) div c * c + c" using c mod_less_divisor [OF c, of "len + n"]
    by (metis (no_types, lifting) add.assoc add_diff_inverse_nat div_mult_mod_eq less_imp_not_less)
  then show ?thesis by (simp add: padding_def)
qed

lemma code_word_lengths:
  "list_all (\<lambda>c. length c \<le> 18) varicode" "list_all (\<lambda>c. length c \<le> 18) varicodetab1"
  unfolding varicode_def varicodetab1_def by simp_all

lemma code_lengths: "length (psk_tx_char m c) \<le> 20"
proof -
  have "varicode ! unat c \<in> set varicode" "varicodetab1 ! unat c \<in> set varicodetab1"
    using table_lengths unat_byte [of c] by (auto intro: nth_mem)
  then have "length (varicode ! unat c) \<le> 18" "length (varicodetab1 ! unat c) \<le> 18"
    using code_word_lengths unfolding list_all_iff by blast+
  then show ?thesis unfolding psk_tx_char_def psk_varicode_encode_def varienc_nth code_bits_def by simp
qed

lemma padding_length: "0 < c \<Longrightarrow> length (padding n c len) \<le> n + c"
  by (simp add: padding_def)

definition sample :: "bool \<Rightarrow> nat \<Rightarrow> nat \<Rightarrow> bool list" where
  "sample b n c = (let msg = concat (map (psk_tx_char (plain_modem b)) [67, 81])
     in [False, False, False] @ [False, False] @ msg @ [b] @ padding n c (6 + length msg))"

lemma sample_facts:
  assumes "0 < c" "c \<le> 8" "n \<le> 100"
  shows "c dvd length (sample b n c)" "length (sample b n c) < 2 ^ 22"
proof -
  let ?msg = "concat (map (psk_tx_char (plain_modem b)) [67, 81])"
  have l: "length (sample b n c) = (6 + length ?msg) + length (padding n c (6 + length ?msg))"
    by (simp add: sample_def Let_def)
  show "c dvd length (sample b n c)" unfolding l using padding_ok [OF assms(1)] by blast
  have "length ?msg \<le> 40" using code_lengths [of "plain_modem b" 67] code_lengths [of "plain_modem b" 81] by simp
  moreover have "length (padding n c (6 + length ?msg)) \<le> 108" 
    using padding_length [OF assms(1), of n "6 + length ?msg"] assms(2,3) by linarith
  ultimately have "length (sample b n c) \<le> 154" unfolding l by linarith
  also have "(154 :: nat) < 2 ^ 22" by simp
  finally show "length (sample b n c) < 2 ^ 22" .
qed

lemma qpsk_link_witness:
  "\<exists>junk tail. fst (run_bits (psk_rx_bit (plain_modem False))
     (receive_qpsk False (map (\<lambda>t. (t + 2) mod 4) (send_qpsk False (sample False 53 8) ((encoder_new 5 0x17 0x19)\<lparr>shreg := 7\<rparr>)))
       qpsk_decoder) 0) = junk @ [67, 81] @ tail"
proof -
  let ?msg = "concat (map (psk_tx_char (plain_modem False)) [67, 81])"
  have "sample False 53 8 = [False, False, False] @ [False, False] @ ?msg @ ([False] @ padding 53 8 (6 + length ?msg))"
    by (simp add: sample_def Let_def)
  from qpsk_link [OF _ _ this _ _ _ _ refl, where reg = 7 and rvs = False and s = 0] sample_facts [of 8 53 False] padding_ok [of 8 53 "6 + length ?msg"]
  show ?thesis by (simp add: plain_modem_def)
qed

definition idle_pskr :: pskr_rx where
  "idle_pskr = \<lparr>symbolpair = (0, 0), rxbitstate = 0, dec = pskr_decoder, dec2 = pskr_decoder,
     Rxinlv = il_new 2 20 INTERLEAVE_REV, Rxinlv2 = il_new 2 20 INTERLEAVE_REV\<rparr>"

lemma psk63f_link_witness:
  "\<exists>junk tail. fst (run_bits (psk_rx_bit (plain_modem True))
     (fst (receive_pskr True (map (\<lambda>t. if t = 0 then 100 else 200)
       (send_pskr True (sample True 81 4) ((encoder_new 7 0x6d 0x4f)\<lparr>shreg := 7\<rparr>, il_new 2 20 INTERLEAVE_FWD))) idle_pskr)) 0) =
     junk @ [67, 81] @ tail"
proof -
  let ?msg = "concat (map (psk_tx_char (plain_modem True)) [67, 81])"
  let ?s = "send_pskr True (sample True 81 4) ((encoder_new 7 0x6d 0x4f)\<lparr>shreg := 7\<rparr>, il_new 2 20 INTERLEAVE_FWD)"
  have "sample True 81 4 = [False, False, False] @ [False, False] @ ?msg @ [True] @ padding 81 4 (6 + length ?msg)"
    by (simp add: sample_def Let_def)
  moreover have "list_all2 near_symbol ?s (map (\<lambda>t. if t = 0 then 100 else 200) ?s)"
    by (simp add: list_all2_map2 list_all2_same near_symbol_def)
  ultimately show ?thesis
    using psk63f_link [of "plain_modem True" "sample True 81 4" "[False, False, False]" "[67, 81]" "padding 81 4 (6 + length ?msg)"
        "(encoder_new 7 0x6d 0x4f)\<lparr>shreg := 7\<rparr>" 7 "il_new 2 20 INTERLEAVE_FWD"
        "map (\<lambda>t. if t = 0 then 100 else 200) ?s" idle_pskr 0]
      sample_facts [of 4 81 True] padding_ok [of 4 81 "6 + length ?msg"]
    by (simp add: plain_modem_def idle_pskr_def)
qed

end
