(* ===== verification/Rtty.thy ===== *)
theory Rtty
  imports Prelude "HOL-Library.Word"
begin

text \<open>
  The RTTY modem, \<^verbatim>\<open>cw_rtty/rtty.cxx\<close> and \<^verbatim>\<open>include/rtty.h\<close>: Baudot and ASCII characters
  with start, parity and stop bits. The transmitter turns a symbol into \<^verbatim>\<open>symbollen\<close> samples of
  one of two tones; the receiver's filters turn the signal back into one mark/space decision per
  sample, which \<^verbatim>\<open>rtty::rx\<close> takes. Tones and filters are left out: here a sample is the decision,
  \<open>True\<close> for mark. Characters are numbers, and \<^verbatim>\<open>get_tx_char\<close> yields a \<open>tx_input\<close>. The
  options of the program that the modem reads are the record \<open>rtty_options\<close>.
\<close>

unbundle bit_operations_syntax

section \<open>Baudot tables\<close>

definition letters :: "nat list" where
  "letters = map of_char [
    CHR 0x00, CHR ''E'', CHR 0x0A, CHR ''A'', CHR '' '', CHR ''S'', CHR ''I'', CHR ''U'',
    CHR 0x0D, CHR ''D'', CHR ''R'', CHR ''J'', CHR ''N'', CHR ''F'', CHR ''C'', CHR ''K'',
    CHR ''T'', CHR ''Z'', CHR ''L'', CHR ''W'', CHR ''H'', CHR ''Y'', CHR ''P'', CHR ''Q'',
    CHR ''O'', CHR ''B'', CHR ''G'', CHR '' '', CHR ''M'', CHR ''X'', CHR ''V'', CHR '' '']"

definition figures :: "nat list" where
  "figures = map of_char [
    CHR 0x00, CHR ''3'', CHR 0x0A, CHR ''-'', CHR '' '', CHR 0x07, CHR ''8'', CHR ''7'',
    CHR 0x0D, CHR ''$'', CHR ''4'', CHR 0x27, CHR '','', CHR ''!'', CHR '':'', CHR ''('',
    CHR ''5'', CHR 0x22, CHR '')'', CHR ''2'', CHR ''#'', CHR ''6'', CHR ''0'', CHR ''1'',
    CHR ''9'', CHR ''?'', CHR ''&'', CHR '' '', CHR ''.'', CHR ''/'', CHR '';'', CHR '' '']"

definition LETTERS :: nat where "LETTERS = 0x100"
definition FIGURES :: nat where "FIGURES = 0x200"

section \<open>Options and state\<close>

datatype rtty_parity = PARITY_NONE | PARITY_EVEN | PARITY_ODD | PARITY_ZERO | PARITY_ONE

datatype rtty_rx_state = RX_IDLE | RX_START | RX_DATA | RX_PARITY | RX_STOP | RX_STOP2

datatype tx_input = Tx_char nat | Tx_nodata | Tx_etx

record rtty_options =
  opt_baud :: nat
  opt_bits :: nat
  opt_parity :: nat
  opt_stop :: nat
  TTY_LTRS :: nat
  UOStx :: bool
  UOSrx :: bool
  crcrlf :: bool
  autocrlf :: bool
  autocount :: int
  rx_lowercase :: bool
  synop_decoding :: bool
  synop_enabled :: bool
  squelch_open :: bool

text \<open>
  The members the model needs; \<open>line_char_count\<close> is a static variable of the file. The last five
  fields record what the modem hands on: the samples of the transmitter, mark or space, those behind
  them in which the shaped tones fade out, which are neither, the echoed characters, the received characters (\<^verbatim>\<open>put_rx_char\<close>) and the calls of the weather report decoder
  (\<open>Some c\<close> for \<^verbatim>\<open>add(c)\<close>, \<open>None\<close> for \<^verbatim>\<open>flush\<close>).
\<close>

record rtty =
  nbits :: nat
  rtty_parity :: rtty_parity
  symbollen :: nat
  stoplen :: nat
  reverse :: bool
  bit_buf :: "bool list"
  rxstate :: rtty_rx_state
  counter :: int
  bitcntr :: nat
  rxdata :: nat
  lastchar :: nat
  rxmode :: nat
  txmode :: nat
  preamble :: bool
  stopflag :: bool
  line_char_count :: int
  sent :: "bool list"
  fading :: nat
  echoed :: "nat list"
  printed :: "nat list"
  synop :: "nat option list"

text \<open>The baud rates, in hundredths of a baud, and the numbers of data bits that can be chosen.\<close>

definition SampleRate :: nat where "SampleRate = 8000"
definition MAXBITS :: nat where "MAXBITS = 2 * SampleRate div 23 + 1"
definition BAUD :: "nat list" where
  "BAUD = [4500, 4545, 5000, 5600, 7500, 10000, 11000, 15000, 20000, 30000]"
definition BITS :: "nat list" where "BITS = [5, 7, 8]"

definition parity_setting :: "nat \<Rightarrow> rtty_parity" where
  "parity_setting n =
    (if n = 1 then PARITY_EVEN else if n = 2 then PARITY_ODD
     else if n = 3 then PARITY_ZERO else if n = 4 then PARITY_ONE else PARITY_NONE)"

text \<open>\<^verbatim>\<open>(int) (samplerate / rtty_baud + 0.5)\<close>, and the same for the stop bits.\<close>

definition restart :: "rtty_options \<Rightarrow> rtty \<Rightarrow> rtty" where
  "restart opt s =
    (let b = BAUD ! min (opt_baud opt) (length BAUD - 1);
         n = BITS ! opt_bits opt;
         halves = (if opt_stop opt = 0 then 2 else if opt_stop opt = 1 then 3 else 4)
     in s\<lparr>nbits := n,
          rtty_parity := (if n = 5 then PARITY_NONE else parity_setting (opt_parity opt)),
          txmode := LETTERS, rxmode := LETTERS,
          symbollen := (2 * (100 * SampleRate) + b) div (2 * b),
          stoplen := (halves * (100 * SampleRate) + b) div (2 * b),
          bit_buf := replicate MAXBITS False\<rparr>)"

definition rx_init :: "rtty \<Rightarrow> rtty" where
  "rx_init s = s\<lparr>rxstate := RX_IDLE, rxmode := LETTERS, bit_buf := replicate MAXBITS False, lastchar := 0\<rparr>"

definition tx_init :: "rtty \<Rightarrow> rtty" where
  "tx_init s = s\<lparr>preamble := True\<rparr>"

section \<open>Parity\<close>

fun rparity_loop :: "nat \<Rightarrow> nat \<Rightarrow> nat" where
  "rparity_loop w p = (if w = 0 then p else rparity_loop (w div 2) (p + w mod 2))"

declare rparity_loop.simps [simp del]

definition rparity :: "nat \<Rightarrow> nat" where
  "rparity c = rparity_loop c 0 mod 2"

definition rttyparity :: "rtty_options \<Rightarrow> nat \<Rightarrow> nat \<Rightarrow> nat" where
  "rttyparity opt c n =
    (let c = c AND (2 ^ n - 1) in
     case parity_setting (opt_parity opt) of
       PARITY_NONE \<Rightarrow> 0
     | PARITY_ODD \<Rightarrow> rparity c
     | PARITY_EVEN \<Rightarrow> (if rparity c = 0 then 1 else 0)
     | PARITY_ZERO \<Rightarrow> 0
     | PARITY_ONE \<Rightarrow> 1)"

section \<open>Receiver\<close>

definition baudot_dec :: "rtty_options \<Rightarrow> nat \<Rightarrow> rtty \<Rightarrow> nat \<times> rtty" where
  "baudot_dec opt data s =
    (if data = 0x1F then (0, s\<lparr>rxmode := LETTERS\<rparr>)
     else if data = 0x1B then (0, s\<lparr>rxmode := FIGURES\<rparr>)
     else if data = 0x04 then (32, if UOSrx opt then s\<lparr>rxmode := LETTERS\<rparr> else s)
     else (if rxmode s = LETTERS then letters ! data else figures ! data, s))"

definition decode_char :: "rtty_options \<Rightarrow> rtty \<Rightarrow> nat \<times> rtty" where
  "decode_char opt s =
    (let parbit = drop_bit (nbits s) (rxdata s) AND 1;
         par = rttyparity opt (rxdata s) (nbits s)
     in if rtty_parity s \<noteq> PARITY_NONE \<and> parbit \<noteq> par then (0, s)
        else let data = rxdata s AND (2 ^ nbits s - 1)
             in if nbits s = 5 then baudot_dec opt data s else (data, s))"

definition marks :: "bool list \<Rightarrow> nat" where
  "marks bs = length (filter (\<lambda>b. b) bs)"

definition is_mark_space :: "rtty \<Rightarrow> nat option" where
  "is_mark_space s =
    (if bit_buf s ! 0 \<and> \<not> bit_buf s ! (symbollen s - 1) then
       let correction = marks (take (symbollen s) (bit_buf s))
       in if \<bar>int (symbollen s) div 2 - int correction\<bar> < 6 then Some correction else None
     else None)"

definition is_mark :: "rtty \<Rightarrow> bool" where
  "is_mark s = bit_buf s ! (symbollen s div 2)"

text \<open>The window of \<^verbatim>\<open>symbollen\<close> samples at the front of the buffer moves by one.\<close>

definition shift_buf :: "nat \<Rightarrow> bool list \<Rightarrow> bool \<Rightarrow> bool list" where
  "shift_buf n buf b = drop 1 (take n buf) @ b # drop n buf"

definition tolower_code :: "nat \<Rightarrow> nat" where
  "tolower_code c = (if 65 \<le> c \<and> c \<le> 90 then c + 32 else c)"

definition toupper_code :: "nat \<Rightarrow> nat" where
  "toupper_code c = (if 97 \<le> c \<and> c \<le> 122 then c - 32 else c)"

definition put_rx_char :: "nat \<Rightarrow> rtty \<Rightarrow> rtty" where
  "put_rx_char c s = s\<lparr>printed := printed s @ [c]\<rparr>"

text \<open>What happens to a character that was decoded; it is an \<^verbatim>\<open>unsigned char\<close>. With the weather
  report decoder switched on, NUL and carriage return make it finish its report.\<close>

definition deliver_char :: "rtty_options \<Rightarrow> nat \<Rightarrow> rtty \<Rightarrow> rtty" where
  "deliver_char opt c s =
    (if synop_decoding opt then
       if c \<noteq> 0 \<and> c \<noteq> 13 then s\<lparr>synop := synop s @ [Some c]\<rparr>
       else put_rx_char c (if synop_enabled opt then s\<lparr>synop := synop s @ [None]\<rparr> else s)
     else if c \<noteq> 0 then
       let s = (if c = 13 \<and> lastchar s = 13 then s
                else if c = 10 \<and> lastchar s = 10 then s
                else put_rx_char (if rx_lowercase opt then tolower_code c else c) s)
       in s\<lparr>lastchar := c\<rparr>
     else s)"

definition rx_stop :: "rtty_options \<Rightarrow> rtty \<Rightarrow> bool \<times> rtty" where
  "rx_stop opt s =
    (if is_mark s \<and> squelch_open opt then
       let (c, s) = decode_char opt s in (True, deliver_char opt (c mod 256) s)
     else (False, s))"

definition rx :: "rtty_options \<Rightarrow> bool \<Rightarrow> rtty \<Rightarrow> bool \<times> rtty" where
  "rx opt b s =
    (let s = s\<lparr>bit_buf := shift_buf (symbollen s) (bit_buf s) b\<rparr> in
     case rxstate s of
       RX_IDLE \<Rightarrow>
         (case is_mark_space s of
            Some correction \<Rightarrow> (False, s\<lparr>rxstate := RX_START, counter := int correction\<rparr>)
          | None \<Rightarrow> (False, s))
     | RX_START \<Rightarrow>
         let s = s\<lparr>counter := counter s - 1\<rparr> in
         if counter s = 0 then
           if \<not> is_mark s
           then (False, s\<lparr>rxstate := RX_DATA, counter := int (symbollen s), bitcntr := 0, rxdata := 0\<rparr>)
           else (False, s\<lparr>rxstate := RX_IDLE\<rparr>)
         else (False, s)
     | RX_DATA \<Rightarrow>
         let s = s\<lparr>counter := counter s - 1\<rparr>;
             s = (if counter s = 0
                  then s\<lparr>rxdata := rxdata s OR push_bit (bitcntr s) (of_bool (is_mark s)),
                         bitcntr := bitcntr s + 1, counter := int (symbollen s)\<rparr>
                  else s);
             s = (if bitcntr s = nbits s + (if rtty_parity s \<noteq> PARITY_NONE then 1 else 0)
                  then s\<lparr>rxstate := RX_STOP\<rparr> else s)
         in (False, s)
     | RX_STOP \<Rightarrow>
         let s = s\<lparr>counter := counter s - 1\<rparr> in
         if counter s = 0 then
           let (flag, s) = rx_stop opt s in (flag, s\<lparr>rxstate := RX_IDLE\<rparr>)
         else (False, s)
     | _ \<Rightarrow> (False, s))"

text \<open>\<^verbatim>\<open>rx_process\<close> calls \<^verbatim>\<open>rx\<close> once per sample, with the decision inverted when the
  sidebands are exchanged.\<close>

definition rx_samples :: "rtty_options \<Rightarrow> bool list \<Rightarrow> rtty \<Rightarrow> rtty" where
  "rx_samples opt bs s = foldl (\<lambda>s b. snd (rx opt (if reverse s then \<not> b else b) s)) s bs"

section \<open>Transmitter\<close>

definition send_symbol :: "bool \<Rightarrow> nat \<Rightarrow> rtty \<Rightarrow> rtty" where
  "send_symbol symbol len s =
    s\<lparr>sent := sent s @ replicate len (if reverse s then \<not> symbol else symbol)\<rparr>"

definition send_stop :: "rtty \<Rightarrow> rtty" where
  "send_stop s = s\<lparr>sent := sent s @ replicate (stoplen s) (\<not> reverse s)\<rparr>"

definition put_echo_char :: "nat \<Rightarrow> rtty \<Rightarrow> rtty" where
  "put_echo_char c s = s\<lparr>echoed := echoed s @ [c]\<rparr>"

definition send_char :: "rtty_options \<Rightarrow> nat \<Rightarrow> rtty \<Rightarrow> rtty" where
  "send_char opt c s =
    (let c = (if nbits s = 5 \<and> c = LETTERS then 0x1F else c);
         c = (if nbits s = 5 \<and> c = FIGURES then 0x1B else c);
         s = send_symbol False (symbollen s) s;
         s = foldl (\<lambda>s i. send_symbol (drop_bit i c AND 1 = 1) (symbollen s) s) s [0..<nbits s];
         s = (if rtty_parity s \<noteq> PARITY_NONE
              then send_symbol (rttyparity opt c (nbits s) = 1) (symbollen s) s else s);
         s = send_stop s
     in if nbits s = 5 then
          if c = 0x1F \<or> c = 0x1B then s
          else let c = (if txmode s = LETTERS then letters ! c else figures ! c)
               in if c \<noteq> 0 then put_echo_char (if rx_lowercase opt then tolower_code c else c) s else s
        else put_echo_char c s)"

definition send_idle :: "rtty_options \<Rightarrow> rtty \<Rightarrow> rtty" where
  "send_idle opt s =
    (if nbits s = 5 then (send_char opt LETTERS s)\<lparr>txmode := LETTERS\<rparr> else send_char opt 0 s)"

text \<open>The search stops at the first column in which either table has the character.\<close>

fun baudot_search :: "nat \<Rightarrow> nat list \<Rightarrow> nat list \<Rightarrow> nat \<Rightarrow> nat option" where
  "baudot_search data (l # ls) (f # fs) i =
    (let mode = (if data = l then LETTERS else 0) OR (if data = f then FIGURES else 0)
     in if data = l \<or> data = f then Some (mode OR i) else baudot_search data ls fs (i + 1))"
| "baudot_search data _ _ i = None"

definition baudot_enc :: "nat \<Rightarrow> nat option" where
  "baudot_enc data = baudot_search (toupper_code (data mod 256)) letters figures 0"

definition is_counted :: "nat \<Rightarrow> bool" where
  "is_counted c \<longleftrightarrow> c = 9 \<or> 32 \<le> c \<and> c \<le> 126"

definition send_crlf :: "rtty_options \<Rightarrow> nat \<Rightarrow> nat \<Rightarrow> rtty \<Rightarrow> rtty" where
  "send_crlf opt cr lf s =
    send_char opt lf (send_char opt cr (if crcrlf opt then send_char opt cr s else s))"

text \<open>A line break is put in when the line has reached its length, or at a blank near its end. The
  flag tells that the character, a blank, has been replaced by the line break.\<close>

definition auto_crlf :: "rtty_options \<Rightarrow> nat \<Rightarrow> rtty \<Rightarrow> bool \<times> rtty" where
  "auto_crlf opt c s =
    (let s = (if is_counted c then s\<lparr>line_char_count := line_char_count s + 1\<rparr> else s) in
     if autocrlf opt \<and> c \<noteq> 10 \<and> c \<noteq> 13 \<and>
        (line_char_count s = autocount opt \<or> line_char_count s > autocount opt - 5 \<and> c = 32)
     then (c = 32, send_crlf opt 0x08 0x02 (s\<lparr>line_char_count := 0\<rparr>))
     else (False, s))"

definition shift_case :: "rtty_options \<Rightarrow> nat \<Rightarrow> rtty \<Rightarrow> rtty" where
  "shift_case opt c s =
    (if c AND 0x300 \<noteq> txmode s then
       if txmode s = FIGURES then (send_char opt LETTERS s)\<lparr>txmode := LETTERS\<rparr>
       else (send_char opt FIGURES s)\<lparr>txmode := FIGURES\<rparr>
     else s)"

definition tx_baudot :: "rtty_options \<Rightarrow> nat \<Rightarrow> rtty \<Rightarrow> rtty" where
  "tx_baudot opt c s =
    (let (replaced, s) = auto_crlf opt c s in
     if replaced then s
     else if c = 13 then send_char opt 0x08 (s\<lparr>line_char_count := 0\<rparr>)
     else if c = 10 then
       let s = s\<lparr>line_char_count := 0\<rparr>
       in send_char opt 0x02 (if crcrlf opt then send_char opt 0x08 s else s)
     else if c = 32 then
       if UOStx opt then (send_char opt 0x04 (send_char opt LETTERS s))\<lparr>txmode := LETTERS\<rparr>
       else send_char opt 0x04 s
     else case baudot_enc c of
       None \<Rightarrow> s
     | Some c \<Rightarrow> send_char opt (c AND 0x1F) (shift_case opt c s))"

definition send_preamble :: "rtty_options \<Rightarrow> rtty \<Rightarrow> rtty" where
  "send_preamble opt s =
    (if preamble s then ((send_char opt LETTERS ^^ TTY_LTRS opt) s)\<lparr>preamble := False\<rparr> else s)"

text \<open>Six symbols without a tone, after the end.\<close>

definition flush_stream :: "rtty \<Rightarrow> rtty" where
  "flush_stream s = s\<lparr>fading := fading s + 6 * symbollen s\<rparr>"

text \<open>One call of \<^verbatim>\<open>tx_process\<close> when the modem itself keys the transmitter; the flag tells that
  the transmission is over.\<close>

definition tx_process :: "rtty_options \<Rightarrow> tx_input \<Rightarrow> rtty \<Rightarrow> bool \<times> rtty" where
  "tx_process opt c s =
    (let s = send_preamble opt s in
     if c = Tx_etx \<or> stopflag s then
       let s = s\<lparr>stopflag := False, line_char_count := 0\<rparr>
       in (True, flush_stream (if nbits s \<noteq> 5 then send_crlf opt 13 10 s else send_crlf opt 0x08 0x02 s))
     else case c of
       Tx_nodata \<Rightarrow> (False, send_idle opt s)
     | Tx_etx \<Rightarrow> (True, s)
     | Tx_char c \<Rightarrow> (False, if nbits s \<noteq> 5 then send_char opt c s else tx_baudot opt c s))"

definition tx_chars :: "rtty_options \<Rightarrow> nat list \<Rightarrow> rtty \<Rightarrow> rtty" where
  "tx_chars opt cs s = foldl (\<lambda>s c. snd (tx_process opt (Tx_char c) s)) s cs"

text \<open>A whole transmission: the modem is started, sends the characters and ends.\<close>

definition transmission :: "rtty_options \<Rightarrow> nat list \<Rightarrow> rtty \<Rightarrow> rtty" where
  "transmission opt cs s = snd (tx_process opt Tx_etx (tx_chars opt cs (tx_init s)))"

definition rtty_new :: "rtty_options \<Rightarrow> bool \<Rightarrow> rtty" where
  "rtty_new opt r = rx_init (restart opt
    \<lparr>nbits = 0, rtty_parity = PARITY_NONE, symbollen = 0, stoplen = 0, reverse = r, bit_buf = [],
     rxstate = RX_IDLE, counter = 0, bitcntr = 0, rxdata = 0, lastchar = 0, rxmode = 0, txmode = 0,
     preamble = False, stopflag = False, line_char_count = 0, sent = [], fading = 0, echoed = [], printed = [], synop = []\<rparr>)"

end
