(* ===== verification/Synced_Link.thy ===== *)
theory Synced_Link
  imports Prelude
begin

text \<open>
  The interface between a sender and a receiver that both keep state: whatever the sender puts on
  the wire takes a receiver in step with it to a receiver that is again in step, and changes what
  the receiver shows by a known function. Facts about single operations of the sender compose to
  facts about whole texts. The modems that shift between letters and figures are instances.
\<close>

locale synced_link =
  fixes wire :: "'s \<Rightarrow> 'b list"
    and receive :: "'b list \<Rightarrow> 'r \<Rightarrow> 'r"
    and good :: "'s \<Rightarrow> bool"
    and in_step :: "'s \<Rightarrow> 'r \<Rightarrow> bool"
    and view :: "'r \<Rightarrow> 'v"
  assumes receive_nil: "receive [] r = r"
    and receive_append: "receive (xs @ ys) r = receive ys (receive xs r)"
begin

definition carries :: "'s \<Rightarrow> 's \<Rightarrow> ('v \<Rightarrow> 'v) \<Rightarrow> bool" where
  "carries t t' g \<longleftrightarrow> (good t \<longrightarrow> good t' \<and>
     (\<exists>xs. wire t' = wire t @ xs \<and>
       (\<forall>r. in_step t r \<longrightarrow> in_step t' (receive xs r) \<and> view (receive xs r) = g (view r))))"

lemma carriesI:
  assumes "good t \<Longrightarrow> good t'" "good t \<Longrightarrow> wire t' = wire t @ xs"
    and "\<And>r. good t \<Longrightarrow> in_step t r \<Longrightarrow> in_step t' (receive xs r) \<and> view (receive xs r) = g (view r)"
  shows "carries t t' g"
  using assms by (auto simp: carries_def)

lemma carries_refl: "carries t t (\<lambda>v. v)"
  by (rule carriesI [where xs = "[]"]) (simp_all add: receive_nil)

lemma carries_trans:
  assumes "carries t t' g" "carries t' t'' g'"
  shows "carries t t'' (\<lambda>v. g' (g v))"
proof (cases "good t")
  case True
  with assms(1) obtain xs where xs: "good t'" "wire t' = wire t @ xs"
    "\<And>r. in_step t r \<Longrightarrow> in_step t' (receive xs r) \<and> view (receive xs r) = g (view r)"
    by (auto simp: carries_def)
  with assms(2) obtain ys where ys: "good t''" "wire t'' = wire t' @ ys"
    "\<And>r. in_step t' r \<Longrightarrow> in_step t'' (receive ys r) \<and> view (receive ys r) = g' (view r)"
    by (auto simp: carries_def)
  show ?thesis
    by (rule carriesI [where xs = "xs @ ys"]) (simp_all add: xs ys receive_append)
qed (simp add: carries_def)

lemma carries_foldl:
  assumes "\<And>c t. c \<in> set cs \<Longrightarrow> carries t (f t c) (g c)"
  shows "carries t (foldl f t cs) (\<lambda>v. foldl (\<lambda>v c. g c v) v cs)"
  using assms
proof (induction cs arbitrary: t)
  case (Cons c cs)
  have "carries t (f t c) (g c)"
    and "carries (f t c) (foldl f (f t c) cs) (\<lambda>v. foldl (\<lambda>v c. g c v) v cs)"
    using Cons by simp_all
  from carries_trans [OF this] show ?case by simp
qed (simp add: carries_refl)

lemma carries_funpow:
  assumes "\<And>t. carries t (f t) g"
  shows "carries t ((f ^^ n) t) (\<lambda>v. (g ^^ n) v)"
proof (induction n)
  case (Suc n)
  then show ?case
    using carries_trans [OF Suc.IH assms] by simp
qed (simp add: carries_refl)

lemma carried:
  assumes "carries t t' g" "good t" "in_step t r"
  shows "\<exists>xs. wire t' = wire t @ xs \<and> in_step t' (receive xs r) \<and> view (receive xs r) = g (view r)"
  using assms by (auto simp: carries_def)

end

end
