(* ===== verification/Rtty_Laws.thy ===== *)
theory Rtty_Laws
  imports Rtty Synced_Link
begin

text \<open>
  RTTY from end to end. The receiver looks at a sliding window of one symbol; when it has seen the
  edge of a start bit it samples each following symbol in its middle (\<open>rx_start\<close>, \<open>rx_bits\<close>,
  \<open>rx_character\<close>, for any samples that are right in the middle of each data symbol). With what the
  transmitter puts on the air (\<open>send_char_sent\<close>) this makes the two modems an instance of
  \<open>synced_link\<close>, and whole transmissions follow by composition.
\<close>

section \<open>The sliding window\<close>

definition shifts :: "nat \<Rightarrow> bool list \<Rightarrow> bool list \<Rightarrow> bool list" where
  "shifts n buf bs = foldl (shift_buf n) buf bs"

lemma shifts_simps [simp]:
  "shifts n buf [] = buf"
  "shifts n buf (b # bs) = shifts n (shift_buf n buf b) bs"
  "shifts n buf (bs @ bs') = shifts n (shifts n buf bs) bs'"
  by (simp_all add: shifts_def)

lemma shift_buf_props:
  assumes "0 < n" "n \<le> length buf"
  shows "length (shift_buf n buf b) = length buf"
    and "take n (shift_buf n buf b) = drop 1 (take n buf) @ [b]"
  using assms by (auto simp: shift_buf_def min_def)

lemma length_shifts [simp]:
  "0 < n \<Longrightarrow> n \<le> length buf \<Longrightarrow> length (shifts n buf bs) = length buf"
  by (induction bs arbitrary: buf) (simp_all add: shift_buf_props)

lemma take_shifts:
  "0 < n \<Longrightarrow> n \<le> length buf \<Longrightarrow> take n (shifts n buf bs) = drop (length bs) (take n buf @ bs)"
proof (induction bs arbitrary: buf)
  case (Cons b bs)
  obtain x w where w: "take n buf = x # w"
    using Cons.prems by (cases "take n buf") auto
  have "take n (shifts n buf (b # bs)) = drop (length bs) (take n (shift_buf n buf b) @ bs)"
    using Cons by (simp add: shift_buf_props(1))
  also have "\<dots> = drop (Suc (length bs)) (take n buf @ b # bs)"
    using Cons.prems by (simp add: shift_buf_props(2) w)
  finally show ?case by simp
qed simp

lemma window_nth:
  assumes "0 < n" "n \<le> length buf" "take n (shifts n buf bs) = w" "i < n"
  shows "shifts n buf bs ! i = w ! i"
  using assms by (metis nth_take)

section \<open>Running the receiver\<close>

definition rx_step :: "rtty_options \<Rightarrow> rtty \<Rightarrow> bool \<Rightarrow> rtty" where
  "rx_step opt s b = snd (rx opt b s)"

definition rxs :: "rtty_options \<Rightarrow> bool list \<Rightarrow> rtty \<Rightarrow> rtty" where
  "rxs opt bs s = foldl (rx_step opt) s bs"

lemma rxs_simps [simp]:
  "rxs opt [] s = s"
  "rxs opt (b # bs) s = rxs opt bs (rx_step opt s b)"
  "rxs opt (bs @ bs') s = rxs opt bs' (rxs opt bs s)"
  by (simp_all add: rxs_def)

definition limit :: "rtty \<Rightarrow> nat" where
  "limit s = nbits s + (if rtty_parity s \<noteq> PARITY_NONE then 1 else 0)"

lemma rx_wait:
  assumes "rxstate s \<in> {RX_START, RX_DATA, RX_STOP}" "rxstate s = RX_DATA \<Longrightarrow> bitcntr s \<noteq> limit s"
    and "int (length bs) < counter s"
  shows "rxs opt bs s =
    s\<lparr>bit_buf := shifts (symbollen s) (bit_buf s) bs, counter := counter s - int (length bs)\<rparr>"
  using assms
proof (induction bs arbitrary: s)
  case (Cons b bs)
  have "rx_step opt s b = s\<lparr>bit_buf := shift_buf (symbollen s) (bit_buf s) b, counter := counter s - 1\<rparr>"
    using Cons.prems by (auto simp: rx_step_def rx_def Let_def limit_def)
  moreover have "rxs opt bs (rx_step opt s b) = rx_step opt s b
    \<lparr>bit_buf := shifts (symbollen (rx_step opt s b)) (bit_buf (rx_step opt s b)) bs,
     counter := counter (rx_step opt s b) - int (length bs)\<rparr>"
    using Cons.prems by (intro Cons.IH) (auto simp: calculation limit_def)
  ultimately show ?case by (simp add: algebra_simps)
qed simp

text \<open>A symbol is legible when the sample in its middle is right.\<close>

definition legible :: "nat \<Rightarrow> bool list \<Rightarrow> bool \<Rightarrow> bool" where
  "legible n ds b \<longleftrightarrow> length ds = n \<and> ds ! (n div 2) = b"

lemma legible_replicate [simp]: "0 < n \<Longrightarrow> legible n (replicate n b) b"
  by (simp add: legible_def)

text \<open>After the samples of a symbol the window is that symbol.\<close>

lemma is_mark_window:
  assumes "legible n ds b" "0 < n" "n \<le> length buf"
  shows "shifts n buf ds ! (n div 2) = b"
proof -
  have "take n (shifts n buf ds) = ds"
    using assms by (simp add: take_shifts legible_def)
  then show ?thesis
    using assms window_nth [of n buf ds ds "n div 2"] by (simp add: legible_def)
qed

text \<open>The last sample of a symbol, when the counter runs out.\<close>

lemma rx_last:
  assumes "rxstate s \<in> {RX_START, RX_DATA, RX_STOP}" "rxstate s = RX_DATA \<Longrightarrow> bitcntr s \<noteq> limit s"
    and "counter s = int (length ds)" "ds \<noteq> []"
  shows "rxs opt ds s = rx_step opt (s\<lparr>bit_buf := shifts (symbollen s) (bit_buf s) (butlast ds), counter := 1\<rparr>) (last ds)"
proof -
  have "rxs opt (butlast ds @ [last ds]) s =
      rx_step opt (s\<lparr>bit_buf := shifts (symbollen s) (bit_buf s) (butlast ds), counter := 1\<rparr>) (last ds)"
    using assms by (subst rxs_simps(3), subst rx_wait) (auto simp: of_nat_diff Suc_le_eq)
  then show ?thesis using assms(4) by simp
qed

lemma shifts_last: "ds \<noteq> [] \<Longrightarrow> shift_buf n (shifts n buf (butlast ds)) (last ds) = shifts n buf ds"
  by (metis append_butlast_last_id shifts_simps(1,2,3))

lemma rx_bit:
  assumes "rxstate s = RX_DATA" "bitcntr s < limit s" "counter s = int (symbollen s)"
    and "0 < symbollen s" "symbollen s \<le> length (bit_buf s)" "legible (symbollen s) ds b"
  shows "rxs opt ds s = s\<lparr>bit_buf := shifts (symbollen s) (bit_buf s) ds,
    rxdata := rxdata s OR push_bit (bitcntr s) (of_bool b), bitcntr := bitcntr s + 1,
    rxstate := (if bitcntr s + 1 = limit s then RX_STOP else RX_DATA)\<rparr>"
proof -
  have ne: "ds \<noteq> []" "length ds = symbollen s" using assms(4,6) by (auto simp: legible_def)
  show ?thesis
    using assms is_mark_window [OF assms(6,4,5)]
    by (subst rx_last) (auto simp: ne rx_step_def rx_def Let_def is_mark_def limit_def shifts_last)
qed

text \<open>All the bits of a character.\<close>

lemma rx_bits:
  assumes "list_all2 (legible n) ds bs" "symbollen s = n" "rxstate s = RX_DATA" "bs \<noteq> []"
    and "bitcntr s + length bs = limit s" "counter s = int (symbollen s)"
    and "0 < symbollen s" "symbollen s \<le> length (bit_buf s)"
  shows "rxs opt (concat ds) s = s\<lparr>bit_buf := shifts (symbollen s) (bit_buf s) (concat ds),
    rxdata := rxdata s OR push_bit (bitcntr s) (horner_sum of_bool 2 bs), bitcntr := limit s, rxstate := RX_STOP\<rparr>"
  using assms
proof (induction ds bs arbitrary: s rule: list_all2_induct)
  case (Cons d ds b bs)
  let ?s = "s\<lparr>bit_buf := shifts (symbollen s) (bit_buf s) d,
    rxdata := rxdata s OR push_bit (bitcntr s) (of_bool b), bitcntr := bitcntr s + 1,
    rxstate := (if bitcntr s + 1 = limit s then RX_STOP else RX_DATA)\<rparr>"
  have step: "rxs opt d s = ?s"
    using Cons.prems by (intro rx_bit) (auto simp: Cons.hyps(1))
  have h: "horner_sum of_bool 2 (b # bs) = (of_bool b OR push_bit 1 (horner_sum of_bool 2 bs) :: nat)"
  proof (rule bit_eqI)
    fix n
    show "bit (horner_sum of_bool 2 (b # bs) :: nat) n = bit (of_bool b OR push_bit 1 (horner_sum of_bool 2 bs) :: nat) n"
      by (cases n) (auto simp only: bit_or_iff bit_push_bit_iff bit_horner_sum_bit_iff bit_of_bool_iff
          list.size nth_Cons_0 nth_Cons_Suc possible_bit_nat diff_Suc_Suc diff_zero One_nat_def)
  qed
  show ?case
  proof (cases "bs = []")
    case True
    then show ?thesis using Cons step by simp
  next
    case False
    then obtain j where "length bs = Suc j" by (cases bs) auto
    then have "rxs opt (concat ds) ?s = ?s\<lparr>bit_buf := shifts (symbollen ?s) (bit_buf ?s) (concat ds),
      rxdata := rxdata ?s OR push_bit (bitcntr ?s) (horner_sum of_bool 2 bs), bitcntr := limit ?s, rxstate := RX_STOP\<rparr>"
      using False Cons.prems by (intro Cons.IH) (auto simp: limit_def)
    then show ?thesis
      using step h by (simp add: limit_def or.assoc push_bit_or push_bit_push_bit add.commute)
  qed
qed simp

section \<open>The start bit\<close>

text \<open>Between characters the receiver waits with a window full of marks.\<close>

definition waiting :: "rtty \<Rightarrow> bool" where
  "waiting s \<longleftrightarrow> rxstate s = RX_IDLE \<and> 12 \<le> symbollen s \<and> symbollen s \<le> length (bit_buf s) \<and>
     take (symbollen s) (bit_buf s) = replicate (symbollen s) True"

lemma marks_simps [simp]:
  "marks (xs @ ys) = marks xs + marks ys" "marks (replicate n True) = n" "marks (replicate n False) = 0"
  "marks [b] = of_bool b"
  by (simp_all add: marks_def)

lemma window_spaces:
  assumes "waiting s" "k \<le> symbollen s"
  shows "take (symbollen s) (shifts (symbollen s) (bit_buf s) (replicate k False)) =
    replicate (symbollen s - k) True @ replicate k False"
  using assms by (simp add: waiting_def take_shifts)

lemma space_snoc: "replicate (Suc k) False = replicate k False @ [False]"
  by (simp add: replicate_append_same)

lemma shift_space: "shift_buf n (shifts n buf (replicate k False)) False = shifts n buf (replicate (Suc k) False)"
  by (simp only: space_snoc shifts_simps)

lemma rx_idle_space:
  assumes "waiting s" "k < symbollen s - symbollen s div 2 - 5"
  shows "rxs opt (replicate k False) s =
    s\<lparr>bit_buf := shifts (symbollen s) (bit_buf s) (replicate k False)\<rparr>"
  using assms(2)
proof (induction k)
  case (Suc k)
  let ?n = "symbollen s" and ?B = "shifts (symbollen s) (bit_buf s) (replicate (Suc k) False)"
  have w: "take ?n ?B = replicate (?n - Suc k) True @ replicate (Suc k) False"
    using Suc.prems by (intro window_spaces assms(1)) simp
  have m: "marks (take ?n ?B) = ?n - Suc k" by (simp only: w marks_simps)
  have nm: "is_mark_space (s\<lparr>bit_buf := ?B\<rparr>) = None"
    using Suc.prems by (simp add: is_mark_space_def Let_def m del: replicate_Suc)
  have "rxs opt (replicate k False @ [False]) s = s\<lparr>bit_buf := ?B\<rparr>"
    using Suc assms(1) nm
    by (simp add: rx_step_def rx_def Let_def waiting_def shift_space del: replicate_Suc)
  then show ?case by (simp only: space_snoc)
qed simp

lemma rx_start:
  assumes "waiting s"
  shows "rxs opt (replicate (symbollen s) False) s =
    s\<lparr>bit_buf := shifts (symbollen s) (bit_buf s) (replicate (symbollen s) False),
      rxstate := RX_DATA, counter := int (symbollen s), bitcntr := 0, rxdata := 0\<rparr>"
proof -
  let ?n = "symbollen s"
  define k where "k = ?n - ?n div 2 - 6"
  define m where "m = ?n div 2 + 5"
  have n: "12 \<le> ?n" "?n \<le> length (bit_buf s)" "rxstate s = RX_IDLE"
    using assms by (auto simp: waiting_def)
  have split: "?n = k + 1 + m" using n(1) by (simp add: k_def m_def)
  let ?B = "shifts ?n (bit_buf s) (replicate (Suc k) False)"
  have w: "take ?n ?B = replicate m True @ replicate (Suc k) False"
    using window_spaces [OF assms, of "Suc k"] split by simp
  have "?n - 1 = m + k" using split by simp
  then have "?B ! 0 = (replicate m True @ replicate (Suc k) False) ! 0"
    "?B ! (?n - 1) = (replicate m True @ replicate (Suc k) False) ! (m + k)"
    using window_nth [OF _ n(2) w, of 0] window_nth [OF _ n(2) w, of "?n - 1"] n(1) split
    by (simp_all add: add.commute del: replicate_Suc)
  then have "?B ! 0" "\<not> ?B ! (?n - 1)"
    by (simp_all only: nth_append length_replicate) (simp_all add: m_def del: replicate_Suc)
  moreover have "marks (take ?n ?B) = m" by (simp only: w marks_simps)
  ultimately have ms: "is_mark_space (s\<lparr>bit_buf := ?B\<rparr>) = Some m"
    by (simp add: is_mark_space_def Let_def m_def del: replicate_Suc)
  have detect: "rxs opt (replicate k False @ [False]) s =
      s\<lparr>bit_buf := ?B, rxstate := RX_START, counter := int m\<rparr>"
    using ms n
    by (simp add: rx_idle_space [OF assms] k_def rx_step_def rx_def Let_def shift_space del: replicate_Suc)
  let ?s = "s\<lparr>bit_buf := ?B, rxstate := RX_START, counter := int m\<rparr>"
  let ?A = "shifts ?n ?B (replicate m False)"
  have A: "?A = shifts ?n (bit_buf s) (replicate ?n False)"
    by (simp only: shifts_simps(3) [symmetric] replicate_add [symmetric] split) (simp add: add_ac)
  have wA: "take ?n ?A = replicate ?n False"
    using window_spaces [OF assms, of ?n] by (simp add: A del: replicate_Suc)
  have mid: "\<not> ?A ! (?n div 2)"
    using window_nth [OF _ _ wA [unfolded A], of "?n div 2"] n by (simp add: A del: replicate_Suc)
  have ne: "replicate m False \<noteq> []" by (simp add: m_def)
  have lm: "last (replicate m False) = False" using ne by simp
  have "rxs opt (replicate m False) ?s = ?s\<lparr>bit_buf := ?A, rxstate := RX_DATA, counter := int ?n, bitcntr := 0, rxdata := 0\<rparr>"
    using mid shifts_last [OF ne, of ?n ?B]
    by (subst rx_last) (simp_all add: lm rx_step_def rx_def Let_def is_mark_def m_def)
  with detect have "rxs opt ((replicate k False @ [False]) @ replicate m False) s =
      s\<lparr>bit_buf := ?A, rxstate := RX_DATA, counter := int ?n, bitcntr := 0, rxdata := 0\<rparr>"
    by (subst rxs_simps(3)) simp
  moreover have "(replicate k False @ [False]) @ replicate m False = replicate ?n False"
    by (simp only: replicate_append_same replicate_add [symmetric] replicate_Suc [symmetric]) (simp add: split)
  ultimately show ?thesis by (simp only: A)
qed

section \<open>A character\<close>

definition start_stop :: "rtty \<Rightarrow> bool list list \<Rightarrow> nat \<Rightarrow> bool list" where
  "start_stop s ds n = replicate (symbollen s) False @ concat ds @ replicate n True"

lemma rx_idle_mark:
  assumes "rxstate s = RX_IDLE" "0 < symbollen s" "symbollen s \<le> length (bit_buf s)"
  shows "rxs opt (replicate n True) s = s\<lparr>bit_buf := shifts (symbollen s) (bit_buf s) (replicate n True)\<rparr>"
proof (induction n)
  case (Suc n)
  let ?n = "symbollen s" and ?B = "shifts (symbollen s) (bit_buf s) (replicate (Suc n) True)"
  have snoc: "replicate (Suc n) True = replicate n True @ [True]"
    by (simp add: replicate_append_same)
  have "?B ! (?n - 1) = drop (Suc n) (take ?n (bit_buf s) @ replicate (Suc n) True) ! (?n - 1)"
    using assms by (intro window_nth [of ?n]) (simp_all add: take_shifts del: replicate_Suc)
  also have "\<dots> = True"
    using assms by (auto simp: nth_append min_def simp del: replicate_Suc)
  finally have "is_mark_space (s\<lparr>bit_buf := ?B\<rparr>) = None"
    by (simp add: is_mark_space_def del: replicate_Suc)
  then show ?case
    using Suc assms unfolding snoc by (simp add: rx_step_def rx_def Let_def)
qed simp

text \<open>The state in which \<^verbatim>\<open>decode_char\<close> is called.\<close>

definition heard :: "rtty \<Rightarrow> bool list \<Rightarrow> rtty" where
  "heard s bs = s\<lparr>rxstate := RX_STOP, counter := 0, bitcntr := limit s, rxdata := horner_sum of_bool 2 bs\<rparr>"

text \<open>Decoding and delivery look at the window only to see the stop bit.\<close>

lemma deliver_char_buf:
  "deliver_char opt c (s\<lparr>bit_buf := B\<rparr>) = (deliver_char opt c s)\<lparr>bit_buf := B\<rparr>"
  by (simp add: deliver_char_def put_rx_char_def Let_def)

lemma baudot_dec_buf:
  "baudot_dec opt c (s\<lparr>bit_buf := B\<rparr>) = (fst (baudot_dec opt c s), (snd (baudot_dec opt c s))\<lparr>bit_buf := B\<rparr>)"
  by (simp add: baudot_dec_def)

lemma decode_char_buf:
  "decode_char opt (s\<lparr>bit_buf := B\<rparr>) = (fst (decode_char opt s), (snd (decode_char opt s))\<lparr>bit_buf := B\<rparr>)"
  by (simp add: decode_char_def baudot_dec_buf Let_def)

lemma rx_stop_buf:
  assumes "is_mark (s\<lparr>bit_buf := B\<rparr>)" "is_mark s"
  shows "snd (rx_stop opt (s\<lparr>bit_buf := B\<rparr>)) = (snd (rx_stop opt s))\<lparr>bit_buf := B\<rparr>"
  using assms by (simp add: rx_stop_def decode_char_buf deliver_char_buf case_prod_beta)

definition same_line :: "rtty \<Rightarrow> rtty \<Rightarrow> bool" where
  "same_line s t \<longleftrightarrow> symbollen s = symbollen t \<and> reverse s = reverse t \<and> nbits s = nbits t \<and>
     rtty_parity s = rtty_parity t"

lemma same_line_refl [simp]: "same_line s s"
  by (simp add: same_line_def)

lemma same_line_trans: "same_line s t \<Longrightarrow> same_line t u \<Longrightarrow> same_line s u"
  by (simp add: same_line_def)

lemma same_line_deliver: "same_line (deliver_char opt c s) s"
  by (simp add: same_line_def deliver_char_def put_rx_char_def Let_def)

lemma same_line_decode: "same_line (snd (decode_char opt s)) s"
  by (simp add: same_line_def decode_char_def baudot_dec_def Let_def)

lemma rx_stop_line: "same_line (snd (rx_stop opt s)) s"
  using same_line_trans [OF same_line_deliver same_line_decode]
  by (simp add: rx_stop_def case_prod_beta)

lemmas rx_stop_frame = rx_stop_line [unfolded same_line_def, THEN conjunct1]

lemma window_marks:
  assumes "0 < n" "n \<le> length buf" "n \<le> k"
  shows "take n (shifts n buf (replicate k True)) = replicate n True"
  using assms by (simp add: take_shifts)

lemma is_mark_all: "take (symbollen s) (bit_buf s) = replicate (symbollen s) True \<Longrightarrow> 0 < symbollen s \<Longrightarrow> is_mark s"
  using nth_take [of "symbollen s div 2" "symbollen s" "bit_buf s"] by (simp add: is_mark_def)

lemma rx_character:
  assumes w: "waiting s" and ds: "list_all2 (legible (symbollen s)) ds bs" "length bs = limit s" "0 < nbits s"
    and n: "symbollen s \<le> n"
  shows "\<exists>B. length B = length (bit_buf s) \<and> take (symbollen s) B = replicate (symbollen s) True \<and>
    rxs opt (start_stop s ds n) s = (snd (rx_stop opt (heard s bs)))\<lparr>rxstate := RX_IDLE, bit_buf := B\<rparr>"
proof -
  let ?n = "symbollen s"
  have L: "12 \<le> ?n" "?n \<le> length (bit_buf s)" "take ?n (bit_buf s) = replicate ?n True"
    using w by (auto simp: waiting_def)
  have ne: "bs \<noteq> []" using ds(2,3) by (auto simp: limit_def)
  define B1 where "B1 = shifts ?n (bit_buf s) (replicate ?n False)"
  define B2 where "B2 = shifts ?n B1 (concat ds)"
  define B3 where "B3 = shifts ?n B2 (replicate ?n True)"
  have lens: "length B1 = length (bit_buf s)" "length B2 = length (bit_buf s)" "length B3 = length (bit_buf s)"
    using L by (simp_all add: B1_def B2_def B3_def)
  let ?s1 = "s\<lparr>bit_buf := B1, rxstate := RX_DATA, counter := int ?n, bitcntr := 0, rxdata := 0\<rparr>"
  let ?s2 = "s\<lparr>bit_buf := B2, rxstate := RX_STOP, counter := int ?n, bitcntr := limit s, rxdata := horner_sum of_bool 2 bs\<rparr>"
  have data: "rxs opt (concat ds) ?s1 = ?s2"
    using rx_bits [OF ds(1), of ?s1 opt] ne ds(2) L lens by (simp add: limit_def B2_def)
  have B3w: "take ?n B3 = replicate ?n True"
    using L lens window_marks [of ?n B2 ?n] by (simp add: B3_def)
  have rep: "replicate ?n True \<noteq> []" "last (replicate ?n True)" using L(1) by auto
  let ?h = "heard s bs"
  have hm: "is_mark ?h" by (rule is_mark_all) (use L in \<open>simp_all add: heard_def\<close>)
  have hm3: "is_mark (?h\<lparr>bit_buf := B3\<rparr>)" by (rule is_mark_all) (use L B3w in \<open>simp_all add: heard_def\<close>)
  have h3: "?s2\<lparr>bit_buf := B3, counter := 0\<rparr> = ?h\<lparr>bit_buf := B3\<rparr>" by (simp add: heard_def)
  have "rxs opt (replicate ?n True) ?s2 = (snd (rx_stop opt (?s2\<lparr>bit_buf := B3, counter := 0\<rparr>)))\<lparr>rxstate := RX_IDLE\<rparr>"
    using rep shifts_last [OF rep(1), of ?n B2] L(1)
    by (subst rx_last) (simp_all add: rx_step_def rx_def Let_def B3_def case_prod_beta)
  then have stop: "rxs opt (replicate ?n True) ?s2 = (snd (rx_stop opt ?h))\<lparr>rxstate := RX_IDLE, bit_buf := B3\<rparr>"
    by (simp only: h3 rx_stop_buf [OF hm3 hm]) simp
  let ?s3 = "(snd (rx_stop opt ?h))\<lparr>rxstate := RX_IDLE, bit_buf := B3\<rparr>"
  have w3: "waiting ?s3" and s3: "symbollen ?s3 = ?n"
    using L lens B3w by (simp_all add: waiting_def rx_stop_frame heard_def)
  let ?B = "shifts ?n B3 (replicate (n - ?n) True)"
  have "start_stop s ds n = replicate ?n False @ concat ds @ replicate ?n True @ replicate (n - ?n) True"
    using n by (simp add: start_stop_def replicate_add [symmetric])
  then have "rxs opt (start_stop s ds n) s = (snd (rx_stop opt ?h))\<lparr>rxstate := RX_IDLE, bit_buf := ?B\<rparr>"
    using rx_start [OF w, of opt] rx_idle_mark [of ?s3 opt "n - ?n"] w3 [unfolded waiting_def]
    by (simp add: B1_def [symmetric] data stop s3)
  moreover have "take ?n ?B = replicate ?n True" "length ?B = length (bit_buf s)"
    using L lens B3w by (simp_all add: take_shifts replicate_add [symmetric])
  ultimately show ?thesis by blast
qed

section \<open>Reversed sidebands\<close>

lemma rx_step_line: "same_line (rx_step opt s b) s"
proof -
  have "same_line (snd (rx_stop opt u)) s" if "same_line u s" for u
    using same_line_trans [OF rx_stop_line that] .
  then show ?thesis
    by (simp add: rx_step_def rx_def Let_def case_prod_beta split: rtty_rx_state.split option.split)
      (simp add: same_line_def)
qed

lemma rxs_line: "same_line (rxs opt bs s) s"
proof (induction bs arbitrary: s)
  case (Cons b bs)
  then show ?case using same_line_trans [OF Cons rx_step_line] by simp
qed simp

definition on_air :: "bool \<Rightarrow> bool list \<Rightarrow> bool list" where
  "on_air rv bs = map (\<lambda>b. if rv then \<not> b else b) bs"

lemma on_air_nil [simp]: "on_air rv [] = []"
  by (simp add: on_air_def)

lemma on_air_append [simp]: "on_air rv (xs @ ys) = on_air rv xs @ on_air rv ys"
  by (simp add: on_air_def)

lemma rx_samples_on_air:
  "reverse s = rv \<Longrightarrow> rx_samples opt (on_air rv bs) s = rxs opt bs s"
proof (induction bs arbitrary: s)
  case (Cons b bs)
  have "reverse (rx_step opt s b) = rv"
    using Cons.prems rx_step_line [of opt s b] by (simp add: same_line_def)
  with Cons show ?case
    by (cases rv) (simp_all add: rx_samples_def on_air_def rx_step_def)
qed (simp add: rx_samples_def on_air_def)

section \<open>What the transmitter sends\<close>

definition char_code :: "rtty \<Rightarrow> nat \<Rightarrow> nat" where
  "char_code s c = (if nbits s = 5 \<and> c = LETTERS then 0x1F else if nbits s = 5 \<and> c = FIGURES then 0x1B else c)"

definition frame_bits :: "rtty_options \<Rightarrow> rtty \<Rightarrow> nat \<Rightarrow> bool list" where
  "frame_bits opt s c = map (\<lambda>i. bit c i) [0..<nbits s] @
     (if rtty_parity s \<noteq> PARITY_NONE then [rttyparity opt c (nbits s) = 1] else [])"

lemma length_frame_bits [simp]: "length (frame_bits opt s c) = limit s"
  by (simp add: frame_bits_def limit_def)

definition emit :: "bool list \<Rightarrow> rtty \<Rightarrow> rtty" where
  "emit xs s = s\<lparr>sent := sent s @ on_air (reverse s) xs\<rparr>"

lemma emit_simps [simp]:
  "emit [] s = s" "emit ys (emit xs s) = emit (xs @ ys) s" "sent (emit xs s) = sent s @ on_air (reverse s) xs"
  "nbits (emit xs s) = nbits s" "rtty_parity (emit xs s) = rtty_parity s" "symbollen (emit xs s) = symbollen s"
  "stoplen (emit xs s) = stoplen s" "reverse (emit xs s) = reverse s" "txmode (emit xs s) = txmode s"
  by (simp_all add: emit_def)

lemma send_symbol_emit: "send_symbol b n s = emit (replicate n b) s"
  by (simp add: send_symbol_def emit_def on_air_def)

lemma send_symbols:
  "foldl (\<lambda>s i. send_symbol (f i) (symbollen s) s) s ks =
   emit (concat (map (replicate (symbollen s)) (map f ks))) s"
  by (induction ks arbitrary: s) (simp_all add: send_symbol_emit)

lemma send_stop_emit: "send_stop s = emit (replicate (stoplen s) True) s"
  by (simp add: send_stop_def emit_def on_air_def)

lemma and_one_bit [simp]: "drop_bit i c mod 2 = Suc 0 \<longleftrightarrow> bit c i" for c :: nat
  by (simp add: bit_iff_odd_drop_bit odd_iff_mod_2_eq_one)

lemma char_code_lets:
  "(if nbits s = 5 \<and> (if nbits s = 5 \<and> c = LETTERS then 0x1F else c) = FIGURES then 0x1B
    else (if nbits s = 5 \<and> c = LETTERS then 0x1F else c)) = char_code s c"
  by (simp add: char_code_def LETTERS_def FIGURES_def)

lemma echo_only:
  "\<exists>e. (if P then if Q then t else if c \<noteq> 0 then put_echo_char d t else t else put_echo_char d' t) = t\<lparr>echoed := e\<rparr>"
proof -
  have "\<exists>e. t = t\<lparr>echoed := e\<rparr>" by (rule exI [of _ "echoed t"]) simp
  moreover have "\<exists>e. put_echo_char x t = t\<lparr>echoed := e\<rparr>" for x by (auto simp: put_echo_char_def)
  ultimately show ?thesis by simp
qed

lemma send_char_sent:
  "\<exists>e. send_char opt c s = (emit (start_stop s (map (replicate (symbollen s)) (frame_bits opt s (char_code s c)))
     (stoplen s)) s)\<lparr>echoed := e\<rparr>"
proof -
  let ?c = "char_code s c" and ?n = "symbollen s"
  let ?t = "emit (start_stop s (map (replicate ?n) (frame_bits opt s ?c)) (stoplen s)) s"
  define d where "d = (if txmode ?t = LETTERS then letters ! ?c else figures ! ?c)"
  have parity: "(if rtty_parity u \<noteq> PARITY_NONE then send_symbol p (symbollen u) u else u) =
      emit (concat (map (replicate (symbollen u)) (if rtty_parity u \<noteq> PARITY_NONE then [p] else []))) u" for p u
    by (simp add: send_symbol_emit)
  have line: "send_stop (emit (concat (map (replicate ?n) ps)) (emit (concat (map (replicate ?n) (map f ks)))
      (emit (replicate ?n False) s))) = emit (start_stop s (map (replicate ?n) (map f ks @ ps)) (stoplen s)) s" for ps f ks
    by (simp add: send_stop_emit start_stop_def)
  have "send_char opt c s = (if nbits s = 5 then if ?c = 0x1F \<or> ?c = 0x1B then ?t
      else if d \<noteq> 0 then put_echo_char (if rx_lowercase opt then tolower_code d else d) ?t else ?t
      else put_echo_char ?c ?t)"
    unfolding send_char_def Let_def char_code_lets send_symbols send_symbol_emit [of False] parity emit_simps(3-) line
    by (simp add: frame_bits_def d_def)
  then show ?thesis using echo_only [of "nbits s = 5" "?c = 0x1F \<or> ?c = 0x1B" ?t d] by simp
qed

section \<open>One character over the line\<close>

lemma rttyparity_le: "rttyparity opt c n \<le> 1"
  by (simp add: rttyparity_def rparity_def Let_def split: rtty_parity.split)

lemma and_mask_bits: "c AND (2 ^ n - 1) = take_bit n c" for c :: nat
  by (simp add: take_bit_eq_mask mask_eq_exp_minus_1)

lemma rttyparity_take_bit: "take_bit n c = take_bit n d \<Longrightarrow> rttyparity opt c n = rttyparity opt d n"
  unfolding rttyparity_def and_mask_bits by simp

lemma frame_value:
  "horner_sum of_bool 2 (frame_bits opt t c) = take_bit (nbits t) c +
     2 ^ nbits t * (if rtty_parity t \<noteq> PARITY_NONE then rttyparity opt c (nbits t) else 0)"
proof -
  have "of_bool (rttyparity opt c n = 1) = rttyparity opt c n" for n
    using rttyparity_le [of opt c n] by (cases "rttyparity opt c n = 0") auto
  then show ?thesis
    by (simp add: frame_bits_def horner_sum_append horner_sum_bit_eq_take_bit)
qed

lemma decode_frame:
  assumes "nbits r = nbits t" "rtty_parity r = rtty_parity t"
    and h: "h = heard r (frame_bits opt t c)" and d: "d = take_bit (nbits t) c"
  shows "decode_char opt h = (if nbits t = 5 then baudot_dec opt d h else (d, h))"
proof -
  let ?n = "nbits t" and ?x = "if rtty_parity t \<noteq> PARITY_NONE then rttyparity opt c (nbits t) else 0"
  have x: "rxdata h = take_bit ?n c + 2 ^ ?n * ?x" "nbits h = ?n" "rtty_parity h = rtty_parity t"
    using assms by (simp_all add: heard_def frame_value)
  have lt: "take_bit ?n c < 2 ^ ?n" by (rule take_bit_nat_less_exp)
  have data: "take_bit ?n (rxdata h) = take_bit ?n c"
    by (simp add: x take_bit_eq_mod)
  have "drop_bit ?n (rxdata h) = ?x"
    using lt by (simp add: x drop_bit_eq_div)
  moreover have "?x \<le> 1" using rttyparity_le by simp
  ultimately have par: "drop_bit ?n (rxdata h) AND 1 = ?x"
    by (cases "?x = 0") (simp_all only: and_one_eq le_less less_one, simp_all)
  have "rttyparity opt (rxdata h) ?n = rttyparity opt c ?n"
    by (rule rttyparity_take_bit [OF data])
  then show ?thesis
    unfolding decode_char_def Let_def and_mask_bits x(2,3) par d data by simp
qed

text \<open>What the receiver shows, and the effect of a character on it.\<close>

definition rtty_view :: "rtty \<Rightarrow> nat \<times> nat list" where
  "rtty_view s = (lastchar s, printed s)"

definition print1 :: "rtty_options \<Rightarrow> nat \<Rightarrow> nat \<times> nat list \<Rightarrow> nat \<times> nat list" where
  "print1 opt c v = (if c = 0 then v else
     (c, if c \<in> {10, 13} \<and> c = fst v then snd v else snd v @ [if rx_lowercase opt then tolower_code c else c]))"

lemma view_deliver:
  "\<not> synop_decoding opt \<Longrightarrow> rtty_view (deliver_char opt c s) = print1 opt c (rtty_view s)"
  by (auto simp: deliver_char_def rtty_view_def print1_def put_rx_char_def Let_def)

definition in_step :: "rtty \<Rightarrow> rtty \<Rightarrow> bool" where
  "in_step t r \<longleftrightarrow> waiting r \<and> same_line t r \<and> rxmode r = txmode t"

definition good_line :: "nat \<Rightarrow> rtty \<Rightarrow> bool" where
  "good_line n t \<longleftrightarrow> nbits t = n \<and> 0 < n \<and> n \<le> 8 \<and> symbollen t \<le> stoplen t \<and>
     txmode t \<in> {LETTERS, FIGURES} \<and> \<not> preamble t \<and> \<not> stopflag t"

definition hearing :: "rtty_options \<Rightarrow> bool" where
  "hearing opt \<longleftrightarrow> squelch_open opt \<and> \<not> synop_decoding opt"

interpretation rtty: synced_link sent "rx_samples opt" "good_line n" in_step rtty_view for opt n
  by unfold_locales (simp_all add: rx_samples_def)

definition decoded :: "rtty_options \<Rightarrow> nat \<Rightarrow> nat \<Rightarrow> nat \<Rightarrow> nat \<times> nat" where
  "decoded opt n d mode =
    (if n = 5 then
       if d = 0x1F then (0, LETTERS) else if d = 0x1B then (0, FIGURES)
       else if d = 0x04 then (32, if UOSrx opt then LETTERS else mode)
       else (if mode = LETTERS then letters ! d else figures ! d, mode)
     else (d, mode))"

lemma baudot_decoded:
  "baudot_dec opt v s = (fst (decoded opt 5 v (rxmode s)), s\<lparr>rxmode := snd (decoded opt 5 v (rxmode s))\<rparr>)"
  by (simp add: baudot_dec_def decoded_def)

lemma table_codes: "list_all (\<lambda>c. c < 128) letters" "list_all (\<lambda>c. c < 128) figures"
  "length letters = 32" "length figures = 32"
  by (simp_all add: letters_def figures_def)

lemma decoded_less: "0 < n \<Longrightarrow> n \<le> 8 \<Longrightarrow> fst (decoded opt n (take_bit n c) mode) < 256"
proof -
  assume n: "0 < n" "n \<le> 8"
  have "(2 :: nat) ^ n \<le> 256" using power_increasing [OF n(2), of "2 :: nat"] by simp
  then have tb: "take_bit n c < 256" by (rule less_le_trans [OF take_bit_nat_less_exp])
  have "take_bit 5 c < 32" using take_bit_nat_less_exp [of 5 c] by simp
  then have "letters ! take_bit 5 c < 128" "figures ! take_bit 5 c < 128"
    using table_codes by (simp_all add: list_all_length)
  with tb show ?thesis by (auto simp: decoded_def)
qed

lemma hear_frame:
  assumes "hearing opt" "good_line n t" "in_step t r"
    and dec: "decoded opt n (take_bit n c) (txmode t) = (d, m)"
    and r': "r' = rx_samples opt (on_air (reverse t) (start_stop t (map (replicate (symbollen t)) (frame_bits opt t c)) (stoplen t))) r"
  shows "waiting r' \<and> same_line t r' \<and> rxmode r' = m \<and> rtty_view r' = print1 opt d (rtty_view r)"
proof -
  have line: "symbollen r = symbollen t" "reverse r = reverse t" "nbits r = n" "nbits t = n" "rtty_parity r = rtty_parity t"
    and w: "waiting r" and n: "0 < n" "n \<le> 8" and mode: "rxmode r = txmode t"
    using assms(2,3) by (auto simp: in_step_def good_line_def same_line_def)
  have "list_all2 (legible (symbollen r)) (map (replicate (symbollen r)) bs) bs" for bs
    using w by (simp add: list_all2_conv_all_nth waiting_def)
  moreover have "length (frame_bits opt t c) = limit r" "0 < nbits r" "symbollen r \<le> stoplen t"
    using line n assms(2) by (simp_all add: limit_def good_line_def)
  moreover have "r' = rxs opt (start_stop r (map (replicate (symbollen r)) (frame_bits opt t c)) (stoplen t)) r"
    by (simp only: r' rx_samples_on_air [OF line(2)] start_stop_def line)
  ultimately obtain B where B: "length B = length (bit_buf r)" "take (symbollen r) B = replicate (symbollen r) True"
    "r' = (snd (rx_stop opt (heard r (frame_bits opt t c))))\<lparr>rxstate := RX_IDLE, bit_buf := B\<rparr>"
    using rx_character [OF w] by metis
  let ?h = "heard r (frame_bits opt t c)"
  have hm: "rxmode ?h = txmode t" by (simp add: heard_def mode)
  have "decode_char opt ?h = (if n = 5 then baudot_dec opt (take_bit n c) ?h else (take_bit n c, ?h))"
    using decode_frame [OF _ _ refl refl, of r t opt c] line by simp
  also have "\<dots> = (fst (decoded opt n (take_bit n c) (txmode t)), ?h\<lparr>rxmode := snd (decoded opt n (take_bit n c) (txmode t))\<rparr>)"
    by (cases "n = 5") (simp_all only: baudot_decoded hm, simp_all add: decoded_def hm [symmetric])
  finally have dc: "decode_char opt ?h = (d, ?h\<lparr>rxmode := m\<rparr>)" by (simp add: dec)
  have "is_mark ?h"
    by (rule is_mark_all) (use w in \<open>simp_all add: heard_def waiting_def\<close>)
  then have st: "snd (rx_stop opt ?h) = deliver_char opt d (?h\<lparr>rxmode := m\<rparr>)"
    using assms(1) decoded_less [OF n, of opt c "txmode t"] by (simp add: rx_stop_def dc hearing_def dec)
  have sl: "same_line (deliver_char opt d (?h\<lparr>rxmode := m\<rparr>)) r"
    using same_line_deliver [of opt d "?h\<lparr>rxmode := m\<rparr>"] by (simp add: same_line_def heard_def)
  have "rxmode (deliver_char opt d (?h\<lparr>rxmode := m\<rparr>)) = m"
    by (simp add: deliver_char_def put_rx_char_def Let_def)
  moreover have "rtty_view r' = rtty_view (deliver_char opt d (?h\<lparr>rxmode := m\<rparr>))"
    by (simp add: B(3) st rtty_view_def)
  moreover have "rtty_view (?h\<lparr>rxmode := m\<rparr>) = rtty_view r" by (simp add: rtty_view_def heard_def)
  ultimately show ?thesis
    using sl w B line assms(1,2) view_deliver [of opt d "?h\<lparr>rxmode := m\<rparr>"]
    by (simp add: waiting_def same_line_def st hearing_def good_line_def)
qed

lemma carries_send:
  assumes "hearing opt" and dec: "good_line n t \<Longrightarrow> decoded opt n (take_bit n (char_code t c)) (txmode t) = (d, m)"
    and "m \<in> {LETTERS, FIGURES}"
  shows "rtty.carries opt n t ((send_char opt c t)\<lparr>txmode := m\<rparr>) (print1 opt d)"
proof -
  obtain e where e: "send_char opt c t = (emit (start_stop t (map (replicate (symbollen t))
      (frame_bits opt t (char_code t c))) (stoplen t)) t)\<lparr>echoed := e\<rparr>"
    using send_char_sent by blast
  show ?thesis
  proof (rule rtty.carriesI)
    fix r assume "good_line n t" "in_step t r"
    from hear_frame [OF assms(1) this dec [OF this(1)] refl]
    show "in_step ((send_char opt c t)\<lparr>txmode := m\<rparr>) (rx_samples opt (on_air (reverse t)
        (start_stop t (map (replicate (symbollen t)) (frame_bits opt t (char_code t c))) (stoplen t))) r) \<and>
      rtty_view (rx_samples opt (on_air (reverse t)
        (start_stop t (map (replicate (symbollen t)) (frame_bits opt t (char_code t c))) (stoplen t))) r) =
      print1 opt d (rtty_view r)"
      by (auto simp: in_step_def e same_line_def emit_def)
  qed (use assms(3) in \<open>auto simp: e emit_def good_line_def\<close>)
qed

section \<open>Baudot text\<close>

definition shown :: "rtty_options \<Rightarrow> nat list \<Rightarrow> nat \<times> nat list \<Rightarrow> nat \<times> nat list" where
  "shown opt cs v = foldl (\<lambda>v c. print1 opt c v) v cs"

lemma shown_simps [simp]:
  "shown opt [] v = v" "shown opt (c # cs) v = shown opt cs (print1 opt c v)"
  "shown opt (cs @ ds) v = shown opt ds (shown opt cs v)"
  by (simp_all add: shown_def)

lemma shown_fun: "shown opt [] = (\<lambda>v. v)" "shown opt [c] = print1 opt c"
  "shown opt (c # cs) = (\<lambda>v. shown opt cs (print1 opt c v))"
  by (simp_all add: fun_eq_iff shown_def)

lemma shown_append: "shown opt (xs @ ys) = (\<lambda>v. shown opt ys (shown opt xs v))"
  by (simp add: fun_eq_iff)

lemma print1_zero [simp]: "print1 opt 0 v = v"
  by (simp add: print1_def)

lemma five_bits: "good_line 5 t \<Longrightarrow> char_code t LETTERS = 0x1F \<and> char_code t FIGURES = 0x1B"
  by (simp add: good_line_def char_code_def LETTERS_def FIGURES_def)

lemma char_code_small: "v < 32 \<Longrightarrow> char_code t v = v"
  by (simp add: char_code_def LETTERS_def FIGURES_def)

lemma take_five: "v < 32 \<Longrightarrow> take_bit 5 v = v" for v :: nat
  by (simp add: take_bit_nat_eq_self_iff)

text \<open>A shift character changes the case on both sides and prints nothing.\<close>

lemma carries_letters:
  assumes "hearing opt"
  shows "rtty.carries opt 5 t ((send_char opt LETTERS t)\<lparr>txmode := LETTERS\<rparr>) (\<lambda>v. v)"
proof -
  have "print1 opt 0 = (\<lambda>v. v)" by auto
  then show ?thesis
    using carries_send [OF assms, of 5 t LETTERS 0 LETTERS] by (simp add: five_bits decoded_def take_five)
qed

lemma carries_figures:
  assumes "hearing opt"
  shows "rtty.carries opt 5 t ((send_char opt FIGURES t)\<lparr>txmode := FIGURES\<rparr>) (\<lambda>v. v)"
proof -
  have "print1 opt 0 = (\<lambda>v. v)" by auto
  then show ?thesis
    using carries_send [OF assms, of 5 t FIGURES 0 FIGURES] by (simp add: five_bits decoded_def take_five)
qed

lemma same_mode: "(send_char opt c t)\<lparr>txmode := txmode t\<rparr> = send_char opt c t"
proof -
  obtain e where e: "send_char opt c t = (emit (start_stop t (map (replicate (symbollen t))
      (frame_bits opt t (char_code t c))) (stoplen t)) t)\<lparr>echoed := e\<rparr>"
    using send_char_sent by blast
  show ?thesis by (simp add: e emit_def)
qed

text \<open>A code that is no shift is printed in the case that both sides are in.\<close>

lemma carries_code:
  assumes "hearing opt" "v < 32" "v \<notin> {0x1F, 0x1B, 0x04}"
  shows "rtty.carries opt 5 t (send_char opt v t) (print1 opt (if txmode t = LETTERS then letters ! v else figures ! v))"
proof (cases "txmode t \<in> {LETTERS, FIGURES}")
  case True
  then show ?thesis
    using carries_send [OF assms(1), of 5 t v "if txmode t = LETTERS then letters ! v else figures ! v" "txmode t"] assms(2,3)
    by (simp add: same_mode decoded_def char_code_small take_five)
qed (auto simp: rtty.carries_def good_line_def)

lemma carries_space:
  assumes "hearing opt" "UOSrx opt \<Longrightarrow> txmode t = LETTERS"
  shows "rtty.carries opt 5 t (send_char opt 4 t) (print1 opt 32)"
proof (cases "txmode t \<in> {LETTERS, FIGURES}")
  case True
  then show ?thesis
    using carries_send [OF assms(1), of 5 t 4 32 "txmode t"] assms(2)
    by (simp add: same_mode decoded_def char_code_small take_five)
qed (auto simp: rtty.carries_def good_line_def)

text \<open>A column that the search finds has the character in one of the tables.\<close>

lemma baudot_search_found:
  "baudot_search data ls fs i = Some e \<Longrightarrow> \<exists>k < length ls. k < length fs \<and> (data = ls ! k \<or> data = fs ! k) \<and>
     e = ((if data = ls ! k then LETTERS else 0) OR (if data = fs ! k then FIGURES else 0)) OR (i + k)"
proof (induction data ls fs i rule: baudot_search.induct)
  case (1 data l ls f fs i)
  show ?case
  proof (cases "data = l \<or> data = f")
    case True
    then show ?thesis using "1.prems" by (intro exI [of _ 0]) (auto simp: Let_def)
  next
    case False
    then have "baudot_search data ls fs (i + 1) = Some e" using "1.prems" by (simp add: Let_def)
    from "1.IH" [OF refl False this] obtain k where "k < length ls" "k < length fs" "data = ls ! k \<or> data = fs ! k"
      "e = ((if data = ls ! k then LETTERS else 0) OR (if data = fs ! k then FIGURES else 0)) OR (i + 1 + k)"
      by blast
    then show ?thesis by (intro exI [of _ "Suc k"]) simp
  qed
qed simp_all

lemma tables_nat:
  "letters = [0, 69, 10, 65, 32, 83, 73, 85, 13, 68, 82, 74, 78, 70, 67, 75,
     84, 90, 76, 87, 72, 89, 80, 81, 79, 66, 71, 32, 77, 88, 86, 32]"
  "figures = [0, 51, 10, 45, 32, 7, 56, 55, 13, 36, 52, 39, 44, 33, 58, 40,
     53, 34, 41, 50, 35, 54, 48, 49, 57, 63, 38, 32, 46, 47, 59, 32]"
  by (simp_all add: letters_def figures_def)

lemma columns:
  "list_all (\<lambda>(k, l, f). (l = f \<longrightarrow> l \<in> {0, 10, 13, 32}) \<and>
     (k \<in> {0x1F, 0x1B, 0x04} \<longrightarrow> l = 32 \<and> f = 32)) (zip [0..<32] (zip letters figures))"
  by (simp add: tables_nat upt_rec_numeral upt_conv_Cons)

lemma column:
  assumes "k < 32"
  shows "letters ! k = figures ! k \<Longrightarrow> letters ! k \<in> {0, 10, 13, 32}"
    and "k \<in> {0x1F, 0x1B, 0x04} \<Longrightarrow> letters ! k = 32 \<and> figures ! k = 32"
  using columns assms by (auto simp: list_all_length table_codes)

lemma mode_bits:
  assumes "k < 32" "m \<in> {LETTERS, FIGURES, 0x300}"
  shows "(m OR k) AND 0x1F = k" "(m OR k) AND 0x300 = m"
proof -
  have k: "take_bit 5 k = k" using assms(1) by (rule take_five)
  have "(m OR k) AND (2 ^ 5 - 1) = take_bit 5 m OR take_bit 5 k"
    by (simp only: and_mask_bits take_bit_or)
  also have "take_bit 5 m = 0" using assms(2) by (auto simp: LETTERS_def FIGURES_def)
  finally show "(m OR k) AND 0x1F = k" by (simp add: k)
  have "k AND 31 = k" using and_mask_bits [of k 5] k by simp
  then have "k AND 0x300 = k AND (31 AND 0x300)" by (metis and.assoc)
  then have "k AND 0x300 = 0" by simp
  moreover have "(m OR k) AND 0x300 = (m AND 0x300) OR (k AND 0x300)"
    by (rule bit_eqI) (auto simp only: bit_and_iff bit_or_iff)
  ultimately show "(m OR k) AND 0x300 = m"
    using assms(2) by (auto simp: LETTERS_def FIGURES_def)
qed

lemma baudot_enc_code:
  assumes "baudot_enc c = Some e" "c < 256" "c \<notin> {10, 13, 32}"
  defines "v \<equiv> e AND 0x1F" and "m \<equiv> e AND 0x300"
  shows "v < 32" "v \<notin> {0x1F, 0x1B, 0x04}"
    and "m = LETTERS \<and> letters ! v = toupper_code c \<or> m = FIGURES \<and> figures ! v = toupper_code c \<or>
      m = 0x300 \<and> toupper_code c = 0 \<and> letters ! v = 0 \<and> figures ! v = 0"
proof -
  let ?d = "toupper_code c"
  have d: "?d \<notin> {10, 13, 32}" using assms(3) by (auto simp: toupper_code_def)
  obtain k where k: "k < 32" "?d = letters ! k \<or> ?d = figures ! k"
    "e = ((if ?d = letters ! k then LETTERS else 0) OR (if ?d = figures ! k then FIGURES else 0)) OR k"
    using baudot_search_found [of ?d letters figures 0 e] assms(1,2) by (auto simp: baudot_enc_def table_codes)
  define m' where "m' = (if ?d = letters ! k then LETTERS else 0) OR (if ?d = figures ! k then FIGURES else 0)"
  have m': "m' \<in> {LETTERS, FIGURES, 0x300}"
    using k(2) by (auto simp: m'_def LETTERS_def FIGURES_def)
  have e: "v = k" "m = m'" using mode_bits [OF k(1) m'] k(3) by (simp_all add: v_def m_def m'_def)
  show "v < 32" using e k by simp
  show "v \<notin> {0x1F, 0x1B, 0x04}" using column(2) [OF k(1)] d k(2) e by auto
  show "m = LETTERS \<and> letters ! v = ?d \<or> m = FIGURES \<and> figures ! v = ?d \<or>
      m = 0x300 \<and> ?d = 0 \<and> letters ! v = 0 \<and> figures ! v = 0"
    using column(1) [OF k(1)] d k(2) by (auto simp: e m'_def LETTERS_def FIGURES_def)
qed

text \<open>What the receiver gets for a character typed: carriage return, line feed and blank have codes
  of their own, letters are capitals, a character that is in neither table is skipped.\<close>

definition heard_as :: "rtty_options \<Rightarrow> nat \<Rightarrow> nat list" where
  "heard_as opt c =
    (if c = 13 then [13] else if c = 10 then (if crcrlf opt then [13, 10] else [10])
     else if c = 32 then [32] else if baudot_enc c = None then [] else [toupper_code c])"

lemma code_cr_lf: "letters ! 8 = 13" "figures ! 8 = 13" "letters ! 2 = 10" "figures ! 2 = 10"
  by (simp_all add: tables_nat)

lemma carries_cr: "hearing opt \<Longrightarrow> rtty.carries opt 5 t (send_char opt 8 t) (print1 opt 13)"
  and carries_lf: "hearing opt \<Longrightarrow> rtty.carries opt 5 t (send_char opt 2 t) (print1 opt 10)"
  using carries_code [of opt 8 t] carries_code [of opt 2 t]
  by (simp_all add: code_cr_lf if_cancel split: if_splits)

lemma carries_line_count:
  "rtty.carries opt n t (t\<lparr>line_char_count := l\<rparr>) (\<lambda>v. v)"
  by (rule rtty.carriesI [where xs = "[]"])
    (auto simp: good_line_def in_step_def same_line_def rx_samples_def)

lemma carries_flush:
  "rtty.carries opt n t (flush_stream t) (\<lambda>v. v)"
  by (rule rtty.carriesI [where xs = "[]"])
    (auto simp: good_line_def in_step_def same_line_def rx_samples_def flush_stream_def)

lemma carries_if_cr:
  assumes "hearing opt"
  shows "rtty.carries opt 5 t (if crcrlf opt then send_char opt 8 t else t)
    (shown opt (if crcrlf opt then [13] else []))"
  using carries_cr [OF assms, of t] rtty.carries_refl [of opt 5 t] by (simp add: shown_fun)

lemma carries_shift:
  assumes "hearing opt" "txmode t \<in> {LETTERS, FIGURES}"
  shows "rtty.carries opt 5 t (shift_case opt e t) (\<lambda>v. v)"
    and "txmode (shift_case opt e t) = (if e AND 0x300 = txmode t then txmode t
      else if txmode t = FIGURES then LETTERS else FIGURES)"
  using carries_letters [OF assms(1), of t] carries_figures [OF assms(1), of t] rtty.carries_refl [of opt 5 t]
  by (auto simp: shift_case_def)

lemma carries_baudot_code:
  assumes "hearing opt" "baudot_enc c = Some e" "c < 256" "c \<notin> {10, 13, 32}"
  shows "rtty.carries opt 5 t (send_char opt (e AND 0x1F) (shift_case opt e t)) (print1 opt (toupper_code c))"
proof (cases "txmode t \<in> {LETTERS, FIGURES}")
  case True
  let ?v = "e AND 0x1F" and ?m = "e AND 0x300"
  note code = baudot_enc_code [OF assms(2-4)] and shift = carries_shift [OF assms(1) True, of e]
  let ?u = "shift_case opt e t"
  have "(if txmode ?u = LETTERS then letters ! ?v else figures ! ?v) = toupper_code c"
    using code(3) True by (auto simp: shift(2) LETTERS_def FIGURES_def)
  then show ?thesis
    using rtty.carries_trans [OF shift(1) carries_code [OF assms(1) code(1,2), of ?u]] by simp
qed (auto simp: rtty.carries_def good_line_def)

lemma carries_auto:
  assumes "\<not> autocrlf opt"
  obtains t' where "auto_crlf opt c t = (False, t')" "rtty.carries opt n t t' (\<lambda>v. v)"
  using assms carries_line_count [of opt n t "line_char_count t + 1"] rtty.carries_refl [of opt n t]
  by (auto simp: auto_crlf_def)

text \<open>The case is changed before or after a blank is sent; only the echo can tell.\<close>

lemma carries_echoed: "rtty.carries opt n t u g \<Longrightarrow> rtty.carries opt n t (u\<lparr>echoed := e\<rparr>) g"
proof -
  have "good_line n (u\<lparr>echoed := e\<rparr>) = good_line n u" "in_step (u\<lparr>echoed := e\<rparr>) = in_step u"
    by (simp_all add: good_line_def in_step_def same_line_def fun_eq_iff)
  then show "rtty.carries opt n t u g \<Longrightarrow> rtty.carries opt n t (u\<lparr>echoed := e\<rparr>) g"
    by (simp add: rtty.carries_def)
qed

lemma send_char_mode:
  "\<exists>e. (send_char opt c s)\<lparr>txmode := m\<rparr> = (send_char opt c (s\<lparr>txmode := m\<rparr>))\<lparr>echoed := e\<rparr>"
proof -
  let ?x = "start_stop s (map (replicate (symbollen s)) (frame_bits opt s (char_code s c))) (stoplen s)"
  have same: "start_stop (s\<lparr>txmode := m\<rparr>) = start_stop s" "frame_bits opt (s\<lparr>txmode := m\<rparr>) = frame_bits opt s"
    "char_code (s\<lparr>txmode := m\<rparr>) = char_code s"
    by (simp_all add: fun_eq_iff start_stop_def frame_bits_def char_code_def)
  obtain e where e: "send_char opt c s = (emit ?x s)\<lparr>echoed := e\<rparr>"
    using send_char_sent by blast
  obtain e' where e': "send_char opt c (s\<lparr>txmode := m\<rparr>) = (emit ?x (s\<lparr>txmode := m\<rparr>))\<lparr>echoed := e'\<rparr>"
    using send_char_sent [of opt c "s\<lparr>txmode := m\<rparr>"] unfolding same by auto
  show ?thesis unfolding e e' by (rule exI [of _ e]) (simp add: emit_def)
qed

lemma carries_uos_space:
  assumes "hearing opt"
  shows "rtty.carries opt 5 t ((send_char opt 4 (send_char opt LETTERS t))\<lparr>txmode := LETTERS\<rparr>) (print1 opt 32)"
proof -
  let ?u = "(send_char opt LETTERS t)\<lparr>txmode := LETTERS\<rparr>"
  obtain e where "(send_char opt 4 (send_char opt LETTERS t))\<lparr>txmode := LETTERS\<rparr> = (send_char opt 4 ?u)\<lparr>echoed := e\<rparr>"
    using send_char_mode by blast
  then show ?thesis
    using carries_echoed [OF rtty.carries_trans [OF carries_letters [OF assms] carries_space [OF assms, of ?u]]] by simp
qed

lemma carries_baudot:
  assumes "hearing opt" "\<not> autocrlf opt" "UOSrx opt \<Longrightarrow> UOStx opt" "c < 256"
  shows "rtty.carries opt 5 t (tx_baudot opt c t) (shown opt (heard_as opt c))"
proof -
  obtain u where u: "auto_crlf opt c t = (False, u)" "rtty.carries opt 5 t u (\<lambda>v. v)"
    by (rule carries_auto [OF assms(2)])
  note sends = tx_baudot_def [of opt c t, unfolded u(1) Let_def prod.case if_False]
  let ?u0 = "u\<lparr>line_char_count := 0\<rparr>"
  have u0: "rtty.carries opt 5 t ?u0 (\<lambda>v. v)"
    using rtty.carries_trans [OF u(2) carries_line_count] .
  consider "c = 13" | "c = 10" | "c = 32" | "c \<notin> {10, 13, 32}" by auto
  then show ?thesis
  proof cases
    case 1
    then show ?thesis
      using rtty.carries_trans [OF u0 carries_cr [OF assms(1)]]
      unfolding sends by (simp add: heard_as_def shown_fun)
  next
    case 2
    then show ?thesis
      using rtty.carries_trans [OF rtty.carries_trans [OF u0 carries_if_cr [OF assms(1)]] carries_lf [OF assms(1)]]
      unfolding sends by (cases "crcrlf opt") (simp_all add: heard_as_def shown_fun)
  next
    case 3
    show ?thesis
    proof (cases "UOStx opt")
      case True
      then show ?thesis
        using 3 rtty.carries_trans [OF u(2) carries_uos_space [OF assms(1)]]
        unfolding sends by (simp add: heard_as_def shown_fun)
    next
      case False
      then show ?thesis
        using 3 assms(3) rtty.carries_trans [OF u(2) carries_space [OF assms(1), of u]]
        unfolding sends by (auto simp: heard_as_def shown_fun)
    qed
  next
    case 4
    show ?thesis
    proof (cases "baudot_enc c")
      case None
      then show ?thesis using 4 u unfolding sends by (simp add: heard_as_def shown_fun)
    next
      case (Some e)
      then show ?thesis
        using 4 rtty.carries_trans [OF u(2) carries_baudot_code [OF assms(1) Some assms(4) 4]]
        unfolding sends by (simp add: heard_as_def shown_fun)
    qed
  qed
qed

section \<open>A transmission\<close>

text \<open>The receiver prints each character once, but not a second carriage return or line feed in a row.\<close>

fun crush :: "rtty_options \<Rightarrow> nat \<Rightarrow> nat list \<Rightarrow> nat list" where
  "crush opt l [] = []"
| "crush opt l (c # cs) = (if c = 0 then crush opt l cs
     else (if c \<in> {10, 13} \<and> c = l then [] else [if rx_lowercase opt then tolower_code c else c]) @ crush opt c cs)"

lemma shown_crush: "snd (shown opt cs v) = snd v @ crush opt (fst v) cs"
proof (induction cs arbitrary: v)
  case (Cons c cs)
  then show ?case by (auto simp: print1_def)
qed simp

lemma shown_concat: "foldl (\<lambda>v c. shown opt (f c) v) v cs = shown opt (concat (map f cs)) v"
  by (induction cs arbitrary: v) simp_all

text \<open>The settings under which both stations understand each other: the Baudot code, no weather
  report decoder, and a receiver that unshifts on space only if the sender does.\<close>

definition understood :: "rtty_options \<Rightarrow> bool" where
  "understood opt \<longleftrightarrow> hearing opt \<and> \<not> autocrlf opt \<and> (UOSrx opt \<longrightarrow> UOStx opt)"

lemma carries_send_crlf:
  assumes "hearing opt"
  shows "rtty.carries opt 5 t (send_crlf opt 8 2 t) (shown opt ((if crcrlf opt then [13] else []) @ [13, 10]))"
  using rtty.carries_trans [OF rtty.carries_trans [OF carries_if_cr [OF assms] carries_cr [OF assms]] carries_lf [OF assms]]
  by (cases "crcrlf opt") (simp_all add: send_crlf_def shown_fun)

lemma carries_process:
  assumes "understood opt" "c < 256" "good_line 5 t"
  shows "rtty.carries opt 5 t (snd (tx_process opt (Tx_char c) t)) (shown opt (heard_as opt c))"
proof -
  have "snd (tx_process opt (Tx_char c) t) = tx_baudot opt c t"
    using assms(3) by (simp add: tx_process_def send_preamble_def good_line_def Let_def)
  then show ?thesis using carries_baudot [of opt c t] assms(1,2) by (simp add: understood_def)
qed

lemma carries_chars:
  assumes "understood opt" "\<forall>c \<in> set cs. c < 256"
  shows "rtty.carries opt 5 t (tx_chars opt cs t) (shown opt (concat (map (heard_as opt) cs)))"
proof -
  have "rtty.carries opt 5 u (snd (tx_process opt (Tx_char c) u)) (shown opt (heard_as opt c))" if "c \<in> set cs" for c u
    using carries_process [OF assms(1), of c u] assms(2) that
    by (cases "good_line 5 u") (auto simp: rtty.carries_def)
  from rtty.carries_foldl [OF this] show ?thesis
    by (simp add: tx_chars_def shown_concat)
qed

definition line_end :: "rtty_options \<Rightarrow> nat list" where
  "line_end opt = (if crcrlf opt then [13] else []) @ [13, 10]"

lemma carries_etx:
  assumes "hearing opt" "good_line 5 t"
  shows "rtty.carries opt 5 t (snd (tx_process opt Tx_etx t)) (shown opt (line_end opt))"
proof -
  have flag: "t\<lparr>stopflag := False, line_char_count := 0\<rparr> = t\<lparr>line_char_count := 0\<rparr>"
    using assms(2) by (cases t) (simp add: good_line_def)
  have "snd (tx_process opt Tx_etx t) = flush_stream (send_crlf opt 8 2 (t\<lparr>line_char_count := 0\<rparr>))"
    using assms(2) by (simp add: tx_process_def send_preamble_def good_line_def Let_def flag)
  then show ?thesis
    using rtty.carries_trans [OF rtty.carries_trans [OF carries_line_count carries_send_crlf [OF assms(1)]] carries_flush]
    by (simp only: line_end_def)
qed

lemma letters_run:
  "\<exists>e. ((send_char opt LETTERS) ^^ k) s = (emit (concat (replicate k (start_stop s
     (map (replicate (symbollen s)) (frame_bits opt s (char_code s LETTERS))) (stoplen s)))) s)\<lparr>echoed := e\<rparr>"
proof (induction k)
  case 0
  show ?case by (rule exI [of _ "echoed s"]) simp
next
  case (Suc k)
  let ?x = "start_stop s (map (replicate (symbollen s)) (frame_bits opt s (char_code s LETTERS))) (stoplen s)"
  from Suc obtain e where e: "((send_char opt LETTERS) ^^ k) s = (emit (concat (replicate k ?x)) s)\<lparr>echoed := e\<rparr>"
    by blast
  let ?u = "(emit (concat (replicate k ?x)) s)\<lparr>echoed := e\<rparr>"
  have same: "start_stop ?u = start_stop s" "frame_bits opt ?u = frame_bits opt s" "char_code ?u = char_code s"
    by (simp_all add: fun_eq_iff start_stop_def frame_bits_def char_code_def)
  obtain e' where e': "send_char opt LETTERS ?u = (emit ?x ?u)\<lparr>echoed := e'\<rparr>"
    using send_char_sent [of opt LETTERS ?u] unfolding same by auto
  have "concat (replicate (Suc k) ?x) = concat (replicate k ?x) @ ?x"
    by (simp add: replicate_append_same [symmetric])
  then have snoc: "emit (concat (replicate (Suc k) ?x)) s = emit ?x (emit (concat (replicate k ?x)) s)"
    by (simp only: emit_simps)
  show ?case
    by (rule exI [of _ e'], simp only: funpow.simps o_apply e e' snoc) (simp add: emit_def)
qed

lemma send_char_txmode [simp]: "txmode (send_char opt c s) = txmode s"
proof -
  obtain e where "send_char opt c s = (emit (start_stop s (map (replicate (symbollen s))
      (frame_bits opt s (char_code s c))) (stoplen s)) s)\<lparr>echoed := e\<rparr>"
    using send_char_sent by blast
  then show ?thesis by simp
qed

text \<open>The shift characters in front of a transmission; the sender assumes letters case.\<close>

lemma carries_preamble:
  assumes "\<And>t. txmode t = LETTERS \<Longrightarrow> rtty.carries opt n t (send_char opt LETTERS t) (\<lambda>v. v)"
    and "txmode s = LETTERS"
  shows "rtty.carries opt n (s\<lparr>preamble := False\<rparr>) (send_preamble opt (tx_init s)) (\<lambda>v. v)"
proof -
  let ?s0 = "s\<lparr>preamble := False\<rparr>" and ?s1 = "s\<lparr>preamble := True\<rparr>" and ?n = "TTY_LTRS opt"
  have "rtty.carries opt n ?s0 ((send_char opt LETTERS ^^ k) ?s0) (\<lambda>v. v) \<and>
      txmode ((send_char opt LETTERS ^^ k) ?s0) = LETTERS" for k
  proof (induction k)
    case 0
    show ?case using rtty.carries_refl assms(2) by simp
  next
    case (Suc k)
    then show ?case using rtty.carries_trans [OF _ assms(1)] by simp
  qed
  then have c: "rtty.carries opt n ?s0 ((send_char opt LETTERS ^^ ?n) ?s0) (\<lambda>v. v)" by blast
  let ?x = "start_stop s (map (replicate (symbollen s)) (frame_bits opt s (char_code s LETTERS))) (stoplen s)"
  have same: "start_stop (s\<lparr>preamble := b\<rparr>) = start_stop s" "frame_bits opt (s\<lparr>preamble := b\<rparr>) = frame_bits opt s"
    "char_code (s\<lparr>preamble := b\<rparr>) = char_code s" "symbollen (s\<lparr>preamble := b\<rparr>) = symbollen s"
    "stoplen (s\<lparr>preamble := b\<rparr>) = stoplen s" for b
    by (simp_all add: fun_eq_iff start_stop_def frame_bits_def char_code_def)
  let ?X = "concat (replicate ?n ?x)"
  obtain e e' where "(send_char opt LETTERS ^^ ?n) ?s0 = (emit ?X ?s0)\<lparr>echoed := e\<rparr>"
    and "(send_char opt LETTERS ^^ ?n) ?s1 = (emit ?X ?s1)\<lparr>echoed := e'\<rparr>"
    using letters_run [of ?n opt ?s0] letters_run [of ?n opt ?s1] unfolding same by blast
  then have "send_preamble opt (tx_init s) = ((send_char opt LETTERS ^^ ?n) ?s0)\<lparr>echoed := e'\<rparr>"
    by (simp add: send_preamble_def tx_init_def emit_def)
  then show ?thesis using carries_echoed [OF c] by simp
qed

lemma carries_ltrs: "hearing opt \<Longrightarrow> txmode t = LETTERS \<Longrightarrow> rtty.carries opt 5 t (send_char opt LETTERS t) (\<lambda>v. v)"
  using carries_letters [of opt t] by (metis same_mode)

lemma send_preamble_again: "tx_process opt c (send_preamble opt s) = tx_process opt c s"
  by (simp add: tx_process_def send_preamble_def Let_def)

lemma transmission_preamble:
  "transmission opt cs s = snd (tx_process opt Tx_etx (tx_chars opt cs (send_preamble opt (tx_init s))))"
  by (cases cs) (simp_all add: transmission_def tx_chars_def send_preamble_again)

lemma carries_transmission:
  assumes "understood opt" "\<forall>c \<in> set cs. c < 256" "txmode s = LETTERS"
  shows "rtty.carries opt 5 (s\<lparr>preamble := False\<rparr>) (transmission opt cs s)
    (shown opt (concat (map (heard_as opt) cs) @ line_end opt))"
proof -
  let ?u = "tx_chars opt cs (send_preamble opt (tx_init s))"
  have h: "hearing opt" using assms(1) by (simp add: understood_def)
  have c: "rtty.carries opt 5 (s\<lparr>preamble := False\<rparr>) ?u (shown opt (concat (map (heard_as opt) cs)))"
    using rtty.carries_trans [OF carries_preamble [OF carries_ltrs [OF h] assms(3)] carries_chars [OF assms(1,2)]] by simp
  have "rtty.carries opt 5 ?u (transmission opt cs s) (shown opt (line_end opt))" if "good_line 5 ?u"
    using carries_etx [OF h that] by (simp add: transmission_preamble)
  then have "rtty.carries opt 5 (s\<lparr>preamble := False\<rparr>) (transmission opt cs s)
      (\<lambda>v. shown opt (line_end opt) (shown opt (concat (map (heard_as opt) cs)) v))"
    using c rtty.carries_trans [OF c] by (cases "good_line 5 ?u") (auto simp: rtty.carries_def)
  then show ?thesis by (simp only: shown_append)
qed

section \<open>Settings\<close>

lemma bauds: "list_all (\<lambda>b. 12 \<le> (1600000 + b) div (2 * b) \<and> (1600000 + b) div (2 * b) \<le> 695 \<and>
    (1600000 + b) div (2 * b) \<le> (2400000 + b) div (2 * b) \<and>
    (1600000 + b) div (2 * b) \<le> (3200000 + b) div (2 * b)) BAUD"
  by (simp add: BAUD_def)

lemma symbol_lengths:
  "12 \<le> symbollen (rtty_new opt rv)" "symbollen (rtty_new opt rv) \<le> MAXBITS"
  "symbollen (rtty_new opt rv) \<le> stoplen (rtty_new opt rv)"
proof -
  define b where "b = BAUD ! min (opt_baud opt) (length BAUD - 1)"
  have "b \<in> set BAUD" unfolding b_def by (rule nth_mem) (simp add: BAUD_def min_def)
  then have b: "12 \<le> (1600000 + b) div (2 * b)" "(1600000 + b) div (2 * b) \<le> 695"
    "(1600000 + b) div (2 * b) \<le> (2400000 + b) div (2 * b)"
    "(1600000 + b) div (2 * b) \<le> (3200000 + b) div (2 * b)"
    using bauds unfolding list_all_iff by blast+
  have sl: "symbollen (rtty_new opt rv) = (1600000 + b) div (2 * b)"
    by (simp add: rtty_new_def rx_init_def restart_def Let_def SampleRate_def b_def)
  have "stoplen (rtty_new opt rv) = ((if opt_stop opt = 0 then 2 else if opt_stop opt = 1 then 3 else 4) * 800000 + b) div (2 * b)"
    by (simp add: rtty_new_def rx_init_def restart_def Let_def SampleRate_def b_def)
  then have st: "stoplen (rtty_new opt rv) \<in>
      {(1600000 + b) div (2 * b), (2400000 + b) div (2 * b), (3200000 + b) div (2 * b)}"
    by (auto split: if_splits)
  have "MAXBITS = 696" by (simp add: MAXBITS_def SampleRate_def)
  then show "12 \<le> symbollen (rtty_new opt rv)" "symbollen (rtty_new opt rv) \<le> MAXBITS"
    "symbollen (rtty_new opt rv) \<le> stoplen (rtty_new opt rv)"
    unfolding sl using b st by auto
qed

lemma rtty_new_frame:
  "reverse (rtty_new opt rv) = rv" "txmode (rtty_new opt rv) = LETTERS" "rxmode (rtty_new opt rv) = LETTERS"
  "rxstate (rtty_new opt rv) = RX_IDLE" "length (bit_buf (rtty_new opt rv)) = MAXBITS"
  "sent (rtty_new opt rv) = []" "printed (rtty_new opt rv) = []" "lastchar (rtty_new opt rv) = 0"
  "preamble (rtty_new opt rv) = False" "stopflag (rtty_new opt rv) = False"
  "nbits (rtty_new opt rv) = BITS ! opt_bits opt"
  by (simp_all add: rtty_new_def rx_init_def restart_def Let_def)

lemma good_new: "opt_bits opt < 3 \<Longrightarrow> good_line (BITS ! opt_bits opt) (rtty_new opt rv)"
  using symbol_lengths [of opt rv] by (auto simp: good_line_def rtty_new_frame BITS_def less_Suc_eq numeral_3_eq_3)

lemma idle_line:
  assumes "symbollen (rtty_new opt rv) \<le> n"
  obtains r where "rx_samples opt (replicate n (\<not> rv)) (rtty_new opt rv) = r"
    "in_step (rtty_new opt rv) r" "rtty_view r = (0, [])"
proof
  let ?s = "rtty_new opt rv"
  have "replicate n (\<not> rv) = on_air rv (replicate n True)" by (simp add: on_air_def)
  then have r: "rx_samples opt (replicate n (\<not> rv)) ?s =
      ?s\<lparr>bit_buf := shifts (symbollen ?s) (bit_buf ?s) (replicate n True)\<rparr>"
    using symbol_lengths [of opt rv]
    by (simp add: rx_samples_on_air rtty_new_frame rx_idle_mark)
  show "in_step ?s (rx_samples opt (replicate n (\<not> rv)) ?s)" "rtty_view (rx_samples opt (replicate n (\<not> rv)) ?s) = (0, [])"
    using symbol_lengths [of opt rv] assms
    by (simp_all add: r in_step_def waiting_def same_line_def rtty_new_frame window_marks rtty_view_def)
qed simp

section \<open>ASCII\<close>

lemma carries_ascii:
  assumes "hearing opt" "n \<noteq> 5" "good_line n t"
  shows "rtty.carries opt n t (send_char opt c t) (print1 opt (take_bit n c))"
  using carries_send [OF assms(1), of n t c "take_bit n c" "txmode t"] assms(2,3)
  by (auto simp: decoded_def char_code_def good_line_def same_mode)

lemma carries_if_good: "(good_line n t \<Longrightarrow> rtty.carries opt n t u g) \<Longrightarrow> rtty.carries opt n t u g"
  by (auto simp: rtty.carries_def)

lemmas carries_ascii' = carries_if_good [OF carries_ascii]

lemma ascii_ltrs:
  assumes "hearing opt" "n \<in> {7, 8}"
  shows "rtty.carries opt n t (send_char opt LETTERS t) (\<lambda>v. v)"
proof -
  have "take_bit n LETTERS = 0" using assms(2) by (auto simp: LETTERS_def)
  then have "print1 opt (take_bit n LETTERS) = (\<lambda>v. v)" by (simp add: fun_eq_iff)
  then show ?thesis
    using carries_ascii' [OF assms(1), of n t LETTERS] assms(2) by auto
qed

lemma ascii_crlf:
  assumes "hearing opt" "n \<in> {7, 8}"
  shows "rtty.carries opt n t (send_crlf opt 13 10 t) (shown opt (line_end opt))"
proof -
  have cr: "rtty.carries opt n u (send_char opt 13 u) (print1 opt 13)"
    and lf: "rtty.carries opt n u (send_char opt 10 u) (print1 opt 10)" for u
    using carries_ascii' [OF assms(1), of n u 13] carries_ascii' [OF assms(1), of n u 10] assms(2) by auto
  show ?thesis
  proof (cases "crcrlf opt")
    case True
    then show ?thesis
      using rtty.carries_trans [OF rtty.carries_trans [OF cr cr] lf] by (simp add: send_crlf_def line_end_def shown_fun)
  next
    case False
    then show ?thesis
      using rtty.carries_trans [OF cr lf] by (simp add: send_crlf_def line_end_def shown_fun)
  qed
qed

lemma ascii_process:
  assumes "hearing opt" "n \<in> {7, 8}" "good_line n t"
  shows "rtty.carries opt n t (snd (tx_process opt (Tx_char c) t)) (print1 opt (take_bit n c))"
    and "rtty.carries opt n t (snd (tx_process opt Tx_etx t)) (shown opt (line_end opt))"
proof -
  have "snd (tx_process opt (Tx_char c) t) = send_char opt c t"
    using assms(2,3) by (auto simp: tx_process_def send_preamble_def good_line_def Let_def)
  then show "rtty.carries opt n t (snd (tx_process opt (Tx_char c) t)) (print1 opt (take_bit n c))"
    using carries_ascii' [OF assms(1), of n t c] assms(2) by auto
  have flag: "t\<lparr>stopflag := False, line_char_count := 0\<rparr> = t\<lparr>line_char_count := 0\<rparr>"
    using assms(3) by (cases t) (simp add: good_line_def)
  have "snd (tx_process opt Tx_etx t) = flush_stream (send_crlf opt 13 10 (t\<lparr>line_char_count := 0\<rparr>))"
    using assms(2,3) by (auto simp: tx_process_def send_preamble_def good_line_def Let_def flag)
  then show "rtty.carries opt n t (snd (tx_process opt Tx_etx t)) (shown opt (line_end opt))"
    using rtty.carries_trans [OF rtty.carries_trans [OF carries_line_count ascii_crlf [OF assms(1,2)]] carries_flush] by simp
qed

lemma carries_ascii_transmission:
  assumes "hearing opt" "n \<in> {7, 8}" "txmode s = LETTERS"
  shows "rtty.carries opt n (s\<lparr>preamble := False\<rparr>) (transmission opt cs s)
    (shown opt (map (take_bit n) cs @ line_end opt))"
proof -
  let ?p = "send_preamble opt (tx_init s)"
  have "rtty.carries opt n ?p (tx_chars opt cs ?p) (\<lambda>v. foldl (\<lambda>v c. print1 opt (take_bit n c) v) v cs)"
    unfolding tx_chars_def
    by (rule rtty.carries_foldl) (rule carries_if_good, rule ascii_process(1) [OF assms(1,2)])
  moreover have "foldl (\<lambda>v c. print1 opt (take_bit n c) v) v cs = shown opt (map (take_bit n) cs) v" for v
    by (induction cs arbitrary: v) simp_all
  ultimately have "rtty.carries opt n (s\<lparr>preamble := False\<rparr>) (tx_chars opt cs ?p) (shown opt (map (take_bit n) cs))"
    using rtty.carries_trans [OF carries_preamble [OF ascii_ltrs [OF assms(1,2)] assms(3)]] by fastforce
  from rtty.carries_trans [OF this carries_if_good [OF ascii_process(2) [OF assms(1,2)]]]
  show ?thesis
    by (simp only: transmission_preamble shown_append)
qed

lemma printed_new:
  assumes "rtty.carries opt n (rtty_new opt rv) t' (shown opt cs)" "good_line n (rtty_new opt rv)"
    and "symbollen (rtty_new opt rv) \<le> k"
  shows "printed (rx_samples opt (replicate k (\<not> rv) @ sent t') (rtty_new opt rv)) = crush opt 0 cs"
proof -
  obtain r where r: "rx_samples opt (replicate k (\<not> rv)) (rtty_new opt rv) = r" "in_step (rtty_new opt rv) r"
    "rtty_view r = (0, [])"
    by (rule idle_line [OF assms(3)])
  from rtty.carried [OF assms(1,2) r(2)] r(3) obtain xs where xs: "sent t' = xs"
    "rtty_view (rx_samples opt xs r) = shown opt cs (0, [])"
    by (auto simp: rtty_new_frame)
  then have "printed (rx_samples opt xs r) = crush opt 0 cs"
    by (metis rtty_view_def snd_conv fst_conv shown_crush append_Nil)
  then show ?thesis by (simp add: rtty.receive_append r(1) xs(1))
qed

lemma rtty_new_quiet: "(rtty_new opt rv)\<lparr>preamble := False\<rparr> = rtty_new opt rv"
  by (cases "rtty_new opt rv") (use rtty_new_frame [of opt rv] in simp)

section \<open>Parity\<close>

lemma rparity_loop_ones: "rparity_loop (horner_sum of_bool 2 bs) p = p + marks bs"
proof (induction bs arbitrary: p)
  case Nil
  show ?case by (simp add: rparity_loop.simps marks_def)
next
  case (Cons b bs)
  let ?h = "horner_sum of_bool 2 bs :: nat"
  have "of_bool b + 2 * ?h = 0 \<Longrightarrow> marks bs = 0 \<and> \<not> b"
    using Cons.IH [of 0] by (simp add: rparity_loop.simps split: if_splits)
  moreover have "(of_bool b + 2 * ?h) div 2 = ?h" "(of_bool b + 2 * ?h) mod 2 = of_bool b"
    by simp_all
  ultimately show ?case
    using Cons.IH [of "p + of_bool b"]
    by (subst rparity_loop.simps) (auto simp: marks_def)
qed

lemma rparity_ones: "rparity (horner_sum of_bool 2 bs) = marks bs mod 2"
  by (simp add: rparity_def rparity_loop_ones)

lemma rttyparity_bits:
  assumes "opt_parity opt \<in> {1, 2}"
  shows "rttyparity opt (horner_sum of_bool 2 bs) (length bs) = (marks bs + opt_parity opt) mod 2"
proof -
  have t: "take_bit (length bs) (horner_sum of_bool 2 bs :: nat) = horner_sum of_bool 2 bs"
    by (simp add: take_bit_horner_sum_bit_eq)
  show ?thesis
    using assms unfolding rttyparity_def and_mask_bits t Let_def
    by (auto simp: parity_setting_def rparity_ones mod2_eq_if)
qed

text \<open>A frame is accepted only if its number of ones has the parity of the option, counted backwards:
  with option 1, \<open>even\<close>, the frames have an odd number of ones.\<close>

lemma reject_frame:
  assumes "length bs = nbits r" "nbits r \<noteq> 5" "opt_parity opt \<in> {1, 2}" "rtty_parity r = parity_setting (opt_parity opt)"
    and "(marks bs + of_bool q) mod 2 \<noteq> opt_parity opt mod 2"
  shows "decode_char opt (heard r (bs @ [q])) = (0, heard r (bs @ [q]))"
proof -
  let ?h = "heard r (bs @ [q])" and ?n = "nbits r"
  have x: "rxdata ?h = horner_sum of_bool 2 bs + 2 ^ ?n * of_bool q" "nbits ?h = ?n" "rtty_parity ?h = rtty_parity r"
    using assms(1) by (simp_all add: heard_def horner_sum_append)
  have lt: "horner_sum of_bool 2 bs < (2 :: nat) ^ ?n"
    using take_bit_nat_less_exp [of "length bs" "horner_sum of_bool 2 bs"] assms(1)
    by (simp add: take_bit_horner_sum_bit_eq)
  have tb: "take_bit ?n (rxdata ?h) = horner_sum of_bool 2 bs"
    using lt by (simp add: x take_bit_eq_mod)
  have q: "drop_bit ?n (rxdata ?h) = of_bool q"
    using lt by (simp add: x drop_bit_eq_div)
  have "rttyparity opt (rxdata ?h) ?n = rttyparity opt (horner_sum of_bool 2 bs) ?n"
    by (rule rttyparity_take_bit) (simp add: tb take_bit_nat_eq_self [OF lt])
  also have "\<dots> = (marks bs + opt_parity opt) mod 2"
    using rttyparity_bits [OF assms(3), of bs] assms(1) by simp
  finally have "rttyparity opt (rxdata ?h) ?n \<noteq> of_bool q AND 1"
    using assms(5) by (cases q) (auto simp: mod2_eq_if split: if_splits)
  then have "rttyparity opt (rxdata ?h) ?n \<noteq> drop_bit ?n (rxdata ?h) AND 1"
    unfolding q .
  moreover have "rtty_parity r \<noteq> PARITY_NONE" using assms(3,4) by (auto simp: parity_setting_def)
  ultimately show ?thesis by (auto simp: decode_char_def Let_def x)
qed

lemma marks_flip:
  "i < length bs \<Longrightarrow> marks (bs[i := \<not> bs ! i]) mod 2 \<noteq> marks bs mod 2"
proof (induction bs arbitrary: i)
  case (Cons b bs)
  show ?case
  proof (cases i)
    case 0
    then show ?thesis by (cases b) (simp_all add: marks_def mod_Suc)
  next
    case (Suc j)
    then show ?thesis using Cons.IH [of j] Cons.prems by (cases b) (simp_all add: marks_def mod_Suc)
  qed
qed simp

text \<open>A disturbance that inverts the samples of one symbol.\<close>

definition invert_symbol :: "nat \<Rightarrow> nat \<Rightarrow> bool list \<Rightarrow> bool list" where
  "invert_symbol n i xs = take (i * n) xs @ map Not (take n (drop (i * n) xs)) @ drop (i * n + n) xs"

lemma invert_on_air: "invert_symbol n i (on_air rv xs) = on_air rv (invert_symbol n i xs)"
  by (auto simp: invert_symbol_def on_air_def take_map drop_map)

lemma length_symbols: "length (concat (map (replicate n) bs)) = length bs * n"
  by (induction bs) simp_all

lemma invert_frame:
  assumes "i < length bs"
  shows "invert_symbol n i (concat (map (replicate n) bs) @ ys) = concat (map (replicate n) (bs[i := \<not> bs ! i])) @ ys"
proof -
  have bs: "bs = take i bs @ bs ! i # drop (Suc i) bs" by (rule id_take_nth_drop [OF assms])
  let ?p = "concat (map (replicate n) (take i bs))" and ?q = "concat (map (replicate n) (drop (Suc i) bs))"
  have len: "length ?p = i * n" using assms by (simp add: length_symbols)
  have "concat (map (replicate n) bs) @ ys = ?p @ replicate n (bs ! i) @ ?q @ ys"
    by (subst bs) simp
  moreover have "bs[i := \<not> bs ! i] = take i bs @ (\<not> bs ! i) # drop (Suc i) bs"
    by (rule upd_conv_take_nth_drop [OF assms])
  ultimately show ?thesis by (simp add: invert_symbol_def len)
qed

lemma invert_start_stop:
  assumes "i < length bs"
  shows "invert_symbol (symbollen s) (Suc i) (start_stop s (map (replicate (symbollen s)) bs) m) =
    start_stop s (map (replicate (symbollen s)) (bs[i := \<not> bs ! i])) m"
  using invert_frame [of "Suc i" "False # bs" "symbollen s" "replicate m True"] assms
  by (simp add: start_stop_def)

lemma frame_ones:
  assumes "opt_parity opt \<in> {1, 2}" "rtty_parity t = parity_setting (opt_parity opt)"
  obtains ds q where "frame_bits opt t c = ds @ [q]" "length ds = nbits t"
    "marks (ds @ [q]) mod 2 = opt_parity opt mod 2"
proof
  let ?ds = "map (\<lambda>i. bit c i) [0..<nbits t]" and ?q = "rttyparity opt c (nbits t) = 1"
  show "frame_bits opt t c = ?ds @ [?q]" "length ?ds = nbits t"
    using assms by (auto simp: frame_bits_def parity_setting_def)
  have "rttyparity opt c (nbits t) = rttyparity opt (horner_sum of_bool 2 ?ds) (nbits t)"
    by (rule rttyparity_take_bit) (simp add: horner_sum_bit_eq_take_bit)
  also have "\<dots> = (marks ?ds + opt_parity opt) mod 2"
    using rttyparity_bits [OF assms(1), of ?ds] by simp
  finally have "of_bool ?q = (marks ?ds + opt_parity opt) mod 2" by auto
  then have "(marks ?ds + of_bool ?q) mod 2 = (marks ?ds + (marks ?ds + opt_parity opt)) mod 2"
    by (simp add: mod_simps)
  also have "\<dots> = opt_parity opt mod 2" by presburger
  finally have "(marks ?ds + of_bool ?q) mod 2 = opt_parity opt mod 2" .
  moreover have "marks [?q] = of_bool ?q" by (simp add: marks_def)
  ultimately show "marks (?ds @ [?q]) mod 2 = opt_parity opt mod 2"
    by (simp only: marks_simps(1))
qed

section \<open>The theorems\<close>

text \<open>C4: Baudot from end to end. A station that is switched on and transmits a text is printed by any
  other station with the same settings, sample for sample, after at least one symbol of idle line:
  in capitals, without the characters that the code does not have, without a second carriage return or
  line feed in a row, and with the line end that closes a transmission.\<close>

theorem rtty_text:
  assumes "understood opt" "opt_bits opt = 0" "\<forall>c \<in> set cs. c < 256"
    and "symbollen (rtty_new opt rv) \<le> n"
  shows "printed (rx_samples opt (replicate n (\<not> rv) @ sent (transmission opt cs (rtty_new opt rv))) (rtty_new opt rv)) =
    crush opt 0 (concat (map (heard_as opt) cs) @ line_end opt)"
  using carries_transmission [OF assms(1,3), of "rtty_new opt rv"] good_new [of opt rv] assms(2)
  by (intro printed_new [OF _ _ assms(4), of 5]) (simp_all add: rtty_new_quiet rtty_new_frame BITS_def)

definition demo_options :: rtty_options where
  "demo_options = \<lparr>opt_baud = 1, opt_bits = 0, opt_parity = 0, opt_stop = 1, TTY_LTRS = 1, UOStx = True, UOSrx = True,
     crcrlf = True, autocrlf = False, autocount = 72, rx_lowercase = False, synop_decoding = False,
     synop_enabled = False, squelch_open = True\<rparr>"

theorem rtty_text_witness:
  "printed (rx_samples demo_options (replicate 200 True @ sent (transmission demo_options
     (map of_char ''ur 599+'') (rtty_new demo_options False))) (rtty_new demo_options False)) =
   map of_char ''UR 599'' @ [13, 10]"
  using rtty_text [of demo_options "map of_char ''ur 599+''" False 200]
  by (simp add: demo_options_def understood_def hearing_def heard_as_def line_end_def tables_nat baudot_enc_def
      toupper_code_def rtty_new_def rx_init_def restart_def BAUD_def SampleRate_def Let_def)

text \<open>ASCII from end to end, with seven or eight bits and any parity: the receiver prints the low bits of
  every character but NUL.\<close>

theorem rtty_ascii:
  assumes "squelch_open opt" "\<not> synop_decoding opt" "opt_bits opt \<in> {1, 2}"
    and "symbollen (rtty_new opt rv) \<le> n"
  shows "printed (rx_samples opt (replicate n (\<not> rv) @ sent (transmission opt cs (rtty_new opt rv))) (rtty_new opt rv)) =
    crush opt 0 (map (\<lambda>c. c mod 2 ^ (BITS ! opt_bits opt)) cs @ line_end opt)"
proof -
  let ?n = "BITS ! opt_bits opt"
  have n: "?n \<in> {7, 8}" using assms(3) by (auto simp: BITS_def)
  have "rtty.carries opt ?n (rtty_new opt rv) (transmission opt cs (rtty_new opt rv))
      (shown opt (map (take_bit ?n) cs @ line_end opt))"
    using carries_ascii_transmission [of opt ?n "rtty_new opt rv" cs] assms(1,2) n
    by (simp add: hearing_def rtty_new_quiet rtty_new_frame)
  moreover have "good_line ?n (rtty_new opt rv)" using good_new [of opt rv] assms(3) by auto
  ultimately show ?thesis
    using printed_new [OF _ _ assms(4)] by (fastforce simp: take_bit_eq_mod cong: map_cong)
qed

theorem rtty_ascii_witness:
  "printed (rx_samples (demo_options\<lparr>opt_bits := 1, opt_parity := 1\<rparr>) (replicate 200 False @ sent (transmission
     (demo_options\<lparr>opt_bits := 1, opt_parity := 1\<rparr>) [72, 233, 13, 13] (rtty_new (demo_options\<lparr>opt_bits := 1, opt_parity := 1\<rparr>) True)))
     (rtty_new (demo_options\<lparr>opt_bits := 1, opt_parity := 1\<rparr>) True)) = [72, 105, 13, 10]"
  using rtty_ascii [of "demo_options\<lparr>opt_bits := 1, opt_parity := 1\<rparr>" True 200 "[72, 233, 13, 13]"]
  by (simp add: demo_options_def line_end_def rtty_new_def rx_init_def restart_def BAUD_def BITS_def SampleRate_def Let_def)

text \<open>C31: with parity switched to even or odd, a character of which any one bit, the parity bit included, arrives
  inverted is not printed. (The two settings are exchanged: with even the number of ones is odd.)\<close>

theorem rtty_parity_detects:
  assumes "opt_bits opt \<in> {1, 2}" "opt_parity opt \<in> {1, 2}" "\<not> synop_decoding opt"
    and "symbollen (rtty_new opt rv) \<le> k" "1 \<le> i" "i \<le> BITS ! opt_bits opt + 1"
  shows "printed (rx_samples opt (replicate k (\<not> rv) @ invert_symbol (symbollen (rtty_new opt rv)) i
    (sent (send_char opt c (rtty_new opt rv)))) (rtty_new opt rv)) = []"
proof -
  let ?t = "rtty_new opt rv"
  have n: "nbits ?t \<noteq> 5" "0 < nbits ?t" and par: "rtty_parity ?t = parity_setting (opt_parity opt)"
    using assms(1) by (auto simp: rtty_new_def rx_init_def restart_def Let_def BITS_def)
  obtain r where r: "rx_samples opt (replicate k (\<not> rv)) ?t = r" "in_step ?t r" "rtty_view r = (0, [])"
    by (rule idle_line [OF assms(4)])
  have line: "waiting r" "symbollen r = symbollen ?t" "nbits r = nbits ?t" "rtty_parity r = rtty_parity ?t" "reverse r = rv"
    using r(2) by (auto simp: in_step_def same_line_def rtty_new_frame)
  have cc: "char_code ?t c = c" using n by (simp add: char_code_def)
  obtain ds q where fr: "frame_bits opt ?t c = ds @ [q]" "length ds = nbits ?t" "marks (ds @ [q]) mod 2 = opt_parity opt mod 2"
    using frame_ones [OF assms(2) par] by blast
  obtain e where "send_char opt c ?t = (emit (start_stop ?t (map (replicate (symbollen ?t)) (ds @ [q])) (stoplen ?t)) ?t)\<lparr>echoed := e\<rparr>"
    using send_char_sent [of opt c ?t] by (auto simp: cc fr(1))
  then have sent: "sent (send_char opt c ?t) = on_air rv (start_stop ?t (map (replicate (symbollen ?t)) (ds @ [q])) (stoplen ?t))"
    by (simp add: rtty_new_frame)
  obtain j where j: "i = Suc j" "j < length (ds @ [q])"
    using assms(5,6) fr(2) by (cases i) (auto simp: rtty_new_frame)
  define bs where "bs = (ds @ [q])[j := \<not> (ds @ [q]) ! j]"
  have air: "invert_symbol (symbollen ?t) i (sent (send_char opt c ?t)) =
      on_air rv (start_stop r (map (replicate (symbollen r)) bs) (stoplen ?t))"
    unfolding sent invert_on_air j(1) invert_start_stop [OF j(2)] bs_def by (simp only: start_stop_def line)
  have lbs: "length bs = Suc (nbits r)" using fr(2) line by (simp add: bs_def)
  obtain xs p where bs: "bs = xs @ [p]" "length xs = nbits r"
    using lbs by (cases bs rule: rev_cases) auto
  have "marks bs mod 2 \<noteq> opt_parity opt mod 2"
    using marks_flip [OF j(2)] fr(3) by (simp add: bs_def)
  then have dec: "decode_char opt (heard r bs) = (0, heard r bs)"
    unfolding bs(1) by (intro reject_frame) (use bs(2) n line assms(2) par in simp_all)
  have "list_all2 (legible (symbollen r)) (map (replicate (symbollen r)) bs) bs"
    using line(1) by (simp add: list_all2_conv_all_nth waiting_def)
  moreover have "length bs = limit r"
    using lbs line par assms(2) by (auto simp: limit_def parity_setting_def)
  moreover have "symbollen r \<le> stoplen ?t" using symbol_lengths(3) line by simp
  ultimately obtain B where "rxs opt (start_stop r (map (replicate (symbollen r)) bs) (stoplen ?t)) r =
      (snd (rx_stop opt (heard r bs)))\<lparr>rxstate := RX_IDLE, bit_buf := B\<rparr>"
    using rx_character [OF line(1), of _ bs "stoplen ?t" opt] n line by auto
  moreover have "printed (snd (rx_stop opt (heard r bs))) = printed (heard r bs)"
    using assms(3) by (simp add: rx_stop_def dec deliver_char_def)
  ultimately have "printed (rx_samples opt (on_air rv (start_stop r (map (replicate (symbollen r)) bs) (stoplen ?t))) r) = printed r"
    by (simp only: rx_samples_on_air [OF line(5)]) (simp add: heard_def)
  then show ?thesis
    using r(3) by (simp add: rtty.receive_append r(1) air rtty_view_def)
qed

theorem rtty_parity_detects_witness:
  "printed (rx_samples (demo_options\<lparr>opt_bits := 2, opt_parity := 1\<rparr>) (replicate 200 True @ invert_symbol
     (symbollen (rtty_new (demo_options\<lparr>opt_bits := 2, opt_parity := 1\<rparr>) False)) 3
     (sent (send_char (demo_options\<lparr>opt_bits := 2, opt_parity := 1\<rparr>) 65 (rtty_new (demo_options\<lparr>opt_bits := 2, opt_parity := 1\<rparr>) False))))
     (rtty_new (demo_options\<lparr>opt_bits := 2, opt_parity := 1\<rparr>) False)) = []"
  using rtty_parity_detects [of "demo_options\<lparr>opt_bits := 2, opt_parity := 1\<rparr>" False 200 3 65]
  by (simp add: demo_options_def rtty_new_def rx_init_def restart_def BAUD_def BITS_def SampleRate_def Let_def)

section \<open>A second transmission\<close>













lemma send_char_flags [simp]:
  "nbits (send_char opt c s) = nbits s" "preamble (send_char opt c s) = preamble s" "stopflag (send_char opt c s) = stopflag s"
proof -
  obtain e where "send_char opt c s = (emit (start_stop s (map (replicate (symbollen s))
      (frame_bits opt s (char_code s c))) (stoplen s)) s)\<lparr>echoed := e\<rparr>"
    using send_char_sent by blast
  then show "nbits (send_char opt c s) = nbits s" "preamble (send_char opt c s) = preamble s" "stopflag (send_char opt c s) = stopflag s"
    by (simp_all add: emit_def)
qed




end
