(* ===== verification/Navtex.thy ===== *)
theory Navtex
  imports Prelude "HOL-Library.Word"
begin

text \<open>
  NAVTEX and SITOR-B, \<^verbatim>\<open>navtex/navtex.cxx\<close>: the CCIR 476 code (seven bits, four of them set),
  the sender that repeats every character five positions later, the receiver that finds the
  phase in the bit stream, corrects characters from their repetition and collects messages between
  the header \<^verbatim>\<open>ZCZC\<close> and the trailer \<^verbatim>\<open>NNNN\<close>. A received bit is the accumulator of the
  bit synchroniser, an \<^verbatim>\<open>int\<close> that is positive for a one. Tones, filters, frequency control and the
  log files are left out. Codes and characters are numbers, message texts are strings.
\<close>

unbundle bit_operations_syntax

section \<open>CCIR 476\<close>

definition code_to_ltrs :: string where
  "code_to_ltrs =
    ''________________'' @
    ''_______J___F_CK_'' @
    ''_______W___Y_PQ_'' @
    ''_____G___MX_V___'' @
    ''_______A___S_IU_'' @
    ''___D_RE__N__ ___'' @
    ''___Z_L___H__'' @ [CHR 0x0A] @ ''___'' @
    ''_OB_T___'' @ [CHR 0x0D] @ ''_______''"

definition code_to_figs :: string where
  "code_to_figs =
    ''________________'' @
    ''_______'' @ [CHR 0x27] @ ''___!_:(_'' @
    ''_______2___6_01_'' @
    ''_____&___./_;___'' @
    ''_______-___'' @ [CHR 0x07] @ ''_87_'' @
    ''___$_43__,__ ___'' @
    ''___'' @ [CHR 0x22] @ ''_)___#__'' @ [CHR 0x0A] @ ''___'' @
    ''_9?_5___'' @ [CHR 0x0D] @ ''_______''"

definition code_ltrs :: nat where "code_ltrs = 0x5a"
definition code_figs :: nat where "code_figs = 0x36"
definition code_alpha :: nat where "code_alpha = 0x0f"
definition code_beta :: nat where "code_beta = 0x33"
definition code_char32 :: nat where "code_char32 = 0x6a"
definition code_rep :: nat where "code_rep = 0x66"

text \<open>Counting set bits: each round clears the lowest one.\<close>

lemma clear_lowest_less: "v \<noteq> 0 \<Longrightarrow> v AND (v - 1) < v" for v :: nat
proof -
  assume "v \<noteq> 0"
  have "int v AND int (v - 1) \<le> int (v - 1)" by (rule AND_upper2) simp
  then have "int (v AND (v - 1)) \<le> int (v - 1)" by (simp only: of_nat_and_eq)
  then show ?thesis using \<open>v \<noteq> 0\<close> by simp
qed

function count_bits :: "nat \<Rightarrow> nat \<Rightarrow> nat" where
  "count_bits v bc = (if v = 0 then bc else count_bits (v AND (v - 1)) (bc + 1))"
  by pat_completeness auto
termination by (relation "measure fst") (simp_all add: clear_lowest_less del: One_nat_def)

declare count_bits.simps [simp del]

definition check_bits :: "nat \<Rightarrow> bool" where
  "check_bits v \<longleftrightarrow> count_bits v 0 = 4"

text \<open>The constructor of \<^verbatim>\<open>CCIR476\<close> fills the tables from characters to codes; 0 means none.\<close>

definition fill :: "string \<Rightarrow> nat list" where
  "fill table = foldl (\<lambda>t code.
     if check_bits code \<and> table ! code \<noteq> CHR ''_'' then t[of_char (table ! code) := code] else t)
     (replicate 128 0) [0..<128]"

definition ltrs_to_code :: "nat list" where "ltrs_to_code = fill code_to_ltrs"
definition figs_to_code :: "nat list" where "figs_to_code = fill code_to_figs"

text \<open>\<^verbatim>\<open>char_to_code\<close>: the character is a signed \<^verbatim>\<open>char\<close>, so one above 127 indexes in front of
  the tables. The result is the codes appended and the new shift.\<close>

definition char_to_code :: "char \<Rightarrow> bool \<Rightarrow> (nat list \<times> bool) result" where
  "char_to_code c ex_shift =
    (let ch = (of_char (toupper_char c) :: nat) in
     if 128 \<le> ch then Inl BadIndex
     else Inr
       (if ex_shift \<and> figs_to_code ! ch \<noteq> 0 then ([figs_to_code ! ch], ex_shift)
        else if \<not> ex_shift \<and> ltrs_to_code ! ch \<noteq> 0 then ([ltrs_to_code ! ch], ex_shift)
        else if figs_to_code ! ch \<noteq> 0 then ([code_figs, figs_to_code ! ch], True)
        else if ltrs_to_code ! ch \<noteq> 0 then ([code_ltrs, ltrs_to_code ! ch], False)
        else ([], ex_shift)))"

text \<open>\<open>None\<close> is the negated code that \<^verbatim>\<open>code_to_char\<close> returns for a code without character.\<close>

definition code_to_char :: "nat \<Rightarrow> bool \<Rightarrow> char option" where
  "code_to_char code shift =
    (let target = (if shift then code_to_figs else code_to_ltrs) in
     if target ! code \<noteq> CHR ''_'' then Some (target ! code) else None)"

definition bytes_to_code :: "int list \<Rightarrow> nat" where
  "bytes_to_code pos = foldl (\<lambda>code i. code OR push_bit i (of_bool (pos ! i > 0))) 0 [0..<7]"

definition valid_char_at :: "int list \<Rightarrow> bool" where
  "valid_char_at pos \<longleftrightarrow> length (filter (\<lambda>x. x > 0) (take 7 pos)) = 4"

section \<open>Messages\<close>

record ccir_message =
  body :: string
  m_origin :: char
  m_subject :: char
  m_number :: int

definition init_members :: ccir_message where
  "init_members = \<lparr>body = '''', m_origin = CHR ''?'', m_subject = CHR ''?'', m_number = 0\<rparr>"

text \<open>The loop of \<^verbatim>\<open>cleanup\<close> with its three flags: runs of blanks and line ends between other
  characters become one blank or one newline, at both ends they vanish.\<close>

fun cleanup_loop :: "bool \<Rightarrow> bool \<Rightarrow> bool \<Rightarrow> string \<Rightarrow> string" where
  "cleanup_loop wasDelim wasSpace chrSeen [] = []"
| "cleanup_loop wasDelim wasSpace chrSeen (c # s) =
    (if c = CHR 0x0A \<or> c = CHR 0x0D then cleanup_loop True wasSpace chrSeen s
     else if c = CHR '' '' \<or> c = CHR 0x09 then cleanup_loop wasDelim True chrSeen s
     else (if chrSeen then if wasDelim then [CHR 0x0A] else if wasSpace then [CHR '' ''] else [] else []) @
       c # cleanup_loop False False True s)"

definition cleanup :: "ccir_message \<Rightarrow> ccir_message" where
  "cleanup m = m\<lparr>body := cleanup_loop False False False (body m)\<rparr>"

definition ccir_message_new :: "string \<Rightarrow> char \<Rightarrow> char \<Rightarrow> int \<Rightarrow> ccir_message" where
  "ccir_message_new s origin subject number =
    cleanup \<lparr>body = s, m_origin = origin, m_subject = subject, m_number = number\<rparr>"

definition header_len :: nat where "header_len = 10"

definition is_alnum :: "char \<Rightarrow> bool" where
  "is_alnum c \<longleftrightarrow> is_digit c \<or> (let n = (of_char c :: nat) in 65 \<le> n \<and> n \<le> 90 \<or> 97 \<le> n \<and> n \<le> 122)"

text \<open>\<^verbatim>\<open>strchr\<close> finds the terminating NUL, too.\<close>

definition is_header :: "string \<Rightarrow> bool" where
  "is_header slack \<longleftrightarrow> take 5 slack = ''ZCZC '' \<and> is_alnum (slack ! 5) \<and> is_alnum (slack ! 6) \<and>
     is_digit (slack ! 7) \<and> is_digit (slack ! 8) \<and> slack ! 9 \<in> {CHR 0x0A, CHR 0x0D, CHR 0x00}"

definition detect_header :: "ccir_message \<Rightarrow> ccir_message option \<times> ccir_message" where
  "detect_header m =
    (let qlen = length (body m); slack = drop (qlen - header_len) (body m) in
     if qlen \<ge> header_len \<and> is_header slack then
       (Some (ccir_message_new (take (qlen - header_len) (body m)) (m_origin m) (m_subject m) (m_number m)),
        m\<lparr>body := '''', m_origin := slack ! 5, m_subject := slack ! 6,
          m_number := (of_char (slack ! 7) - 48) * 10 + (of_char (slack ! 8) - 48)\<rparr>)
     else (None, m))"

definition detect_end :: "ccir_message \<Rightarrow> bool \<times> ccir_message" where
  "detect_end m =
    (let qlen = length (body m) in
     if qlen < 4 then (False, m)
     else if drop (qlen - 4) (body m) = ''NNNN'' then (True, m\<lparr>body := take (qlen - 4) (body m)\<rparr>)
     else (False, m))"

section \<open>State\<close>

datatype navtex_state = NOSIGNAL | SYNC_SETUP | SYNC | READ_DATA

datatype tx_signal = Phasing nat | Bit bool

text \<open>
  The members the model needs. \<open>last_char\<close> is the static variable of \<^verbatim>\<open>process_char\<close>, \<open>time_sec\<close>
  the number of whole seconds (the quotient of two integers); \<open>min_size\<close> is the option \<^verbatim>\<open>NVTX_MinSizLoggedMsg\<close>. \<open>rx_chars\<close>
  records what is handed to \<^verbatim>\<open>navtex_put_rx_char\<close>, \<open>received\<close> is the queue \<^verbatim>\<open>m_received_messages\<close>, \<open>sent\<close> what
  is modulated.
\<close>

record navtex =
  only_sitor_b :: bool
  message_counter :: nat
  tx_msg_queue :: "string list"
  curr_msg :: ccir_message
  header_found :: bool
  message_time :: int
  time_sec :: int
  sample_count :: int
  sample_rate :: int
  state :: navtex_state
  bit_values :: "int list"
  bit_cursor :: nat
  shift :: bool
  error_count :: int
  alpha_phase :: bool
  last_char :: int
  min_size :: nat
  rx_chars :: string
  received :: "string list"
  sent :: "tx_signal list"

definition navtex_new :: "bool \<Rightarrow> int \<Rightarrow> nat \<Rightarrow> navtex" where
  "navtex_new sitor rate minsize =
    \<lparr>only_sitor_b = sitor, message_counter = 1, tx_msg_queue = [], curr_msg = init_members, header_found = False,
     message_time = 0, time_sec = 0, sample_count = 0, sample_rate = rate, state = NOSIGNAL, bit_values = replicate 100 0,
     bit_cursor = 0, shift = False, error_count = 0, alpha_phase = False, last_char = 0, min_size = minsize,
     rx_chars = [], received = [], sent = []\<rparr>"

section \<open>Collecting messages\<close>

text \<open>\<^verbatim>\<open>ccir_message::display\<close> only writes logs besides; the queue gets the text as it is.\<close>

definition display_message :: "ccir_message \<Rightarrow> string \<Rightarrow> navtex \<Rightarrow> navtex" where
  "display_message m alt_string s =
    (if length (body m) \<ge> min_size s then s\<lparr>received := received s @ [alt_string]\<rparr> else s)"

definition flush_message :: "string \<Rightarrow> navtex \<Rightarrow> navtex" where
  "flush_message extra_info s =
    (let s = (if header_found s
              then display_message (curr_msg s) (body (curr_msg s) @ extra_info) (s\<lparr>header_found := False\<rparr>)
              else display_message (curr_msg s) (''[Lost header]:'' @ body (curr_msg s) @ extra_info) s)
     in s\<lparr>curr_msg := init_members, message_time := time_sec s\<rparr>)"

definition process_timeout :: "navtex \<Rightarrow> navtex" where
  "process_timeout s =
    (if only_sitor_b s then s
     else if time_sec s - message_time s > 600 then flush_message '':<TIMEOUT>'' s else s)"

definition process_messages :: "char \<Rightarrow> navtex \<Rightarrow> navtex" where
  "process_messages c s =
    (let s = s\<lparr>curr_msg := (curr_msg s)\<lparr>body := body (curr_msg s) @ [c]\<rparr>\<rparr> in
     if only_sitor_b s then s\<lparr>header_found := True, message_time := time_sec s\<rparr>
     else case detect_header (curr_msg s) of
       (Some garbage, m) \<Rightarrow>
         let s = s\<lparr>curr_msg := m\<rparr>;
             s = (if header_found s then display_message garbage (body garbage @ '':[Lost trailer]'') s
                  else if body garbage \<noteq> '''' then
                    display_message garbage (''[Lost header]:'' @ body garbage @ '':[Lost trailer]'') s
                  else s)
         in s\<lparr>header_found := True, message_time := time_sec s\<rparr>
     | (None, _) \<Rightarrow>
         let (end_seen, m) = detect_end (curr_msg s); s = s\<lparr>curr_msg := m\<rparr>
         in if end_seen then flush_message '''' s else s)"

section \<open>Characters\<close>

definition navtex_put_rx_char :: "char \<Rightarrow> navtex \<Rightarrow> navtex" where
  "navtex_put_rx_char c s = s\<lparr>rx_chars := rx_chars s @ [c]\<rparr>"

text \<open>The comparisons with code constants in \<^verbatim>\<open>filter_print\<close> are comparisons with characters here.\<close>

definition filter_print :: "char \<Rightarrow> navtex \<Rightarrow> navtex" where
  "filter_print c s =
    (if c = CHR 0x07 then navtex_put_rx_char (CHR 0x27) s
     else if c \<noteq> CHR 0x0D \<and> (of_char c :: nat) \<noteq> code_alpha \<and> (of_char c :: nat) \<noteq> code_rep then navtex_put_rx_char c s
     else s)"

definition process_char :: "nat \<Rightarrow> navtex \<Rightarrow> navtex" where
  "process_char chr s =
    (if chr = code_rep then
       (if last_char s = int code_rep then s\<lparr>alpha_phase := False\<rparr> else s)\<lparr>last_char := int chr\<rparr>
     else if chr = code_alpha \<or> chr = code_beta \<or> chr = code_char32 then s\<lparr>last_char := int chr\<rparr>
     else if chr = code_ltrs then s\<lparr>shift := False, last_char := int chr\<rparr>
     else if chr = code_figs then s\<lparr>shift := True, last_char := int chr\<rparr>
     else case code_to_char chr (shift s) of
       None \<Rightarrow> s\<lparr>last_char := - int chr\<rparr>
     | Some c \<Rightarrow> (process_messages c (filter_print c s))\<lparr>last_char := of_char c\<rparr>)"

text \<open>The bit with the smallest magnitude, the first of them; \<open>None\<close>, which is -1 in the code, when no magnitude is
  below \<^verbatim>\<open>INT_MAX\<close>. Then the bit in front of the character would be flipped.\<close>

definition smallest_bit :: "int list \<Rightarrow> nat option" where
  "smallest_bit pos = snd (foldl (\<lambda>(minimum, smallest) i.
     if \<bar>pos ! i\<bar> < minimum then (\<bar>pos ! i\<bar>, Some i) else (minimum, smallest)) (2 ^ 31 - 1, None) [0..<7])"

definition flip_smallest_bit :: "int list \<Rightarrow> int list result" where
  "flip_smallest_bit pos = (case smallest_bit pos of None \<Rightarrow> Inl BadIndex | Some i \<Rightarrow> Inr (pos[i := - (pos ! i)]))"

text \<open>A pointer to the seven values from a position on; all of them are read, so all have to be in the buffer.\<close>

definition seven_at :: "nat \<Rightarrow> int list \<Rightarrow> int list result" where
  "seven_at p v = (if p + 7 \<le> length v then Inr (map (\<lambda>i. v ! (p + i)) [0..<7]) else Inl BadIndex)"

definition code_at :: "nat \<Rightarrow> int list \<Rightarrow> nat result" where
  "code_at p v = andthen (seven_at p v) (\<lambda>pos. Inr (bytes_to_code pos))"

definition flip_at :: "nat \<Rightarrow> int list \<Rightarrow> int list result" where
  "flip_at p v = andthen (seven_at p v) (\<lambda>pos. andthen (flip_smallest_bit pos) (\<lambda>pos.
     Inr (take p v @ pos @ drop (p + 7) v)))"

text \<open>The average of a character and its repetition. The index is the \<^emph>\<open>code\<close> of the repetition,
  where its position is meant, and may lie outside the buffer.\<close>

definition average :: "nat \<Rightarrow> nat \<Rightarrow> int list \<Rightarrow> int list result" where
  "average cursor rep v = andthen (seven_at cursor v) (\<lambda>a. andthen (seven_at rep v) (\<lambda>r. Inr (map2 (+) a r)))"

definition process_bytes :: "nat \<Rightarrow> navtex \<Rightarrow> (int \<times> navtex) result" where
  "process_bytes cursor s =
    andthen (code_at cursor (bit_values s)) (\<lambda>code.
     if check_bits code then Inr (1, process_char code s)
     else if cursor < 35 then Inr (-1, s)
     else
       let reppos = cursor - 35 in andthen (code_at reppos (bit_values s)) (\<lambda>rep.
       if check_bits rep then
         if rep = code_rep then Inr (0, s) else Inr (0, process_char rep s)
       else andthen (average cursor rep (bit_values s)) (\<lambda>avg.
         let calc = bytes_to_code avg in
         if check_bits calc then Inr (-1, process_char calc s)
         else andthen (flip_at cursor (bit_values s)) (\<lambda>v.
           let s = s\<lparr>bit_values := v\<rparr> in andthen (code_at cursor v) (\<lambda>calc.
           if check_bits calc then Inr (-1, process_char calc s)
           else andthen (flip_at reppos v) (\<lambda>v.
             let s = s\<lparr>bit_values := v\<rparr> in andthen (code_at reppos v) (\<lambda>calc.
             if check_bits calc then Inr (-1, process_char calc s)
             else andthen (flip_smallest_bit avg) (\<lambda>avg.
               let calc = bytes_to_code avg in
               if check_bits calc then Inr (-1, process_char calc s) else Inr (-2, s)))))))))"

section \<open>Finding the phase\<close>

text \<open>One candidate offset: the number of valid characters and of matching repetitions. \<open>None\<close>
  leaves the loop with score 0 when alpha or rep match themselves.\<close>

definition score_step :: "int list \<Rightarrow> nat \<Rightarrow> nat \<times> nat \<Rightarrow> (nat \<times> nat) option result" where
  "score_step v i sr =
    (let (score, reps) = sr in andthen (seven_at i v) (\<lambda>pos.
     if valid_char_at pos then
       andthen (code_at i v) (\<lambda>code. andthen (if i < 35 then Inl BadIndex else code_at (i - 35) v) (\<lambda>rep.
         if code = rep then
           Inr (if code = code_alpha \<or> code = code_rep then None else Some (score + 1, reps + 1))
         else if code = code_alpha then
           andthen (if i < 7 then Inl BadIndex else code_at (i - 7) v) (\<lambda>rep.
             Inr (Some (score + 1, if rep = code_rep then reps + 1 else reps)))
         else Inr (Some (score + 1, reps))))
     else Inr (Some (score, reps))))"

text \<open>Each round goes seven values on, so the length of the buffer is fuel enough.\<close>

fun score_loop :: "nat \<Rightarrow> int list \<Rightarrow> nat \<Rightarrow> nat \<times> nat \<Rightarrow> (nat \<times> nat) result" where
  "score_loop 0 v i sr = Inr sr"
| "score_loop (Suc n) v i sr =
    (if i < length v - 7 then
       andthen (score_step v i sr) (\<lambda>r. case r of None \<Rightarrow> Inr (0, snd sr) | Some sr' \<Rightarrow> score_loop n v (i + 7) sr')
     else Inr sr)"

definition score_at :: "int list \<Rightarrow> nat \<Rightarrow> (nat \<times> nat) result" where
  "score_at v offset = score_loop (length v) v offset (0, 0)"

fun best_of :: "int list \<Rightarrow> nat list \<Rightarrow> nat \<times> nat \<Rightarrow> (nat \<times> nat) result" where
  "best_of v [] best = Inr best"
| "best_of v (offset # offsets) best =
    andthen (score_at v offset) (\<lambda>(score, reps).
      best_of v offsets (if reps > 3 \<and> score + reps > fst best then (score + reps, offset) else best))"

definition find_alpha_characters :: "int list \<Rightarrow> nat option result" where
  "find_alpha_characters v =
    andthen (best_of v [35..<35 + 14] (0, 0)) (\<lambda>(best_score, best_offset).
      Inr (if best_score > 8 then Some best_offset else None))"

section \<open>Bits\<close>

definition store_bit :: "int \<Rightarrow> navtex \<Rightarrow> navtex" where
  "store_bit accumulator s =
    s\<lparr>bit_values := drop 1 (bit_values s) @ [accumulator], bit_cursor := bit_cursor s - 1\<rparr>"

definition sync :: "navtex \<Rightarrow> navtex result" where
  "sync s =
    (if state s = SYNC then
       andthen (find_alpha_characters (bit_values s)) (\<lambda>found. Inr (case found of
         Some offset \<Rightarrow> s\<lparr>state := READ_DATA, bit_cursor := offset, alpha_phase := True\<rparr>
       | None \<Rightarrow> s\<lparr>state := SYNC_SETUP\<rparr>))
     else Inr s)"

definition count_error :: "int \<Rightarrow> navtex \<Rightarrow> navtex" where
  "count_error ret s =
    (let e = error_count s - ret
     in s\<lparr>error_count := (if e < 0 then 0 else e), state := (if e > 5 then SYNC_SETUP else state s)\<rparr>)"

definition read_data :: "navtex \<Rightarrow> navtex result" where
  "read_data s =
    (if state s = READ_DATA \<and> bit_cursor s < length (bit_values s) - 7 then
       andthen (if alpha_phase s
                then andthen (process_bytes (bit_cursor s) s) (\<lambda>(ret, s). Inr (count_error ret s))
                else Inr s)
         (\<lambda>s. Inr (s\<lparr>alpha_phase := \<not> alpha_phase s, bit_cursor := bit_cursor s + 7\<rparr>))
     else Inr s)"

definition handle_bit_value :: "int \<Rightarrow> navtex \<Rightarrow> navtex result" where
  "handle_bit_value accumulator s = andthen (sync (store_bit accumulator s)) read_data"

text \<open>What \<^verbatim>\<open>process_fft_output\<close> does with the state for each sample: whether the signal is loud
  enough, and at the end of a bit its accumulator.\<close>

definition process_sample :: "bool \<Rightarrow> int option \<Rightarrow> navtex \<Rightarrow> navtex result" where
  "process_sample quiet edge s =
    (let s = (if quiet then s\<lparr>state := NOSIGNAL\<rparr>
              else if state s = NOSIGNAL then s\<lparr>state := SYNC_SETUP\<rparr> else s)
     in andthen
       (case state s of
          NOSIGNAL \<Rightarrow> Inr s
        | SYNC_SETUP \<Rightarrow> Inr (s\<lparr>error_count := 0, shift := False, state := SYNC\<rparr>)
        | _ \<Rightarrow> (case edge of Some acc \<Rightarrow> handle_bit_value acc s | None \<Rightarrow> Inr s))
       (\<lambda>s. Inr (s\<lparr>sample_count := sample_count s + 1\<rparr>)))"

text \<open>A block of sound samples; the filters turn each into the samples that \<^verbatim>\<open>process_fft_output\<close>
  sees, mostly none.\<close>

fun process_fft_output :: "(bool \<times> int option) list \<Rightarrow> navtex \<Rightarrow> navtex result" where
  "process_fft_output [] s = Inr s"
| "process_fft_output ((quiet, edge) # zs) s = andthen (process_sample quiet edge s) (process_fft_output zs)"

fun process_samples :: "(bool \<times> int option) list list \<Rightarrow> navtex \<Rightarrow> navtex result" where
  "process_samples [] s = Inr s"
| "process_samples (out # outs) s =
    andthen (process_fft_output out (s\<lparr>time_sec := cdiv (sample_count s) (sample_rate s)\<rparr>)) (process_samples outs)"

definition process_data :: "(bool \<times> int option) list list \<Rightarrow> navtex \<Rightarrow> navtex result" where
  "process_data outs s = process_samples outs (process_timeout s)"

fun rx_bits :: "int list \<Rightarrow> navtex \<Rightarrow> navtex result" where
  "rx_bits [] s = Inr s"
| "rx_bits (b # bs) s = andthen (handle_bit_value b s) (rx_bits bs)"

section \<open>Sender\<close>

fun navtex_encode_loop :: "string \<Rightarrow> bool \<Rightarrow> nat list result" where
  "navtex_encode_loop [] sh = Inr []"
| "navtex_encode_loop (c # str) sh =
    andthen (char_to_code c sh) (\<lambda>(codes, sh). andthen (navtex_encode_loop str sh) (\<lambda>rest. Inr (codes @ rest)))"

definition navtex_encode :: "string \<Rightarrow> nat list result" where
  "navtex_encode str = navtex_encode_loop str False"

text \<open>With fewer than two codes the last loop indexes in front of the string.\<close>

definition create_fec :: "nat list \<Rightarrow> nat list result" where
  "create_fec str =
    (let sz = length str in
     if sz < 2 then Inl BadIndex
     else Inr (concat (replicate 2 [code_rep, code_alpha]) @
       concat (map (\<lambda>i. [str ! i, if i \<ge> 2 then str ! (i - 2) else code_alpha]) [0..<sz]) @
       concat (map (\<lambda>i. [code_char32, str ! (sz - 2 + i)]) [0..<2])))"

definition navtex_code_bits :: "nat \<Rightarrow> bool list" where
  "navtex_code_bits c = map (\<lambda>j. drop_bit j c AND 1 = 1) [0..<7]"

definition send_string :: "string \<Rightarrow> navtex \<Rightarrow> navtex result" where
  "send_string msg s =
    andthen (navtex_encode msg) (\<lambda>encod. andthen (create_fec encod) (\<lambda>sevenbits.
      Inr (s\<lparr>sent := sent s @ map Bit (concat (map navtex_code_bits sevenbits))\<rparr>)))"

definition preamble :: "nat \<Rightarrow> string" where
  "preamble counter = ''ZCZC ZI'' @ (if counter < 10 then ''0'' else '''') @ show_nat counter @ [CHR 0x0D, CHR 0x0A]"

definition trailer :: string where
  "trailer = [CHR 0x0D, CHR 0x0A] @ ''NNNN'' @ [CHR 0x0D, CHR 0x0A, CHR 0x0A]"

definition send_message :: "string \<Rightarrow> bool \<Rightarrow> bool \<Rightarrow> navtex \<Rightarrow> navtex result" where
  "send_message msg is_first is_last s =
    (if only_sitor_b s then send_string msg s
     else
       let s = s\<lparr>sent := sent s @ [Phasing (if is_first then 10 else 5)]\<rparr>;
           full_msg = preamble (message_counter s) @ msg @ trailer;
           s = s\<lparr>message_counter := (message_counter s + 1) mod 100\<rparr>
       in andthen (send_string full_msg s) (\<lambda>s. Inr (if is_last then s\<lparr>sent := sent s @ [Phasing 2]\<rparr> else s)))"

definition append_message_to_send :: "string \<Rightarrow> navtex \<Rightarrow> navtex" where
  "append_message_to_send msg s = s\<lparr>tx_msg_queue := tx_msg_queue s @ [msg]\<rparr>"

fun transmit_queue :: "string list \<Rightarrow> bool \<Rightarrow> navtex \<Rightarrow> navtex result" where
  "transmit_queue [] is_first s = Inr (s\<lparr>tx_msg_queue := []\<rparr>)"
| "transmit_queue (msg # msgs) is_first s =
    andthen (send_message msg is_first (msgs = []) (s\<lparr>tx_msg_queue := msgs\<rparr>)) (transmit_queue msgs False)"

definition transmit_message_async :: "string \<Rightarrow> navtex \<Rightarrow> navtex result" where
  "transmit_message_async msg s =
    (let s = append_message_to_send msg s in transmit_queue (tx_msg_queue s) True s)"

end
