(* ===== verification/Navtex_Laws.thy ===== *)
theory Navtex_Laws
  imports Navtex Synced_Link "HOL-Library.Sublist"
begin

text \<open>
  What holds of the NAVTEX model. The layers of the receiver are treated one by one: the code tables (as an
  invariant of the constructor's loop), what a code does to the messages, texts (an instance of the
  interface \<^verbatim>\<open>synced_link\<close>), the bit level of a receiver in phase, the stream of characters and
  copies, and the marks of a message. They meet in the properties at the end.
\<close>

section \<open>The code\<close>

text \<open>What the constructor of \<^verbatim>\<open>CCIR476\<close> writes, as an invariant of its loop.\<close>

definition inverts :: "nat list \<Rightarrow> string \<Rightarrow> nat set \<Rightarrow> bool" where
  "inverts t table done \<longleftrightarrow> length t = 128 \<and>
     (\<forall>ch < 128. t ! ch \<noteq> 0 \<longrightarrow> t ! ch \<in> done \<and> check_bits (t ! ch) \<and> of_char (table ! (t ! ch)) = ch \<and>
        table ! (t ! ch) \<noteq> CHR ''_'') \<and>
     (\<forall>code \<in> done. code \<noteq> 0 \<and> check_bits code \<and> table ! code \<noteq> CHR ''_'' \<longrightarrow>
        t ! of_char (table ! code) \<noteq> 0)"

lemma check_bits_pos: "check_bits code \<Longrightarrow> 0 < code"
  by (cases code) (simp_all add: check_bits_def count_bits.simps)

lemma inverts_foldl:
  assumes "inverts t table done" and "\<forall>code \<in> set codes. (of_char (table ! code) :: nat) < 128"
  shows "inverts (foldl (\<lambda>t code.
     if check_bits code \<and> table ! code \<noteq> CHR ''_'' then t[of_char (table ! code) := code] else t) t codes)
     table (done \<union> set codes)"
  using assms
proof (induction codes arbitrary: t "done")
  case (Cons code codes)
  let ?t = "if check_bits code \<and> table ! code \<noteq> CHR ''_'' then t[of_char (table ! code) := code] else t"
  have "inverts ?t table (insert code done)"
    using Cons.prems unfolding inverts_def by (auto simp: nth_list_update dest: check_bits_pos)
  from Cons.IH [OF this] Cons.prems show ?case by simp
qed simp

lemma fill_inverts:
  assumes "\<forall>code < 128. (of_char (table ! code) :: nat) < 128"
  shows "inverts (fill table) table {0..<128}"
proof -
  have "inverts (replicate 128 0) table {}" by (simp add: inverts_def)
  from inverts_foldl [OF this, of "[0..<128]"] assms show ?thesis by (simp add: fill_def)
qed

lemma nth_string_ascii: "list_all (\<lambda>c. (of_char c :: nat) < 128) xs \<Longrightarrow> i < length xs \<Longrightarrow> (of_char (xs ! i) :: nat) < 128"
  by (simp add: list_all_length)

lemma length_tables [simp]: "length code_to_ltrs = 128" "length code_to_figs = 128"
  by (simp_all add: code_to_ltrs_def code_to_figs_def)

lemma tables_ascii:
  "list_all (\<lambda>c. (of_char c :: nat) < 128) code_to_ltrs" "list_all (\<lambda>c. (of_char c :: nat) < 128) code_to_figs"
  by (simp_all add: code_to_ltrs_def code_to_figs_def)

lemma ltrs_inverts: "inverts ltrs_to_code code_to_ltrs {0..<128}"
  unfolding ltrs_to_code_def by (rule fill_inverts) (simp add: nth_string_ascii [OF tables_ascii(1)])

lemma figs_inverts: "inverts figs_to_code code_to_figs {0..<128}"
  unfolding figs_to_code_def by (rule fill_inverts) (simp add: nth_string_ascii [OF tables_ascii(2)])

lemmas special_codes = code_ltrs_def code_figs_def code_alpha_def code_beta_def code_char32_def code_rep_def

definition special :: "nat \<Rightarrow> bool" where
  "special code \<longleftrightarrow> code \<in> {code_ltrs, code_figs, code_alpha, code_beta, code_char32, code_rep}"

lemma special_unprintable:
  assumes "special code"
  shows "code_to_ltrs ! code = CHR ''_''" "code_to_figs ! code = CHR ''_''"
  using assms by (auto simp: special_def special_codes code_to_ltrs_def code_to_figs_def)

lemma check_bits_special:
  "check_bits code_ltrs" "check_bits code_figs" "check_bits code_alpha" "check_bits code_char32" "check_bits code_rep"
  by (simp_all add: check_bits_def special_codes count_bits.simps)

text \<open>A character is sent when one of the two alphabets has it.\<close>

definition sendable :: "char \<Rightarrow> bool" where
  "sendable c \<longleftrightarrow> (let ch = of_char (toupper_char c) in ltrs_to_code ! ch \<noteq> 0 \<or> figs_to_code ! ch \<noteq> 0)"

definition understood :: "string \<Rightarrow> string" where
  "understood str = map toupper_char (filter sendable str)"

lemma inverts_nth:
  assumes "inverts t table {0..<128}" "ch < 128" "t ! ch \<noteq> 0"
  shows "t ! ch < 128" "check_bits (t ! ch)" "table ! (t ! ch) = char_of ch" "table ! (t ! ch) \<noteq> CHR ''_''"
  using assms by (auto simp: inverts_def) (metis char_of_char)

definition enc :: "nat list \<times> bool \<Rightarrow> char \<Rightarrow> nat list \<times> bool" where
  "enc t c = (case char_to_code c (snd t) of Inl e \<Rightarrow> t | Inr (codes, sh) \<Rightarrow> (fst t @ codes, sh))"

lemma encode_loop_foldl:
  "navtex_encode_loop str sh = Inr codes \<Longrightarrow> fst (foldl enc (pre, sh) str) = pre @ codes"
proof (induction str arbitrary: sh pre codes)
  case (Cons c str)
  then show ?case
    by (auto simp: andthen_Inr_iff enc_def)
qed simp

lemma encode_ascii:
  "navtex_encode_loop str sh = Inr codes \<Longrightarrow> \<forall>c \<in> set str. (of_char (toupper_char c) :: nat) < 128"
proof (induction str arbitrary: sh codes)
  case (Cons c str)
  then show ?case by (auto simp: andthen_Inr_iff char_to_code_def Let_def split: if_splits)
qed simp

section \<open>What a code does to the receiver\<close>

text \<open>The members that only the bit level uses do not matter for what a code does.\<close>

definition essence :: "navtex \<Rightarrow> navtex" where
  "essence s = s\<lparr>bit_values := [], bit_cursor := 0, alpha_phase := True, error_count := 0, last_char := 0\<rparr>"

definition read_char :: "char \<Rightarrow> navtex \<Rightarrow> navtex" where
  "read_char c s = process_messages c (filter_print c s)"

definition read_code :: "nat \<Rightarrow> navtex \<Rightarrow> navtex" where
  "read_code c s = essence (process_char c s)"

definition read_codes :: "nat list \<Rightarrow> navtex \<Rightarrow> navtex" where
  "read_codes cs s = foldl (\<lambda>s c. read_code c s) s cs"

text \<open>A change of members that the collection of messages neither reads nor writes.\<close>

definition neutral :: "(navtex \<Rightarrow> navtex) \<Rightarrow> bool" where
  "neutral u \<longleftrightarrow>
     (\<forall>s. only_sitor_b (u s) = only_sitor_b s \<and> curr_msg (u s) = curr_msg s \<and> header_found (u s) = header_found s \<and>
        time_sec (u s) = time_sec s \<and> min_size (u s) = min_size s \<and> received (u s) = received s \<and>
        rx_chars (u s) = rx_chars s) \<and>
     (\<forall>s x. (u s)\<lparr>curr_msg := x\<rparr> = u (s\<lparr>curr_msg := x\<rparr>)) \<and>
     (\<forall>s x. (u s)\<lparr>header_found := x\<rparr> = u (s\<lparr>header_found := x\<rparr>)) \<and>
     (\<forall>s x. (u s)\<lparr>message_time := x\<rparr> = u (s\<lparr>message_time := x\<rparr>)) \<and>
     (\<forall>s x. (u s)\<lparr>received := x\<rparr> = u (s\<lparr>received := x\<rparr>)) \<and>
     (\<forall>s x. (u s)\<lparr>rx_chars := x\<rparr> = u (s\<lparr>rx_chars := x\<rparr>))"

lemma neutral_updates [simp]:
  "neutral (\<lambda>s. s\<lparr>shift := b\<rparr>)" "neutral (\<lambda>s. s\<lparr>last_char := i\<rparr>)" "neutral (\<lambda>s. s\<lparr>error_count := i\<rparr>)"
  "neutral (\<lambda>s. s\<lparr>alpha_phase := b\<rparr>)" "neutral (\<lambda>s. s\<lparr>bit_cursor := n\<rparr>)" "neutral (\<lambda>s. s\<lparr>bit_values := v\<rparr>)"
  "neutral (\<lambda>s. s\<lparr>state := z\<rparr>)" "neutral essence"
  by (simp_all add: neutral_def essence_def)

lemma process_messages_neutral:
  assumes "neutral u"
  shows "process_messages c (u s) = u (process_messages c s)"
proof -
  have disp: "display_message m x (u s) = u (display_message m x s)" for m x s
    using assms by (simp add: display_message_def neutral_def)
  have flush: "flush_message x (u s) = u (flush_message x s)" for x s
    using assms by (simp add: flush_message_def Let_def disp neutral_def)
  show ?thesis
    using assms by (auto simp: process_messages_def Let_def disp flush neutral_def split: option.split prod.split)
qed

lemma filter_print_neutral: "neutral u \<Longrightarrow> filter_print c (u s) = u (filter_print c s)"
  by (simp add: filter_print_def navtex_put_rx_char_def neutral_def)

lemma read_char_neutral: "neutral u \<Longrightarrow> read_char c (u s) = u (read_char c s)"
  by (simp add: read_char_def process_messages_neutral filter_print_neutral)

lemmas read_char_frame = neutral_updates [THEN read_char_neutral]

lemma flush_message_fields [simp]:
  "shift (flush_message x s) = shift s" "state (flush_message x s) = state s"
  "bit_values (flush_message x s) = bit_values s" "bit_cursor (flush_message x s) = bit_cursor s"
  "alpha_phase (flush_message x s) = alpha_phase s" "error_count (flush_message x s) = error_count s"
  "last_char (flush_message x s) = last_char s"
  by (simp_all add: flush_message_def display_message_def Let_def)

lemma process_messages_fields [simp]:
  "shift (process_messages c s) = shift s" "state (process_messages c s) = state s"
  "bit_values (process_messages c s) = bit_values s" "bit_cursor (process_messages c s) = bit_cursor s"
  "alpha_phase (process_messages c s) = alpha_phase s" "error_count (process_messages c s) = error_count s"
  "last_char (process_messages c s) = last_char s"
  by (simp_all add: process_messages_def display_message_def Let_def split: prod.splits option.splits)

lemma filter_print_fields [simp]:
  "shift (filter_print c s) = shift s" "state (filter_print c s) = state s"
  "bit_values (filter_print c s) = bit_values s" "bit_cursor (filter_print c s) = bit_cursor s"
  "alpha_phase (filter_print c s) = alpha_phase s" "error_count (filter_print c s) = error_count s"
  "last_char (filter_print c s) = last_char s"
  by (simp_all add: filter_print_def navtex_put_rx_char_def)

lemma read_char_fields [simp]:
  "shift (read_char c s) = shift s" "state (read_char c s) = state s"
  "bit_values (read_char c s) = bit_values s" "bit_cursor (read_char c s) = bit_cursor s"
  "alpha_phase (read_char c s) = alpha_phase s" "error_count (read_char c s) = error_count s"
  "last_char (read_char c s) = last_char s"
  by (simp_all add: read_char_def)

lemma process_char_fields [simp]:
  "state (process_char c s) = state s"
  "bit_values (process_char c s) = bit_values s" "bit_cursor (process_char c s) = bit_cursor s"
  "error_count (process_char c s) = error_count s"
  by (simp_all add: process_char_def split: option.splits)

lemma process_char_alpha_phase: "c \<noteq> code_rep \<Longrightarrow> alpha_phase (process_char c s) = alpha_phase s"
  by (simp add: process_char_def split: option.splits)

lemma essence_simps [simp]:
  "essence (s\<lparr>bit_values := v\<rparr>) = essence s" "essence (s\<lparr>bit_cursor := n\<rparr>) = essence s"
  "essence (s\<lparr>alpha_phase := b\<rparr>) = essence s" "essence (s\<lparr>error_count := i\<rparr>) = essence s"
  "essence (s\<lparr>last_char := i\<rparr>) = essence s" "essence (essence s) = essence s"
  "shift (essence s) = shift s" "rx_chars (essence s) = rx_chars s" "received (essence s) = received s"
  "curr_msg (essence s) = curr_msg s" "header_found (essence s) = header_found s"
  "only_sitor_b (essence s) = only_sitor_b s" "min_size (essence s) = min_size s"
  by (simp_all add: essence_def)

lemma essence_shift [simp]: "essence (s\<lparr>shift := b\<rparr>) = (essence s)\<lparr>shift := b\<rparr>"
  by (simp add: essence_def)

lemma essence_read_char: "essence (read_char c s) = read_char c (essence s)"
  by (rule read_char_neutral [symmetric]) simp

text \<open>A printable code hands on its character, the shift codes shift, the others do nothing.\<close>

lemma read_code_special:
  "read_code code_ltrs s = (essence s)\<lparr>shift := False\<rparr>" "read_code code_figs s = (essence s)\<lparr>shift := True\<rparr>"
  "read_code code_alpha s = essence s" "read_code code_char32 s = essence s"
  by (simp_all add: read_code_def process_char_def special_codes)

lemma read_code_char:
  assumes "\<not> special c" "code_to_char c (shift s) = Some x"
  shows "read_code c s = read_char x (essence s)"
  using assms by (simp add: read_code_def process_char_def special_def read_char_def [symmetric] essence_read_char)

lemma read_code_essence: "c \<noteq> code_rep \<Longrightarrow> read_code c (essence s) = read_code c s"
  by (simp add: read_code_def process_char_def read_char_def [symmetric] essence_read_char split: option.splits)

section \<open>Texts\<close>

lemma read_codes_simps [simp]:
  "read_codes [] s = s" "read_codes (c # cs) s = read_codes cs (read_code c s)"
  "read_codes (cs @ ds) s = read_codes ds (read_codes cs s)"
  by (simp_all add: read_codes_def)

text \<open>The sender holds the codes so far and its shift; a receiver is in step when it has the same shift.\<close>

interpretation ccir: synced_link fst read_codes "\<lambda>_. True" "\<lambda>t r. shift r = snd t \<and> essence r = r"
  "\<lambda>r. r\<lparr>shift := False\<rparr>"
  by unfold_locales simp_all

definition hear :: "char \<Rightarrow> navtex \<Rightarrow> navtex" where
  "hear c s = (if sendable c then read_char (toupper_char c) s else s)"

lemma code_found:
  assumes "inverts t table {0..<128}" "ch < 128" "t ! ch \<noteq> 0" "table = (if sh then code_to_figs else code_to_ltrs)"
  shows "\<not> special (t ! ch)" "code_to_char (t ! ch) sh = Some (char_of ch)"
  using inverts_nth [OF assms(1-3)] assms(4) special_unprintable [of "t ! ch"]
  by (auto simp: code_to_char_def split: if_splits)

lemma ccir_carries_code:
  assumes "inverts t table {0..<128}" "ch < 128" "t ! ch \<noteq> 0" "table = (if sh then code_to_figs else code_to_ltrs)"
  shows "ccir.carries (cs, sh) (cs @ [t ! ch], sh) (read_char (char_of ch))"
  by (rule ccir.carriesI [where xs = "[t ! ch]"])
    (use code_found [OF assms] in \<open>auto simp: read_code_char read_char_frame essence_read_char\<close>)

lemma ccir_carries_shift:
  "ccir.carries (cs, sh) (cs @ [code_figs], True) (\<lambda>v. v)"
  "ccir.carries (cs, sh) (cs @ [code_ltrs], False) (\<lambda>v. v)"
  by (rule ccir.carriesI [where xs = "[code_figs]"], simp_all add: read_code_special)
    (rule ccir.carriesI [where xs = "[code_ltrs]"], simp_all add: read_code_special)

lemma carries_enc:
  assumes "(of_char (toupper_char c) :: nat) < 128"
  shows "ccir.carries t (enc t c) (hear c)"
proof -
  obtain cs sh where t: "t = (cs, sh)" by (cases t)
  let ?ch = "of_char (toupper_char c) :: nat"
  note lt = ltrs_inverts assms
  note fg = figs_inverts assms
  have low: "\<not> 128 \<le> ?ch" using assms by simp
  consider "sh" "figs_to_code ! ?ch \<noteq> 0" | "\<not> sh" "ltrs_to_code ! ?ch \<noteq> 0"
    | "\<not> sh" "ltrs_to_code ! ?ch = 0" "figs_to_code ! ?ch \<noteq> 0"
    | "sh" "figs_to_code ! ?ch = 0" "ltrs_to_code ! ?ch \<noteq> 0"
    | "figs_to_code ! ?ch = 0" "ltrs_to_code ! ?ch = 0" by blast
  then show ?thesis
  proof cases
    case 1
    have "ccir.carries (cs, sh) (cs @ [figs_to_code ! ?ch], sh) (read_char (char_of ?ch))"
      using ccir_carries_code [OF fg] 1 by simp
    with 1 low show ?thesis by (simp add: t enc_def char_to_code_def Let_def hear_def [abs_def] sendable_def)
  next
    case 2
    have "ccir.carries (cs, sh) (cs @ [ltrs_to_code ! ?ch], sh) (read_char (char_of ?ch))"
      using ccir_carries_code [OF lt] 2 by simp
    with 2 low show ?thesis by (simp add: t enc_def char_to_code_def Let_def hear_def [abs_def] sendable_def)
  next
    case 3
    have "ccir.carries (cs @ [code_figs], True) ((cs @ [code_figs]) @ [figs_to_code ! ?ch], True) (read_char (char_of ?ch))"
      using ccir_carries_code [OF fg, where sh = True and cs = "cs @ [code_figs]"] 3 by simp
    from ccir.carries_trans [OF ccir_carries_shift(1) this] 3 low show ?thesis
      by (simp add: t enc_def char_to_code_def Let_def hear_def [abs_def] sendable_def)
  next
    case 4
    have "ccir.carries (cs @ [code_ltrs], False) ((cs @ [code_ltrs]) @ [ltrs_to_code ! ?ch], False) (read_char (char_of ?ch))"
      using ccir_carries_code [OF lt, where sh = False and cs = "cs @ [code_ltrs]"] 4 by simp
    from ccir.carries_trans [OF ccir_carries_shift(2) this] 4 low show ?thesis
      by (simp add: t enc_def char_to_code_def Let_def hear_def [abs_def] sendable_def)
  next
    case 5
    with low show ?thesis
      using ccir.carries_refl [of "(cs, sh)"]
      by (simp add: t enc_def char_to_code_def Let_def hear_def [abs_def] sendable_def)
  qed
qed

lemma foldl_hear: "foldl (\<lambda>v c. hear c v) s str = foldl (\<lambda>v c. read_char c v) s (understood str)"
  by (induction str arbitrary: s) (simp_all add: hear_def understood_def)

lemma read_codes_encode:
  assumes "navtex_encode str = Inr codes" "\<not> shift s" "essence s = s"
  shows "(read_codes codes s)\<lparr>shift := False\<rparr> = foldl (\<lambda>v c. read_char c v) s (understood str)"
proof -
  have ascii: "\<forall>c \<in> set str. (of_char (toupper_char c) :: nat) < 128"
    using assms(1) encode_ascii by (simp add: navtex_encode_def)
  have "ccir.carries ([], False) (foldl enc ([], False) str) (\<lambda>v. foldl (\<lambda>v c. hear c v) v str)"
    by (rule ccir.carries_foldl) (use ascii carries_enc in blast)
  from ccir.carried [OF this, of s] assms(2,3)
  obtain xs where xs: "fst (foldl enc ([], False) str) = xs"
    "(read_codes xs s)\<lparr>shift := False\<rparr> = foldl (\<lambda>v c. hear c v) (s\<lparr>shift := False\<rparr>) str"
    by auto
  from xs(1) assms(1) have "xs = codes"
    using encode_loop_foldl [of str False codes "[]"] by (simp add: navtex_encode_def)
  moreover have "s\<lparr>shift := False\<rparr> = s" using assms(2) by (cases s) simp
  ultimately show ?thesis using xs(2) by (simp add: foldl_hear)
qed

section \<open>The bit level\<close>

text \<open>What a read inside the buffer gives.\<close>

definition code_in :: "nat \<Rightarrow> int list \<Rightarrow> nat" where
  "code_in p v = bytes_to_code (take 7 (drop p v))"

lemma seven_at_in: "p + 7 \<le> length v \<Longrightarrow> seven_at p v = Inr (take 7 (drop p v))"
  by (auto simp: seven_at_def intro!: nth_equalityI)

lemma code_at_in: "p + 7 \<le> length v \<Longrightarrow> code_at p v = Inr (code_in p v)"
  by (simp add: code_at_def seven_at_in code_in_def)

text \<open>A receiver that has found the phase and waits for the first bit of a character.\<close>

definition in_phase :: "navtex \<Rightarrow> bool" where
  "in_phase s \<longleftrightarrow> state s = READ_DATA \<and> bit_cursor s = 93 \<and> length (bit_values s) = 100 \<and>
     0 \<le> error_count s \<and> error_count s \<le> 5"

lemma rx_bits_append: "rx_bits (xs @ ys) s = andthen (rx_bits xs s) (rx_bits ys)"
proof (induction xs arbitrary: s)
  case (Cons x xs)
  then show ?case by (cases "handle_bit_value x s") simp_all
qed simp

lemma rx_bits_waiting:
  assumes "state s = READ_DATA" "length (bit_values s) = 100" "93 + length bs \<le> bit_cursor s"
  shows "rx_bits bs s = Inr (s\<lparr>bit_values := drop (length bs) (bit_values s @ bs),
     bit_cursor := bit_cursor s - length bs\<rparr>)"
  using assms
proof (induction bs arbitrary: s)
  case (Cons b bs)
  obtain a v where v: "bit_values s = a # v" using Cons.prems(2) by (cases "bit_values s") auto
  have step: "handle_bit_value b s = Inr (store_bit b s)"
    using Cons.prems by (auto simp: handle_bit_value_def sync_def read_data_def store_bit_def v)
  have "rx_bits bs (store_bit b s) = Inr ((store_bit b s)\<lparr>bit_values := drop (length bs) (bit_values (store_bit b s) @ bs),
     bit_cursor := bit_cursor (store_bit b s) - length bs\<rparr>)"
    by (rule Cons.IH) (use Cons.prems in \<open>simp_all add: store_bit_def v\<close>)
  then show ?case by (simp add: step store_bit_def v)
qed simp

text \<open>The character and its copy that a receiver in phase takes up next.\<close>

definition pending :: "int list \<Rightarrow> nat" where "pending v = code_in 93 v"
definition pending_copy :: "int list \<Rightarrow> nat" where "pending_copy v = code_in 58 v"

text \<open>A code is heard from its own character, or from the copy when the character has a wrong
  number of ones. The idle code has the repetition code as its copy.\<close>

definition heard :: "nat \<Rightarrow> int list \<Rightarrow> bool" where
  "heard c v \<longleftrightarrow> check_bits c \<and> c \<noteq> code_rep \<and>
     (pending v = c \<or> \<not> check_bits (pending v) \<and> pending_copy v = (if c = code_alpha then code_rep else c))"

lemma code_in_shifted: "length v = 100 \<Longrightarrow> code_in p (drop 1 v @ [b]) = code_in (p + 1) v" if "p + 7 < 100"
  using that by (simp add: code_in_def)

lemma process_bytes_heard:
  assumes "heard c (bit_values s)" "length (bit_values s) = 100"
    and "bit_values t = drop 1 (bit_values s) @ [b]" "bit_cursor t = 92" "essence t = essence s"
    and "state t = state s" "alpha_phase t = alpha_phase s" "error_count t = error_count s"
  obtains ret t' where "process_bytes 92 t = Inr (ret, t')" "ret = 0 \<or> ret = 1" "essence t' = read_code c (essence s)"
    "state t' = state s" "bit_values t' = bit_values t" "bit_cursor t' = 92" "alpha_phase t' = alpha_phase s"
    "error_count t' = error_count s"
proof -
  have at: "code_at 92 (bit_values t) = Inr (pending (bit_values s))" "code_at 57 (bit_values t) = Inr (pending_copy (bit_values s))"
    using assms(2) by (simp_all add: assms(3) code_at_in code_in_shifted pending_def pending_copy_def del: One_nat_def)
  have char: "essence (process_char c t) = read_code c (essence s)" if "c \<noteq> code_rep"
    using that read_code_essence [of c t] read_code_essence [of c s] assms(5) by (simp add: read_code_def)
  consider "pending (bit_values s) = c" "check_bits c" "c \<noteq> code_rep"
    | "\<not> check_bits (pending (bit_values s))" "pending_copy (bit_values s) = c" "check_bits c" "c \<noteq> code_rep"
    | "\<not> check_bits (pending (bit_values s))" "pending_copy (bit_values s) = code_rep" "c = code_alpha"
    using assms(1) unfolding heard_def by (cases "c = code_alpha") auto
  then show thesis
  proof cases
    case 1
    then show thesis
      by (intro that [of 1 "process_char c t"]) (simp_all add: process_bytes_def at Let_def char process_char_alpha_phase assms(4,6-8))
  next
    case 2
    then show thesis
      by (intro that [of 0 "process_char c t"]) (simp_all add: process_bytes_def at Let_def char process_char_alpha_phase assms(4,6-8))
  next
    case 3
    then show thesis
      by (intro that [of 0 t])
        (simp_all add: process_bytes_def at Let_def check_bits_special assms(4-8) read_code_def process_char_def)
  qed
qed

lemma phase_step:
  assumes "in_phase s" "length g = 7"
    and first: "read_data (s\<lparr>bit_values := drop 1 (bit_values s) @ [hd g], bit_cursor := 92\<rparr>) = Inr t"
    and t: "state t = READ_DATA" "bit_cursor t = 99" "bit_values t = drop 1 (bit_values s) @ [hd g]"
  shows "rx_bits g s = Inr (t\<lparr>bit_values := drop 7 (bit_values s @ g), bit_cursor := 93\<rparr>)"
proof -
  obtain b bs where g: "g = b # bs" "length bs = 6" using assms(2) by (cases g) auto
  have s: "state s = READ_DATA" "bit_cursor s = 93" "length (bit_values s) = 100"
    using assms(1) by (simp_all add: in_phase_def)
  have "handle_bit_value b s = Inr t"
    using first s by (simp add: handle_bit_value_def store_bit_def sync_def g)
  moreover have "rx_bits bs t = Inr (t\<lparr>bit_values := drop 6 (bit_values t @ bs), bit_cursor := 93\<rparr>)"
    using rx_bits_waiting [of t bs] t s g by simp
  moreover have "drop 6 (bit_values t @ bs) = drop 7 (bit_values s @ g)"
    using s by (simp add: t g)
  ultimately show ?thesis by (simp add: g)
qed

lemma skip_copy:
  assumes "in_phase s" "\<not> alpha_phase s" "length g = 7"
  shows "rx_bits g s = Inr (s\<lparr>alpha_phase := True, bit_values := drop 7 (bit_values s @ g)\<rparr>)"
proof -
  have s: "state s = READ_DATA" "bit_cursor s = 93" "length (bit_values s) = 100"
    using assms(1) by (simp_all add: in_phase_def)
  show ?thesis
    using phase_step [OF assms(1,3)] assms(2) s by (simp add: read_data_def)
qed

lemma first_bit:
  assumes "in_phase s" "alpha_phase s" "heard c (bit_values s)"
  obtains t where "read_data (s\<lparr>bit_values := drop 1 (bit_values s) @ [b], bit_cursor := 92\<rparr>) = Inr t"
    "state t = READ_DATA" "bit_cursor t = 99" "bit_values t = drop 1 (bit_values s) @ [b]"
    "\<not> alpha_phase t" "0 \<le> error_count t" "error_count t \<le> 5" "essence t = read_code c (essence s)"
proof -
  have s: "state s = READ_DATA" "bit_cursor s = 93" "length (bit_values s) = 100" "0 \<le> error_count s" "error_count s \<le> 5"
    using assms(1) by (simp_all add: in_phase_def)
  let ?s = "s\<lparr>bit_values := drop 1 (bit_values s) @ [b], bit_cursor := 92\<rparr>"
  obtain ret t' where t': "process_bytes 92 ?s = Inr (ret, t')" "ret = 0 \<or> ret = 1" "essence t' = read_code c (essence s)"
    "state t' = state s" "bit_values t' = bit_values ?s" "bit_cursor t' = 92" "alpha_phase t' = alpha_phase s"
    "error_count t' = error_count s"
    by (rule process_bytes_heard [OF assms(3) s(3), of ?s b]) simp_all
  let ?t = "(count_error ret t')\<lparr>alpha_phase := False, bit_cursor := 99\<rparr>"
  have "count_error ret t' = t'\<lparr>error_count := (if error_count t' - ret < 0 then 0 else error_count t' - ret)\<rparr>"
    using t' s by (cases t') (auto simp: count_error_def Let_def)
  then have ce: "state (count_error ret t') = READ_DATA" "bit_cursor (count_error ret t') = 92"
    "bit_values (count_error ret t') = bit_values t'" "alpha_phase (count_error ret t')"
    "0 \<le> error_count (count_error ret t')" "error_count (count_error ret t') \<le> 5"
    "essence (count_error ret t') = essence t'"
    using t' s assms(2) by auto
  have "read_data ?s = Inr ?t"
    using t' s assms(2) ce by (simp add: read_data_def)
  then show thesis
    by (rule that) (use t' ce in simp_all)
qed

text \<open>Two characters on the wire: a copy, which is passed over, after the pending character was taken up,
  and the next character.\<close>

definition waiting :: "nat \<Rightarrow> navtex \<Rightarrow> bool" where
  "waiting c s \<longleftrightarrow> in_phase s \<and> alpha_phase s \<and> heard c (bit_values s)"

lemma waiting_pair:
  assumes "waiting c s" "length g = 7" "length h = 7" "heard c' (drop 14 (bit_values s @ g @ h))"
  obtains s' where "rx_bits (g @ h) s = Inr s'" "waiting c' s'" "essence s' = read_code c (essence s)"
    "bit_values s' = drop 14 (bit_values s @ g @ h)"
proof -
  have s: "in_phase s" "alpha_phase s" "heard c (bit_values s)" "length (bit_values s) = 100"
    using assms(1) by (simp_all add: waiting_def in_phase_def)
  obtain t where t: "read_data (s\<lparr>bit_values := drop 1 (bit_values s) @ [hd g], bit_cursor := 92\<rparr>) = Inr t"
    "state t = READ_DATA" "bit_cursor t = 99" "bit_values t = drop 1 (bit_values s) @ [hd g]"
    "\<not> alpha_phase t" "0 \<le> error_count t" "error_count t \<le> 5" "essence t = read_code c (essence s)"
    by (rule first_bit [OF s(1-3)])
  let ?t = "t\<lparr>bit_values := drop 7 (bit_values s @ g), bit_cursor := 93\<rparr>"
  have "in_phase ?t" "\<not> alpha_phase ?t" using t s assms(2) by (simp_all add: in_phase_def)
  note skip_copy [OF this assms(3)]
  with phase_step [OF s(1) assms(2) t(1-4)]
  have "rx_bits (g @ h) s = Inr (?t\<lparr>alpha_phase := True, bit_values := drop 14 (bit_values s @ g @ h)\<rparr>)"
    using s(4) assms(2) by (simp add: rx_bits_append)
  then show thesis
    by (rule that) (use t s assms in \<open>simp_all add: waiting_def in_phase_def\<close>)
qed

section \<open>A transmission\<close>

text \<open>Every second character is the one that counts; its copy comes five characters earlier.\<close>

definition fec_word :: "nat list \<Rightarrow> bool" where
  "fec_word cs \<longleftrightarrow> even (length cs) \<and> (\<forall>j < length cs. odd j \<longrightarrow> check_bits (cs ! j) \<and> cs ! j \<noteq> code_rep \<and>
     (5 \<le> j \<longrightarrow> cs ! (j - 5) = (if cs ! j = code_alpha then code_rep else cs ! j)))"

definition main_codes :: "nat list \<Rightarrow> nat list" where
  "main_codes cs = map (\<lambda>p. cs ! (2 * p + 1)) [0..<length cs div 2]"

text \<open>The groups of bit values \<open>gs\<close> that arrive for the codes \<open>cs\<close>: each character that counts is intact, or
  has a wrong number of ones and an intact copy. Nothing is asked of the copies of intact characters.\<close>

definition arrives :: "nat list \<Rightarrow> int list list \<Rightarrow> bool" where
  "arrives cs gs \<longleftrightarrow> length gs = length cs \<and> (\<forall>g \<in> set gs. length g = 7) \<and>
     (\<forall>j < length cs. odd j \<longrightarrow> bytes_to_code (gs ! j) = cs ! j \<or>
        5 \<le> j \<and> \<not> check_bits (bytes_to_code (gs ! j)) \<and> bytes_to_code (gs ! (j - 5)) = cs ! (j - 5))"

lemma drop_concat: "\<forall>g \<in> set gs. length g = n \<Longrightarrow> drop (n * k) (concat gs) = concat (drop k gs)"
proof (induction gs arbitrary: k)
  case (Cons g gs)
  then show ?case by (cases k) simp_all
qed simp

lemma length_groups: "\<forall>g \<in> set gs. length g = n \<Longrightarrow> length (concat gs) = n * length gs"
  by (induction gs) simp_all

lemma buffer_group:
  assumes "length v = 100" "\<forall>g \<in> set gs. length g = 7" "m \<le> length gs" "1 \<le> k" "k \<le> m" "k \<le> 14"
  shows "take 7 (drop (100 - 7 * k) (drop (7 * m) (v @ concat (take m gs)))) = gs ! (m - k)"
proof -
  have "\<forall>g \<in> set (take m gs). length g = 7" using assms(2) by (meson in_set_takeD)
  note drop_concat [OF this, of "m - k"]
  moreover have "drop (100 - 7 * k) (drop (7 * m) (v @ concat (take m gs))) = drop (7 * (m - k)) (concat (take m gs))"
  proof -
    have "100 - 7 * k + 7 * m = length v + 7 * (m - k)" using assms by (simp add: diff_mult_distrib2)
    then show ?thesis by (simp only: drop_drop) simp
  qed
  moreover have "drop (m - k) (take m gs) = gs ! (m - k) # drop (Suc (m - k)) (take m gs)"
    using assms by (simp add: Cons_nth_drop_Suc [symmetric])
  moreover have "length (gs ! (m - k)) = 7" using assms by simp
  ultimately show ?thesis by simp
qed

lemma drop_window: "n + m \<le> length xs \<Longrightarrow> drop n (drop m xs @ ys) = drop (n + m) (xs @ ys)"
  by simp

lemma fec_stream_heard:
  assumes "length v = 100" "fec_word cs" "arrives cs gs" "2 * p + 1 < length cs"
  shows "heard (cs ! (2 * p + 1)) (drop (14 * Suc p) (v @ concat (take (2 * Suc p) gs)))"
proof -
  let ?j = "2 * p + 1" and ?v = "drop (14 * Suc p) (v @ concat (take (2 * Suc p) gs))"
  have gs: "length gs = length cs" "\<forall>g \<in> set gs. length g = 7" using assms(3) by (simp_all add: arrives_def)
  have "take 7 (drop (100 - 7 * 1) (drop (7 * (2 * Suc p)) (v @ concat (take (2 * Suc p) gs)))) = gs ! (2 * Suc p - 1)"
    by (rule buffer_group [OF assms(1) gs(2)]) (use assms(4) gs(1) in simp_all)
  then have pend: "pending ?v = bytes_to_code (gs ! ?j)" by (simp add: pending_def code_in_def)
  have copy: "pending_copy ?v = bytes_to_code (gs ! (?j - 5))" if "5 \<le> ?j"
  proof -
    have "take 7 (drop (100 - 7 * 6) (drop (7 * (2 * Suc p)) (v @ concat (take (2 * Suc p) gs)))) = gs ! (2 * Suc p - 6)"
      by (rule buffer_group [OF assms(1) gs(2)]) (use assms(4) gs(1) that in simp_all)
    then show ?thesis by (simp add: pending_copy_def code_in_def)
  qed
  have "odd ?j" by simp
  then have "check_bits (cs ! ?j)" "cs ! ?j \<noteq> code_rep"
    "5 \<le> ?j \<Longrightarrow> cs ! (?j - 5) = (if cs ! ?j = code_alpha then code_rep else cs ! ?j)"
    "bytes_to_code (gs ! ?j) = cs ! ?j \<or>
      5 \<le> ?j \<and> \<not> check_bits (bytes_to_code (gs ! ?j)) \<and> bytes_to_code (gs ! (?j - 5)) = cs ! (?j - 5)"
    using assms(2-4) unfolding fec_word_def arrives_def by blast+
  then show ?thesis unfolding heard_def using pend copy by auto
qed

lemma fec_stream:
  assumes "waiting c s" "fec_word cs" "arrives cs gs" "p \<le> length cs div 2"
  shows "\<exists>s' d. rx_bits (concat (take (2 * p) gs)) s = Inr s' \<and> waiting d s' \<and>
    bit_values s' = drop (14 * p) (bit_values s @ concat (take (2 * p) gs)) \<and>
    read_code d (essence s') = read_codes (take p (main_codes cs)) (read_code c (essence s))"
  using assms(4)
proof (induction p)
  case 0
  with assms(1) show ?case by (auto simp: read_codes_def)
next
  case (Suc p)
  then obtain s' d where s': "rx_bits (concat (take (2 * p) gs)) s = Inr s'" "waiting d s'"
    "bit_values s' = drop (14 * p) (bit_values s @ concat (take (2 * p) gs))"
    "read_code d (essence s') = read_codes (take p (main_codes cs)) (read_code c (essence s))" by auto
  have gs: "length gs = length cs" "\<forall>g \<in> set gs. length g = 7" using assms(3) by (simp_all add: arrives_def)
  have p: "2 * p + 1 < length cs" using Suc.prems by simp
  let ?g = "gs ! (2 * p)" and ?h = "gs ! (2 * p + 1)" and ?c = "cs ! (2 * p + 1)"
  have split: "concat (take (2 * Suc p) gs) = concat (take (2 * p) gs) @ ?g @ ?h"
    using p gs(1) by (simp add: take_Suc_conv_app_nth)
  have len: "length (concat (take (2 * p) gs)) = 14 * p"
    using length_groups [of "take (2 * p) gs" 7] gs p by (auto dest: in_set_takeD)
  have v: "length (bit_values s) = 100" using assms(1) by (simp add: waiting_def in_phase_def)
  have window: "drop 14 (bit_values s' @ ?g @ ?h) = drop (14 * Suc p) (bit_values s @ concat (take (2 * Suc p) gs))"
  proof -
    have "14 + 14 * p \<le> length (bit_values s @ concat (take (2 * p) gs))" using v len by simp
    note drop_window [OF this, of "?g @ ?h"]
    then show ?thesis by (simp only: s'(3) split append_assoc) simp
  qed
  have "heard ?c (drop 14 (bit_values s' @ ?g @ ?h))"
    unfolding window by (rule fec_stream_heard [OF v assms(2,3) p])
  moreover have "length ?g = 7" "length ?h = 7" using gs p by simp_all
  ultimately obtain t where t: "rx_bits (?g @ ?h) s' = Inr t" "waiting ?c t" "essence t = read_code d (essence s')"
    "bit_values t = drop 14 (bit_values s' @ ?g @ ?h)"
    using waiting_pair [OF s'(2)] by metis
  have "take (Suc p) (main_codes cs) = take p (main_codes cs) @ [?c]"
    using Suc.prems by (simp add: main_codes_def take_Suc_conv_app_nth)
  moreover have "rx_bits (concat (take (2 * Suc p) gs)) s = Inr t"
    by (simp only: split rx_bits_append [of "concat (take (2 * p) gs)"] s'(1) andthen_simps t(1))
  moreover have "read_code ?c (essence t) = read_codes [?c] (read_code d (essence s'))"
    by (simp add: t(3))
  ultimately show ?case
    using t(2,4) s'(4) window by (intro exI [of _ t] exI [of _ ?c]) (simp only: read_codes_simps(3))
qed

text \<open>The first bit after the transmission takes up its last character.\<close>

lemma transmission_read:
  assumes "waiting c s" "fec_word cs" "arrives cs gs"
  shows "\<exists>s'. rx_bits (concat gs @ [b]) s = Inr s' \<and> essence s' = read_codes (main_codes cs) (read_code c (essence s))"
proof -
  have n: "2 * (length cs div 2) = length cs" "length gs = length cs" "length (main_codes cs) = length cs div 2"
    using assms(2,3) by (simp_all add: fec_word_def arrives_def main_codes_def)
  obtain s' d where s': "rx_bits (concat gs) s = Inr s'" "waiting d s'"
    "read_code d (essence s') = read_codes (main_codes cs) (read_code c (essence s))"
    using fec_stream [OF assms, of "length cs div 2"] n by auto
  have w: "in_phase s'" "alpha_phase s'" "heard d (bit_values s')" using s'(2) by (simp_all add: waiting_def)
  obtain t where t: "read_data (s'\<lparr>bit_values := drop 1 (bit_values s') @ [b], bit_cursor := 92\<rparr>) = Inr t"
    "essence t = read_code d (essence s')"
    by (rule first_bit [OF w])
  have "handle_bit_value b s' = Inr t"
    using t(1) w(1) by (simp add: handle_bit_value_def store_bit_def sync_def in_phase_def)
  with s' t show ?thesis by (simp add: rx_bits_append)
qed

text \<open>What the sender makes of a text with at least two codes.\<close>

lemma concat_pairs:
  "length (concat (map (\<lambda>i. [a i, b i]) [0..<n])) = 2 * n"
  "i < n \<Longrightarrow> concat (map (\<lambda>i. [a i, b i]) [0..<n]) ! (2 * i) = a i"
  "i < n \<Longrightarrow> concat (map (\<lambda>i. [a i, b i]) [0..<n]) ! (2 * i + 1) = b i"
proof -
  show len: "length (concat (map (\<lambda>i. [a i, b i]) [0..<n])) = 2 * n" for n by (induction n) simp_all
  show "concat (map (\<lambda>i. [a i, b i]) [0..<n]) ! (2 * i) = a i" if "i < n"
    using that by (induction n) (auto simp: nth_append len less_Suc_eq)
  show "concat (map (\<lambda>i. [a i, b i]) [0..<n]) ! (2 * i + 1) = b i" if "i < n"
    using that by (induction n) (auto simp: nth_append len less_Suc_eq)
qed

definition copy_slot :: "nat list \<Rightarrow> nat \<Rightarrow> nat" where
  "copy_slot xs p = (if p < 2 then code_rep else if p < length xs + 2 then xs ! (p - 2) else code_char32)"

definition main_slot :: "nat list \<Rightarrow> nat \<Rightarrow> nat" where
  "main_slot xs p = (if p < 4 then code_alpha else xs ! (p - 4))"

lemma create_fec_slots:
  assumes "create_fec xs = Inr cs"
  shows "cs = concat (map (\<lambda>p. [copy_slot xs p, main_slot xs p]) [0..<length xs + 4])"
proof -
  let ?n = "length xs"
  have n: "2 \<le> ?n" using assms by (auto simp: create_fec_def Let_def split: if_splits)
  have upt: "[0..<?n + 4] = [0, 1] @ map (\<lambda>i. i + 2) [0..<?n] @ [?n + 2, ?n + 3]"
    by (rule nth_equalityI) (auto simp: nth_append nth_Cons split: nat.splits)
  have mid: "map (\<lambda>i. [copy_slot xs (i + 2), main_slot xs (i + 2)]) [0..<?n] =
    map (\<lambda>i. [xs ! i, if 2 \<le> i then xs ! (i - 2) else code_alpha]) [0..<?n]"
    by (auto simp: copy_slot_def main_slot_def)
  have "cs = [code_rep, code_alpha, code_rep, code_alpha] @
     concat (map (\<lambda>i. [xs ! i, if 2 \<le> i then xs ! (i - 2) else code_alpha]) [0..<?n]) @
     [code_char32, xs ! (?n - 2), code_char32, xs ! (?n - 1)]"
    using assms n by (auto simp: create_fec_def Let_def numeral_2_eq_2 upt_rec split: if_splits)
  moreover have "copy_slot xs 0 = code_rep" "copy_slot xs 1 = code_rep" "main_slot xs 0 = code_alpha" "main_slot xs 1 = code_alpha"
    "copy_slot xs (?n + 2) = code_char32" "copy_slot xs (?n + 3) = code_char32"
    "main_slot xs (?n + 2) = xs ! (?n - 2)" "main_slot xs (?n + 3) = xs ! (?n - 1)"
    using n by (auto simp: copy_slot_def main_slot_def)
  ultimately show ?thesis
    by (simp only: upt mid [symmetric] comp_def map_append concat_append map_map list.map concat.simps append_Cons append_Nil)
qed

lemma main_codes_fec:
  assumes "create_fec xs = Inr cs" "\<forall>x \<in> set xs. check_bits x \<and> x \<noteq> code_rep \<and> x \<noteq> code_alpha"
  shows "fec_word cs" "main_codes cs = replicate 4 code_alpha @ xs"
proof -
  let ?n = "length xs + 4"
  note cs = create_fec_slots [OF assms(1)]
  have len: "length cs = 2 * ?n" unfolding cs by (rule concat_pairs)
  have at: "cs ! (2 * p) = copy_slot xs p" "cs ! (2 * p + 1) = main_slot xs p" if "p < ?n" for p
    unfolding cs using that by (rule concat_pairs(2), rule concat_pairs(3))
  have main: "check_bits (main_slot xs p)" "main_slot xs p \<noteq> code_rep"
    "2 \<le> p \<Longrightarrow> copy_slot xs (p - 2) = (if main_slot xs p = code_alpha then code_rep else main_slot xs p)"
    if "p < ?n" for p
    using that assms(2) check_bits_special by (auto simp: special_codes main_slot_def copy_slot_def)
  show "fec_word cs"
    unfolding fec_word_def
  proof (intro conjI allI impI)
    fix j assume j: "j < length cs" "odd j"
    then obtain p where p: "j = 2 * p + 1" "p < ?n" using len by (auto elim: oddE)
    show "check_bits (cs ! j)" "cs ! j \<noteq> code_rep" using main p at by simp_all
    assume "5 \<le> j"
    then have "j - 5 = 2 * (p - 2)" "2 \<le> p" using p by simp_all
    then show "cs ! (j - 5) = (if cs ! j = code_alpha then code_rep else cs ! j)"
      using main [of p] at [of p] at [of "p - 2"] p by simp
  qed (simp add: len)
  show "main_codes cs = replicate 4 code_alpha @ xs"
    by (rule nth_equalityI) (use at in \<open>auto simp: main_codes_def len main_slot_def nth_append\<close>)
qed


section \<open>Messages\<close>

text \<open>What the receiver's window shows of a text.\<close>

definition printed :: "string \<Rightarrow> string" where
  "printed str = concat (map (\<lambda>c. if c = CHR 0x07 then [CHR 0x27]
     else if c = CHR 0x0D \<or> (of_char c :: nat) = code_alpha \<or> (of_char c :: nat) = code_rep then [] else [c]) str)"

abbreviation read_text :: "string \<Rightarrow> navtex \<Rightarrow> navtex" where
  "read_text str s \<equiv> foldl (\<lambda>v c. read_char c v) s str"

text \<open>Neither the mark that opens a message nor the one that closes it.\<close>

definition no_mark :: "string \<Rightarrow> bool" where
  "no_mark b \<longleftrightarrow> \<not> sublist ''ZCZC '' b \<and> \<not> sublist ''NNNN'' b"

lemma sublist_separator: "c \<notin> set p \<Longrightarrow> p \<noteq> [] \<Longrightarrow> sublist p (xs @ c # ys) \<longleftrightarrow> sublist p xs \<or> sublist p ys"
proof
  assume c: "c \<notin> set p" "p \<noteq> []" and "sublist p (xs @ c # ys)"
  then consider "sublist p xs" | "sublist p (c # ys)"
    | p1 p2 where "p = p1 @ p2" "p2 \<noteq> []" "prefix p2 (c # ys)"
    unfolding sublist_append by (metis append_Nil2 prefix_imp_sublist self_append_conv sublist_order.order_refl suffix_imp_sublist)
  then show "sublist p xs \<or> sublist p ys"
  proof cases
    case 2
    then obtain us vs where "us @ p @ vs = c # ys" by (auto simp: sublist_def)
    then show ?thesis using c by (cases us; cases p) (auto simp: sublist_def)
  next
    case 3
    then show ?thesis using c by (cases p2) auto
  qed blast
qed (auto simp: sublist_append sublist_Cons_right)

lemma no_mark_separator:
  "c \<in> {CHR 0x0A, CHR 0x0D} \<Longrightarrow> no_mark (xs @ c # ys) \<longleftrightarrow> no_mark xs \<and> no_mark ys"
  by (auto simp: no_mark_def sublist_separator)

lemma no_mark_prefix: "no_mark (xs @ ys) \<Longrightarrow> no_mark xs"
  by (auto simp: no_mark_def sublist_append)

lemma filter_print_appends: "filter_print c s = s\<lparr>rx_chars := rx_chars s @ printed [c]\<rparr>"
  by (simp add: filter_print_def printed_def navtex_put_rx_char_def)

lemma read_char_plain:
  assumes "\<not> only_sitor_b s" "\<not> (header_len \<le> length b \<and> is_header (drop (length b - header_len) b))"
    "drop (length b - 4) b \<noteq> ''NNNN''" "b = body (curr_msg s) @ [c]"
  shows "read_char c s = s\<lparr>rx_chars := rx_chars s @ printed [c], curr_msg := (curr_msg s)\<lparr>body := b\<rparr>\<rparr>"
proof -
  have "detect_header ((curr_msg s)\<lparr>body := b\<rparr>) = (None, (curr_msg s)\<lparr>body := b\<rparr>)"
    unfolding detect_header_def Let_def using assms(2) by simp
  moreover have "detect_end ((curr_msg s)\<lparr>body := b\<rparr>) = (False, (curr_msg s)\<lparr>body := b\<rparr>)"
    unfolding detect_end_def Let_def using assms(3) by simp
  ultimately show ?thesis
    using assms(1) by (simp add: read_char_def process_messages_def filter_print_appends assms(4) [symmetric])
qed

lemma mark_at_end:
  assumes "no_mark b"
  shows "\<not> (header_len \<le> length b \<and> is_header (drop (length b - header_len) b))" "drop (length b - 4) b \<noteq> ''NNNN''"
proof -
  have "sublist (drop n b) b" for n by (metis append_take_drop_id sublist_appendI append_Nil2)
  moreover have "sublist (take 5 (drop n b)) b" for n by (meson sublist_drop sublist_order.order_trans sublist_take)
  ultimately show "\<not> (header_len \<le> length b \<and> is_header (drop (length b - header_len) b))" "drop (length b - 4) b \<noteq> ''NNNN''"
    using assms unfolding no_mark_def is_header_def by metis+
qed

lemma read_text_collects:
  assumes "no_mark (body (curr_msg s) @ str)" "\<not> only_sitor_b s"
  shows "read_text str s = s\<lparr>rx_chars := rx_chars s @ printed str, curr_msg := (curr_msg s)\<lparr>body := body (curr_msg s) @ str\<rparr>\<rparr>"
  using assms
proof (induction str arbitrary: s)
  case (Cons c str)
  have "no_mark (body (curr_msg s) @ [c])" using no_mark_prefix [of "body (curr_msg s) @ [c]" str] Cons.prems(1) by simp
  note read_char_plain [OF Cons.prems(2) mark_at_end [OF this] refl]
  moreover have "printed (c # str) = printed [c] @ printed str" by (simp add: printed_def)
  ultimately show ?case using Cons.prems by (simp add: Cons.IH)
qed (simp add: printed_def)

text \<open>Characters that end neither mark are collected whatever came before.\<close>

lemma read_text_inside:
  assumes "\<forall>c \<in> set str. c \<notin> {CHR 0x0A, CHR 0x0D, CHR 0x00, CHR ''N''}" "\<not> only_sitor_b s"
  shows "read_text str s = s\<lparr>rx_chars := rx_chars s @ printed str, curr_msg := (curr_msg s)\<lparr>body := body (curr_msg s) @ str\<rparr>\<rparr>"
  using assms
proof (induction str arbitrary: s)
  case (Cons c str)
  let ?b = "body (curr_msg s) @ [c]"
  have h: "\<not> (header_len \<le> length ?b \<and> is_header (drop (length ?b - header_len) ?b))"
  proof
    assume "header_len \<le> length ?b \<and> is_header (drop (length ?b - header_len) ?b)"
    then have "drop (length ?b - header_len) ?b ! 9 \<in> {CHR 0x0A, CHR 0x0D, CHR 0x00}" "header_len \<le> length ?b"
      unfolding is_header_def by blast+
    moreover from this have "drop (length ?b - header_len) ?b ! 9 = c"
      by (simp add: header_len_def nth_append del: drop_append)
    ultimately show False using Cons.prems(1) by simp
  qed
  have e: "drop (length ?b - 4) ?b \<noteq> ''NNNN''"
  proof
    assume *: "drop (length ?b - 4) ?b = ''NNNN''"
    then have "List.last ?b = CHR ''N''" by (metis append_take_drop_id last.simps last_appendR list.distinct(1))
    then show False using Cons.prems(1) by simp
  qed
  have "printed (c # str) = printed [c] @ printed str" by (simp add: printed_def)
  with read_char_plain [OF Cons.prems(2) h e refl] show ?case using Cons.prems by (simp add: Cons.IH)
qed (simp add: printed_def)

lemma is_digit_not_end: "is_digit c \<Longrightarrow> c \<notin> {CHR 0x0A, CHR 0x0D, CHR 0x00, CHR ''N''}"
  by (auto simp: is_digit_def)

text \<open>Only blanks and line ends since the last message.\<close>

definition between_messages :: "navtex \<Rightarrow> bool" where
  "between_messages s \<longleftrightarrow> \<not> only_sitor_b s \<and> \<not> header_found s \<and>
     (\<forall>c \<in> set (body (curr_msg s)). c \<in> {CHR 0x0A, CHR 0x0D, CHR '' '', CHR 0x09})"

lemma cleanup_blank: "\<forall>c \<in> set b. c \<in> {CHR 0x0A, CHR 0x0D, CHR '' '', CHR 0x09} \<Longrightarrow> cleanup_loop d w x b = []"
  by (induction b arbitrary: d w x) auto

lemma read_header:
  assumes "between_messages s" "is_digit d1" "is_digit d2"
  obtains m where "read_text (''ZCZC ZI'' @ [d1, d2, CHR 0x0D]) s =
    s\<lparr>rx_chars := rx_chars s @ printed (''ZCZC ZI'' @ [d1, d2, CHR 0x0D]), curr_msg := m, header_found := True,
      message_time := time_sec s\<rparr>" "body m = []"
proof -
  have s: "\<not> only_sitor_b s" "\<not> header_found s"
    "\<forall>c \<in> set (body (curr_msg s)). c \<in> {CHR 0x0A, CHR 0x0D, CHR '' '', CHR 0x09}"
    using assms(1) by (auto simp: between_messages_def)
  let ?h = "''ZCZC ZI'' @ [d1, d2]" and ?b = "body (curr_msg s)"
  let ?t = "s\<lparr>rx_chars := rx_chars s @ printed ?h, curr_msg := (curr_msg s)\<lparr>body := ?b @ ?h\<rparr>\<rparr>"
  have "\<forall>c \<in> set ?h. c \<notin> {CHR 0x0A, CHR 0x0D, CHR 0x00, CHR ''N''}"
    using is_digit_not_end [OF assms(2)] is_digit_not_end [OF assms(3)] by simp
  note first = read_text_inside [OF this s(1)]
  let ?full = "?b @ ?h @ [CHR 0x0D]"
  have last10: "drop (length ?full - header_len) ?full = ?h @ [CHR 0x0D]" "header_len \<le> length ?full"
    "take (length ?full - header_len) ?full = ?b"
    by (simp_all add: header_len_def)
  have "is_header (?h @ [CHR 0x0D])" using assms(2,3) by (simp add: is_header_def is_alnum_def)
  then obtain m where m: "detect_header ((curr_msg s)\<lparr>body := ?full\<rparr>) =
      (Some (ccir_message_new ?b (m_origin (curr_msg s)) (m_subject (curr_msg s)) (m_number (curr_msg s))), m)" "body m = []"
    using last10 by (simp add: detect_header_def Let_def)
  have empty: "body (ccir_message_new ?b (m_origin (curr_msg s)) (m_subject (curr_msg s)) (m_number (curr_msg s))) = []"
    using cleanup_blank [OF s(3)] by (simp add: ccir_message_new_def cleanup_def)
  have "read_char (CHR 0x0D) ?t = ?t\<lparr>rx_chars := rx_chars ?t @ printed [CHR 0x0D], curr_msg := m, header_found := True,
      message_time := time_sec s\<rparr>"
    using s m empty by (simp add: read_char_def process_messages_def filter_print_appends Let_def)
  moreover have "printed (?h @ [CHR 0x0D]) = printed ?h @ printed [CHR 0x0D]" by (simp add: printed_def)
  moreover have "read_text (?h @ [CHR 0x0D]) s = read_char (CHR 0x0D) (read_text ?h s)" by simp
  then have "read_text (?h @ [CHR 0x0D]) s = read_char (CHR 0x0D) ?t" by (simp only: first)
  ultimately show thesis using m(2) by (intro that [of m]) simp_all
qed

definition message_of :: "string \<Rightarrow> string" where
  "message_of str = [CHR 0x0A] @ str @ [CHR 0x0D, CHR 0x0A]"

lemma no_mark_message: "no_mark str \<Longrightarrow> no_mark (message_of str @ ''NNN'')"
  using no_mark_separator [of "CHR 0x0A" "[]" "str @ [CHR 0x0D, CHR 0x0A] @ ''NNN''"]
    no_mark_separator [of "CHR 0x0D" str "[CHR 0x0A] @ ''NNN''"] no_mark_separator [of "CHR 0x0A" "[]" "''NNN''"]
  by (simp add: message_of_def) (simp add: no_mark_def sublist_code)

lemma read_trailer:
  assumes "\<not> only_sitor_b s" "header_found s" "body (curr_msg s) = []" "no_mark str"
  shows "read_text (message_of str @ ''NNNN'' @ [CHR 0x0D, CHR 0x0A, CHR 0x0A]) s =
    s\<lparr>rx_chars := rx_chars s @ printed (message_of str @ ''NNNN'' @ [CHR 0x0D, CHR 0x0A, CHR 0x0A]),
      received := received s @ (if min_size s \<le> length (message_of str) then [message_of str] else []),
      curr_msg := init_members\<lparr>body := [CHR 0x0D, CHR 0x0A, CHR 0x0A]\<rparr>, header_found := False,
      message_time := time_sec s\<rparr>"
proof -
  let ?m = "message_of str"
  have "no_mark (body (curr_msg s) @ ?m @ ''NNN'')" using no_mark_message [OF assms(4)] assms(3) by simp
  note first = read_text_collects [OF this assms(1)]
  let ?t = "s\<lparr>rx_chars := rx_chars s @ printed (?m @ ''NNN''), curr_msg := (curr_msg s)\<lparr>body := ?m @ ''NNN''\<rparr>\<rparr>"
  let ?u = "s\<lparr>rx_chars := rx_chars s @ printed (?m @ ''NNNN''),
      received := received s @ (if min_size s \<le> length ?m then [?m] else []),
      curr_msg := init_members, header_found := False, message_time := time_sec s\<rparr>"
  let ?full = "?m @ ''NNNN''"
  have "\<not> is_header (drop (length ?full - header_len) ?full)" if "header_len \<le> length ?full"
  proof
    assume "is_header (drop (length ?full - header_len) ?full)"
    then have "drop (length ?full - header_len) ?full ! 9 \<in> {CHR 0x0A, CHR 0x0D, CHR 0x00}"
      unfolding is_header_def by blast
    moreover from that have "drop (length ?full - header_len) ?full ! 9 = CHR ''N''"
      by (simp add: header_len_def nth_append del: drop_append)
    ultimately show False by simp
  qed
  then have h: "detect_header ((curr_msg s)\<lparr>body := ?full\<rparr>) = (None, (curr_msg s)\<lparr>body := ?full\<rparr>)"
    unfolding detect_header_def Let_def by simp
  have e: "detect_end ((curr_msg s)\<lparr>body := ?full\<rparr>) = (True, (curr_msg s)\<lparr>body := ?m\<rparr>)"
    by (simp add: detect_end_def Let_def)
  have snoc: "printed (?m @ ''NNNN'') = printed (?m @ ''NNN'') @ printed ''N''" by (simp add: printed_def)
  have "read_char (CHR ''N'') ?t = ?u"
    using assms(1,2) h e snoc
    by (simp add: read_char_def process_messages_def filter_print_appends Let_def flush_message_def display_message_def)
  moreover have "read_text (?m @ ''NNNN'') s = read_char (CHR ''N'') ?t"
    using first assms(3) by (simp add: foldl_append [of _ _ "?m @ ''NNN''" "''N''", simplified])
  moreover have "no_mark (body (curr_msg ?u) @ [CHR 0x0D, CHR 0x0A, CHR 0x0A])" by (simp add: init_members_def no_mark_def sublist_code)
  note read_text_collects [OF this]
  ultimately have "read_text ((?m @ ''NNNN'') @ [CHR 0x0D, CHR 0x0A, CHR 0x0A]) s =
    ?u\<lparr>rx_chars := rx_chars ?u @ printed [CHR 0x0D, CHR 0x0A, CHR 0x0A],
       curr_msg := init_members\<lparr>body := [CHR 0x0D, CHR 0x0A, CHR 0x0A]\<rparr>\<rparr>"
    using assms(1) by (simp only: foldl_append) (simp add: init_members_def)
  moreover have "printed (?m @ ''NNNN'' @ [CHR 0x0D, CHR 0x0A, CHR 0x0A]) = printed (?m @ ''NNNN'') @ printed [CHR 0x0D, CHR 0x0A, CHR 0x0A]"
    by (simp add: printed_def)
  ultimately show ?thesis by simp
qed

section \<open>From text to text\<close>

definition intact :: "nat \<Rightarrow> int list \<Rightarrow> bool" where
  "intact c g \<longleftrightarrow> map (\<lambda>x. 0 < x) g = navtex_code_bits c"

text \<open>The bit values that arrive for the codes sent, in groups of seven: each character that counts
  is intact, or it has a wrong number of ones and its copy, five characters earlier, is intact.
  Nothing is asked of the copies of intact characters.\<close>

definition received_as :: "nat list \<Rightarrow> int list list \<Rightarrow> bool" where
  "received_as cs gs \<longleftrightarrow> length gs = length cs \<and> (\<forall>g \<in> set gs. length g = 7) \<and>
     (\<forall>j < length cs. odd j \<longrightarrow> intact (cs ! j) (gs ! j) \<or>
        5 \<le> j \<and> \<not> valid_char_at (gs ! j) \<and> intact (cs ! (j - 5)) (gs ! (j - 5)))"

lemma bit_bytes_to_code: "bit (bytes_to_code g) n \<longleftrightarrow> n < 7 \<and> 0 < g ! n"
proof -
  have "bit (foldl (\<lambda>code i. code OR push_bit i (of_bool (g ! i > 0))) a [0..<m]) n \<longleftrightarrow> bit a n \<or> n < m \<and> 0 < g ! n" for a m :: nat
    by (induction m) (auto simp: bit_or_iff bit_push_bit_iff_nat less_Suc_eq bit_of_bool_iff)
  then show ?thesis by (simp add: bytes_to_code_def)
qed

lemma intact_code:
  assumes "intact c g" "c < 128"
  shows "bytes_to_code g = c"
proof (rule bit_eqI)
  fix n
  have len: "length g = 7" using arg_cong [OF assms(1) [unfolded intact_def], of length] by (simp add: navtex_code_bits_def)
  have high: "\<not> bit c n" if "7 \<le> n"
  proof -
    have "take_bit 7 c = c" using assms(2) by (simp add: take_bit_nat_eq_self_iff)
    then show ?thesis using that by (metis bit_take_bit_iff not_less)
  qed
  have "0 < g ! n \<longleftrightarrow> bit c n" if "n < 7"
    using arg_cong [OF assms(1) [unfolded intact_def], of "\<lambda>xs. xs ! n"] that len
    by (simp add: navtex_code_bits_def bit_iff_odd_drop_bit and_one_eq odd_iff_mod_2_eq_one)
  with high show "bit (bytes_to_code g) n \<longleftrightarrow> bit c n" by (cases "n < 7") (auto simp: bit_bytes_to_code)
qed

text \<open>Counting by clearing the lowest bit counts the bits, so the two tests of a character agree.\<close>

lemma count_bits_double: "count_bits (2 * v) bc = count_bits v bc"
proof (induction v bc rule: count_bits.induct)
  case (1 v bc)
  show ?case
  proof (cases "v = 0")
    case False
    then obtain k where k: "v = Suc k" by (cases v) auto
    have "2 * v AND (2 * v - 1) = 2 * (v AND (v - 1))"
    proof (rule bit_eqI)
      fix n
      show "bit (2 * v AND (2 * v - 1)) n \<longleftrightarrow> bit (2 * (v AND (v - 1))) n"
      proof (cases n)
        case (Suc m)
        have "bit (2 * (v AND (v - 1))) n \<longleftrightarrow> bit v m \<and> bit (v - 1) m" by (simp add: Suc bit_Suc bit_and_iff)
        then show ?thesis unfolding bit_and_iff by (simp add: Suc k bit_Suc)
      next
        case 0
        show ?thesis unfolding bit_and_iff 0 by (simp add: bit_0)
      qed
    qed
    with False 1 show ?thesis by (simp add: count_bits.simps [of "2 * v"] count_bits.simps [of v] del: One_nat_def)
  qed simp
qed

lemma count_bits_odd: "count_bits (Suc (2 * v)) bc = count_bits v (bc + 1)"
proof -
  have "Suc (2 * v) AND 2 * v = 2 * v" 
  proof (rule bit_eqI)
    fix n
    show "bit (Suc (2 * v) AND 2 * v) n \<longleftrightarrow> bit (2 * v) n"
      unfolding bit_and_iff by (cases n) (simp_all add: bit_Suc bit_0)
  qed
  then show ?thesis by (simp add: count_bits.simps [of "Suc (2 * v)"] count_bits_double)
qed

lemma count_bits_ones: "v < 2 ^ n \<Longrightarrow> count_bits v bc = bc + length (filter (bit v) [0..<n])"
proof (induction n arbitrary: v bc)
  case (Suc n)
  have "filter (bit v) [0..<Suc n] = (if odd v then [0] else []) @ map Suc (filter (bit (v div 2)) [0..<n])"
    by (simp add: upt_conv_Cons map_Suc_upt [symmetric] filter_map comp_def bit_Suc bit_0 del: upt_Suc)
  moreover have "v div 2 < 2 ^ n" using Suc.prems by simp
  note Suc.IH [OF this]
  moreover have "count_bits v bc = count_bits (v div 2) (bc + (if odd v then 1 else 0))"
    by (cases "odd v") (auto elim!: oddE evenE simp: count_bits_double count_bits_odd)
  ultimately show ?case by simp
qed (simp add: count_bits.simps)

lemma check_bits_ones:
  assumes "length g = 7"
  shows "check_bits (bytes_to_code g) \<longleftrightarrow> valid_char_at g"
proof -
  have "bytes_to_code g < 2 ^ 7"
    by (metis bit_bytes_to_code bit_take_bit_iff bit_eqI take_bit_nat_less_exp)
  note count_bits_ones [OF this, of 0]
  moreover have "filter (bit (bytes_to_code g)) [0..<7] = filter (\<lambda>i. 0 < g ! i) [0..<7]"
    by (auto simp: bit_bytes_to_code intro: filter_cong)
  moreover have "g = map ((!) g) [0..<7]" by (rule nth_equalityI) (use assms in auto)
  then have "filter (\<lambda>x. 0 < x) g = map ((!) g) (filter (\<lambda>i. 0 < g ! i) [0..<7])"
    by (metis (no_types, lifting) comp_apply filter_cong filter_map)
  ultimately show ?thesis using assms by (simp add: check_bits_def valid_char_at_def)
qed

lemma received_arrives:
  assumes "received_as cs gs" "\<forall>c \<in> set cs. c < 128"
  shows "arrives cs gs"
  using assms unfolding received_as_def arrives_def
  by (metis check_bits_ones intact_code less_imp_diff_less nth_mem)

text \<open>The codes of a text: all of them have four ones and none is an idle code.\<close>

lemma char_to_code_good:
  assumes "char_to_code c sh = Inr (codes, sh')"
  shows "\<forall>x \<in> set codes. check_bits x \<and> x \<noteq> code_rep \<and> x \<noteq> code_alpha \<and> x < 128"
proof -
  let ?ch = "of_char (toupper_char c) :: nat"
  have low: "?ch < 128" using assms by (simp add: char_to_code_def Let_def split: if_splits)
  have good: "check_bits x \<and> x \<noteq> code_rep \<and> x \<noteq> code_alpha \<and> x < 128"
    if x: "x = ltrs_to_code ! ?ch \<and> x \<noteq> 0 \<or> x = figs_to_code ! ?ch \<and> x \<noteq> 0 \<or> x = code_ltrs \<or> x = code_figs" for x
  proof -
    consider "x = ltrs_to_code ! ?ch" "x \<noteq> 0" | "x = figs_to_code ! ?ch" "x \<noteq> 0" | "x = code_ltrs \<or> x = code_figs"
      using x by blast
    then show ?thesis
    proof cases
      case 1
      then show ?thesis using inverts_nth [OF ltrs_inverts low] code_found(1) [OF ltrs_inverts low, of False]
        by (auto simp: special_def)
    next
      case 2
      then show ?thesis using inverts_nth [OF figs_inverts low] code_found(1) [OF figs_inverts low, of True]
        by (auto simp: special_def)
    next
      case 3
      then show ?thesis using check_bits_special by (auto simp: special_codes)
    qed
  qed
  show ?thesis
  proof (rule ballI, rule good)
    fix x assume "x \<in> set codes"
    then show "x = ltrs_to_code ! ?ch \<and> x \<noteq> 0 \<or> x = figs_to_code ! ?ch \<and> x \<noteq> 0 \<or> x = code_ltrs \<or> x = code_figs"
      using assms by (auto simp: char_to_code_def Let_def split: if_splits)
  qed
qed

lemma encode_good: "navtex_encode_loop str sh = Inr codes \<Longrightarrow>
  \<forall>x \<in> set codes. check_bits x \<and> x \<noteq> code_rep \<and> x \<noteq> code_alpha \<and> x < 128"
proof (induction str arbitrary: sh codes)
  case (Cons c str)
  then obtain cs sh' ds where *: "char_to_code c sh = Inr (cs, sh')" "navtex_encode_loop str sh' = Inr ds" "codes = cs @ ds"
    by (auto simp: andthen_Inr_iff)
  from char_to_code_good [OF *(1)] Cons.IH [OF *(2)] *(3) show ?case by auto
qed simp

lemma create_fec_low:
  assumes "create_fec xs = Inr cs" "\<forall>x \<in> set xs. x < 128"
  shows "\<forall>c \<in> set cs. c < 128"
proof -
  have "copy_slot xs p < 128" "main_slot xs p < 128" if "p < length xs + 4" for p
    using that assms(2) by (auto simp: copy_slot_def main_slot_def special_codes)
  with create_fec_slots [OF assms(1)] show ?thesis by auto
qed

lemma string_received:
  assumes "navtex_encode str = Inr xs" "create_fec xs = Inr cs" "waiting code_alpha r" "\<not> shift r" "received_as cs gs"
  shows "\<exists>r'. rx_bits (concat gs @ [b]) r = Inr r' \<and> (essence r')\<lparr>shift := False\<rparr> = read_text (understood str) (essence r)"
proof -
  note good = encode_good [OF assms(1) [unfolded navtex_encode_def]]
  have fec: "fec_word cs" "main_codes cs = replicate 4 code_alpha @ xs"
    using main_codes_fec [OF assms(2)] good by simp_all
  have "arrives cs gs" using received_arrives [OF assms(5)] create_fec_low [OF assms(2)] good by simp
  from transmission_read [OF assms(3) fec(1) this]
  obtain r' where r': "rx_bits (concat gs @ [b]) r = Inr r'"
    "essence r' = read_codes (replicate 4 code_alpha @ xs) (read_code code_alpha (essence r))"
    unfolding fec(2) by blast
  then have "essence r' = read_codes xs (essence r)"
    by (simp add: read_code_special numeral_eq_Suc)
  with r'(1) read_codes_encode [OF assms(1), of "essence r"] assms(4) show ?thesis by simp
qed

lemma read_text_rx_chars: "rx_chars (read_text str s) = rx_chars s @ printed str"
proof -
  have one: "rx_chars (read_char c s) = rx_chars s @ printed [c]" for c s
    by (simp add: read_char_def filter_print_appends process_messages_def flush_message_def display_message_def Let_def
          split: option.split prod.split)
  show ?thesis
    by (induction str arbitrary: s) (simp_all add: one printed_def)
qed

lemma sendableI:
  assumes "code < 128" "check_bits code" "toupper_char c \<noteq> CHR ''_''"
    "code_to_ltrs ! code = toupper_char c \<or> code_to_figs ! code = toupper_char c"
  shows "sendable c"
  using assms ltrs_inverts figs_inverts check_bits_pos [OF assms(2)] unfolding inverts_def sendable_def Let_def
  by (metis atLeast0LessThan gr_implies_not0 lessThan_iff)

text \<open>The characters of the frame of a message, with the code of each.\<close>

lemma frame_codes:
  "list_all (\<lambda>(c, code). code < 128 \<and> check_bits code \<and> code_to_ltrs ! code = c \<and> toupper_char c = c \<and> c \<noteq> CHR ''_'')
     [(CHR ''Z'', 0x63), (CHR ''C'', 0x1d), (CHR ''I'', 0x4d), (CHR ''N'', 0x59), (CHR '' '', 0x5c), (CHR 0x0A, 0x6c), (CHR 0x0D, 0x78)]"
  by (simp add: check_bits_def count_bits.simps code_to_ltrs_def toupper_char_def)

lemma digit_codes:
  "list_all (\<lambda>(c, code). code < 128 \<and> check_bits code \<and> code_to_figs ! code = c \<and> toupper_char c = c \<and> c \<noteq> CHR ''_'')
     [(CHR ''0'', 0x2d), (CHR ''1'', 0x2e), (CHR ''2'', 0x27), (CHR ''3'', 0x56), (CHR ''4'', 0x55), (CHR ''5'', 0x74), (CHR ''6'', 0x2b), (CHR ''7'', 0x4e), (CHR ''8'', 0x4d), (CHR ''9'', 0x71)]"
  by (simp add: check_bits_def count_bits.simps code_to_figs_def toupper_char_def)

lemma sendable_codes:
  assumes "list_all (\<lambda>(c, code). code < 128 \<and> check_bits code \<and> table ! code = c \<and> toupper_char c = c \<and> c \<noteq> CHR ''_'') kvs"
    and "table = code_to_ltrs \<or> table = code_to_figs"
  shows "\<forall>c \<in> fst ` set kvs. sendable c \<and> toupper_char c = c"
proof (intro ballI)
  fix c assume "c \<in> fst ` set kvs"
  then obtain code where "(c, code) \<in> set kvs" by auto
  with assms(1) have "code < 128" "check_bits code" "table ! code = c" "toupper_char c = c" "c \<noteq> CHR ''_''"
    by (auto simp: list_all_iff)
  with assms(2) show "sendable c \<and> toupper_char c = c" by (auto intro: sendableI)
qed

lemma sendable_frame: "\<forall>c \<in> set (''ZCIN '' @ [CHR 0x0A, CHR 0x0D]). sendable c \<and> toupper_char c = c"
  using sendable_codes [OF frame_codes] by simp

lemma sendable_digit: "is_digit c \<Longrightarrow> sendable c \<and> toupper_char c = c"
proof -
  assume "is_digit c"
  then have "(of_char c :: nat) \<in> {48, 49, 50, 51, 52, 53, 54, 55, 56, 57}" by (simp add: is_digit_def) presburger
  then have "(of_char c :: nat) \<in> of_char ` set ''0123456789''" by simp
  then have "c \<in> set ''0123456789''" by (metis imageE of_char_eq_iff)
  with sendable_codes [OF digit_codes] show ?thesis by auto
qed

lemma understood_append [simp]: "understood (xs @ ys) = understood xs @ understood ys"
  by (simp add: understood_def)

lemma understood_id: "\<forall>c \<in> set str. sendable c \<and> toupper_char c = c \<Longrightarrow> understood str = str"
  by (induction str) (simp_all add: understood_def)

lemma preamble_form:
  assumes "n < 100"
  obtains d1 d2 where "preamble n = ''ZCZC ZI'' @ [d1, d2] @ [CHR 0x0D, CHR 0x0A]" "is_digit d1" "is_digit d2"
proof -
  let ?d = "(if n < 10 then ''0'' else '''') @ show_nat n"
  have "n div 10 < 10" using assms by simp
  then have "length ?d = 2" by (simp add: show_nat.simps [of n] show_nat.simps [of "n div 10"])
  moreover have "length ds = 2 \<Longrightarrow> \<exists>d1 d2. ds = [d1, d2]" for ds :: string
    by (auto simp: numeral_2_eq_2 length_Suc_conv)
  ultimately obtain d1 d2 where "?d = [d1, d2]" by blast
  moreover have "\<forall>c \<in> set ?d. is_digit c" using show_nat_digits by (auto simp: is_digit_def)
  ultimately show thesis by (intro that [of d1 d2]) (auto simp: preamble_def)
qed

lemma understood_message:
  assumes "n < 100"
  shows "understood (preamble n @ str @ trailer) = preamble n @ understood str @ trailer"
proof -
  obtain d1 d2 where p: "preamble n = ''ZCZC ZI'' @ [d1, d2] @ [CHR 0x0D, CHR 0x0A]" "is_digit d1" "is_digit d2"
    by (rule preamble_form [OF assms])
  have "understood (preamble n) = preamble n"
    by (rule understood_id) (use sendable_frame sendable_digit p in auto)
  moreover have "understood trailer = trailer"
    by (rule understood_id) (use sendable_frame in \<open>auto simp: trailer_def\<close>)
  ultimately show ?thesis by simp
qed

lemma read_message:
  assumes "n < 100" "between_messages s" "no_mark str"
  shows "between_messages (read_text (preamble n @ str @ trailer) s)"
    "received (read_text (preamble n @ str @ trailer) s) =
       received s @ (if min_size s \<le> length (message_of str) then [message_of str] else [])"
proof -
  obtain d1 d2 where p: "preamble n = ''ZCZC ZI'' @ [d1, d2] @ [CHR 0x0D, CHR 0x0A]" "is_digit d1" "is_digit d2"
    by (rule preamble_form [OF assms(1)])
  obtain m where m: "read_text (''ZCZC ZI'' @ [d1, d2, CHR 0x0D]) s =
      s\<lparr>rx_chars := rx_chars s @ printed (''ZCZC ZI'' @ [d1, d2, CHR 0x0D]), curr_msg := m, header_found := True,
        message_time := time_sec s\<rparr>" (is "_ = ?t") "body m = []"
    by (rule read_header [OF assms(2) p(2,3)])
  have t: "\<not> only_sitor_b ?t" "header_found ?t" "body (curr_msg ?t) = []" using assms(2) m(2) by (simp_all add: between_messages_def)
  have "preamble n @ str @ trailer =
      (''ZCZC ZI'' @ [d1, d2, CHR 0x0D]) @ (message_of str @ ''NNNN'' @ [CHR 0x0D, CHR 0x0A, CHR 0x0A])"
    by (simp add: p(1) message_of_def trailer_def)
  then have *: "read_text (preamble n @ str @ trailer) s = read_text (message_of str @ ''NNNN'' @ [CHR 0x0D, CHR 0x0A, CHR 0x0A]) ?t"
    by (simp only: foldl_append [of _ _ "''ZCZC ZI'' @ [d1, d2, CHR 0x0D]"] m(1))
  note read_trailer [OF t assms(3)]
  then show "received (read_text (preamble n @ str @ trailer) s) =
       received s @ (if min_size s \<le> length (message_of str) then [message_of str] else [])"
    "between_messages (read_text (preamble n @ str @ trailer) s)"
    using assms(2) unfolding * by (simp_all add: between_messages_def init_members_def)
qed

lemma between_messages_essence [simp]:
  "between_messages (essence s) = between_messages s" "between_messages (s\<lparr>shift := b\<rparr>) = between_messages s"
  by (simp_all add: between_messages_def)

section \<open>The sender does not fail\<close>

lemma encode_total:
  assumes "\<forall>c \<in> set str. (of_char (toupper_char c) :: nat) < 128"
  shows "\<exists>codes. navtex_encode_loop str sh = Inr codes \<and> length (understood str) \<le> length codes"
  using assms
proof (induction str arbitrary: sh)
  case (Cons c str)
  then have low: "\<not> 128 \<le> (of_char (toupper_char c) :: nat)" by simp
  obtain cs sh' where c: "char_to_code c sh = Inr (cs, sh')" using low by (cases "char_to_code c sh") (auto simp: char_to_code_def Let_def)
  then have len: "length (understood [c]) \<le> length cs"
    using low by (auto simp: char_to_code_def Let_def understood_def sendable_def split: if_splits)
  obtain codes where "navtex_encode_loop str sh' = Inr codes" "length (understood str) \<le> length codes"
    using Cons by (metis list.set_intros(2))
  with c len show ?case using understood_append [of "[c]" str] by simp
qed (simp add: understood_def)

lemma send_string_total:
  assumes "\<forall>c \<in> set str. (of_char (toupper_char c) :: nat) < 128" "2 \<le> length (understood str)"
  shows "\<exists>t'. send_string str t = Inr t'"
  using encode_total [OF assms(1), of False] assms(2) by (auto simp: send_string_def navtex_encode_def create_fec_def Let_def)

lemma send_message_total:
  assumes "\<forall>c \<in> set msg. (of_char (toupper_char c) :: nat) < 128" "message_counter t < 100" "\<not> only_sitor_b t"
  shows "\<exists>t'. send_message msg is_first is_last t = Inr t'"
proof -
  let ?full = "preamble (message_counter t) @ msg @ trailer"
  have ascii: "\<forall>c \<in> set (preamble (message_counter t)) \<union> set trailer. (of_char (toupper_char c) :: nat) < 128"
    using show_nat_digits [of "message_counter t"]
    by (auto simp: preamble_def trailer_def is_digit_def toupper_char_def split: if_splits)
  have "2 \<le> length (understood ?full)"
    unfolding understood_message [OF assms(2)] by (simp add: trailer_def)
  with ascii assms(1) have "\<exists>t'. send_string ?full u = Inr t'" for u by (intro send_string_total) auto
  then show ?thesis using assms(3) unfolding send_message_def Let_def by (auto simp: andthen_Inr_iff)
qed

text \<open>The bit values of an undisturbed character.\<close>

definition clean :: "nat \<Rightarrow> int list" where
  "clean c = map (\<lambda>b. if b then 1 else -1) (navtex_code_bits c)"

lemma received_clean: "received_as cs (map clean cs)"
  by (auto simp: received_as_def intact_def clean_def navtex_code_bits_def)

section \<open>The buffer\<close>

text \<open>Bit values are counts of samples, far below what an \<^verbatim>\<open>int\<close> holds.\<close>

definition small :: "int list \<Rightarrow> bool" where "small v \<longleftrightarrow> (\<forall>x \<in> set v. \<bar>x\<bar> < 2 ^ 30)"

definition buffer_ok :: "navtex \<Rightarrow> bool" where
  "buffer_ok s \<longleftrightarrow> length (bit_values s) = 100 \<and> bit_cursor s \<le> 99 \<and> small (bit_values s)"

text \<open>The receiver is about to average a wrong character with its wrong copy, and the bits of the
  copy make a number that does not fit the buffer.\<close>

definition overrun :: "navtex \<Rightarrow> bool" where
  "overrun s \<longleftrightarrow> state s = READ_DATA \<and> alpha_phase s \<and> 35 \<le> bit_cursor s \<and> bit_cursor s < 93 \<and>
     \<not> check_bits (code_in (bit_cursor s) (bit_values s)) \<and>
     \<not> check_bits (code_in (bit_cursor s - 35) (bit_values s)) \<and> 94 \<le> code_in (bit_cursor s - 35) (bit_values s)"

lemma smallest_bit_found:
  assumes "\<bar>pos ! 0\<bar> < 2 ^ 31 - 1"
  shows "\<exists>i < 7. smallest_bit pos = Some i"
proof -
  let ?f = "\<lambda>(minimum, smallest) i. if \<bar>pos ! i\<bar> < minimum then (\<bar>pos ! i\<bar>, Some i) else (minimum, smallest)"
  have "\<exists>i < 7. snd (foldl ?f (m, Some k) js) = Some i" if "k < 7" "\<forall>j \<in> set js. j < 7" for m k and js :: "nat list"
    using that by (induction js arbitrary: m k) simp_all
  from this [of 0 "[1..<7]" "\<bar>pos ! 0\<bar>"] have "\<exists>i < 7. snd (foldl ?f (\<bar>pos ! 0\<bar>, Some 0) [1..<7]) = Some i"
    by (simp del: upt_rec_numeral foldl.simps)
  moreover have "[0..<7] = 0 # [1..<7]" by (simp add: upt_conv_Cons)
  ultimately show ?thesis using assms by (simp add: smallest_bit_def del: upt_rec_numeral)
qed

lemma flip_smallest_bit_total:
  assumes "length pos = 7" "\<bar>pos ! 0\<bar> < 2 ^ 31 - 1"
  obtains pos' where "flip_smallest_bit pos = Inr pos'" "length pos' = 7" "small pos \<Longrightarrow> small pos'"
proof -
  obtain i where i: "i < 7" "smallest_bit pos = Some i" using smallest_bit_found [OF assms(2)] by blast
  have "small (pos[i := - (pos ! i)])" if "small pos"
    using that i(1) assms(1) by (auto simp: small_def dest!: set_update_subset_insert [THEN subsetD])
  then show thesis using that [of "pos[i := - (pos ! i)]"] i assms(1) by (simp add: flip_smallest_bit_def)
qed

lemma small_part: "small v \<Longrightarrow> small (take n v)" "small v \<Longrightarrow> small (drop n v)"
  by (auto simp: small_def dest: in_set_takeD in_set_dropD)

lemma flip_at_total:
  assumes "p + 7 \<le> length v" "small v"
  obtains v' where "flip_at p v = Inr v'" "length v' = length v" "small v'"
proof -
  let ?pos = "take 7 (drop p v)"
  have l: "length ?pos = 7" using assms(1) by simp
  have s: "small ?pos" using assms(2) small_part by blast
  have "?pos ! 0 \<in> set ?pos" using l by (intro nth_mem) simp
  then have "\<bar>?pos ! 0\<bar> < 2 ^ 30" using s unfolding small_def by blast
  then have "\<bar>?pos ! 0\<bar> < 2 ^ 31 - 1" by simp
  from flip_smallest_bit_total [OF l this] s obtain pos' where
    pos': "flip_smallest_bit ?pos = Inr pos'" "length pos' = 7" "small pos'" by metis
  have "small (take p v @ pos' @ drop (p + 7) v)"
    using pos'(3) small_part [OF assms(2)] unfolding small_def by auto
  then show thesis
    using that [of "take p v @ pos' @ drop (p + 7) v"] pos' assms(1) by (simp add: flip_at_def seven_at_in)
qed

lemma process_char_buffer:
  "bit_values (process_char c s) = bit_values s" "bit_cursor (process_char c s) = bit_cursor s" "state (process_char c s) = state s"
  by simp_all

lemma average_total:
  assumes "length v = 100" "small v" "p < 93"
  shows "average p rep v = Inl BadIndex \<and> 94 \<le> rep \<or>
    (\<exists>avg. average p rep v = Inr avg \<and> length avg = 7 \<and> \<bar>avg ! 0\<bar> < 2 ^ 31 - 1) \<and> rep < 94"
proof (cases "rep < 94")
  case True
  have "v ! p \<in> set v" "v ! rep \<in> set v" using assms(1,3) True by simp_all
  then have "\<bar>v ! p\<bar> < 2 ^ 30" "\<bar>v ! rep\<bar> < 2 ^ 30" using assms(2) unfolding small_def by blast+
  then have "\<bar>v ! p + v ! rep\<bar> < 2 ^ 31 - 1" by (simp add: abs_if split: if_splits)
  then show ?thesis using True assms(1,3) by (simp add: average_def seven_at_in)
qed (use assms(1,3) in \<open>simp add: average_def seven_at_def\<close>)

lemma process_bytes_buffer:
  assumes v: "length (bit_values s) = 100" "small (bit_values s)" and p: "p < 93"
  shows "case process_bytes p s of
     Inl e \<Rightarrow> e = BadIndex \<and> 35 \<le> p \<and> \<not> check_bits (code_in p (bit_values s)) \<and>
       \<not> check_bits (code_in (p - 35) (bit_values s)) \<and> 94 \<le> code_in (p - 35) (bit_values s)
   | Inr (ret, s') \<Rightarrow> length (bit_values s') = 100 \<and> small (bit_values s') \<and> bit_cursor s' = bit_cursor s \<and> state s' = state s \<and>
       \<not> (35 \<le> p \<and> \<not> check_bits (code_in p (bit_values s)) \<and>
         \<not> check_bits (code_in (p - 35) (bit_values s)) \<and> 94 \<le> code_in (p - 35) (bit_values s))"
proof -
  let ?v = "bit_values s" and ?r = "code_in (p - 35) (bit_values s)"
  have at: "code_at q w = Inr (code_in q w)" if "q < 94" "length w = 100" for q w
    using that by (simp add: code_at_in)
  show ?thesis
  proof (cases "check_bits (code_in p ?v) \<or> p < 35 \<or> check_bits ?r \<or> 94 \<le> ?r")
    case True
    then show ?thesis
      using v p average_total [OF v p, of ?r] by (auto simp: process_bytes_def at Let_def)
  next
    case False
    from average_total [OF v p, of ?r] False obtain avg where
      avg: "average p ?r ?v = Inr avg" "length avg = 7" "\<bar>avg ! 0\<bar> < 2 ^ 31 - 1" by auto
    from p v(1) have "p + 7 \<le> length ?v" by simp
    from flip_at_total [OF this v(2)] obtain v1 where v1: "flip_at p ?v = Inr v1" "length v1 = 100" "small v1" using v(1) by metis
    from p v1(2) have "p - 35 + 7 \<le> length v1" by simp
    from flip_at_total [OF this v1(3)] obtain v2 where v2: "flip_at (p - 35) v1 = Inr v2" "length v2 = 100" "small v2"
      using v1(2) by metis
    obtain avg' where "flip_smallest_bit avg = Inr avg'" using flip_smallest_bit_total [OF avg(2,3)] by metis
    then show ?thesis
      using v p False avg v1 v2 by (simp add: process_bytes_def at Let_def)
  qed
qed

lemma score_step_total:
  assumes "35 \<le> i" "i + 7 \<le> length v"
  shows "\<exists>r. score_step v i sr = Inr r"
  using assms by (simp add: score_step_def case_prod_beta seven_at_in code_at_in)

lemma score_loop_total: "35 \<le> i \<Longrightarrow> \<exists>r. score_loop n v i sr = Inr r"
proof (induction n v i sr rule: score_loop.induct)
  case (2 n v i sr)
  show ?case
  proof (cases "i < length v - 7")
    case True
    then have "i + 7 \<le> length v" by simp
    from score_step_total [OF "2.prems" this] obtain r where r: "score_step v i sr = Inr r" by blast
    show ?thesis
    proof (cases r)
      case (Some sr')
      then show ?thesis using 2(1) [OF True, of r sr'] 2(2) True r by auto
    qed (simp add: True r)
  qed simp
qed simp

lemma best_of_total:
  "\<forall>x \<in> set offsets. 35 \<le> x \<and> x < 49 \<Longrightarrow> snd best < 49 \<Longrightarrow> \<exists>r. best_of v offsets best = Inr r \<and> snd r < 49"
proof (induction v offsets best rule: best_of.induct)
  case (2 v offset offsets best)
  obtain score reps where sr: "score_at v offset = Inr (score, reps)"
    using score_loop_total [of offset "length v" v "(0, 0)"] 2 unfolding score_at_def by auto
  show ?case
    using 2(1) [of "(score, reps)" score reps] 2(2,3) sr by auto
qed simp

lemma find_alpha_total: "\<exists>r. find_alpha_characters v = Inr r \<and> (case r of None \<Rightarrow> True | Some p \<Rightarrow> p < 49)"
proof -
  have "\<forall>x \<in> set [35..<35 + 14]. 35 \<le> x \<and> x < (49 :: nat)" by simp
  from best_of_total [OF this, of "(0, 0)" v] show ?thesis
    by (auto simp: find_alpha_characters_def case_prod_beta simp del: upt_rec_numeral)
qed

lemma sync_buffer:
  assumes "buffer_ok s"
  obtains t where "sync s = Inr t" "buffer_ok t"
proof -
  obtain r where r: "find_alpha_characters (bit_values s) = Inr r" "case r of None \<Rightarrow> True | Some p \<Rightarrow> p < 49"
    using find_alpha_total by blast
  then show thesis
    using assms that by (cases r; cases "state s = SYNC") (auto simp: sync_def buffer_ok_def)
qed

lemma store_bit_buffer: "buffer_ok s \<Longrightarrow> \<bar>b\<bar> < 2 ^ 30 \<Longrightarrow> buffer_ok (store_bit b s)"
  by (auto simp: store_bit_def buffer_ok_def small_def dest: in_set_dropD)

lemma read_data_buffer:
  assumes "buffer_ok s"
  shows "if overrun s then read_data s = Inl BadIndex else \<exists>s'. read_data s = Inr s' \<and> buffer_ok s'"
proof (cases "state s = READ_DATA \<and> bit_cursor s < 93")
  case True
  have v: "length (bit_values s) = 100" "small (bit_values s)" using assms by (simp_all add: buffer_ok_def)
  note pb = process_bytes_buffer [OF v, of "bit_cursor s"]
  have ce: "bit_values (count_error ret t) = bit_values t" "bit_cursor (count_error ret t) = bit_cursor t" for ret t
    by (simp_all add: count_error_def Let_def)
  show ?thesis
    using True pb v by (cases "process_bytes (bit_cursor s) s") (auto simp: read_data_def overrun_def buffer_ok_def ce)
next
  case False
  then have "read_data s = Inr s" using assms unfolding read_data_def buffer_ok_def by auto
  with False assms show ?thesis by (auto simp: overrun_def)
qed

text \<open>A receiver in phase that hears an idle character.\<close>

definition demo_receiver :: navtex where
  "demo_receiver = (navtex_new False 8000 0)\<lparr>state := READ_DATA, bit_cursor := 93, alpha_phase := True,
     bit_values := replicate 93 0 @ clean code_alpha\<rparr>"

lemma demo_receiver_waits: "waiting code_alpha demo_receiver" "\<not> shift demo_receiver" "between_messages demo_receiver"
proof -
  have "bytes_to_code (clean code_alpha) = code_alpha" by (rule intact_code) (simp_all add: intact_def clean_def navtex_code_bits_def comp_def code_alpha_def)
  then show "waiting code_alpha demo_receiver"
    by (simp add: waiting_def in_phase_def demo_receiver_def heard_def pending_def code_in_def check_bits_special
        clean_def navtex_code_bits_def navtex_new_def) (simp add: special_codes)
qed (simp_all add: demo_receiver_def navtex_new_def between_messages_def init_members_def)

section \<open>The properties\<close>

text \<open>
  C3: a NAVTEX message arrives in the queue of received messages. Whatever \<^verbatim>\<open>send_message\<close> puts
  on the air for a text without the marks \<^verbatim>\<open>ZCZC\<close> and \<^verbatim>\<open>NNNN\<close>, a receiver that is in
  phase and between two messages takes it up, corrects every character that has a wrong number of ones
  from its intact copy, finds the header and the trailer, and queues the text in capitals, between the
  line ends the sender adds, when it is long enough; then it waits for the next message.
\<close>

theorem navtex_message:
  assumes "send_message msg is_first is_last t = Inr t'" "\<not> only_sitor_b t" "message_counter t < 100"
    and "waiting code_alpha r" "\<not> shift r" "between_messages r" "no_mark (understood msg)"
  shows "\<exists>cs. sent t' = sent t @ [Phasing (if is_first then 10 else 5)] @ map Bit (concat (map navtex_code_bits cs)) @
        (if is_last then [Phasing 2] else []) \<and>
     (\<forall>gs b. received_as cs gs \<longrightarrow> (\<exists>r'. rx_bits (concat gs @ [b]) r = Inr r' \<and> between_messages r' \<and>
        received r' = received r @ (if min_size r \<le> length (message_of (understood msg)) then [message_of (understood msg)] else [])))"
proof -
  let ?full = "preamble (message_counter t) @ msg @ trailer"
  obtain xs cs where xs: "navtex_encode ?full = Inr xs" "create_fec xs = Inr cs"
    "sent t' = sent t @ [Phasing (if is_first then 10 else 5)] @ map Bit (concat (map navtex_code_bits cs)) @
       (if is_last then [Phasing 2] else [])"
  proof -
    have "andthen (send_string ?full (t\<lparr>sent := sent t @ [Phasing (if is_first then 10 else 5)],
        message_counter := (message_counter t + 1) mod 100\<rparr>))
      (\<lambda>s. Inr (if is_last then s\<lparr>sent := sent s @ [Phasing 2]\<rparr> else s)) = Inr t'"
      using assms(1,2) by (simp add: send_message_def Let_def)
    then obtain u where u: "send_string ?full (t\<lparr>sent := sent t @ [Phasing (if is_first then 10 else 5)],
        message_counter := (message_counter t + 1) mod 100\<rparr>) = Inr u"
      "t' = (if is_last then u\<lparr>sent := sent u @ [Phasing 2]\<rparr> else u)"
      unfolding andthen_Inr_iff by auto
    from u(1) obtain xs cs where "navtex_encode ?full = Inr xs" "create_fec xs = Inr cs"
      "sent u = sent t @ [Phasing (if is_first then 10 else 5)] @ map Bit (concat (map navtex_code_bits cs))"
      unfolding send_string_def andthen_Inr_iff by auto
    with u(2) show thesis by (intro that [of xs cs]) simp_all
  qed
  show ?thesis
  proof (intro exI [of _ cs] conjI allI impI)
    fix gs b assume "received_as cs gs"
    from string_received [OF xs(1,2) assms(4,5) this, of b]
    obtain r' where r': "rx_bits (concat gs @ [b]) r = Inr r'"
      "(essence r')\<lparr>shift := False\<rparr> = read_text (preamble (message_counter t) @ understood msg @ trailer) (essence r)"
      unfolding understood_message [OF assms(3)] by blast
    let ?e = "(essence r')\<lparr>shift := False\<rparr>"
    have "between_messages (essence r)" using assms(6) by simp
    note read_message [OF assms(3) this assms(7), folded r'(2)]
    then show "\<exists>r'. rx_bits (concat gs @ [b]) r = Inr r' \<and> between_messages r' \<and>
        received r' = received r @ (if min_size r \<le> length (message_of (understood msg)) then [message_of (understood msg)] else [])"
      by (intro exI [of _ r']) (simp add: r'(1))
  qed (rule xs(3))
qed

lemma demo_receiver_empty: "min_size demo_receiver = 0" "received demo_receiver = []" "rx_chars demo_receiver = []"
  by (simp_all add: demo_receiver_def navtex_new_def)

definition demo_sender :: navtex where
  "demo_sender = navtex_new False 8000 0"

theorem navtex_message_witness:
  "\<exists>t' cs r'. send_message ''Hi'' True True demo_sender = Inr t' \<and>
     sent t' = [Phasing 10] @ map Bit (concat (map navtex_code_bits cs)) @ [Phasing 2] \<and>
     rx_bits (concat (map clean cs) @ [1]) demo_receiver = Inr r' \<and> received r' = [message_of (understood ''Hi'')]"
proof -
  have "\<not> only_sitor_b demo_sender" "message_counter demo_sender < 100" "sent demo_sender = []"
    by (simp_all add: demo_sender_def navtex_new_def)
  note t = this
  have "\<forall>c \<in> set ''Hi''. (of_char (toupper_char c) :: nat) < 128" by (simp add: toupper_char_def)
  from send_message_total [OF this t(2,1)] obtain t' where t': "send_message ''Hi'' True True demo_sender = Inr t'" by blast
  have "(of_char (char_of (73 :: nat) :: char) :: nat) = of_char (CHR ''I'')" by simp
  then have "char_of (73 :: nat) = CHR ''I''" by (simp only: of_char_eq_iff)
  then have "set (understood ''Hi'') \<subseteq> {CHR ''H'', CHR ''I''}" by (auto simp: understood_def toupper_char_def)
  then have "no_mark (understood ''Hi'')"
    unfolding no_mark_def using set_mono_sublist by fastforce
  note navtex_message [OF t' t(1,2) demo_receiver_waits this]
  then obtain cs where cs: "sent t' = [Phasing 10] @ map Bit (concat (map navtex_code_bits cs)) @ [Phasing 2]"
    "\<And>gs b. received_as cs gs \<Longrightarrow> \<exists>r'. rx_bits (concat gs @ [b]) demo_receiver = Inr r' \<and>
       received r' = [message_of (understood ''Hi'')]"
    using t(3) by (simp add: demo_receiver_empty) blast
  from cs(2) [OF received_clean, of 1] cs(1) t' show ?thesis by blast
qed

text \<open>
  C17: forward error correction. For any text with at least two codes, in SITOR-B as in NAVTEX, a receiver
  in phase prints exactly the characters of the text that the code has, in capitals (without carriage
  returns, an apostrophe for the bell), when each character arrives intact or arrives with a wrong number
  of ones and an intact copy five characters earlier.
\<close>

theorem navtex_fec:
  assumes "send_string str t = Inr t'" "waiting code_alpha r" "\<not> shift r"
  shows "\<exists>cs. sent t' = sent t @ map Bit (concat (map navtex_code_bits cs)) \<and>
     (\<forall>gs b. received_as cs gs \<longrightarrow> (\<exists>r'. rx_bits (concat gs @ [b]) r = Inr r' \<and>
        rx_chars r' = rx_chars r @ printed (understood str)))"
proof -
  obtain xs cs where xs: "navtex_encode str = Inr xs" "create_fec xs = Inr cs" "sent t' = sent t @ map Bit (concat (map navtex_code_bits cs))"
    using assms(1) by (auto simp: send_string_def andthen_Inr_iff)
  show ?thesis
  proof (intro exI [of _ cs] conjI allI impI)
    fix gs b assume "received_as cs gs"
    from string_received [OF xs(1,2) assms(2,3) this, of b]
    obtain r' where r': "rx_bits (concat gs @ [b]) r = Inr r'" "(essence r')\<lparr>shift := False\<rparr> = read_text (understood str) (essence r)"
      by blast
    from arg_cong [OF r'(2), of rx_chars] r'(1) show "\<exists>r'. rx_bits (concat gs @ [b]) r = Inr r' \<and>
        rx_chars r' = rx_chars r @ printed (understood str)"
      by (auto simp: read_text_rx_chars)
  qed (rule xs(3))
qed

theorem navtex_fec_witness:
  "\<exists>t' cs r'. send_string ''4 Me'' demo_sender = Inr t' \<and> sent t' = map Bit (concat (map navtex_code_bits cs)) \<and>
     rx_bits (concat (map clean cs) @ [1]) demo_receiver = Inr r' \<and> rx_chars r' = printed (understood ''4 Me'')"
proof -
  have t: "sent demo_sender = []" by (simp add: demo_sender_def navtex_new_def)
  have up: "\<forall>c \<in> set ''4 Me''. (of_char (toupper_char c) :: nat) < 128" by (simp add: toupper_char_def)
  have "sendable (CHR ''4'')" "sendable (CHR '' '')"
    using sendable_digit [of "CHR ''4''"] sendable_frame by (simp_all add: is_digit_def)
  then have "2 \<le> length (understood ''4 Me'')" by (simp add: understood_def)
  from send_string_total [OF up this] obtain t' where t': "send_string ''4 Me'' demo_sender = Inr t'" by blast
  from navtex_fec [OF t' demo_receiver_waits(1,2)]
  obtain cs where cs: "sent t' = map Bit (concat (map navtex_code_bits cs))"
    "\<And>gs b. received_as cs gs \<Longrightarrow> \<exists>r'. rx_bits (concat gs @ [b]) demo_receiver = Inr r' \<and>
       rx_chars r' = printed (understood ''4 Me'')"
    unfolding t demo_receiver_empty append_Nil by blast
  from cs(2) [OF received_clean, of 1] cs(1) t' show ?thesis by blast
qed

text \<open>
  C33: The receiver never leaves its buffer of bit values but in one case. Every read of the buffer is checked: while a
  phase is searched for, at whatever offset, and while a character is taken up and corrected, all of them are inside,
  the buffer keeps its length and the cursor stays in it. The one case is the average of a wrong character with
  its wrong copy, where the code of the copy is used as its position and is 94 or more; then it always does.
\<close>

theorem navtex_buffer:
  assumes "buffer_ok s" "\<bar>b\<bar> < 2 ^ 30"
  shows "\<exists>t. sync (store_bit b s) = Inr t \<and>
    (if overrun t then handle_bit_value b s = Inl BadIndex else \<exists>s'. handle_bit_value b s = Inr s' \<and> buffer_ok s')"
proof -
  obtain t where "sync (store_bit b s) = Inr t" "buffer_ok t" by (rule sync_buffer [OF store_bit_buffer [OF assms]])
  then show ?thesis using read_data_buffer [of t] by (simp add: handle_bit_value_def)
qed

text \<open>A receiver in phase whose last character has been lost, and whose copy shows only ones.\<close>

definition demo_overrun :: navtex where
  "demo_overrun = (navtex_new True 8000 0)\<lparr>state := READ_DATA, bit_cursor := 93, alpha_phase := True,
     bit_values := replicate 58 (-1) @ replicate 7 1 @ replicate 35 (-1)\<rparr>"

lemma navtex_buffer_witness:
  "buffer_ok demo_overrun \<and> handle_bit_value (-1) demo_overrun = Inl BadIndex"
proof
  show ok: "buffer_ok demo_overrun" by (auto simp: demo_overrun_def buffer_ok_def small_def)
  have low: "code_in 92 (bit_values (store_bit (-1) demo_overrun)) = 0"
    "code_in 57 (bit_values (store_bit (-1) demo_overrun)) = 127"
    by (simp_all add: demo_overrun_def store_bit_def code_in_def bytes_to_code_def upt_rec)
  have "sync (store_bit (-1) demo_overrun) = Inr (store_bit (-1) demo_overrun)"
    by (simp add: sync_def demo_overrun_def store_bit_def)
  moreover have "overrun (store_bit (-1) demo_overrun)"
    using low by (simp add: overrun_def check_bits_def count_bits.simps demo_overrun_def store_bit_def)
  ultimately show "handle_bit_value (-1) demo_overrun = Inl BadIndex"
    using navtex_buffer [OF ok, of "-1"] by simp
qed

end
