(* ===== verification/Qso_Db.thy ===== *)
theory Qso_Db
  imports Complex_Main Prelude
begin

text \<open>
  The logbook database, \<^verbatim>\<open>logbook/qso_db.cxx\<close>: records of \<^verbatim>\<open>NUMFIELDS\<close> strings, their order, the
  array of records, the old file format, the search for duplicates and for matches, and the names of bands of
  \<^verbatim>\<open>globals/globals.cxx\<close> the records are completed with. A record is the list of its fields, an enumerator of
  \<^verbatim>\<open>field_def.h\<close> its number. The array of the database is kept as the code has it, with a size and a
  number of records in use. The sort of the C library, the table of modes and the files are parameters.
\<close>

section \<open>Field numbers\<close>

abbreviation (input) FREQ :: nat where "FREQ \<equiv> 0"
abbreviation (input) CALL :: nat where "CALL \<equiv> 1"
abbreviation (input) ADIF_MODE :: nat where "ADIF_MODE \<equiv> 2"
abbreviation (input) NAME :: nat where "NAME \<equiv> 4"
abbreviation (input) QSO_DATE :: nat where "QSO_DATE \<equiv> 5"
abbreviation (input) QSO_DATE_OFF :: nat where "QSO_DATE_OFF \<equiv> 6"
abbreviation (input) TIME_OFF :: nat where "TIME_OFF \<equiv> 7"
abbreviation (input) TIME_ON :: nat where "TIME_ON \<equiv> 8"
abbreviation (input) STATE :: nat where "STATE \<equiv> 12"
abbreviation (input) NOTES :: nat where "NOTES \<equiv> 14"
abbreviation (input) BAND :: nat where "BAND \<equiv> 22"
abbreviation (input) XCHG1 :: nat where "XCHG1 \<equiv> 33"
abbreviation (input) EXPORT :: nat where "EXPORT \<equiv> 55"
abbreviation (input) NUMFIELDS :: nat where "NUMFIELDS \<equiv> 56"

section \<open>C strings\<close>

text \<open>A string as \<^verbatim>\<open>c_str\<close> shows it to C functions.\<close>

definition c_str :: "string \<Rightarrow> string" where
  "c_str s = takeWhile (\<lambda>c. c \<noteq> CHR 0x00) s"

definition tolower_char :: "char \<Rightarrow> char" where
  "tolower_char c = (if 65 \<le> (of_char c :: nat) \<and> (of_char c :: nat) \<le> 90
     then char_of ((of_char c :: nat) + 32) else c)"

definition strcasecmp_eq :: "string \<Rightarrow> string \<Rightarrow> bool" where
  "strcasecmp_eq a b \<longleftrightarrow> map tolower_char a = map tolower_char b"

definition strcasestr :: "string \<Rightarrow> string \<Rightarrow> nat option" where
  "strcasestr hay needle = find_sub (map tolower_char hay) (map tolower_char needle)"

text \<open>The sign of \<^verbatim>\<open>std::string::compare\<close>: bytes are compared as unsigned.\<close>

fun str_compare :: "string \<Rightarrow> string \<Rightarrow> int" where
  "str_compare [] [] = 0"
| "str_compare [] (_ # _) = -1"
| "str_compare (_ # _) [] = 1"
| "str_compare (a # as) (b # bs) =
    (if (of_char a :: nat) < of_char b then -1 else if (of_char b :: nat) < of_char a then 1 else str_compare as bs)"

section \<open>Floating point numbers of texts\<close>

text \<open>
  A \<^verbatim>\<open>double\<close> of IEEE 754: not a number, an infinity, or a binary fraction. A result is rounded to 53 bits, fewer
  below the least normal number, and to the even one of two that are equally near. Zero has no sign here, which no
  comparison and no conversion of this program shows.
\<close>

datatype double = NaN | NegInf | Fin rat | PosInf

fun dbl_eq :: "double \<Rightarrow> double \<Rightarrow> bool" where
  "dbl_eq NaN y = False"
| "dbl_eq x y = (x = y)"

fun dbl_less :: "double \<Rightarrow> double \<Rightarrow> bool" where
  "dbl_less NaN y = False"
| "dbl_less x NaN = False"
| "dbl_less x NegInf = False"
| "dbl_less NegInf y = True"
| "dbl_less PosInf y = False"
| "dbl_less x PosInf = True"
| "dbl_less (Fin x) (Fin y) = (x < y)"

fun bit_length :: "nat \<Rightarrow> nat" where
  "bit_length n = (if n = 0 then 0 else Suc (bit_length (n div 2)))"

declare bit_length.simps [simp del]

definition pow2 :: "int \<Rightarrow> rat" where
  "pow2 e = (if 0 \<le> e then 2 ^ nat e else 1 / 2 ^ nat (- e))"

definition round_even :: "rat \<Rightarrow> int" where
  "round_even x = (let n = \<lfloor>x\<rfloor>; d = x - of_int n in if d < 1 / 2 \<or> d = 1 / 2 \<and> even n then n else n + 1)"

text \<open>The exponent of the last bit of a number other than 0.\<close>

definition ulp_exponent :: "rat \<Rightarrow> int" where
  "ulp_exponent x =
    (let (n, d) = quotient_of \<bar>x\<bar>; k = int (bit_length (nat n)) - int (bit_length (nat d));
         msb = (if pow2 k \<le> \<bar>x\<bar> then k else k - 1)
     in max (msb - 52) (-1074))"

definition round_double :: "rat \<Rightarrow> double" where
  "round_double x =
    (if x = 0 then Fin 0
     else
       let e = ulp_exponent x; y = of_int (round_even (x / pow2 e)) * pow2 e
       in if 2 ^ 1024 \<le> y then PosInf else if y \<le> - (2 ^ 1024) then NegInf else Fin y)"

text \<open>The product with a positive factor; divisions by 1000 are products here, and rounded once like them.\<close>

definition dbl_scale :: "rat \<Rightarrow> double \<Rightarrow> double" where
  "dbl_scale k x = (case x of Fin y \<Rightarrow> round_double (y * k) | _ \<Rightarrow> x)"

text \<open>
  The conversion to an integer cuts towards zero. C++ does not define it for what does not fit; the processors this
  program mostly runs on give the least integer then.
\<close>

definition trunc :: "nat \<Rightarrow> double \<Rightarrow> int" where
  "trunc w x = (case x of
     Fin y \<Rightarrow> let n = (if 0 \<le> y then \<lfloor>y\<rfloor> else - \<lfloor>- y\<rfloor>)
               in if - (2 ^ (w - 1)) \<le> n \<and> n < 2 ^ (w - 1) then n else - (2 ^ (w - 1))
   | _ \<Rightarrow> - (2 ^ (w - 1)))"

definition scan_sign :: "string \<Rightarrow> int \<times> string" where
  "scan_sign s = (case s of c # t \<Rightarrow> if c = CHR ''-'' then (-1, t) else if c = CHR ''+'' then (1, t) else (1, s)
                          | [] \<Rightarrow> (1, s))"

definition is_xdigit :: "char \<Rightarrow> bool" where
  "is_xdigit c \<longleftrightarrow> is_digit c \<or> tolower_char c \<in> set ''abcdef''"

definition xdigits_value :: "string \<Rightarrow> nat" where
  "xdigits_value ds = foldl (\<lambda>n c. n * 16 + (if is_digit c then of_char c - 48 else of_char (tolower_char c) - 87)) 0 ds"

text \<open>The digits before and behind the point, and what follows.\<close>

definition scan_mantissa :: "(char \<Rightarrow> bool) \<Rightarrow> string \<Rightarrow> string \<times> string \<times> string" where
  "scan_mantissa digit s =
    (let whole = takeWhile digit s; s = dropWhile digit s
     in case s of c # t \<Rightarrow> if c = CHR ''.'' then (whole, takeWhile digit t, dropWhile digit t) else (whole, [], s)
                | [] \<Rightarrow> (whole, [], s))"

definition scan_exponent :: "char \<Rightarrow> string \<Rightarrow> int" where
  "scan_exponent mark s = (case s of
     c # t \<Rightarrow> let (sign, u) = scan_sign t; ds = takeWhile is_digit u
               in if tolower_char c = mark \<and> ds \<noteq> [] then sign * int (digits_value ds) else 0
   | [] \<Rightarrow> 0)"

definition scan_decimal :: "string \<Rightarrow> rat" where
  "scan_decimal s =
    (let (whole, frac, r) = scan_mantissa is_digit s; e = scan_exponent (CHR ''e'') r - int (length frac)
     in if whole @ frac = [] then 0
        else of_nat (digits_value (whole @ frac)) * (if 0 \<le> e then 10 ^ nat e else 1 / 10 ^ nat (- e)))"

definition scan_hex :: "string \<Rightarrow> rat" where
  "scan_hex s =
    (let (whole, frac, r) = scan_mantissa is_xdigit s; e = scan_exponent (CHR ''p'') r - 4 * int (length frac)
     in if whole @ frac = [] then 0 else of_nat (xdigits_value (whole @ frac)) * pow2 e)"

text \<open>
  \<^verbatim>\<open>strtod\<close> in a locale with a decimal point: the number at the front of a text, and whether it set \<^verbatim>\<open>errno\<close> because
  the number is too large or too small. \<^verbatim>\<open>atof\<close> is the same without that.
\<close>

definition strtod :: "string \<Rightarrow> double \<times> bool" where
  "strtod s =
    (let (sign, t) = scan_sign (dropWhile is_space (c_str s)); l = map tolower_char t
     in if prefix_of ''nan'' l then (NaN, False)
        else if prefix_of ''inf'' l then (if sign < 0 then NegInf else PosInf, False)
        else
          let x = of_int sign * (if prefix_of ''0x'' l then scan_hex (drop 2 t) else scan_decimal t); y = round_double x
          in (y, y = PosInf \<or> y = NegInf \<or> \<bar>x\<bar> < pow2 (-1022) \<and> y \<noteq> Fin x))"

definition atof :: "string \<Rightarrow> double" where "atof s = fst (strtod s)"

section \<open>Bands\<close>

definition band_names :: "(string \<times> string) list" where
  "band_names =
    [(''160m'', ''1.8''), (''80m'', ''3.5''), (''75m'', ''4.0''), (''60m'', ''5.3''), (''40m'', ''7.0''),
     (''30m'', ''10.0''), (''20m'', ''14.0''), (''17m'', ''18.0''), (''15m'', ''21.0''), (''12m'', ''24.0''),
     (''10m'', ''28.0''), (''6m'', ''50.0''), (''4m'', ''70.0''), (''2m'', ''144.0''), (''1.25m'', ''222.0''),
     (''70cm'', ''420.0''), (''33cm'', ''902.0''), (''23cm'', ''1240.0''), (''13cm'', ''2300.0''), (''9cm'', ''3300.0''),
     (''6cm'', ''5650.0''), (''3cm'', ''10000.0''), (''1.25cm'', ''24000.0''), (''6mm'', ''47000.0''),
     (''4mm'', ''75500.0''), (''2.5mm'', ''119980.0''), (''2mm'', ''142000.0''), (''1mm'', ''241000.0''),
     (''other'', '''')]"

definition BAND_OTHER :: nat where "BAND_OTHER = 28"

definition band_ranges :: "(int \<times> int) list" where
  "band_ranges =
    [(0, 1), (3, 3), (4, 4), (5, 5), (7, 7), (10, 10), (14, 14), (18, 18), (21, 21), (24, 24), (28, 29), (50, 54),
     (70, 71), (144, 148), (222, 225), (420, 450), (902, 928), (1240, 1325), (2300, 2450), (3300, 3500), (5650, 5925),
     (10000, 10500), (24000, 24250), (47000, 47200), (75500, 81000), (119980, 120020), (142000, 149000), (241000, 250000)]"

definition band_of_hz :: "int \<Rightarrow> nat" where
  "band_of_hz freq_hz =
    (let mhz = cdiv freq_hz 1000000
     in case filter (\<lambda>i. fst (band_ranges ! i) \<le> mhz \<and> mhz \<le> snd (band_ranges ! i)) [0..<BAND_OTHER] of
          i # _ \<Rightarrow> i | [] \<Rightarrow> BAND_OTHER)"

definition band :: "string \<Rightarrow> nat" where
  "band freq_mhz =
    (let (d, range) = strtod freq_mhz
     in if \<not> dbl_eq d (Fin 0) \<and> \<not> range then band_of_hz (trunc 64 (dbl_scale 1000000 d)) else BAND_OTHER)"

definition band_name :: "string \<Rightarrow> string" where
  "band_name freq_mhz = fst (band_names ! band freq_mhz)"

definition band_freq :: "string \<Rightarrow> string" where
  "band_freq name =
    (case filter (\<lambda>p. fst p = name) (take BAND_OTHER band_names) of p # _ \<Rightarrow> snd p | [] \<Rightarrow> '''')"

section \<open>Records\<close>

type_synonym qso_rec = "string list"

definition qso_rec_new :: qso_rec where "qso_rec_new = replicate NUMFIELDS ''''"

definition getField :: "nat \<Rightarrow> qso_rec \<Rightarrow> string" where
  "getField n r = (if NUMFIELDS \<le> n then '''' else c_str (r ! n))"

definition putField :: "nat \<Rightarrow> string \<Rightarrow> qso_rec \<Rightarrow> qso_rec" where
  "putField n s r = (if NUMFIELDS \<le> n then r else r[n := s])"

definition addtoField :: "nat \<Rightarrow> string \<Rightarrow> qso_rec \<Rightarrow> qso_rec" where
  "addtoField n s r = (if NUMFIELDS \<le> n then r else r[n := r ! n @ s])"

definition clearRec :: "qso_rec \<Rightarrow> qso_rec" where "clearRec r = map (\<lambda>_. '''') r"

text \<open>The assignment operator goes through \<^verbatim>\<open>c_str\<close>.\<close>

definition assign :: "qso_rec \<Rightarrow> qso_rec" where "assign r = map c_str r"

definition checkBand :: "qso_rec \<Rightarrow> qso_rec" where
  "checkBand r =
    (if r ! FREQ = '''' \<and> r ! BAND \<noteq> '''' then
       let b = map tolower_char (r ! BAND) in r[BAND := b, FREQ := band_freq (c_str b)]
     else if r ! BAND = '''' \<and> r ! FREQ \<noteq> '''' then r[BAND := band_name (c_str (r ! FREQ))]
     else r)"

definition fill_pair :: "nat \<Rightarrow> nat \<Rightarrow> qso_rec \<Rightarrow> qso_rec" where
  "fill_pair a b r =
    (if r ! a = '''' \<and> r ! b \<noteq> '''' then r[a := r ! b] else if r ! a \<noteq> '''' \<and> r ! b = '''' then r[b := r ! a] else r)"

definition checkDateTimes :: "qso_rec \<Rightarrow> qso_rec" where
  "checkDateTimes r = fill_pair QSO_DATE QSO_DATE_OFF (fill_pair TIME_ON TIME_OFF r)"

definition pad_nat :: "nat \<Rightarrow> nat \<Rightarrow> string" where
  "pad_nat w n = replicate (w - length (show_nat n)) (CHR ''0'') @ show_nat n"

text \<open>\<open>tm\<close> is the local time as year, month, day, hour, minute and second.\<close>

definition setDateTime :: "nat \<times> nat \<times> nat \<times> nat \<times> nat \<times> nat \<Rightarrow> bool \<Rightarrow> qso_rec \<Rightarrow> qso_rec" where
  "setDateTime tm dtOn r =
    (case tm of (y, mon, d, h, mi, sec) \<Rightarrow>
       let date = pad_nat 4 y @ pad_nat 2 mon @ pad_nat 2 d; time = pad_nat 2 h @ pad_nat 2 mi @ pad_nat 2 sec
       in if dtOn then putField TIME_ON time (putField QSO_DATE date r)
          else putField TIME_OFF time (putField QSO_DATE_OFF date r))"

definition setFrequency :: "int \<Rightarrow> qso_rec \<Rightarrow> qso_rec" where
  "setFrequency freq r =
    putField FREQ ((if freq < 0 then ''-'' else '''') @ show_nat (nat \<bar>freq\<bar> div 1000000) @ ''.'' @
      pad_nat 6 (nat \<bar>freq\<bar> mod 1000000)) r"

definition trim :: "string \<Rightarrow> string" where
  "trim s = dropWhile (\<lambda>c. c = CHR '' '') (List.rev (dropWhile (\<lambda>c. c = CHR '' '') (List.rev s)))"

definition trimFields :: "qso_rec \<Rightarrow> qso_rec" where
  "trimFields r = map (\<lambda>i. let s = trim (r ! i) in if i = CALL \<or> i = ADIF_MODE then toupper_str s else s) [0..<NUMFIELDS]"

section \<open>Order\<close>

text \<open>The static variables \<^verbatim>\<open>date_off\<close> and \<^verbatim>\<open>cQsoDb::reverse\<close> the comparisons depend on.\<close>

record ordering =
  date_off :: bool
  reversed :: bool

definition compareTimes :: "ordering \<Rightarrow> qso_rec \<Rightarrow> qso_rec \<Rightarrow> int" where
  "compareTimes g r1 r2 =
    (if date_off g then str_compare (r1 ! TIME_OFF) (r2 ! TIME_OFF) else str_compare (r1 ! TIME_ON) (r2 ! TIME_ON))"

definition compareDates :: "ordering \<Rightarrow> qso_rec \<Rightarrow> qso_rec \<Rightarrow> int" where
  "compareDates g r1 r2 =
    (if date_off g then str_compare (r1 ! QSO_DATE_OFF) (r2 ! QSO_DATE_OFF)
     else str_compare (r1 ! QSO_DATE) (r2 ! QSO_DATE))"

definition compareCalls :: "qso_rec \<Rightarrow> qso_rec \<Rightarrow> int" where
  "compareCalls r1 r2 = str_compare (r1 ! CALL) (r2 ! CALL)"

definition compareModes :: "qso_rec \<Rightarrow> qso_rec \<Rightarrow> int" where
  "compareModes r1 r2 = str_compare (r1 ! ADIF_MODE) (r2 ! ADIF_MODE)"

definition compareFreqs :: "qso_rec \<Rightarrow> qso_rec \<Rightarrow> int" where
  "compareFreqs r1 r2 =
    (let f1 = atof (r1 ! FREQ); f2 = atof (r2 ! FREQ) in if dbl_eq f1 f2 then 0 else if dbl_less f1 f2 then -1 else 1)"

definition or_else :: "int \<Rightarrow> int \<Rightarrow> int" where "or_else a b = (if a \<noteq> 0 then a else b)"

definition swapped :: "ordering \<Rightarrow> (qso_rec \<Rightarrow> qso_rec \<Rightarrow> int) \<Rightarrow> qso_rec \<Rightarrow> qso_rec \<Rightarrow> int" where
  "swapped g f p1 p2 = (if reversed g then f p2 p1 else f p1 p2)"

definition comparebydate :: "ordering \<Rightarrow> qso_rec \<Rightarrow> qso_rec \<Rightarrow> int" where
  "comparebydate g = swapped g (\<lambda>r1 r2. or_else (compareDates g r1 r2) (or_else (compareTimes g r1 r2)
     (or_else (compareCalls r1 r2) (or_else (compareModes r1 r2) (compareFreqs r1 r2)))))"

definition comparebymode :: "ordering \<Rightarrow> qso_rec \<Rightarrow> qso_rec \<Rightarrow> int" where
  "comparebymode g = swapped g (\<lambda>r1 r2. or_else (compareModes r1 r2) (or_else (compareDates g r1 r2)
     (or_else (compareTimes g r1 r2) (or_else (compareCalls r1 r2) (compareFreqs r1 r2)))))"

definition comparebycall :: "ordering \<Rightarrow> qso_rec \<Rightarrow> qso_rec \<Rightarrow> int" where
  "comparebycall g = swapped g (\<lambda>r1 r2. or_else (compareCalls r1 r2) (or_else (compareDates g r1 r2)
     (or_else (compareTimes g r1 r2) (or_else (compareModes r1 r2) (compareFreqs r1 r2)))))"

definition comparebyfreq :: "ordering \<Rightarrow> qso_rec \<Rightarrow> qso_rec \<Rightarrow> int" where
  "comparebyfreq g = swapped g (\<lambda>r1 r2. or_else (compareFreqs r1 r2) (or_else (compareDates g r1 r2)
     (or_else (compareTimes g r1 r2) (or_else (compareCalls r1 r2) (compareModes r1 r2)))))"

definition rec_eq :: "ordering \<Rightarrow> qso_rec \<Rightarrow> qso_rec \<Rightarrow> bool" where
  "rec_eq g r1 r2 \<longleftrightarrow> compareDates g r1 r2 = 0 \<and> compareTimes g r1 r2 = 0 \<and> compareCalls r1 r2 = 0 \<and> compareFreqs r1 r2 = 0"

definition rec_less :: "ordering \<Rightarrow> qso_rec \<Rightarrow> qso_rec \<Rightarrow> bool" where
  "rec_less g r1 r2 \<longleftrightarrow> compareDates g r1 r2 < 0 \<and> compareTimes g r1 r2 < 0 \<and> compareCalls r1 r2 < 0 \<and> compareFreqs r1 r2 < 0"

definition rec_le :: "ordering \<Rightarrow> qso_rec \<Rightarrow> qso_rec \<Rightarrow> bool" where
  "rec_le g r1 r2 \<longleftrightarrow> rec_less g r1 r2 \<or> rec_eq g r1 r2"

definition rec_greater :: "ordering \<Rightarrow> qso_rec \<Rightarrow> qso_rec \<Rightarrow> bool" where
  "rec_greater g r1 r2 \<longleftrightarrow> \<not> rec_le g r1 r2"


section \<open>The array of records\<close>

definition MAXRECS :: nat where "MAXRECS = 100000"
definition INCRRECS :: nat where "INCRRECS = 10000"

record qso_db =
  qsorec :: "qso_rec list"
  maxrecs :: nat
  nbrrecs :: nat
  dirty :: int

definition qso_db_new :: qso_db where
  "qso_db_new = \<lparr>qsorec = replicate MAXRECS qso_rec_new, maxrecs = MAXRECS, nbrrecs = 0, dirty = 0\<rparr>"

definition qso_db_copy :: "qso_db \<Rightarrow> qso_db" where
  "qso_db_copy db =
    \<lparr>qsorec = map (\<lambda>i. assign (qsorec db ! i)) [0..<nbrrecs db], maxrecs = nbrrecs db, nbrrecs = nbrrecs db, dirty = 0\<rparr>"

definition deleteRecs :: "qso_db \<Rightarrow> qso_db" where
  "deleteRecs db = \<lparr>qsorec = replicate MAXRECS qso_rec_new, maxrecs = MAXRECS, nbrrecs = 0, dirty = 0\<rparr>"

definition clearDatabase :: "qso_db \<Rightarrow> qso_db" where "clearDatabase db = deleteRecs db"

definition grow :: "qso_db \<Rightarrow> qso_db" where
  "grow db =
    (if nbrrecs db = maxrecs db then
       let m = maxrecs db + INCRRECS
       in db\<lparr>maxrecs := m, qsorec := map (\<lambda>i. assign (qsorec db ! i)) [0..<nbrrecs db] @ replicate (m - nbrrecs db) qso_rec_new\<rparr>
     else db)"

definition qsoFindRec :: "ordering \<Rightarrow> qso_rec \<Rightarrow> qso_db \<Rightarrow> int" where
  "qsoFindRec g r db =
    (case filter (\<lambda>i. rec_eq g (qsorec db ! i) r) [0..<nbrrecs db] of i # _ \<Rightarrow> int i | [] \<Rightarrow> -1)"

definition completed :: "qso_rec \<Rightarrow> qso_rec" where
  "completed r = checkDateTimes (checkBand (assign r))"

definition qsoNewRec :: "qso_rec \<Rightarrow> qso_db \<Rightarrow> qso_db" where
  "qsoNewRec r db =
    (let db = grow db in db\<lparr>qsorec := (qsorec db)[nbrrecs db := completed r], nbrrecs := nbrrecs db + 1\<rparr>)"

text \<open>\<^verbatim>\<open>newrec\<close> returns a pointer to the record, here its number.\<close>

definition newrec :: "qso_db \<Rightarrow> nat \<times> qso_db" where
  "newrec db = (let db = grow db in (nbrrecs db, db\<lparr>nbrrecs := nbrrecs db + 1\<rparr>))"

definition qsoDelRec :: "int \<Rightarrow> qso_db \<Rightarrow> qso_db" where
  "qsoDelRec rnbr db =
    (if rnbr < 0 \<or> rnbr > int (nbrrecs db) - 1 then db
     else
       let rs = foldl (\<lambda>rs i. rs[i := assign (rs ! (i + 1))]) (qsorec db) [nat rnbr..<nbrrecs db - 1]; n = nbrrecs db - 1
       in db\<lparr>qsorec := rs[n := clearRec (rs ! n)], nbrrecs := n\<rparr>)"

definition qsoUpdRec :: "int \<Rightarrow> qso_rec \<Rightarrow> qso_db \<Rightarrow> qso_db" where
  "qsoUpdRec rnbr r db =
    (if rnbr < 0 \<or> rnbr > int (nbrrecs db) - 1 then db
     else db\<lparr>qsorec := (qsorec db)[nat rnbr := checkBand (assign r)]\<rparr>)"

text \<open>\<open>qs\<close> is \<^verbatim>\<open>qsort\<close>, given the comparison and the records in use.\<close>

type_synonym qsort_fun = "(qso_rec \<Rightarrow> qso_rec \<Rightarrow> int) \<Rightarrow> qso_rec list \<Rightarrow> qso_rec list"

definition sort_with :: "qsort_fun \<Rightarrow> (qso_rec \<Rightarrow> qso_rec \<Rightarrow> int) \<Rightarrow> qso_db \<Rightarrow> qso_db" where
  "sort_with qs f db = db\<lparr>qsorec := qs f (take (nbrrecs db) (qsorec db)) @ drop (nbrrecs db) (qsorec db)\<rparr>"

definition SortByDate :: "qsort_fun \<Rightarrow> bool \<Rightarrow> ordering \<Rightarrow> qso_db \<Rightarrow> ordering \<times> qso_db" where
  "SortByDate qs how g db = (let g = g\<lparr>date_off := how\<rparr> in (g, sort_with qs (comparebydate g) db))"

definition SortByCall :: "qsort_fun \<Rightarrow> ordering \<Rightarrow> qso_db \<Rightarrow> qso_db" where
  "SortByCall qs g db = sort_with qs (comparebycall g) db"

definition SortByMode :: "qsort_fun \<Rightarrow> ordering \<Rightarrow> qso_db \<Rightarrow> qso_db" where
  "SortByMode qs g db = sort_with qs (comparebymode g) db"

definition SortByFreq :: "qsort_fun \<Rightarrow> ordering \<Rightarrow> qso_db \<Rightarrow> qso_db" where
  "SortByFreq qs g db = sort_with qs (comparebyfreq g) db"

section \<open>The old file format\<close>

text \<open>An input stream: what is left of the file, and the bits for its end and for failure. \<open>getline\<close> takes
  fewer than \<open>bufsize\<close> characters; more of them, or none at the end of the file, is a failure.\<close>

record stream =
  rest :: string
  eof :: bool
  failed :: bool

definition getline :: "nat \<Rightarrow> char \<Rightarrow> stream \<Rightarrow> string \<times> stream" where
  "getline bufsize delim s =
    (if eof s \<or> failed s then ('''', s\<lparr>failed := True\<rparr>)
     else
       let line = takeWhile (\<lambda>c. c \<noteq> delim) (rest s); n = length line
       in if bufsize \<le> n then (c_str (take (bufsize - 1) line), s\<lparr>rest := drop (bufsize - 1) (rest s), failed := True\<rparr>)
          else if n < length (rest s) then (c_str line, s\<lparr>rest := drop (n + 1) (rest s)\<rparr>)
          else (c_str line, s\<lparr>rest := [], eof := True, failed := (n = 0)\<rparr>))"

fun read_fields :: "nat \<Rightarrow> char \<Rightarrow> stream \<Rightarrow> string list \<times> stream" where
  "read_fields 0 delim s = ([], s)"
| "read_fields (Suc n) delim s =
    (let (x, s) = getline 1024 delim s; (xs, s) = read_fields n delim s in (x # xs, s))"

text \<open>The loop ends with the file; a record takes at least a character, so the length of the file is fuel enough.\<close>

fun read_records :: "nat \<Rightarrow> char \<Rightarrow> stream \<Rightarrow> qso_db \<Rightarrow> qso_db" where
  "read_records 0 delim s db = db"
| "read_records (Suc fuel) delim s db =
    (let (r, s) = read_fields NUMFIELDS delim s
     in if failed s then db else read_records fuel delim s (qsoNewRec r db))"

definition contains :: "string \<Rightarrow> string \<Rightarrow> bool" where "contains s pat \<longleftrightarrow> find_sub s pat \<noteq> None"

definition qsoIsValidFile :: "string option \<Rightarrow> bool" where
  "qsoIsValidFile content = (case content of None \<Rightarrow> False
     | Some file \<Rightarrow> contains (fst (getline 256 (CHR 0x0A) \<lparr>rest = file, eof = False, failed = False\<rparr>)) ''_LOGBODUP DB'')"

text \<open>\<open>content\<close> is the file, \<open>None\<close> when it cannot be opened; the state has the static variable
  \<^verbatim>\<open>delim_in\<close>, the ordering and the database.\<close>

definition qsoReadFile :: "qsort_fun \<Rightarrow> string option \<Rightarrow> char \<times> ordering \<times> qso_db \<Rightarrow> int \<times> char \<times> ordering \<times> qso_db" where
  "qsoReadFile qs content st =
    (case content of
       None \<Rightarrow> (1, st)
     | Some file \<Rightarrow>
         let (buff, s) = getline 256 (CHR 0x0A) \<lparr>rest = file, eof = False, failed = False\<rparr>
         in if \<not> contains buff ''_LOGBODUP DB'' then (2, st)
            else
              let (delim, g, db) = st;
                  delim = (if contains buff ''_LOGBODUP DBX'' then delim else CHR 0x0A);
                  db = read_records (Suc (length file)) delim s db;
                  (g, db) = SortByDate qs (date_off g) g db
              in (0, delim, g, db))"

definition write_rec :: "qso_rec \<Rightarrow> string" where
  "write_rec r = concat (map (\<lambda>i. c_str (r ! i) @ [CHR 0x09]) [0..<EXPORT])"

definition qsoWriteFile :: "qso_db \<Rightarrow> string" where
  "qsoWriteFile db = ''_LOGBODUP DBX 3.0'' @ [CHR 0x0A] @ concat (map write_rec (take (nbrrecs db) (qsorec db)))"

section \<open>Days and seconds\<close>

definition qso_jdays :: "int list list" where
  "qso_jdays =
    [[0, 0, 31, 59, 90, 120, 151, 181, 212, 243, 273, 304, 334],
     [0, 0, 31, 60, 91, 121, 152, 182, 213, 244, 274, 305, 335]]"

definition isleapyear :: "int \<Rightarrow> bool" where
  "isleapyear y \<longleftrightarrow> cmod y 400 = 0 \<or> cmod y 100 \<noteq> 0 \<and> cmod y 4 = 0"

definition qso_dayofyear :: "int \<Rightarrow> int \<Rightarrow> int \<Rightarrow> int result" where
  "qso_dayofyear year mon mday =
    (if 0 \<le> mon \<and> mon \<le> 12 then Inr (mday + qso_jdays ! (if isleapyear year then 1 else 0) ! nat mon) else Inl BadIndex)"

text \<open>The first characters of a C string; behind the terminating NUL there is nothing to read.\<close>

definition chars_at :: "nat \<Rightarrow> string \<Rightarrow> int list result" where
  "chars_at n s = (if n \<le> length s + 1 then Inr (map (\<lambda>i. if i < length s then schar (s ! i) else 0) [0..<n]) else Inl BadIndex)"

text \<open>The characters are used as they are, without taking \<^verbatim>\<open>'0'\<close> off.\<close>

definition epoch_dt :: "string \<Rightarrow> string \<Rightarrow> nat result" where
  "epoch_dt szdate sztime =
    andthen (chars_at 8 szdate) (\<lambda>d. andthen (chars_at 6 sztime) (\<lambda>t.
      let year = ((d ! 0 * 10 + d ! 1) * 10 + d ! 2) * 10 + d ! 3; mon = d ! 4 * 10 + d ! 5; mday = d ! 6 * 10 + d ! 7;
          secs = ((t ! 0 * 10 + t ! 1) * 60 + t ! 2 * 10 + t ! 3) * 60 + t ! 4 * 10 + t ! 5;
          rst = year - 1; quad = cdiv rst 4; rst = cmod rst 4; cent = cdiv quad 25; quad = cmod quad 25;
          era = cdiv cent 4; cent = cmod cent 4
      in andthen (qso_dayofyear year mon mday) (\<lambda>doy.
        let doe = doy + era * (400 * 365 + 97) + cent * (100 * 365 + 24) + quad * (4 * 365 + 1) + rst * 365
        in Inr (nat ((doe * 60 * 60 * 24 + secs) mod 2 ^ 64)))))"

section \<open>Duplicates and matches\<close>

text \<open>The arguments of \<^verbatim>\<open>duplicate\<close>; those that can be \<^verbatim>\<open>NULL\<close> are options.\<close>

record dup_query =
  q_call :: string
  q_date :: "string option"
  q_time :: "string option"
  q_interval :: nat
  chkdatetime :: bool
  q_freq :: "string option"
  chkfreq :: bool
  q_state :: "string option"
  chkstate :: bool
  q_mode :: "string option"
  chkmode :: bool
  q_xchg1 :: "string option"
  chkxchg1 :: bool

definition deref :: "string option \<Rightarrow> string result" where
  "deref p = (case p of None \<Rightarrow> Inl BadIndex | Some s \<Rightarrow> Inr s)"

definition text_dup :: "string \<Rightarrow> string \<Rightarrow> bool" where
  "text_dup field arg \<longleftrightarrow> field = '''' \<and> arg = '''' \<or> strcasestr field arg \<noteq> None"

definition check :: "bool \<Rightarrow> bool result \<Rightarrow> bool result" where
  "check wanted test = (if wanted then test else Inr True)"

definition dup_tests :: "dup_query \<Rightarrow> int \<Rightarrow> nat \<Rightarrow> qso_rec \<Rightarrow> bool result" where
  "dup_tests q f1 datetime r =
    andthen (check (chkfreq q) (Inr (f1 = trunc 32 (atof (getField FREQ r))))) (\<lambda>freq.
    andthen (check (chkstate q) (andthen (deref (q_state q)) (\<lambda>a. Inr (text_dup (getField STATE r) a)))) (\<lambda>state.
    andthen (check (chkmode q) (andthen (deref (q_mode q)) (\<lambda>a. Inr (text_dup (getField ADIF_MODE r) a)))) (\<lambda>mode.
    andthen (check (chkxchg1 q) (andthen (deref (q_xchg1 q)) (\<lambda>a. Inr (text_dup (getField XCHG1 r) a)))) (\<lambda>xchg1.
    andthen (check (chkdatetime q) (andthen (epoch_dt (getField QSO_DATE r) (getField TIME_OFF r)) (\<lambda>qsodatetime.
       Inr ((int datetime - int qsodatetime) mod 2 ^ 64 < int (q_interval q) * 60 mod 2 ^ 32)))) (\<lambda>dtime.
    Inr (freq \<and> state \<and> mode \<and> xchg1 \<and> dtime))))))"

fun dup_loop :: "dup_query \<Rightarrow> int \<Rightarrow> nat \<Rightarrow> nat \<Rightarrow> qso_rec list \<Rightarrow> nat result" where
  "dup_loop q f1 datetime isdup [] = Inr isdup"
| "dup_loop q f1 datetime isdup (r # rs) =
    (if strcasecmp_eq (getField CALL r) (q_call q) then
       let isdup = (if \<not> chkdatetime q \<and> \<not> chkfreq q \<and> \<not> chkstate q \<and> \<not> chkmode q \<and> \<not> chkxchg1 q then 2 else isdup)
       in if q_date q = None then Inr isdup
          else andthen (dup_tests q f1 datetime r) (\<lambda>same. dup_loop q f1 datetime (if same then 1 else isdup) rs)
     else dup_loop q f1 datetime isdup rs)"

definition duplicate :: "dup_query \<Rightarrow> qso_db \<Rightarrow> nat result" where
  "duplicate q db =
    (let f1 = (case q_freq q of None \<Rightarrow> 0 | Some f \<Rightarrow> trunc 32 (dbl_scale (1 / 1000) (atof f)))
     in andthen (if chkdatetime q then andthen (deref (q_date q)) (\<lambda>d. andthen (deref (q_time q)) (epoch_dt d)) else Inr 0)
       (\<lambda>datetime. dup_loop q f1 datetime 0 (take (nbrrecs db) (qsorec db))))"

text \<open>\<open>mode_info\<close> lists the names of the modes with their ADIF names.\<close>

definition adifmode :: "(string \<times> string) list \<Rightarrow> string \<Rightarrow> string" where
  "adifmode mode_info mode = (case filter (\<lambda>p. strcasecmp_eq (fst p) mode) mode_info of p # _ \<Rightarrow> snd p | [] \<Rightarrow> '''')"

definition match_call_band_mode :: "(string \<times> string) list \<Rightarrow> qso_rec \<Rightarrow> qso_rec \<Rightarrow> bool" where
  "match_call_band_mode mode_info r q \<longleftrightarrow>
    (let freq = trunc 32 (dbl_scale (1 / 1000) (atof (getField FREQ r))); mode = getField ADIF_MODE r
     in strcasecmp_eq (getField CALL q) (getField CALL r) \<and>
        (freq = trunc 32 (dbl_scale (1 / 1000) (atof (getField FREQ q))) \<or> strcasecmp_eq (getField BAND q) (getField BAND r)) \<and>
        (text_dup (getField ADIF_MODE q) mode \<or> strcasecmp_eq mode (adifmode mode_info (getField ADIF_MODE q)) \<or>
         strcasecmp_eq mode ''DATA''))"

fun match_loop :: "(string \<times> string) list \<Rightarrow> qso_rec \<Rightarrow> nat \<Rightarrow> nat \<Rightarrow> qso_rec list \<Rightarrow> int result" where
  "match_loop mode_info r lotwdatetime i [] = Inr (-1)"
| "match_loop mode_info r lotwdatetime i (q # qs) =
    (if match_call_band_mode mode_info r q then
       andthen (epoch_dt (getField QSO_DATE q) (getField TIME_ON q)) (\<lambda>qsodatetime.
         if \<bar>wrap32 (int lotwdatetime - int qsodatetime)\<bar> < 60 * 15 then Inr (int i)
         else match_loop mode_info r lotwdatetime (i + 1) qs)
     else match_loop mode_info r lotwdatetime (i + 1) qs)"

definition matched :: "(string \<times> string) list \<Rightarrow> qso_rec \<Rightarrow> qso_db \<Rightarrow> int result" where
  "matched mode_info r db =
    andthen (epoch_dt (getField QSO_DATE r) (getField TIME_ON r)) (\<lambda>lotwdatetime.
      match_loop mode_info r lotwdatetime 0 (take (nbrrecs db) (qsorec db)))"

end
