(* ===== verification/Adif.thy ===== *)
theory Adif
  imports Qso_Db
begin

text \<open>
  Reading and writing the logbook in the ADIF format, \<^verbatim>\<open>logbook/adif_io.cxx\<close>. A file is a string. A pointer
  into the buffer is a position, and a C string that starts there the rest of the buffer. The buffer is the
  same all the time: \<^verbatim>\<open>findfield\<close> writes the name of the field back in capitals, but reads no name twice,
  and only the text of an error message shows the difference. What \<^verbatim>\<open>configure\<close> and the file chooser
  supply (names and versions), the buttons that select fields and the table of modes are parameters.
\<close>

section \<open>The table of fields\<close>

text \<open>Type, size, name, and whether a button selects the field for an export.\<close>

definition adif_fields :: "(nat \<times> nat \<times> string \<times> bool) list" where
  "adif_fields =
   [
    (0, 12, ''FREQ'', True), (1, 30, ''CALL'', True), (2, 20, ''MODE'', True), (3, 20, ''SUBMODE'', False),
    (4, 80, ''NAME'', True), (5, 8, ''QSO_DATE'', True), (6, 8, ''QSO_DATE_OFF'', True),
    (7, 6, ''TIME_OFF'', True), (8, 6, ''TIME_ON'', True), (9, 100, ''QTH'', True), (10, 3, ''RST_RCVD'', True),
    (11, 3, ''RST_SENT'', True), (12, 20, ''STATE'', True), (13, 20, ''VE_PROV'', True),
    (14, 512, ''NOTES'', True), (15, 8, ''QSLRDATE'', True), (16, 8, ''QSLSDATE'', True),
    (17, 8, ''EQSLRDATE'', True), (18, 8, ''EQSLSDATE'', True), (19, 8, ''LOTWRDATE'', True),
    (20, 8, ''LOTWSDATE'', True), (21, 8, ''GRIDSQUARE'', True), (22, 8, ''BAND'', True),
    (23, 60, ''CNTY'', True), (24, 60, ''COUNTRY'', True), (25, 8, ''CQZ'', True), (26, 8, ''DXCC'', True),
    (27, 256, ''QSL_VIA'', True), (28, 20, ''IOTA'', True), (29, 20, ''ITUZ'', True), (30, 60, ''CONT'', True),
    (31, 50, ''SRX'', True), (32, 50, ''STX'', True), (33, 100, ''SRX_STRING'', True),
    (34, 100, ''STX_STRING'', True), (35, 20, ''CLASS'', True), (36, 20, ''ARRL_SECT'', True),
    (37, 8, ''TX_PWR'', True), (38, 30, ''OPERATOR'', True), (39, 30, ''STATION_CALLSIGN'', True),
    (40, 8, ''MY_GRIDSQUARE'', True), (41, 60, ''MY_CITY'', True), (45, 20, ''CWSS_SECTION'', True),
    (42, 20, ''CWSS_SERNO'', True), (43, 20, ''CWSS_PREC'', True), (44, 20, ''CWSS_CHK'', True),
    (46, 2, ''AGE'', True), (47, 10, ''TEN_TEN'', True), (48, 10, ''CHECK'', True),
    (49, 20, ''FD_CLASS'', False), (50, 20, ''FD_SECTION'', False), (51, 20, ''TROOPS'', False),
    (52, 20, ''TROOPR'', False), (53, 20, ''SCOUTS'', False), (54, 20, ''SCOUTR'', False)   ]"

definition field_type :: "nat \<times> nat \<times> string \<times> bool \<Rightarrow> nat" where "field_type f = fst f"
definition fsize :: "nat \<times> nat \<times> string \<times> bool \<Rightarrow> nat" where "fsize f = fst (snd f)"
definition field_name :: "nat \<times> nat \<times> string \<times> bool \<Rightarrow> string" where "field_name f = fst (snd (snd f))"
definition has_button :: "nat \<times> nat \<times> string \<times> bool \<Rightarrow> bool" where "has_button f = snd (snd (snd f))"

definition maxlen :: nat where
  "maxlen = foldl (\<lambda>n f. max n (length (field_name f))) 0 adif_fields + 1"

definition fastlookup :: string where
  "fastlookup = foldl (\<lambda>s f. let s = s @ field_name f; n = maxlen - length s mod maxlen
     in if 0 < n \<and> n < maxlen then s @ replicate n (CHR '' '') else s) [] adif_fields"

section \<open>Reading\<close>

datatype found = Field nat | Eor | Unknown

definition findfield :: "string \<Rightarrow> found" where
  "findfield p =
    (let p = c_str p in
     if map tolower_char (take 4 p) = ''eor>'' then Eor
     else case (index_of (CHR '':'') p, index_of (CHR ''>'') p) of
       (Some p1, Some p2) \<Rightarrow>
         if p1 < p2 then
           case strcasestr fastlookup (take p1 p) of
             Some pos \<Rightarrow> Field (field_type (adif_fields ! (pos div maxlen)))
           | None \<Rightarrow> Unknown
         else Unknown
     | _ \<Rightarrow> Unknown)"

text \<open>The number between the colon and the bracket, an \<^verbatim>\<open>int\<close> that is taken to wrap; other characters are passed over.\<close>

definition read_size :: "string \<Rightarrow> int" where
  "read_size ds = foldl (\<lambda>n c. if is_digit c then wrap32 (n * 10 + (of_char c - 48)) else n) 0 ds"

definition size_error :: "nat \<Rightarrow> string \<Rightarrow> nat \<Rightarrow> string" where
  "size_error recnbr tag maxsize = take 999 (''In record # '' @ show_nat (recnbr + 1) @ '', <'' @ tag @
     '', too large, saving first '' @ show_nat maxsize @ '' characters'' @ [CHR 0x0A])"

text \<open>The value is copied by length, so it may reach beyond the text; the NUL behind the buffer is still
  part of it. A negative length is a huge one for \<^verbatim>\<open>assign\<close>, which throws. The sizes of the fields are
  looked up by the number of the field.\<close>

definition fillfield :: "nat \<Rightarrow> nat \<Rightarrow> string \<Rightarrow> qso_rec \<times> string list \<Rightarrow> (qso_rec \<times> string list) result" where
  "fillfield recnbr fieldnum buff st =
    (case (index_of (CHR '':'') (c_str buff), index_of (CHR ''>'') (c_str buff)) of
       (Some p1, Some p2) \<Rightarrow>
         if p2 < p1 then Inr st
         else
           let fldsize = read_size (take (p2 - p1 - 1) (drop (p1 + 1) buff)); limit = fsize (adif_fields ! fieldnum)
           in if fldsize < 0 then Inl OutOfRange
              else if length buff + 1 < p2 + 1 + nat fldsize then Inl BadIndex
              else
                let fldsize = nat fldsize; tmp = take fldsize (drop (p2 + 1) (buff @ [CHR 0x00]));
                    (tmp, errs) = (if limit < fldsize
                                   then (take limit tmp, [size_error recnbr (toupper_str (take p1 buff) @ drop p1 (take (p2 + 1) buff)) limit])
                                   else (tmp, []));
                    tmp = (if (fieldnum = TIME_ON \<or> fieldnum = TIME_OFF) \<and> fldsize < 6
                           then tmp @ replicate (6 - length tmp) (CHR ''0'') else tmp)
                in Inr (putField fieldnum tmp (fst st), snd st @ errs)
     | _ \<Rightarrow> Inr st)"

record adif_reader =
  into :: qso_db
  read_errors :: "string list"

text \<open>The tags of one record from the position \<open>ptr\<close> of a bracket on; \<open>adifqso\<close> is the record in work.\<close>

definition at_field :: "nat \<Rightarrow> nat \<Rightarrow> string \<Rightarrow> nat option \<Rightarrow> adif_reader \<Rightarrow> (nat option \<times> adif_reader) result" where
  "at_field recnbr fieldnum buff adifqso rd =
    (let (i, db) = (case adifqso of Some i \<Rightarrow> (i, into rd) | None \<Rightarrow> newrec (into rd))
     in andthen (fillfield recnbr fieldnum buff (qsorec db ! i, read_errors rd)) (\<lambda>(r, errs).
       Inr (Some i, \<lparr>into = db\<lparr>qsorec := (qsorec db)[i := r]\<rparr>, read_errors = errs\<rparr>)))"

function read_tags :: "nat \<Rightarrow> string \<Rightarrow> nat \<Rightarrow> nat option \<Rightarrow> adif_reader \<Rightarrow> adif_reader result" where
  "read_tags recnbr sbuff ptr adifqso rd =
    (case find_char sbuff (CHR ''<'') (ptr + 1) of
       None \<Rightarrow> Inr rd
     | Some ptr2 \<Rightarrow>
         (case findfield (drop (ptr + 1) sbuff) of
            Eor \<Rightarrow> Inr rd
          | Unknown \<Rightarrow> read_tags recnbr sbuff ptr2 adifqso rd
          | Field n \<Rightarrow> andthen (at_field recnbr n (drop (ptr + 1) sbuff) adifqso rd)
              (\<lambda>(adifqso, rd). read_tags recnbr sbuff ptr2 adifqso rd)))"
  by pat_completeness auto
termination
  by (relation "measure (\<lambda>(_, sbuff, ptr, _). length sbuff - ptr)") (auto dest!: find_char_at)

declare read_tags.simps [simp del]

definition find_sub_from :: "string \<Rightarrow> string \<Rightarrow> nat \<Rightarrow> nat option" where
  "find_sub_from s pat p = map_option ((+) p) (find_sub (drop p s) pat)"

definition find_either :: "string \<Rightarrow> string \<Rightarrow> string \<Rightarrow> nat \<Rightarrow> nat option" where
  "find_either s pat1 pat2 p = (case find_sub_from s pat1 p of Some i \<Rightarrow> Some i | None \<Rightarrow> find_sub_from s pat2 p)"

function read_recs :: "string \<Rightarrow> nat \<Rightarrow> nat \<Rightarrow> adif_reader \<Rightarrow> adif_reader result" where
  "read_recs sbuff recnbr p rd =
    (case find_either sbuff ''<EOR>'' ''<eor>'' p of
       None \<Rightarrow> Inr rd
     | Some recend \<Rightarrow>
         andthen (read_tags recnbr sbuff p None rd) (\<lambda>rd.
           case find_char sbuff (CHR ''<'') (recend + 1) of
             None \<Rightarrow> Inr rd
           | Some p' \<Rightarrow> read_recs sbuff (recnbr + 1) p' rd))"
  by pat_completeness auto
termination
  by (relation "measure (\<lambda>(sbuff, _, p, _). length sbuff - p)")
    (auto dest!: find_char_at simp: find_either_def find_sub_from_def split: option.splits)

declare read_recs.simps [simp del]

text \<open>\<^verbatim>\<open>do_readfile\<close> of a file that could be opened.\<close>

definition do_readfile :: "string \<Rightarrow> qso_db \<Rightarrow> adif_reader result" where
  "do_readfile sbuff db =
    (let rd = \<lparr>into = db, read_errors = []\<rparr> in
     case find_either sbuff ''<EOH>'' ''<eoh>'' 0 of
       None \<Rightarrow> Inr rd
     | Some p \<Rightarrow>
         if find_sub sbuff ''<EOR>'' = None \<and> find_sub sbuff ''<eor>'' = None then Inr rd
         else case find_char sbuff (CHR ''<'') (p + 1) of
           None \<Rightarrow> Inr rd
         | Some p \<Rightarrow> read_recs sbuff 0 p rd)"

section \<open>Writing\<close>

definition szEOL :: string where "szEOL = [CHR 0x0A]"
definition szEOR :: string where "szEOR = ''<EOR>''"

definition adifmt :: "string \<Rightarrow> nat \<Rightarrow> string" where
  "adifmt name n = ''<'' @ name @ '':'' @ show_nat n @ ''>''"

text \<open>The two names that are left out are not names of the table.\<close>

definition adif_field :: "qso_rec \<Rightarrow> nat \<times> nat \<times> string \<times> bool \<Rightarrow> string" where
  "adif_field r f =
    (if field_name f = ''MYXCHG'' \<or> field_name f = ''XCHG1'' then ''''
     else
       let sFld = getField (field_type f) r
       in if sFld = '''' then '''' else take 199 (adifmt (field_name f) (length sFld)) @ sFld)"

definition adif_record :: "qso_rec \<Rightarrow> string" where
  "adif_record r = concat (map (adif_field r) adif_fields) @ szEOR @ szEOL"

definition ADIFHEADER :: "string \<Rightarrow> string \<Rightarrow> string \<Rightarrow> string" where
  "ADIFHEADER fname package version =
    ''File: '' @ fname @ szEOL @ adifmt ''ADIF_VER'' 5 @ ''2.2.7'' @ szEOL @
    adifmt ''PROGRAMID'' (length package) @ package @ szEOL @
    adifmt ''PROGRAMVERSION'' (length version) @ version @ szEOL @ ''<EOH>'' @ szEOL"

definition do_writelog :: "string \<Rightarrow> string \<Rightarrow> string \<Rightarrow> qso_db \<Rightarrow> string" where
  "do_writelog fname package version db =
    ADIFHEADER fname package version @ concat (map adif_record (take (nbrrecs db) (qsorec db)))"

text \<open>Export of the records marked with an E, in the fields whose buttons are set. \<open>mode_info\<close> lists short
  name, ADIF name, export mode and export submode.\<close>

type_synonym mode_names = "string \<times> string \<times> string \<times> string"

definition mode_match :: "string \<Rightarrow> mode_names \<Rightarrow> bool" where
  "mode_match adif m \<longleftrightarrow> (case m of (sname, adif_name, export_mode, export_submode) \<Rightarrow>
     toupper_str adif \<in> {toupper_str sname, toupper_str adif_name, toupper_str export_mode, toupper_str export_submode})"

definition adif2export :: "mode_names list \<Rightarrow> string \<Rightarrow> string" where
  "adif2export mode_info adif = (case filter (mode_match adif) mode_info of
     (_, _, export_mode, _) # _ \<Rightarrow> toupper_str export_mode | [] \<Rightarrow> toupper_str adif)"

definition adif2submode :: "mode_names list \<Rightarrow> string \<Rightarrow> string" where
  "adif2submode mode_info adif = (case filter (mode_match adif) mode_info of
     (_, _, _, export_submode) # _ \<Rightarrow> toupper_str export_submode | [] \<Rightarrow> '''')"

definition export_field :: "mode_names list \<Rightarrow> (nat \<Rightarrow> bool) \<Rightarrow> qso_rec \<Rightarrow> nat \<times> nat \<times> string \<times> bool \<Rightarrow> string" where
  "export_field mode_info selected r f =
    (if field_name f = ''MYXCHG'' \<or> field_name f = ''XCHG1'' \<or> \<not> has_button f \<or> \<not> selected (field_type f) then ''''
     else
       let sFld = getField (field_type f) r
       in if field_type f = ADIF_MODE \<and> sFld \<noteq> '''' then
            let m = adif2export mode_info sFld; sub = adif2submode mode_info sFld
            in adifmt ''MODE'' (length m) @ c_str m @ (if sub = '''' then '''' else adifmt ''SUBMODE'' (length sub) @ c_str sub)
          else if sFld = '''' then '''' else adifmt (field_name f) (length sFld) @ sFld)"

fun export_recs :: "mode_names list \<Rightarrow> (nat \<Rightarrow> bool) \<Rightarrow> qso_rec list \<Rightarrow> string \<times> qso_rec list" where
  "export_recs mode_info selected [] = ('''', [])"
| "export_recs mode_info selected (r # rs) =
    (let (text, rs) = export_recs mode_info selected rs
     in if take 1 (getField EXPORT r) = ''E''
        then (concat (map (export_field mode_info selected r) adif_fields) @ szEOR @ szEOL @ text, checkBand (putField EXPORT '''' r) # rs)
        else (text, r # rs))"

definition writeFile :: "mode_names list \<Rightarrow> (nat \<Rightarrow> bool) \<Rightarrow> string \<Rightarrow> string \<Rightarrow> string \<Rightarrow> qso_db \<Rightarrow> string \<times> qso_db" where
  "writeFile mode_info selected fname package version db =
    (let (text, rs) = export_recs mode_info selected (take (nbrrecs db) (qsorec db))
     in (ADIFHEADER fname package version @ text, db\<lparr>qsorec := rs @ drop (nbrrecs db) (qsorec db)\<rparr>))"

end
