(* ===== verification/Qso_Laws.thy ===== *)
theory Qso_Laws
  imports Qso_Db "HOL-Library.Multiset" "HOL-Library.List_Lexorder" "HOL-Library.Char_ord" "HOL-Library.Product_Lexorder"
begin

text \<open>
  What holds of the logbook database: the array against the plain list of records it stands for, the
  comparisons as orders by keys (where no frequency is a NaN) and what a sort by them gives, the faults of the day arithmetic and the
  old file format.
\<close>

section \<open>The array and the list of records\<close>

text \<open>Records in use have all their fields; records behind them are blank.\<close>

definition db_ok :: "qso_db \<Rightarrow> bool" where
  "db_ok db \<longleftrightarrow> length (qsorec db) = maxrecs db \<and> nbrrecs db \<le> maxrecs db \<and>
     (\<forall>i < nbrrecs db. length (qsorec db ! i) = NUMFIELDS) \<and>
     (\<forall>i < maxrecs db. nbrrecs db \<le> i \<longrightarrow> qsorec db ! i = qso_rec_new)"

definition records :: "qso_db \<Rightarrow> qso_rec list" where
  "records db = take (nbrrecs db) (qsorec db)"

text \<open>No field has a NUL, so assignments copy all of it.\<close>

definition plain :: "qso_rec \<Rightarrow> bool" where
  "plain r \<longleftrightarrow> length r = NUMFIELDS \<and> (\<forall>s \<in> set r. CHR 0x00 \<notin> set s)"

lemma c_str_id: "CHR 0x00 \<notin> set s \<Longrightarrow> c_str s = s"
  by (auto simp: c_str_def takeWhile_eq_all_conv)

lemma c_str_idem [simp]: "c_str (c_str s) = c_str s"
  by (simp add: c_str_def)

lemma c_str_Nil [simp]: "c_str [] = []"
  by (simp add: c_str_def)

lemma length_assign [simp]: "length (assign r) = length r"
  by (simp add: assign_def)

lemma assign_plain: "plain r \<Longrightarrow> assign r = r"
  by (simp add: assign_def plain_def c_str_id map_idI)

lemma assign_new [simp]: "assign qso_rec_new = qso_rec_new"
  by (simp add: assign_def qso_rec_new_def)

lemma length_completed [simp]: "length (completed r) = length r"
  by (simp add: completed_def checkDateTimes_def fill_pair_def checkBand_def Let_def)

lemma length_records: "db_ok db \<Longrightarrow> length (records db) = nbrrecs db"
  by (simp add: db_ok_def records_def)

lemma db_ok_new: "db_ok qso_db_new" "records qso_db_new = []"
  by (simp_all add: db_ok_def qso_db_new_def records_def)

lemma db_ok_delete: "db_ok (deleteRecs db)" "records (deleteRecs db) = []"
  by (simp_all add: db_ok_def deleteRecs_def records_def)

lemma records_copy:
  assumes "db_ok db"
  shows "db_ok (qso_db_copy db)" "records (qso_db_copy db) = map assign (records db)"
proof -
  show "db_ok (qso_db_copy db)" using assms by (simp add: db_ok_def qso_db_copy_def)
  show "records (qso_db_copy db) = map assign (records db)"
    using assms by (intro nth_equalityI) (simp_all add: db_ok_def qso_db_copy_def records_def)
qed

text \<open>Growing copies the records in use, so it changes them only if one has a NUL.\<close>

lemma records_grow:
  assumes "db_ok db" "\<forall>r \<in> set (records db). plain r"
  shows "db_ok (grow db)" "records (grow db) = records db" "nbrrecs (grow db) = nbrrecs db"
    "nbrrecs db < maxrecs (grow db)"
proof -
  have same: "map (\<lambda>i. assign (qsorec db ! i)) [0..<nbrrecs db] = records db"
  proof (rule nth_equalityI)
    show "length (map (\<lambda>i. assign (qsorec db ! i)) [0..<nbrrecs db]) = length (records db)"
      using length_records [OF assms(1)] by simp
    fix i assume "i < length (map (\<lambda>i. assign (qsorec db ! i)) [0..<nbrrecs db])"
    then have i: "i < nbrrecs db" by simp
    then have "records db ! i = qsorec db ! i" by (simp add: records_def)
    moreover have "records db ! i \<in> set (records db)" using i length_records [OF assms(1)] by simp
    ultimately show "map (\<lambda>i. assign (qsorec db ! i)) [0..<nbrrecs db] ! i = records db ! i"
      using i assign_plain assms(2) by simp
  qed
  have len: "length (records db) = nbrrecs db" using length_records [OF assms(1)] .
  have all: "\<forall>i < nbrrecs db. length (records db ! i) = NUMFIELDS"
    using assms(1) by (simp add: records_def db_ok_def)
  show n: "nbrrecs (grow db) = nbrrecs db" by (simp add: grow_def Let_def)
  show "nbrrecs db < maxrecs (grow db)"
    using assms(1) by (auto simp: grow_def Let_def db_ok_def INCRRECS_def)
  show "db_ok (grow db)"
    using assms(1) len all by (auto simp: grow_def Let_def same db_ok_def nth_append)
  show "records (grow db) = records db"
  proof (cases "nbrrecs db = maxrecs db")
    case True
    have "qsorec (grow db) = records db @ replicate (maxrecs db + INCRRECS - nbrrecs db) qso_rec_new"
      unfolding same [symmetric] using True by (simp add: grow_def Let_def)
    then show ?thesis using len by (simp add: records_def [of "grow db"] n)
  next
    case False
    then show ?thesis by (simp add: grow_def)
  qed
qed

lemma qsoNewRec_appends:
  assumes "db_ok db" "\<forall>r \<in> set (records db). plain r" "length r = NUMFIELDS"
  shows "db_ok (qsoNewRec r db) \<and> records (qsoNewRec r db) = records db @ [completed r]"
proof -
  note g = records_grow [OF assms(1,2)]
  have "nbrrecs (grow db) < length (qsorec (grow db))" using g by (simp add: db_ok_def)
  then show ?thesis
    using g assms(3) unfolding qsoNewRec_def Let_def
    by (auto simp: db_ok_def records_def nth_list_update take_Suc_conv_app_nth)
qed

lemma newrec_appends:
  assumes "db_ok db" "\<forall>r \<in> set (records db). plain r"
  shows "case newrec db of (i, db') \<Rightarrow> i = nbrrecs db \<and> i < length (qsorec db') \<and> qsorec db' ! i = qso_rec_new \<and>
     db_ok db' \<and> records db' = records db @ [qso_rec_new] \<and> nbrrecs db' = Suc (nbrrecs db)"
proof -
  note g = records_grow [OF assms]
  have len: "nbrrecs (grow db) < length (qsorec (grow db))" using g by (simp add: db_ok_def)
  moreover have "qsorec (grow db) ! nbrrecs db = qso_rec_new" using g by (simp add: db_ok_def)
  moreover have "length qso_rec_new = NUMFIELDS" by (simp add: qso_rec_new_def)
  ultimately show ?thesis
    using g unfolding newrec_def Let_def
    by (auto simp: db_ok_def records_def take_Suc_conv_app_nth less_Suc_eq)
qed

lemma shift_left:
  assumes "m < length rs"
  shows "length (foldl (\<lambda>rs i. rs[i := assign (rs ! (i + 1))]) rs [k..<m]) = length rs"
    "j < length rs \<Longrightarrow> foldl (\<lambda>rs i. rs[i := assign (rs ! (i + 1))]) rs [k..<m] ! j =
       (if k \<le> j \<and> j < m then assign (rs ! (j + 1)) else rs ! j)"
proof -
  have len: "length (foldl (\<lambda>rs i. rs[i := assign (rs ! (i + 1))]) rs is) = length rs" for "is" and rs :: "qso_rec list"
    by (induction "is" arbitrary: rs) simp_all
  show "length (foldl (\<lambda>rs i. rs[i := assign (rs ! (i + 1))]) rs [k..<m]) = length rs" by (rule len)
  show "j < length rs \<Longrightarrow> foldl (\<lambda>rs i. rs[i := assign (rs ! (i + 1))]) rs [k..<m] ! j =
       (if k \<le> j \<and> j < m then assign (rs ! (j + 1)) else rs ! j)"
    using assms
  proof (induction m arbitrary: j)
    case (Suc m)
    show ?case
    proof (cases "k \<le> m")
      case True
      have m: "m < length rs" "Suc m < length rs" using Suc.prems by simp_all
      have "foldl (\<lambda>rs i. rs[i := assign (rs ! (i + 1))]) rs [k..<m] ! Suc m = rs ! Suc m"
        using Suc.IH [of "Suc m"] m by simp
      with Suc.IH [of j] Suc.prems m True len show ?thesis by (auto simp: nth_list_update less_Suc_eq)
    next
      case False
      then show ?thesis using Suc.prems by auto
    qed
  qed simp
qed

lemma qsoDelRec_removes:
  assumes "db_ok db" "\<forall>r \<in> set (records db). plain r"
  shows "db_ok (qsoDelRec i db)" "records (qsoDelRec i db) =
    (if 0 \<le> i \<and> i < int (nbrrecs db) then take (nat i) (records db) @ drop (nat i + 1) (records db) else records db)"
proof -
  let ?n = "nbrrecs db" and ?k = "nat i"
  let ?rs = "foldl (\<lambda>rs i. rs[i := assign (rs ! (i + 1))]) (qsorec db) [?k..<?n - 1]"
  have "db_ok (qsoDelRec i db) \<and> records (qsoDelRec i db) = take ?k (records db) @ drop (?k + 1) (records db)"
    if i: "0 \<le> i" "i < int ?n"
  proof -
    have k: "?k < ?n" using i by simp
    have db: "length (qsorec db) = maxrecs db" "?n \<le> maxrecs db" using assms(1) by (simp_all add: db_ok_def)
    have m: "?n - 1 < length (qsorec db)" using k db by simp
    note rs = shift_left [OF m, where k = ?k]
    have del: "qsoDelRec i db = db\<lparr>qsorec := ?rs[?n - 1 := clearRec (?rs ! (?n - 1))], nbrrecs := ?n - 1\<rparr>"
      using i by (simp add: qsoDelRec_def Let_def)
    have rec: "records db ! j = qsorec db ! j" "plain (qsorec db ! j)" if "j < ?n" for j
    proof -
      show "records db ! j = qsorec db ! j" using that by (simp add: records_def)
      then show "plain (qsorec db ! j)"
        using that assms(2) length_records [OF assms(1)] by (metis nth_mem)
    qed
    have at: "?rs ! j = (if j < ?k then qsorec db ! j else qsorec db ! (j + 1))" if "j < ?n - 1" for j
      using rs(2) [where j = j] that db rec(2) [of "j + 1"] assign_plain by auto
    have "length (?rs ! (?n - 1)) = NUMFIELDS"
      using rs(2) [where j = "?n - 1"] m rec(2) [of "?n - 1"] k by (simp add: plain_def)
    then have clear: "clearRec (?rs ! (?n - 1)) = qso_rec_new"
      by (simp add: clearRec_def qso_rec_new_def map_replicate_const)
    have "db_ok (qsoDelRec i db)"
      using assms(1) rs(1) at db k m clear rec(2) rs(2)
      unfolding del by (auto simp: db_ok_def nth_list_update plain_def)
    moreover have "records (qsoDelRec i db) = take ?k (records db) @ drop (?k + 1) (records db)"
    proof (rule nth_equalityI)
      show "length (records (qsoDelRec i db)) = length (take ?k (records db) @ drop (?k + 1) (records db))"
        using length_records [OF assms(1)] rs(1) db k by (simp add: del records_def)
      fix j assume "j < length (records (qsoDelRec i db))"
      then have j: "j < ?n - 1" by (simp add: del records_def)
      then show "records (qsoDelRec i db) ! j = (take ?k (records db) @ drop (?k + 1) (records db)) ! j"
        using at [OF j] rec(1) [of j] rec(1) [of "j + 1"] k length_records [OF assms(1)]
        by (auto simp: del records_def [of "db\<lparr>qsorec := _, nbrrecs := _\<rparr>"] nth_append)
    qed
    ultimately show ?thesis by simp
  qed
  moreover have "qsoDelRec i db = db" if "\<not> (0 \<le> i \<and> i < int ?n)"
    using that by (auto simp: qsoDelRec_def)
  ultimately show "db_ok (qsoDelRec i db)" "records (qsoDelRec i db) =
    (if 0 \<le> i \<and> i < int ?n then take ?k (records db) @ drop (?k + 1) (records db) else records db)"
    using assms(1) by (metis, metis)
qed

lemma qsoUpdRec_replaces:
  assumes "db_ok db" "length r = NUMFIELDS"
  shows "db_ok (qsoUpdRec i r db)" "records (qsoUpdRec i r db) =
    (if 0 \<le> i \<and> i < int (nbrrecs db) then (records db)[nat i := checkBand (assign r)] else records db)"
proof -
  have "length (checkBand (assign r)) = NUMFIELDS" using assms(2) by (simp add: checkBand_def Let_def)
  then show "db_ok (qsoUpdRec i r db)"
    using assms(1) by (auto simp: qsoUpdRec_def db_ok_def nth_list_update)
  show "records (qsoUpdRec i r db) =
    (if 0 \<le> i \<and> i < int (nbrrecs db) then (records db)[nat i := checkBand (assign r)] else records db)"
    by (auto simp: qsoUpdRec_def records_def take_update_swap)
qed

section \<open>Records stay plain\<close>

lemma tolower_NUL: "tolower_char c = CHR 0x00 \<longleftrightarrow> c = CHR 0x00"
proof (cases "65 \<le> (of_char c :: nat) \<and> (of_char c :: nat) \<le> 90")
  case True
  then have "of_char (tolower_char c) \<noteq> (of_char (CHR 0x00) :: nat)" "of_char c \<noteq> (of_char (CHR 0x00) :: nat)"
    by (simp_all add: tolower_char_def of_char_of)
  then show ?thesis by metis
next
  case False
  then show ?thesis by (auto simp only: tolower_char_def if_False)
qed

lemma band_names_plain: "\<forall>p \<in> set band_names. CHR 0x00 \<notin> set (fst p) \<and> CHR 0x00 \<notin> set (snd p)"
  by (simp add: band_names_def)

lemma band_freq_plain: "CHR 0x00 \<notin> set (band_freq s)"
proof (cases "filter (\<lambda>p. fst p = s) (take BAND_OTHER band_names)")
  case (Cons p ps)
  then have "p \<in> set (filter (\<lambda>p. fst p = s) (take BAND_OTHER band_names))" by simp
  then have "p \<in> set band_names" by (auto dest: in_set_takeD)
  then show ?thesis using Cons band_names_plain by (simp add: band_freq_def)
qed (simp add: band_freq_def)

lemma band_of_hz_le: "band_of_hz h \<le> BAND_OTHER"
proof -
  have "(case xs of i # _ \<Rightarrow> i | [] \<Rightarrow> BAND_OTHER) \<le> BAND_OTHER" if "set xs \<subseteq> {0..<BAND_OTHER}" for xs
    using that by (cases xs) simp_all
  moreover have "set (filter P [0..<BAND_OTHER]) \<subseteq> {0..<BAND_OTHER}" for P by auto
  ultimately show ?thesis unfolding band_of_hz_def Let_def by blast
qed

lemma band_name_plain: "CHR 0x00 \<notin> set (band_name s)"
proof -
  have "band s \<le> BAND_OTHER" by (simp add: band_def case_prod_beta band_of_hz_le)
  then have "band s < length band_names" by (simp add: band_names_def BAND_OTHER_def)
  from bspec [OF band_names_plain nth_mem [OF this]] show ?thesis unfolding band_name_def by blast
qed

lemma plain_update: "plain r \<Longrightarrow> CHR 0x00 \<notin> set s \<Longrightarrow> plain (r[i := s])"
  by (auto simp: plain_def dest!: set_update_subset_insert [THEN subsetD])

lemma plain_nth: "plain r \<Longrightarrow> i < NUMFIELDS \<Longrightarrow> CHR 0x00 \<notin> set (r ! i)"
  by (simp add: plain_def)

lemma plain_fill_pair: "plain r \<Longrightarrow> a < NUMFIELDS \<Longrightarrow> b < NUMFIELDS \<Longrightarrow> plain (fill_pair a b r)"
  by (auto simp: fill_pair_def intro!: plain_update dest: plain_nth)

lemma plain_checkBand:
  assumes "plain r"
  shows "plain (checkBand r)"
proof -
  have "CHR 0x00 \<notin> set (map tolower_char (r ! BAND))"
    using plain_nth [OF assms, of BAND] by (auto simp: tolower_NUL dest: sym)
  note up = plain_update [OF assms this] plain_update [OF assms band_name_plain]
  have "plain (r[BAND := map tolower_char (r ! BAND), FREQ := band_freq (c_str (map tolower_char (r ! BAND)))])"
    by (rule plain_update [OF up(1) band_freq_plain])
  moreover have "plain (r[BAND := band_name (c_str (r ! FREQ))])" by (rule up(2))
  ultimately show ?thesis using assms unfolding checkBand_def Let_def by presburger
qed

lemma plain_completed: "plain r \<Longrightarrow> plain (completed r)"
  by (simp add: completed_def assign_plain checkDateTimes_def plain_fill_pair plain_checkBand)

section \<open>The comparisons\<close>

text \<open>What the C library asks of a comparison it is to sort an array by, for the elements of the array.\<close>

locale qsort_order =
  fixes elems :: "'a set" and cmp :: "'a \<Rightarrow> 'a \<Rightarrow> int"
  assumes flip: "a \<in> elems \<Longrightarrow> b \<in> elems \<Longrightarrow> sgn (cmp b a) = - sgn (cmp a b)"
    and le_trans: "a \<in> elems \<Longrightarrow> b \<in> elems \<Longrightarrow> c \<in> elems \<Longrightarrow> cmp a b \<le> 0 \<Longrightarrow> cmp b c \<le> 0 \<Longrightarrow> cmp a c \<le> 0"
begin

lemma same: "a \<in> elems \<Longrightarrow> cmp a a = 0"
  using flip [of a a] by (simp add: sgn_if split: if_splits)

lemma flip_zero: "a \<in> elems \<Longrightarrow> b \<in> elems \<Longrightarrow> cmp b a = 0 \<longleftrightarrow> cmp a b = 0"
  using flip [of b a] by (simp add: sgn_if split: if_splits)

lemma flip_less: "a \<in> elems \<Longrightarrow> b \<in> elems \<Longrightarrow> cmp b a < 0 \<longleftrightarrow> 0 < cmp a b"
  using flip [of b a] by (simp add: sgn_if split: if_splits)

lemma flip_le: "a \<in> elems \<Longrightarrow> b \<in> elems \<Longrightarrow> cmp b a \<le> 0 \<longleftrightarrow> 0 \<le> cmp a b"
  using flip_zero [of b a] flip_less [of b a] by linarith

lemma less_le_trans: "a \<in> elems \<Longrightarrow> b \<in> elems \<Longrightarrow> c \<in> elems \<Longrightarrow> cmp a b < 0 \<Longrightarrow> cmp b c \<le> 0 \<Longrightarrow> cmp a c < 0"
  using le_trans [of a b c] le_trans [of b c a] flip_zero [of a c] flip_le [of a b] flip_less [of a b] flip_le [of c a]
  by linarith

lemma le_less_trans: "a \<in> elems \<Longrightarrow> b \<in> elems \<Longrightarrow> c \<in> elems \<Longrightarrow> cmp a b \<le> 0 \<Longrightarrow> cmp b c < 0 \<Longrightarrow> cmp a c < 0"
  using le_trans [of a b c] le_trans [of c a b] flip_zero [of a c] flip_le [of c b] flip_less [of b c] flip_le [of c a]
    flip_less [of c b]
  by linarith

lemma eq_trans: "a \<in> elems \<Longrightarrow> b \<in> elems \<Longrightarrow> c \<in> elems \<Longrightarrow> cmp a b = 0 \<Longrightarrow> cmp b c = 0 \<Longrightarrow> cmp a c = 0"
  using le_trans [of a b c] le_trans [of c b a] flip_zero [of a b] flip_zero [of b c] flip_le [of a c]
  by simp

text \<open>A list in strict order, and one of the same elements in order: the second is in strict order too.\<close>

lemma strict_again:
  assumes "sorted_wrt (\<lambda>a b. cmp a b < 0) xs" "mset ys = mset xs" "sorted_wrt (\<lambda>a b. cmp a b \<le> 0) ys" "set xs \<subseteq> elems"
  shows "sorted_wrt (\<lambda>a b. cmp a b < 0) ys"
proof -
  have d: "distinct xs \<and> (\<forall>a \<in> set xs. \<forall>b \<in> set xs. a \<noteq> b \<longrightarrow> cmp a b \<noteq> 0)"
    using assms(1,4)
  proof (induction xs)
    case (Cons x xs)
    then have "\<forall>y \<in> set xs. cmp x y < 0 \<and> cmp y x \<noteq> 0" using flip_zero [of x] by (auto simp: subset_iff)
    with Cons same [of x] show ?case by auto
  qed simp
  have "distinct ys" "set ys = set xs" using d mset_eq_imp_distinct_iff [OF assms(2)] mset_eq_setD [OF assms(2)] by simp_all
  then have "cmp (ys ! i) (ys ! j) \<noteq> 0" if "i < j" "j < length ys" for i j
    using d that nth_eq_iff_index_eq [of ys i j] nth_mem [of i ys] nth_mem [of j ys] by simp
  with assms(3) show ?thesis by (fastforce simp: sorted_wrt_iff_nth_less)
qed

end

lemma qsort_order_subset: "qsort_order A f \<Longrightarrow> B \<subseteq> A \<Longrightarrow> qsort_order B f"
  by unfold_locales (auto intro: qsort_order.flip qsort_order.le_trans)

lemma qsort_order_swapped: "qsort_order A f \<Longrightarrow> qsort_order A (swapped g f)"
  by unfold_locales (auto simp: swapped_def intro: qsort_order.flip qsort_order.le_trans)

text \<open>The order of numbers, with what is not a number behind the others.\<close>

instantiation double :: linorder
begin

definition less_eq_double :: "double \<Rightarrow> double \<Rightarrow> bool" where
  "less_eq_double x y \<longleftrightarrow> y = NaN \<or> x \<noteq> NaN \<and> (x = y \<or> dbl_less x y)"

definition less_double :: "double \<Rightarrow> double \<Rightarrow> bool" where
  "less_double x y \<longleftrightarrow> x \<noteq> NaN \<and> (y = NaN \<or> dbl_less x y)"

instance
proof
  fix x y z :: double
  show "x < y \<longleftrightarrow> x \<le> y \<and> \<not> y \<le> x"
    by (cases x; cases y) (auto simp: less_double_def less_eq_double_def)
  show "x \<le> x" by (simp add: less_eq_double_def)
  show "x \<le> y \<or> y \<le> x" by (cases x; cases y) (auto simp: less_eq_double_def)
  show "x \<le> y \<Longrightarrow> y \<le> z \<Longrightarrow> x \<le> z" by (cases x; cases y; cases z) (auto simp: less_eq_double_def)
  show "x \<le> y \<Longrightarrow> y \<le> x \<Longrightarrow> x = y" by (cases x; cases y) (auto simp: less_eq_double_def)
qed

end

text \<open>A comparison that orders by a key.\<close>

definition keyed :: "'a set \<Rightarrow> ('a \<Rightarrow> 'a \<Rightarrow> int) \<Rightarrow> ('a \<Rightarrow> 'k :: linorder) \<Rightarrow> bool" where
  "keyed A f k \<longleftrightarrow> (\<forall>a \<in> A. \<forall>b \<in> A. (f a b < 0 \<longleftrightarrow> k a < k b) \<and> (f a b = 0 \<longleftrightarrow> k a = k b))"

lemma keyed_le: "keyed A f k \<Longrightarrow> a \<in> A \<Longrightarrow> b \<in> A \<Longrightarrow> f a b \<le> 0 \<longleftrightarrow> k a \<le> k b"
  by (auto simp: keyed_def le_less)

lemma keyed_order:
  assumes "keyed A f k"
  shows "qsort_order A f"
proof
  fix a b c
  assume a: "a \<in> A" "b \<in> A"
  have "f x y < 0 \<longleftrightarrow> k x < k y" "f x y = 0 \<longleftrightarrow> k x = k y" if "x \<in> A" "y \<in> A" for x y
    using assms that by (auto simp: keyed_def)
  from this [OF a] this [OF a(2,1)] show "sgn (f b a) = - sgn (f a b)"
    by (cases "k a" "k b" rule: linorder_cases) (auto simp: sgn_if)
  assume "c \<in> A" "f a b \<le> 0" "f b c \<le> 0"
  then show "f a c \<le> 0" using a keyed_le [OF assms] order.trans [of "k a" "k b" "k c"] by simp
qed

lemma keyed_or_else: "keyed A f k \<Longrightarrow> keyed A h l \<Longrightarrow> keyed A (\<lambda>a b. or_else (f a b) (h a b)) (\<lambda>a. (k a, l a))"
  by (auto simp: keyed_def or_else_def less_prod_simp)

lemma str_compare_less: "str_compare a b < 0 \<longleftrightarrow> a < b"
  by (induction a b rule: str_compare.induct) (auto simp: less_char_def)

lemma str_compare_zero: "str_compare a b = 0 \<longleftrightarrow> a = b"
  by (induction a b rule: str_compare.induct) (auto simp: less_char_def linorder_neq_iff)

lemma keyed_str: "keyed A (\<lambda>a b. str_compare (key a) (key b)) key"
  by (simp add: keyed_def str_compare_less str_compare_zero)

definition date_key :: "ordering \<Rightarrow> qso_rec \<Rightarrow> string" where
  "date_key g r = r ! (if date_off g then QSO_DATE_OFF else QSO_DATE)"

definition time_key :: "ordering \<Rightarrow> qso_rec \<Rightarrow> string" where
  "time_key g r = r ! (if date_off g then TIME_OFF else TIME_ON)"

lemma keyed_fields:
  "keyed A compareCalls (\<lambda>r. r ! CALL)" "keyed A compareModes (\<lambda>r. r ! ADIF_MODE)"
  "keyed A (compareDates g) (date_key g)" "keyed A (compareTimes g) (time_key g)"
  using keyed_str [of A "\<lambda>r. r ! CALL"] keyed_str [of A "\<lambda>r. r ! ADIF_MODE"] keyed_str [of A "date_key g"] keyed_str [of A "time_key g"]
  by (simp_all add: keyed_def compareCalls_def compareModes_def compareDates_def compareTimes_def date_key_def time_key_def split: if_splits)

text \<open>A frequency is in order with others only if it is a number.\<close>

definition numeric :: "qso_rec \<Rightarrow> bool" where "numeric r \<longleftrightarrow> atof (r ! FREQ) \<noteq> NaN"

lemma atof_number:
  assumes "\<not> prefix_of ''nan'' (map tolower_char (snd (scan_sign (dropWhile is_space (c_str s)))))"
  shows "atof s \<noteq> NaN"
proof -
  have "round_double x \<noteq> NaN" for x by (simp add: round_double_def Let_def)
  then show ?thesis using assms by (simp add: atof_def strtod_def Let_def case_prod_beta)
qed

lemma atof_bands: "\<forall>p \<in> set band_names. atof (snd p) \<noteq> NaN"
proof -
  have "\<forall>p \<in> set band_names. \<not> prefix_of ''nan'' (map tolower_char (snd (scan_sign (dropWhile is_space (c_str (snd p))))))"
    by code_simp
  then show ?thesis using atof_number by blast
qed

lemma keyed_freqs: "keyed (Collect numeric) compareFreqs (\<lambda>r. atof (r ! FREQ))"
proof -
  have "dbl_eq x y \<longleftrightarrow> x = y" "dbl_less x y \<longleftrightarrow> x < y" if "x \<noteq> NaN" "y \<noteq> NaN" for x y
    using that by (cases x; cases y; auto simp: less_double_def)+
  then show ?thesis by (auto simp: keyed_def compareFreqs_def Let_def numeric_def)
qed

definition date_keys :: "ordering \<Rightarrow> qso_rec \<Rightarrow> string \<times> string \<times> string \<times> string \<times> double" where
  "date_keys g r = (date_key g r, time_key g r, r ! CALL, r ! ADIF_MODE, atof (r ! FREQ))"

definition mode_keys :: "ordering \<Rightarrow> qso_rec \<Rightarrow> string \<times> string \<times> string \<times> string \<times> double" where
  "mode_keys g r = (r ! ADIF_MODE, date_key g r, time_key g r, r ! CALL, atof (r ! FREQ))"

definition call_keys :: "ordering \<Rightarrow> qso_rec \<Rightarrow> string \<times> string \<times> string \<times> string \<times> double" where
  "call_keys g r = (r ! CALL, date_key g r, time_key g r, r ! ADIF_MODE, atof (r ! FREQ))"

definition freq_keys :: "ordering \<Rightarrow> qso_rec \<Rightarrow> double \<times> string \<times> string \<times> string \<times> string" where
  "freq_keys g r = (atof (r ! FREQ), date_key g r, time_key g r, r ! CALL, r ! ADIF_MODE)"

text \<open>\<open>ahead\<close> is the order of the keys, or the opposite one.\<close>

definition ahead :: "ordering \<Rightarrow> 'k :: linorder \<Rightarrow> 'k \<Rightarrow> bool" where
  "ahead g x y \<longleftrightarrow> (if reversed g then y \<le> x else x \<le> y)"

lemma keyed_swapped:
  assumes "keyed (Collect numeric) f k"
  shows "qsort_order (Collect numeric) (swapped g f)"
    "numeric a \<Longrightarrow> numeric b \<Longrightarrow> swapped g f a b \<le> 0 \<longleftrightarrow> ahead g (k a) (k b)"
  using qsort_order_swapped [OF keyed_order [OF assms]] keyed_le [OF assms] by (auto simp: swapped_def ahead_def)

lemmas keyeds = keyed_or_else keyed_fields keyed_freqs

lemmas keyed_date = keyed_swapped [OF keyeds(1) [OF keyeds(4) keyeds(1) [OF keyeds(5) keyeds(1) [OF keyeds(2) keyeds(1) [OF keyeds(3,6)]]]]]
lemmas keyed_mode = keyed_swapped [OF keyeds(1) [OF keyeds(3) keyeds(1) [OF keyeds(4) keyeds(1) [OF keyeds(5) keyeds(1) [OF keyeds(2,6)]]]]]
lemmas keyed_call = keyed_swapped [OF keyeds(1) [OF keyeds(2) keyeds(1) [OF keyeds(4) keyeds(1) [OF keyeds(5) keyeds(1) [OF keyeds(3,6)]]]]]
lemmas keyed_freq = keyed_swapped [OF keyeds(1) [OF keyeds(6) keyeds(1) [OF keyeds(4) keyeds(1) [OF keyeds(5) keyeds(1) [OF keyeds(2,3)]]]]]

text \<open>The four comparisons handed to \<^verbatim>\<open>qsort\<close>.\<close>

interpretation bydate: qsort_order "Collect numeric" "comparebydate g" for g
  unfolding comparebydate_def by (rule keyed_date(1))

interpretation bymode: qsort_order "Collect numeric" "comparebymode g" for g
  unfolding comparebymode_def by (rule keyed_mode(1))

interpretation bycall: qsort_order "Collect numeric" "comparebycall g" for g
  unfolding comparebycall_def by (rule keyed_call(1))

interpretation byfreq: qsort_order "Collect numeric" "comparebyfreq g" for g
  unfolding comparebyfreq_def by (rule keyed_freq(1))

lemma compared_keys:
  assumes "numeric a" "numeric b"
  shows "comparebydate g a b \<le> 0 \<longleftrightarrow> ahead g (date_keys g a) (date_keys g b)"
    "comparebymode g a b \<le> 0 \<longleftrightarrow> ahead g (mode_keys g a) (mode_keys g b)"
    "comparebycall g a b \<le> 0 \<longleftrightarrow> ahead g (call_keys g a) (call_keys g b)"
    "comparebyfreq g a b \<le> 0 \<longleftrightarrow> ahead g (freq_keys g a) (freq_keys g b)"
  unfolding comparebydate_def comparebymode_def comparebycall_def comparebyfreq_def date_keys_def mode_keys_def
    call_keys_def freq_keys_def
  by (rule keyed_date(2) [OF assms], rule keyed_mode(2) [OF assms], rule keyed_call(2) [OF assms], rule keyed_freq(2) [OF assms])

text \<open>What the C library promises of \<^verbatim>\<open>qsort\<close>; how it orders what compares equal is not said.\<close>

definition sorts :: "qsort_fun \<Rightarrow> bool" where
  "sorts qs \<longleftrightarrow> (\<forall>f xs. qsort_order (set xs) f \<longrightarrow> mset (qs f xs) = mset xs \<and> sorted_wrt (\<lambda>a b. f a b \<le> 0) (qs f xs))"

lemma records_sort_with:
  assumes "sorts qs" "qsort_order A f" "set (records db) \<subseteq> A" "db_ok db"
  shows "records (sort_with qs f db) = qs f (records db)" "mset (records (sort_with qs f db)) = mset (records db)"
    "sorted_wrt (\<lambda>a b. f a b \<le> 0) (records (sort_with qs f db))" "db_ok (sort_with qs f db)"
proof -
  have m: "mset (qs f (records db)) = mset (records db)" and s: "sorted_wrt (\<lambda>a b. f a b \<le> 0) (qs f (records db))"
    using assms(1) qsort_order_subset [OF assms(2,3)] by (simp_all add: sorts_def)
  have len: "length (qs f (records db)) = nbrrecs db" using mset_eq_length [OF m] length_records [OF assms(4)] by simp
  show r: "records (sort_with qs f db) = qs f (records db)"
    using len by (simp add: sort_with_def records_def)
  show "mset (records (sort_with qs f db)) = mset (records db)" "sorted_wrt (\<lambda>a b. f a b \<le> 0) (records (sort_with qs f db))"
    using m s by (simp_all add: r)
  have "\<forall>r \<in> set (records db). length r = NUMFIELDS" using assms(4) by (auto simp: db_ok_def records_def in_set_conv_nth)
  then have "\<forall>r \<in> set (qs f (records db)). length r = NUMFIELDS" using mset_eq_setD [OF m] by simp
  then have "\<forall>i < nbrrecs db. length (qs f (records db) ! i) = NUMFIELDS" using len by simp
  then show "db_ok (sort_with qs f db)"
    using assms(4) len by (auto simp: db_ok_def sort_with_def records_def [symmetric] nth_append)
qed

text \<open>A sort that exists: insertion in order.\<close>

fun insert_by :: "(qso_rec \<Rightarrow> qso_rec \<Rightarrow> int) \<Rightarrow> qso_rec \<Rightarrow> qso_rec list \<Rightarrow> qso_rec list" where
  "insert_by f x [] = [x]"
| "insert_by f x (y # ys) = (if f x y \<le> 0 then x # y # ys else y # insert_by f x ys)"

definition insertion_sort :: qsort_fun where
  "insertion_sort f xs = foldr (insert_by f) xs []"

lemma sorts_insertion: "sorts insertion_sort"
proof -
  have m: "mset (insert_by f x ys) = add_mset x (mset ys)" for f x ys
    by (induction ys) simp_all
  have set: "set (insert_by f x ys) = insert x (set ys)" for f x ys
    using m [of f x ys] by (metis set_mset_add_mset_insert set_mset_mset)
  have s: "sorted_wrt (\<lambda>a b. f a b \<le> 0) (insert_by f x ys)"
    if f: "qsort_order A f" and ys: "sorted_wrt (\<lambda>a b. f a b \<le> 0) ys" "insert x (set ys) \<subseteq> A" for A f x ys
    using ys
  proof (induction ys)
    case (Cons y ys)
    then show ?case
      using qsort_order.le_trans [OF f, of x y] qsort_order.flip_le [OF f, of x y] by (auto simp: set subset_iff)
  qed simp
  have "mset (insertion_sort f xs) = mset xs" for f xs
    by (induction xs) (simp_all add: insertion_sort_def m)
  moreover have "sorted_wrt (\<lambda>a b. f a b \<le> 0) (insertion_sort f xs)" if "qsort_order A f" "set xs \<subseteq> A" for A f xs
    using that(2)
  proof (induction xs)
    case (Cons x xs)
    have "set (insertion_sort f xs) = set xs" by (induction xs) (simp_all add: insertion_sort_def set)
    with Cons show ?case using s [OF that(1), of "insertion_sort f xs" x] by (simp add: insertion_sort_def)
  qed (simp add: insertion_sort_def)
  ultimately show ?thesis by (auto simp: sorts_def)
qed


section \<open>Days\<close>

text \<open>Two digits, read without taking \<^verbatim>\<open>'0'\<close> off, are far beyond the months.\<close>

lemma schar_digit: "is_digit c \<Longrightarrow> 48 \<le> schar c \<and> schar c \<le> 57"
  by (simp add: is_digit_def schar_def Let_def)

lemma epoch_dt_digits:
  assumes "8 \<le> length szdate" "\<forall>i < 8. is_digit (szdate ! i)"
  shows "epoch_dt szdate sztime = Inl BadIndex"
proof -
  have d: "chars_at 8 szdate = Inr (map (\<lambda>i. schar (szdate ! i)) [0..<8])"
    using assms(1) by (simp add: chars_at_def)
  have m: "\<not> 10 * schar (szdate ! 4) + schar (szdate ! 5) \<le> 12"
    using schar_digit [of "szdate ! 4"] schar_digit [of "szdate ! 5"] assms(2) by force
  then have "\<not> schar (szdate ! 4) * 10 + schar (szdate ! 5) \<le> 12" by (simp add: mult.commute)
  then show ?thesis
    by (cases "chars_at 6 sztime")
      (auto simp: epoch_dt_def d qso_dayofyear_def Let_def chars_at_def split: if_splits)
qed

definition dated :: "qso_rec \<Rightarrow> bool" where
  "dated r \<longleftrightarrow> 8 \<le> length (getField QSO_DATE r) \<and> (\<forall>i < 8. is_digit (getField QSO_DATE r ! i))"

section \<open>The old file format\<close>

definition in_fields :: "string list \<Rightarrow> stream" where
  "in_fields fs = \<lparr>rest = concat (map (\<lambda>f. f @ [CHR 0x09]) fs), eof = False, failed = False\<rparr>"

definition short_field :: "string \<Rightarrow> bool" where
  "short_field f \<longleftrightarrow> CHR 0x09 \<notin> set f \<and> CHR 0x00 \<notin> set f \<and> length f < 1024"

lemma takeWhile_field: "d \<notin> set f \<Longrightarrow> takeWhile (\<lambda>c. c \<noteq> d) (f @ d # r) = f"
  by (induction f) auto

lemma getline_field: "short_field f \<Longrightarrow> getline 1024 (CHR 0x09) (in_fields (f # fs)) = (f, in_fields fs)"
  by (simp add: getline_def in_fields_def short_field_def takeWhile_field c_str_id Let_def)

lemma getline_none: "failed (snd (getline 1024 d (in_fields [])))"
  by (simp add: getline_def in_fields_def)

lemma getline_failed: "failed s \<Longrightarrow> failed (snd (getline n d s))"
  by (simp add: getline_def)

lemma read_fields_failed: "failed s \<Longrightarrow> failed (snd (read_fields n d s))"
proof (induction n arbitrary: s)
  case (Suc n)
  then show ?case using Suc.IH [OF getline_failed [OF Suc.prems, of 1024 d]] by (simp add: case_prod_beta Let_def)
qed simp

lemma read_fields_enough:
  "\<forall>f \<in> set fs. short_field f \<Longrightarrow> n \<le> length fs \<Longrightarrow>
     read_fields n (CHR 0x09) (in_fields fs) = (take n fs, in_fields (drop n fs))"
proof (induction n arbitrary: fs)
  case (Suc n)
  then show ?case by (cases fs) (simp_all add: getline_field)
qed simp

lemma read_fields_short:
  "\<forall>f \<in> set fs. short_field f \<Longrightarrow> length fs < n \<Longrightarrow> failed (snd (read_fields n (CHR 0x09) (in_fields fs)))"
proof (induction n arbitrary: fs)
  case (Suc n)
  show ?case
  proof (cases fs)
    case Nil
    then show ?thesis using read_fields_failed [OF getline_none] by (simp add: case_prod_beta Let_def)
  next
    case (Cons f gs)
    with Suc show ?thesis by (simp add: getline_field case_prod_beta Let_def)
  qed
qed simp

text \<open>The fields of a file in groups of a record's; fewer at the end are no record.\<close>

function in_groups :: "nat \<Rightarrow> 'a list \<Rightarrow> 'a list list" where
  "in_groups n xs = (if n = 0 \<or> length xs < n then [] else take n xs # in_groups n (drop n xs))"
  by auto
termination by (relation "measure (\<lambda>(n, xs). length xs)") auto

declare in_groups.simps [simp del]

lemma in_groups_short: "length xs < n \<Longrightarrow> in_groups n xs = []"
  by (subst in_groups.simps) simp

lemma length_in_groups: "length (in_groups n xs) = length xs div n"
proof (induction n xs rule: in_groups.induct)
  case (1 n xs)
  show ?case
  proof (cases "n = 0 \<or> length xs < n")
    case True
    then show ?thesis by (subst in_groups.simps) auto
  next
    case False
    then have "length (in_groups n xs) = Suc ((length xs - n) div n)" using 1 by (subst in_groups.simps) simp
    then show ?thesis using False by (simp add: le_div_geq)
  qed
qed

lemma in_groups_parts: "g \<in> set (in_groups n xs) \<Longrightarrow> length g = n \<and> set g \<subseteq> set xs"
proof (induction n xs rule: in_groups.induct)
  case (1 n xs)
  show ?case
  proof (cases "n = 0 \<or> length xs < n")
    case True
    then show ?thesis using "1.prems" by (subst (asm) in_groups.simps) auto
  next
    case False
    then have "g = take n xs \<or> g \<in> set (in_groups n (drop n xs))"
      using "1.prems" by (subst (asm) in_groups.simps) auto
    then show ?thesis using 1(1) False by (auto dest: in_set_takeD in_set_dropD)
  qed
qed

lemma read_records_groups:
  assumes "\<forall>f \<in> set fs. short_field f" "length fs < fuel"
  shows "read_records fuel (CHR 0x09) (in_fields fs) db = foldl (\<lambda>db r. qsoNewRec r db) db (in_groups NUMFIELDS fs)"
  using assms
proof (induction fuel arbitrary: fs db)
  case (Suc fuel)
  show ?case
  proof (cases "NUMFIELDS \<le> length fs")
    case True
    have "\<forall>f \<in> set (drop NUMFIELDS fs). short_field f" "length (drop NUMFIELDS fs) < fuel"
      using Suc.prems True by (auto dest: in_set_dropD)
    note Suc.IH [OF this]
    moreover have "in_groups NUMFIELDS fs = take NUMFIELDS fs # in_groups NUMFIELDS (drop NUMFIELDS fs)"
      using True by (subst in_groups.simps) simp
    ultimately show ?thesis
      using read_fields_enough [OF Suc.prems(1) True] by (simp add: in_fields_def del: read_fields.simps)
  next
    case False
    then show ?thesis
      using read_fields_short [OF Suc.prems(1), of NUMFIELDS] in_groups_short [of fs NUMFIELDS]
      by (simp add: case_prod_beta Let_def del: read_fields.simps)
  qed
qed simp

lemma records_foldl_new:
  assumes "db_ok db" "\<forall>r \<in> set (records db) \<union> set rs. plain r" "\<forall>r \<in> set rs. plain (completed r)"
  shows "db_ok (foldl (\<lambda>db r. qsoNewRec r db) db rs) \<and>
    records (foldl (\<lambda>db r. qsoNewRec r db) db rs) = records db @ map completed rs"
  using assms
proof (induction rs arbitrary: db)
  case (Cons r rs)
  have "db_ok (qsoNewRec r db) \<and> records (qsoNewRec r db) = records db @ [completed r]"
    by (rule qsoNewRec_appends) (use Cons.prems in \<open>auto simp: plain_def\<close>)
  with Cons.IH [of "qsoNewRec r db"] Cons.prems show ?case by simp
qed simp

lemma written_fields:
  assumes "\<forall>r \<in> set rs. length r = NUMFIELDS \<and> (\<forall>f \<in> set r. short_field f)"
  shows "concat (map write_rec rs) = concat (map (\<lambda>f. f @ [CHR 0x09]) (concat (map (take EXPORT) rs)))"
  using assms
proof (induction rs)
  case (Cons r rs)
  have "map (\<lambda>i. c_str (r ! i) @ [CHR 0x09]) [0..<EXPORT] = map (\<lambda>f. f @ [CHR 0x09]) (take EXPORT r)"
    using Cons.prems by (intro nth_equalityI) (auto simp: c_str_id short_field_def)
  with Cons show ?case by (simp add: write_rec_def)
qed simp

section \<open>The properties\<close>

text \<open>
  C18: the array of the database is the list of its records. Adding, deleting and replacing a record do to the
  list what their names say, whatever the capacity, and a new record is blank; numbers outside the list change nothing.
\<close>

theorem db_refines_list:
  assumes "db_ok db" "\<forall>r \<in> set (records db). plain r" "length r = NUMFIELDS"
  shows "records (qsoNewRec r db) = records db @ [completed r] \<and>
    records (snd (newrec db)) = records db @ [qso_rec_new] \<and>
    records (qsoDelRec i db) =
      (if 0 \<le> i \<and> i < int (length (records db)) then take (nat i) (records db) @ drop (nat i + 1) (records db) else records db) \<and>
    records (qsoUpdRec i r db) =
      (if 0 \<le> i \<and> i < int (length (records db)) then (records db)[nat i := checkBand (assign r)] else records db) \<and>
    db_ok (qsoNewRec r db) \<and> db_ok (snd (newrec db)) \<and> db_ok (qsoDelRec i db) \<and> db_ok (qsoUpdRec i r db)"
proof -
  have len: "length (records db) = nbrrecs db" by (rule length_records [OF assms(1)])
  have "db_ok (snd (newrec db)) \<and> records (snd (newrec db)) = records db @ [qso_rec_new]"
    using newrec_appends [OF assms(1,2)] by (simp add: case_prod_beta)
  then show ?thesis
    unfolding len
    using qsoNewRec_appends [OF assms] qsoDelRec_removes [OF assms(1,2), of i] qsoUpdRec_replaces [OF assms(1,3), of i]
    by blast
qed

definition demo_rec :: qso_rec where
  "demo_rec = qso_rec_new[CALL := ''W1HKJ'', FREQ := ''14.070'', QSO_DATE := ''20200102'', TIME_ON := ''123400'']"

definition demo_db :: qso_db where
  "demo_db = \<lparr>qsorec = [demo_rec], maxrecs = 1, nbrrecs = 1, dirty = 0\<rparr>"

lemma demo_numeric: "numeric demo_rec"
  unfolding numeric_def
  by (rule atof_number) (simp add: demo_rec_def qso_rec_new_def c_str_def is_space_def scan_sign_def tolower_char_def)

lemma demo_db_ok: "db_ok demo_db" "records demo_db = [demo_rec]" "plain demo_rec" "length demo_rec = NUMFIELDS"
  by (auto simp: db_ok_def demo_db_def records_def demo_rec_def qso_rec_new_def plain_def dest!: set_update_subset_insert [THEN subsetD])

theorem db_refines_list_witness:
  "records (qsoNewRec demo_rec demo_db) = [demo_rec, completed demo_rec] \<and> records (qsoDelRec 0 demo_db) = [] \<and>
   records (qsoDelRec 1 demo_db) = [demo_rec]"
  using db_refines_list [of demo_db demo_rec 0] db_refines_list [of demo_db demo_rec 1] by (simp add: demo_db_ok)

text \<open>
  C19: Each of the four sorts leaves the same records, in the order of five keys, each deciding when those before it are
  equal, forwards or reversed, for any \<^verbatim>\<open>qsort\<close> that keeps its promise and a log in which every frequency is a number.
  The dates and times are those of the beginning or of the end, as \<^verbatim>\<open>SortByDate\<close> last chose. Without the condition on
  the frequencies it does not hold: one that reads as not a number is greater than every other one and less than none,
  and every other one is greater than it.
\<close>

theorem logbook_sorts:
  assumes "sorts qs" "db_ok db" "\<forall>r \<in> set (records db). numeric r"
  shows "mset (records (SortByCall qs g db)) = mset (records db) \<and>
      sorted_wrt (\<lambda>a b. ahead g (call_keys g a) (call_keys g b)) (records (SortByCall qs g db)) \<and>
    mset (records (SortByMode qs g db)) = mset (records db) \<and>
      sorted_wrt (\<lambda>a b. ahead g (mode_keys g a) (mode_keys g b)) (records (SortByMode qs g db)) \<and>
    mset (records (SortByFreq qs g db)) = mset (records db) \<and>
      sorted_wrt (\<lambda>a b. ahead g (freq_keys g a) (freq_keys g b)) (records (SortByFreq qs g db)) \<and>
    (case SortByDate qs how g db of (g', db') \<Rightarrow> g' = g\<lparr>date_off := how\<rparr> \<and> mset (records db') = mset (records db) \<and>
      sorted_wrt (\<lambda>a b. ahead g' (date_keys g' a) (date_keys g' b)) (records db')) \<and>
    (\<not> numeric r \<longrightarrow> compareFreqs r r' = 1 \<and> compareFreqs r' r = 1)"
proof -
  have sub: "set (records db) \<subseteq> Collect numeric" using assms(3) by auto
  have keys: "sorted_wrt P xs" if "sorted_wrt (\<lambda>a b. f a b \<le> 0) xs" "mset xs = mset (records db)"
    "\<And>a b. numeric a \<Longrightarrow> numeric b \<Longrightarrow> f a b \<le> 0 \<Longrightarrow> P a b" for f P xs
    using that(1) mset_eq_setD [OF that(2)] assms(3) by (auto intro!: sorted_wrt_mono_rel [OF that(3), rotated 3])
  have "compareFreqs r r' = 1 \<and> compareFreqs r' r = 1" if "\<not> numeric r"
    using that by (cases "atof (r' ! FREQ)") (simp_all add: numeric_def compareFreqs_def Let_def)
  then show ?thesis
    using keys [OF records_sort_with(3,2) [OF assms(1) bycall.qsort_order_axioms sub assms(2)], of g "\<lambda>a b. ahead g (call_keys g a) (call_keys g b)"]
      keys [OF records_sort_with(3,2) [OF assms(1) bymode.qsort_order_axioms sub assms(2)], of g "\<lambda>a b. ahead g (mode_keys g a) (mode_keys g b)"]
      keys [OF records_sort_with(3,2) [OF assms(1) byfreq.qsort_order_axioms sub assms(2)], of g "\<lambda>a b. ahead g (freq_keys g a) (freq_keys g b)"]
      keys [OF records_sort_with(3,2) [OF assms(1) bydate.qsort_order_axioms sub assms(2)], of "g\<lparr>date_off := how\<rparr>"
        "\<lambda>a b. ahead (g\<lparr>date_off := how\<rparr>) (date_keys (g\<lparr>date_off := how\<rparr>) a) (date_keys (g\<lparr>date_off := how\<rparr>) b)"]
      records_sort_with(2) [OF assms(1) bycall.qsort_order_axioms sub assms(2), of g]
      records_sort_with(2) [OF assms(1) bymode.qsort_order_axioms sub assms(2), of g]
      records_sort_with(2) [OF assms(1) byfreq.qsort_order_axioms sub assms(2), of g]
      records_sort_with(2) [OF assms(1) bydate.qsort_order_axioms sub assms(2), of "g\<lparr>date_off := how\<rparr>"]
    by (simp add: SortByCall_def SortByMode_def SortByFreq_def SortByDate_def Let_def compared_keys)
qed

theorem logbook_sorts_witness:
  "mset (records (SortByCall insertion_sort \<lparr>date_off = True, reversed = False\<rparr> demo_db)) = {#demo_rec#}"
  using logbook_sorts [OF sorts_insertion demo_db_ok(1), of "\<lparr>date_off = True, reversed = False\<rparr>"]
  by (simp add: demo_db_ok demo_numeric)

text \<open>
  The comparison operators of records do not order them. Of two records of the same day that the operator
  \<^verbatim>\<open>==\<close> tells apart each is greater than the other and neither is less.
\<close>

theorem rec_greater_both:
  assumes "compareDates g r1 r2 = 0" "\<not> rec_eq g r1 r2"
  shows "rec_greater g r1 r2 \<and> rec_greater g r2 r1 \<and> \<not> rec_less g r1 r2 \<and> \<not> rec_less g r2 r1"
proof -
  have d: "compareDates g r2 r1 = 0 \<longleftrightarrow> compareDates g r1 r2 = 0"
    by (auto simp: compareDates_def str_compare_zero)
  have "compareFreqs r2 r1 = 0 \<longleftrightarrow> compareFreqs r1 r2 = 0"
    by (cases "atof (r1 ! FREQ)"; cases "atof (r2 ! FREQ)") (auto simp: compareFreqs_def Let_def split: if_splits)
  then have "rec_eq g r2 r1 \<longleftrightarrow> rec_eq g r1 r2"
    unfolding rec_eq_def d by (auto simp: compareTimes_def compareCalls_def str_compare_zero)
  then show ?thesis using assms d by (simp add: rec_greater_def rec_le_def rec_less_def)
qed

theorem rec_greater_both_witness:
  "rec_greater \<lparr>date_off = False, reversed = False\<rparr> demo_rec (demo_rec[CALL := ''K1JT'']) \<and>
   rec_greater \<lparr>date_off = False, reversed = False\<rparr> (demo_rec[CALL := ''K1JT'']) demo_rec"
  using rec_greater_both [of "\<lparr>date_off = False, reversed = False\<rparr>" demo_rec "demo_rec[CALL := ''K1JT'']"]
  by (simp add: compareDates_def rec_eq_def compareCalls_def demo_rec_def qso_rec_new_def str_compare_zero)

text \<open>
  C34: the day arithmetic of the logbook does not work for any date. Reading the digits of a date as they
  are, the month is at least 528, which is outside the table of the months; so the search for a match fails at once
  for a record with a date, and so does the search for duplicates in a span of time.
\<close>

theorem match_never_works:
  assumes "dated r"
  shows "matched mode_info r db = Inl BadIndex \<and>
    (chkdatetime q \<and> q_date q = Some (getField QSO_DATE r) \<and> q_time q \<noteq> None \<longrightarrow> duplicate q db = Inl BadIndex)"
  using epoch_dt_digits [of "getField QSO_DATE r"] assms
  by (auto simp: dated_def matched_def duplicate_def Let_def deref_def)

theorem match_never_works_witness:
  "matched [] demo_rec demo_db = Inl BadIndex"
proof -
  have "dated demo_rec"
    by (simp add: dated_def demo_rec_def qso_rec_new_def getField_def c_str_def All_less_Suc numeral_eq_Suc)
      (simp add: is_digit_def)
  then show ?thesis using match_never_works [of demo_rec "[]" demo_db] by blast
qed

text \<open>
  The old file format is not read back as it was written. Each record is written with one field fewer
  than the reader takes, so the fields of all records run together and are cut anew; the fields that are left over at
  the end are lost, and of a file with a single record nothing is read.
\<close>

theorem old_format_shifts:
  assumes "db_ok db0" "\<forall>r \<in> set (records db0). plain r"
    "\<forall>r \<in> set (records db). length r = NUMFIELDS \<and> (\<forall>f \<in> set r. short_field f)"
  defines "groups \<equiv> in_groups NUMFIELDS (concat (map (take EXPORT) (records db)))"
  shows "\<exists>db1. qsoReadFile qs (Some (qsoWriteFile db)) (CHR 0x09, g, db0) = (0, CHR 0x09, SortByDate qs (date_off g) g db1) \<and>
    records db1 = records db0 @ map completed groups \<and> length groups = 55 * length (records db) div 56"
proof -
  let ?fs = "concat (map (take EXPORT) (records db))"
  have short: "\<forall>f \<in> set ?fs. short_field f" using assms(3) by (auto dest: in_set_takeD)
  have whole: "qsoWriteFile db = ''_LOGBODUP DBX 3.0'' @ CHR 0x0A # rest (in_fields ?fs)"
    by (simp add: qsoWriteFile_def records_def [symmetric] written_fields [OF assms(3)] in_fields_def)
  have line: "getline 256 (CHR 0x0A) \<lparr>rest = qsoWriteFile db, eof = False, failed = False\<rparr> = (''_LOGBODUP DBX 3.0'', in_fields ?fs)"
    by (simp add: whole getline_def Let_def c_str_def) (simp add: in_fields_def)
  have "length fs \<le> length (rest (in_fields fs))" for fs
    by (induction fs) (simp_all add: in_fields_def)
  from this [of ?fs] have "length ?fs < Suc (length (qsoWriteFile db))" by (simp add: whole)
  note read = read_records_groups [OF short this, of db0, folded groups_def]
  have "contains ''_LOGBODUP DBX 3.0'' ''_LOGBODUP DB''" "contains ''_LOGBODUP DBX 3.0'' ''_LOGBODUP DBX''"
    by (simp_all add: contains_def find_sub.simps)
  then have "qsoReadFile qs (Some (qsoWriteFile db)) (CHR 0x09, g, db0) =
      (0, CHR 0x09, SortByDate qs (date_off g) g (foldl (\<lambda>db r. qsoNewRec r db) db0 groups))"
    by (simp add: qsoReadFile_def line read SortByDate_def Let_def del: read_records.simps)
  moreover have plain: "\<forall>r \<in> set groups. plain r"
    using short in_groups_parts [of _ NUMFIELDS ?fs] by (fastforce simp: groups_def plain_def short_field_def)
  moreover have "length ?fs = 55 * length (records db)"
  proof -
    have "map length (map (take EXPORT) (records db)) = map (\<lambda>_. 55) (records db)" using assms(3) by auto
    then show ?thesis by (simp add: length_concat map_replicate_const sum_list_replicate del: map_map)
  qed
  ultimately show ?thesis
    using records_foldl_new [OF assms(1), of groups] assms(2) plain_completed
    by (auto simp: groups_def length_in_groups)
qed

theorem old_format_shifts_witness:
  "\<exists>db1. qsoReadFile insertion_sort (Some (qsoWriteFile demo_db)) (CHR 0x09, \<lparr>date_off = True, reversed = False\<rparr>, qso_db_new) =
     (0, CHR 0x09, SortByDate insertion_sort True \<lparr>date_off = True, reversed = False\<rparr> db1) \<and> records db1 = []"
proof -
  have "\<forall>f \<in> set demo_rec. short_field f"
    by (auto simp: demo_rec_def qso_rec_new_def short_field_def dest!: set_update_subset_insert [THEN subsetD])
  then have "\<forall>r \<in> set (records demo_db). length r = NUMFIELDS \<and> (\<forall>f \<in> set r. short_field f)" by (simp add: demo_db_ok)
  from old_format_shifts [OF db_ok_new(1) _ this, of insertion_sort "\<lparr>date_off = True, reversed = False\<rparr>"]
  show ?thesis by (auto simp: demo_db_ok db_ok_new)
qed

end
