(* ===== verification/Adif_Find.thy ===== *)
theory Adif_Find
  imports Adif Qso_Laws
begin

text \<open>
  Which field the text of a tag of an ADIF file is taken for.
  The lookup is a search in one long string, which comes down to the
  first name that has the text in it.
\<close>

section \<open>Searching\<close>

lemma prefix_of_break: "c \<notin> set pat \<Longrightarrow> prefix_of pat (s @ c # t) = prefix_of pat s"
  by (induction pat s rule: prefix_of.induct) auto

text \<open>A character that the pattern does not have cuts the text in two.\<close>

lemma find_sub_break:
  assumes "c \<notin> set pat" "pat \<noteq> []"
  shows "find_sub (s @ c # t) pat =
    (case find_sub s pat of Some i \<Rightarrow> Some i | None \<Rightarrow> map_option (\<lambda>i. i + Suc (length s)) (find_sub t pat))"
proof (induction s)
  case Nil
  have "\<not> prefix_of pat (c # t)" using assms by (cases pat) auto
  then show ?case using assms(2) by (simp add: find_sub_Cons find_sub_Nil)
next
  case (Cons x s)
  show ?case
    using Cons prefix_of_break [OF assms(1), of "x # s" t] by (auto simp: find_sub_Cons option.map_comp comp_def split: option.splits)
qed

text \<open>A pattern that starts with a bracket is not found before the first bracket.\<close>

lemma find_sub_skip: "c \<notin> set xs \<Longrightarrow> find_sub (xs @ s) (c # pat) = map_option (\<lambda>i. i + length xs) (find_sub s (c # pat))"
  by (induction xs) (auto simp: find_sub_Cons option.map_comp comp_def option.map_ident)

section \<open>The lookup of a field\<close>

text \<open>The names in small letters.\<close>

definition field_names :: "string list" where
  "field_names = [
    ''freq'', ''call'', ''mode'', ''submode'', ''name'', ''qso_date'', ''qso_date_off'', ''time_off'',
    ''time_on'', ''qth'', ''rst_rcvd'', ''rst_sent'', ''state'', ''ve_prov'', ''notes'', ''qslrdate'',
    ''qslsdate'', ''eqslrdate'', ''eqslsdate'', ''lotwrdate'', ''lotwsdate'', ''gridsquare'', ''band'',
    ''cnty'', ''country'', ''cqz'', ''dxcc'', ''qsl_via'', ''iota'', ''ituz'', ''cont'', ''srx'', ''stx'',
    ''srx_string'', ''stx_string'', ''class'', ''arrl_sect'', ''tx_pwr'', ''operator'', ''station_callsign'',
    ''my_gridsquare'', ''my_city'', ''cwss_section'', ''cwss_serno'', ''cwss_prec'', ''cwss_chk'', ''age'',
    ''ten_ten'', ''check'', ''fd_class'', ''fd_section'', ''troops'', ''troopr'', ''scouts'', ''scoutr'']"

fun first_containing :: "string \<Rightarrow> string list \<Rightarrow> nat option" where
  "first_containing key [] = None"
| "first_containing key (w # ws) = (if find_sub w key \<noteq> None then Some 0 else map_option Suc (first_containing key ws))"

lemma lower_names: "map (\<lambda>f. map tolower_char (field_name f)) adif_fields = field_names"
  by code_simp

lemma names_found: "list_all (\<lambda>i. first_containing (field_names ! i) field_names = Some i) [0..<55]"
  by code_simp

definition padded :: "nat \<Rightarrow> string \<Rightarrow> string" where
  "padded w s = s @ replicate (w - length s) (CHR '' '')"

lemma length_padded: "length s < w \<Longrightarrow> length (padded w s) = w"
  by (simp add: padded_def)

lemma find_sub_spaces:
  assumes "CHR '' '' \<notin> set key" "key \<noteq> []"
  shows "find_sub (replicate n (CHR '' '') @ t) key = map_option (\<lambda>i. i + n) (find_sub t key)"
proof (induction n)
  case (Suc n)
  have "\<not> prefix_of key (CHR '' '' # replicate n (CHR '' '') @ t)" using assms by (cases key) auto
  with Suc show ?case by (simp add: find_sub_Cons option.map_comp comp_def)
qed (simp add: option.map_ident)

lemma find_sub_padded:
  assumes "CHR '' '' \<notin> set key" "key \<noteq> []" "length s < w"
  shows "find_sub (padded w s @ t) key = (case find_sub s key of Some i \<Rightarrow> Some i | None \<Rightarrow> map_option (\<lambda>i. i + w) (find_sub t key))"
proof -
  obtain n where n: "w - length s = Suc n" using assms(3) by (metis Suc_diff_Suc)
  then have "padded w s @ t = s @ CHR '' '' # (replicate n (CHR '' '') @ t)" by (simp add: padded_def)
  moreover have "Suc (i + n + length s) = i + w" for i using n assms(3) by simp
  ultimately show ?thesis
    using find_sub_break [OF assms(1,2)] find_sub_spaces [OF assms(1,2)]
    by (auto simp: option.map_comp comp_def add.assoc split: option.split)
qed

text \<open>Names in columns of equal width: the first that has the key in it.\<close>

lemma find_sub_columns:
  assumes "CHR '' '' \<notin> set key" "key \<noteq> []" "\<forall>s \<in> set ss. length s < w"
  shows "map_option (\<lambda>i. i div w) (find_sub (concat (map (padded w) ss)) key) = first_containing key ss"
  using assms(3)
proof (induction ss)
  case (Cons s ss)
  have w: "length s < w" using Cons.prems by simp
  show ?case
  proof (cases "find_sub s key")
    case None
    have "(i + w) div w = Suc (i div w)" for i using w by simp
    then show ?thesis
      using Cons.IH [symmetric] Cons.prems None find_sub_padded [OF assms(1,2) w, of "concat (map (padded w) ss)"]
      by (simp add: option.map_comp comp_def)
  next
    case (Some i)
    then have "i div w = 0" using find_sub_length [OF Some] w by simp
    then show ?thesis
      using Some find_sub_padded [OF assms(1,2) w, of "concat (map (padded w) ss)"] by simp
  qed
qed (simp add: find_sub_Nil assms(2))

lemma names_short: "\<forall>s \<in> set field_names. 0 < length s \<and> length s < 17"
  by (simp add: field_names_def)

lemma names_short_fields: "f \<in> set adif_fields \<Longrightarrow> 0 < length (field_name f) \<and> length (field_name f) < 17"
  using names_short unfolding lower_names [symmetric] by auto

lemma maxlen_17: "maxlen = 17"
proof -
  have "foldl (\<lambda>n f. max n (length (field_name f))) n fs = foldl max n (map length (map (\<lambda>f. map tolower_char (field_name f)) fs))"
    for n fs by (induction fs arbitrary: n) simp_all
  moreover have "map length field_names = [4, 4, 4, 7, 4, 8, 12, 8, 7, 3, 8, 8, 5, 7, 5, 8, 8, 9, 9, 9, 9, 10, 4, 4, 7, 3, 4,
      7, 4, 4, 4, 3, 3, 10, 10, 5, 9, 6, 8, 16, 13, 7, 12, 10, 9, 8, 3, 7, 5, 8, 10, 6, 6, 6, 6]"
    by (simp add: field_names_def)
  ultimately show ?thesis by (simp add: maxlen_def lower_names del: map_map)
qed

lemma columns_foldl:
  assumes "\<forall>f \<in> set fs. 0 < length (field_name f) \<and> length (field_name f) < 17" "length s mod 17 = 0"
  shows "foldl (\<lambda>s f. let s = s @ field_name f; n = maxlen - length s mod maxlen
     in if 0 < n \<and> n < maxlen then s @ replicate n (CHR '' '') else s) s fs = s @ concat (map (\<lambda>f. padded 17 (field_name f)) fs)"
    (is "foldl ?step s fs = _")
  using assms
proof (induction fs arbitrary: s)
  case (Cons f fs)
  have l: "0 < length (field_name f)" "length (field_name f) < 17" using Cons.prems by simp_all
  have "(length s + length (field_name f)) mod 17 = length (field_name f) mod 17"
    using Cons.prems(2) mod_add_left_eq [of "length s" 17 "length (field_name f)"] by simp
  then have step: "?step s f = s @ padded 17 (field_name f)" using l by (simp add: maxlen_17 padded_def Let_def)
  have "(length s + 17) mod 17 = 0" using Cons.prems(2) by simp
  then have "length (s @ padded 17 (field_name f)) mod 17 = 0" using length_padded [OF l(2)] by simp
  from Cons.IH [OF _ this] Cons.prems(1) show ?case by (simp only: foldl_Cons step) simp
qed simp

lemma fastlookup_columns: "map tolower_char fastlookup = concat (map (padded 17) field_names)"
proof -
  have low: "map tolower_char (padded 17 s) = padded 17 (map tolower_char s)" for s
    by (simp add: padded_def tolower_char_def)
  have "\<forall>f \<in> set adif_fields. 0 < length (field_name f) \<and> length (field_name f) < 17"
    using names_short_fields by blast
  from columns_foldl [OF this, of "[]"] have whole: "fastlookup = concat (map (\<lambda>f. padded 17 (field_name f)) adif_fields)"
    unfolding fastlookup_def by (simp only: list.size mod_0 append_Nil refl simp_thms)
  show ?thesis unfolding whole lower_names [symmetric] by (simp only: map_concat map_map comp_def low)
qed

lemma c_str_append: "CHR 0x00 \<notin> set xs \<Longrightarrow> c_str (xs @ ys) = xs @ c_str ys"
  by (induction xs) (auto simp: c_str_def)

lemma c_str_Cons: "c \<noteq> CHR 0x00 \<Longrightarrow> c_str (c # ys) = c # c_str ys"
  by (simp add: c_str_def)

lemma tolower_fixed:
  assumes "tolower_char c = d" "(of_char d :: nat) < 65"
  shows "c = d"
proof (cases "65 \<le> (of_char c :: nat) \<and> (of_char c :: nat) \<le> 90")
  case True
  then have "(of_char d :: nat) = of_char c + 32" using assms(1) by (auto simp: tolower_char_def of_char_of)
  then show ?thesis using assms(2) True by simp
next
  case False
  then show ?thesis using assms(1) by (auto simp only: tolower_char_def if_False)
qed

lemma not_eor:
  assumes "CHR ''>'' \<notin> set key"
  shows "map tolower_char (take 4 (key @ CHR '':'' # t)) \<noteq> ''eor>''"
proof
  assume eq: "map tolower_char (take 4 (key @ CHR '':'' # t)) = ''eor>''"
  show False
  proof (cases "length key < 4")
    case True
    then have "CHR '':'' \<in> set (take 4 (key @ CHR '':'' # t))" by (auto simp: take_Cons')
    moreover have "tolower_char (CHR '':'') = CHR '':''" by (simp add: tolower_char_def)
    ultimately have "CHR '':'' \<in> set (map tolower_char (take 4 (key @ CHR '':'' # t)))" by force
    then show False unfolding eq by simp
  next
    case False
    then have "map tolower_char (take 4 key) = ''eor>''" using eq by simp
    then have "CHR ''>'' \<in> set (map tolower_char (take 4 key))" by simp
    then obtain c where "c \<in> set (take 4 key)" "tolower_char c = CHR ''>''" by auto
    then show False using tolower_fixed [of c "CHR ''>''"] assms by (auto dest: in_set_takeD)
  qed
qed

lemma index_of_behind:
  "c \<notin> set xs \<Longrightarrow> index_of c (xs @ d # ys) = (if d = c then Some (length xs) else map_option (\<lambda>i. i + Suc (length xs)) (index_of c ys))"
  by (induction xs) (auto simp: option.map_comp comp_def)

lemma findfield_key:
  assumes "key \<noteq> ''''" "CHR '' '' \<notin> set key" "CHR '':'' \<notin> set key" "CHR ''>'' \<notin> set key" "CHR 0x00 \<notin> set key"
    "CHR ''>'' \<in> set (c_str s)"
  shows "findfield (key @ CHR '':'' # s) =
    (case first_containing (map tolower_char key) field_names of Some i \<Rightarrow> Field (field_type (adif_fields ! i)) | None \<Rightarrow> Unknown)"
proof -
  obtain j where j: "index_of (CHR ''>'') (c_str s) = Some j" using assms(6) by (metis index_of_None not_None_eq)
  have p: "c_str (key @ CHR '':'' # s) = key @ CHR '':'' # c_str s"
    using assms(5) by (simp add: c_str_append c_str_Cons)
  have "\<forall>c \<in> set key. tolower_char c \<noteq> CHR '' ''" using assms(2) tolower_fixed [of _ "CHR '' ''"] by fastforce
  then have "CHR '' '' \<notin> set (map tolower_char key)" by auto
  moreover have "map tolower_char key \<noteq> []" using assms(1) by simp
  ultimately have found: "map_option (\<lambda>i. i div 17) (strcasestr fastlookup key) = first_containing (map tolower_char key) field_names"
    unfolding strcasestr_def fastlookup_columns using names_short by (intro find_sub_columns) simp_all
  have look: "(case strcasestr fastlookup key of Some pos \<Rightarrow> Field (field_type (adif_fields ! (pos div maxlen))) | None \<Rightarrow> Unknown) =
      (case first_containing (map tolower_char key) field_names of Some i \<Rightarrow> Field (field_type (adif_fields ! i)) | None \<Rightarrow> Unknown)"
    unfolding maxlen_17 found [symmetric] by (cases "strcasestr fastlookup key") simp_all
  have "index_of (CHR '':'') (key @ CHR '':'' # c_str s) = Some (length key)"
    "index_of (CHR ''>'') (key @ CHR '':'' # c_str s) = Some (j + Suc (length key))"
    using assms(3,4) j by (simp_all add: index_of_behind)
  then show ?thesis
    unfolding findfield_def p Let_def if_not_P [OF not_eor [OF assms(4)]] using look by simp
qed

text \<open>
  C36: the field a tag is taken for is the first whose name has the text before the colon in it, in
  capitals or not; so a tag that is not in the table can still be taken for one, for example \<^verbatim>\<open>SIG\<close> for the
  call sign of the station and \<^verbatim>\<open>DATE\<close> for the date.
\<close>

theorem findfield_substring:
  assumes "key \<noteq> ''''" "CHR '' '' \<notin> set key" "CHR '':'' \<notin> set key" "CHR ''>'' \<notin> set key" "CHR 0x00 \<notin> set key"
    "CHR ''>'' \<in> set (c_str s)"
  shows "findfield (key @ CHR '':'' # s) =
    (case first_containing (map tolower_char key) field_names of Some i \<Rightarrow> Field (field_type (adif_fields ! i)) | None \<Rightarrow> Unknown)"
  by (rule findfield_key [OF assms])

theorem findfield_substring_witness:
  "findfield ''SIG:4>GM3X<EOR>'' = Field 39 \<and> findfield ''Date:8>20200102<EOR>'' = Field 5"
proof -
  have "first_containing ''sig'' field_names = Some 39" "first_containing ''date'' field_names = Some 5"
    by code_simp+
  moreover have "map tolower_char ''SIG'' = ''sig''" "map tolower_char ''Date'' = ''date''" by code_simp+
  moreover have "field_type (adif_fields ! 39) = 39" "field_type (adif_fields ! 5) = 5" by code_simp+
  moreover have "CHR ''>'' \<in> set (c_str ''4>GM3X<EOR>'')" "CHR ''>'' \<in> set (c_str ''8>20200102<EOR>'')"
    by (simp_all add: c_str_def)
  ultimately show ?thesis
    using findfield_substring [of "''SIG''" "''4>GM3X<EOR>''"] findfield_substring [of "''Date''" "''8>20200102<EOR>''"]
    by simp
qed

end
