(* ===== verification/Adif_Laws.thy ===== *)
theory Adif_Laws
  imports Adif_Find
begin

text \<open>
  A logbook that is written as an ADIF file is read back, and what a text with a bracket of its own does to it.
\<close>

section \<open>Reading from the rest of the file\<close>

text \<open>A position is all that reading knows of what is before it.\<close>

lemma find_char_shift: "find_char (pre @ s) c (length pre + p) = map_option (\<lambda>i. i + length pre) (find_char s c p)"
  by (simp add: find_char_def option.map_comp comp_def add.commute add.left_commute)

lemma read_tags_shift: "read_tags k (pre @ s) (length pre + p) q rd = read_tags k s p q rd"
proof (induction "length s - p" arbitrary: p q rd rule: less_induct)
  case less
  have d: "drop (length pre + p + 1) (pre @ s) = drop (p + 1) s" by simp
  have f: "find_char (pre @ s) (CHR ''<'') (length pre + p + 1) = map_option (\<lambda>i. i + length pre) (find_char s (CHR ''<'') (p + 1))"
    using find_char_shift [of pre s "CHR ''<''" "p + 1"] by (simp add: add.assoc)
  show ?case
  proof (cases "find_char s (CHR ''<'') (p + 1)")
    case None
    then show ?thesis
      by (subst read_tags.simps, subst (2) read_tags.simps) (simp only: f option.simps)
  next
    case (Some i)
    then have i: "length s - i < length s - p" using find_char_at [OF Some] by linarith
    have "find_char (pre @ s) (CHR ''<'') (length pre + p + 1) = Some (length pre + i)"
      unfolding f Some by simp
    then show ?thesis
      using less [OF i]
      by (subst read_tags.simps, subst (2) read_tags.simps, cases "findfield (drop (p + 1) s)")
        (simp_all only: d Some option.simps found.simps case_prod_unfold)
  qed
qed

lemma find_sub_from_shift: "find_sub_from (pre @ s) pat (length pre + p) = map_option (\<lambda>i. i + length pre) (find_sub_from s pat p)"
  by (cases "find_sub (drop p s) pat") (simp_all add: find_sub_from_def)

lemma find_either_shift: "find_either (pre @ s) a b (length pre + p) = map_option (\<lambda>i. i + length pre) (find_either s a b p)"
  by (simp add: find_either_def find_sub_from_shift split: option.split)

lemma read_recs_shift: "read_recs (pre @ s) k (length pre + p) rd = read_recs s k p rd"
proof (induction "length s - p" arbitrary: p k rd rule: less_induct)
  case less
  show ?case
  proof (cases "find_either s ''<EOR>'' ''<eor>'' p")
    case None
    then show ?thesis
      by (subst read_recs.simps, subst (2) read_recs.simps) (simp add: find_either_shift)
  next
    case (Some e)
    have f: "find_char (pre @ s) (CHR ''<'') (Suc (e + length pre)) = map_option (\<lambda>i. i + length pre) (find_char s (CHR ''<'') (e + 1))"
      using find_char_shift [of pre s "CHR ''<''" "e + 1"] by (simp add: ac_simps)
    have e: "p \<le> e" using Some by (auto simp: find_either_def find_sub_from_def split: option.splits)
    have shift: "read_recs (pre @ s) (Suc k) (i + length pre) rd' = read_recs s (Suc k) i rd'"
      if "find_char s (CHR ''<'') (Suc e) = Some i" for i rd'
    proof -
      have "length s - i < length s - p" using find_char_at [OF that] e by linarith
      from less [OF this] show ?thesis by (simp add: add.commute)
    qed
    then show ?thesis
      by (subst read_recs.simps, subst (2) read_recs.simps, cases "find_char s (CHR ''<'') (Suc e)")
        (simp_all add: find_either_shift Some read_tags_shift f shift del: Suc_eq_plus1 add: Suc_eq_plus1 [symmetric])
  qed
qed

section \<open>One tag\<close>

definition unquoted :: "string \<Rightarrow> bool" where
  "unquoted s \<longleftrightarrow> CHR '' '' \<notin> set s \<and> CHR '':'' \<notin> set s \<and> CHR ''>'' \<notin> set s \<and> CHR ''<'' \<notin> set s \<and> CHR 0x00 \<notin> set s"

lemma names_unquoted: "\<forall>s \<in> set field_names. unquoted s"
  by (simp add: field_names_def unquoted_def)

lemma unquoted_lower: "unquoted (map tolower_char s) \<Longrightarrow> unquoted s"
proof -
  have "tolower_char d \<in> tolower_char ` set s" if "d \<in> set s" for d using that by simp
  moreover have "tolower_char (CHR '' '') = CHR '' ''" "tolower_char (CHR '':'') = CHR '':''" "tolower_char (CHR ''>'') = CHR ''>''"
    "tolower_char (CHR ''<'') = CHR ''<''" "tolower_char (CHR 0x00) = CHR 0x00" by (simp_all add: tolower_char_def)
  ultimately show "unquoted (map tolower_char s) \<Longrightarrow> unquoted s" unfolding unquoted_def by (metis set_map)
qed

lemma field_name_at: "i < 55 \<Longrightarrow> map tolower_char (field_name (adif_fields ! i)) = field_names ! i"
proof -
  assume i: "i < 55"
  have len: "length adif_fields = 55" by (simp add: adif_fields_def)
  show ?thesis unfolding lower_names [symmetric] using i by (simp add: len)
qed

lemma adif_field_cases:
  assumes "f \<in> set adif_fields"
  obtains i where "i < 55" "f = adif_fields ! i"
proof -
  have "length adif_fields = 55" by (simp add: adif_fields_def)
  then show ?thesis using assms that by (metis in_set_conv_nth)
qed

lemma name_unquoted: "f \<in> set adif_fields \<Longrightarrow> unquoted (field_name f)"
proof -
  assume "f \<in> set adif_fields"
  then obtain i where "i < 55" "f = adif_fields ! i" by (rule adif_field_cases)
  moreover have "length field_names = 55" by (simp add: field_names_def)
  ultimately have "field_names ! i \<in> set field_names" "f = adif_fields ! i" "i < 55" by simp_all
  then show ?thesis using names_unquoted field_name_at unquoted_lower by metis
qed

lemma digits_plain: "c \<in> set (show_nat n) \<Longrightarrow> is_digit c"
  using show_nat_digits by blast

definition tag :: "string \<Rightarrow> string \<Rightarrow> string" where
  "tag name v = name @ CHR '':'' # show_nat (length v) @ CHR ''>'' # v"

lemma show_nat_unquoted: "unquoted (show_nat n)"
  unfolding unquoted_def by (auto dest!: digits_plain simp: is_digit_def)

lemma findfield_tag:
  assumes "f \<in> set adif_fields"
  shows "findfield (tag (field_name f) v @ t) = Field (field_type f)"
proof -
  obtain i where i: "i < 55" "f = adif_fields ! i" using assms by (rule adif_field_cases)
  have "first_containing (field_names ! i) field_names = Some i" using names_found i(1) by (simp add: list_all_iff)
  moreover have "unquoted (field_name f)" using name_unquoted [OF assms] .
  moreover have "field_name f \<noteq> ''''" using names_short_fields [OF assms] by auto
  moreover have "CHR ''>'' \<in> set (c_str (show_nat (length v) @ CHR ''>'' # v @ t))"
    using show_nat_unquoted [of "length v"] by (simp add: c_str_append c_str_Cons unquoted_def)
  ultimately show ?thesis
    using findfield_key [of "field_name f" "show_nat (length v) @ CHR ''>'' # v @ t"] field_name_at [OF i(1)] i(2)
    by (simp add: tag_def unquoted_def)
qed

text \<open>A value that fits its field.\<close>

definition fits :: "nat \<Rightarrow> string \<Rightarrow> bool" where
  "fits n v \<longleftrightarrow> length v \<le> fsize (adif_fields ! n) \<and> (n = TIME_ON \<or> n = TIME_OFF \<longrightarrow> 6 \<le> length v)"

lemma fsize_le: "\<forall>f \<in> set adif_fields. fsize f \<le> 512"
  by (simp add: adif_fields_def fsize_def)

lemma read_size_value: "read_size ds = wrap32 (int (digits_value (filter is_digit ds)))"
proof (induction ds rule: rev_induct)
  case Nil
  show ?case by (simp add: read_size_def digits_value_def wrap32_def)
next
  case (snoc c ds)
  have w: "wrap32 (wrap32 a * 10 + b) = wrap32 (a * 10 + b)" for a b
  proof -
    have "wrap32 x mod 2 ^ 32 = x mod 2 ^ 32" for x by (simp add: wrap32_def mod_simps)
    then have "(wrap32 a * 10 + b) mod 2 ^ 32 = (a * 10 + b) mod 2 ^ 32" by (metis mod_add_left_eq mod_mult_left_eq)
    then show ?thesis unfolding wrap32_def by (metis mod_add_left_eq)
  qed
  show ?case
  proof (cases "is_digit c")
    case True
    then have "read_size (ds @ [c]) = wrap32 (wrap32 (int (digits_value (filter is_digit ds))) * 10 + (of_char c - 48))"
      using snoc by (simp add: read_size_def)
    moreover have "int (of_char c - 48 :: nat) = of_char c - 48"
      using True by (simp add: is_digit_def of_nat_diff of_nat_of_char)
    ultimately show ?thesis using True w by (simp add: digits_value_def)
  next
    case False
    then show ?thesis using snoc by (simp add: read_size_def)
  qed
qed

lemma fillfield_tag:
  assumes "unquoted name" "fits n v" "length v < 2 ^ 31"
  shows "fillfield k n (tag name v @ t) (r, errs) = Inr (putField n v r, errs)"
proof -
  let ?ds = "show_nat (length v)"
  have buff: "tag name v @ t = name @ CHR '':'' # ?ds @ CHR ''>'' # v @ t" by (simp add: tag_def)
  have c: "c_str (tag name v @ t) = name @ CHR '':'' # ?ds @ CHR ''>'' # c_str (v @ t)"
    using assms(1) show_nat_unquoted [of "length v"] unfolding buff by (simp add: c_str_append c_str_Cons unquoted_def)
  have p: "index_of (CHR '':'') (c_str (tag name v @ t)) = Some (length name)"
    "index_of (CHR ''>'') (c_str (tag name v @ t)) = Some (length name + Suc (length ?ds))"
    using assms(1) show_nat_unquoted [of "length v"] unfolding c by (simp_all add: index_of_behind unquoted_def)
  have "filter is_digit ?ds = ?ds" using digits_plain by (auto intro: filter_True)
  then have size: "read_size ?ds = length v"
    using assms(3) by (simp add: read_size_value digits_value_show_nat wrap32_id)
  have "take (length v) (drop (length name + Suc (length ?ds) + 1) ((tag name v @ t) @ [CHR 0x00])) = v" by (simp add: buff)
  then show ?thesis
    using assms(2) unfolding fillfield_def p option.simps Let_def
    by (auto simp: fits_def buff size)
qed

section \<open>The tags of a record\<close>

text \<open>Writing to the record at an index.\<close>

definition set_rec :: "nat \<Rightarrow> qso_rec \<Rightarrow> qso_db \<Rightarrow> qso_db" where
  "set_rec i r db = db\<lparr>qsorec := (qsorec db)[i := r]\<rparr>"

type_synonym field = "nat \<times> nat \<times> string \<times> bool"

text \<open>What the tag of a field holds, and the fields that are written for a record.\<close>

definition body_of :: "qso_rec \<Rightarrow> field \<Rightarrow> string" where
  "body_of r f = tag (field_name f) (r ! field_type f)"

definition tagged :: "qso_rec \<Rightarrow> field list \<Rightarrow> string" where
  "tagged r fs = concat (map (\<lambda>f. CHR ''<'' # body_of r f) fs)"

definition good_fields :: "qso_rec \<Rightarrow> field list \<Rightarrow> bool" where
  "good_fields r fs \<longleftrightarrow> (\<forall>f \<in> set fs. f \<in> set adif_fields \<and> fits (field_type f) (r ! field_type f) \<and> CHR ''<'' \<notin> set (r ! field_type f))"

lemma body_no_tag: "good_fields r (f # fs) \<Longrightarrow> CHR ''<'' \<notin> set (body_of r f)"
  using name_unquoted [of f] show_nat_unquoted [of "length (r ! field_type f)"]
  by (auto simp: good_fields_def body_of_def tag_def unquoted_def)

definition put_fields :: "qso_rec \<Rightarrow> qso_rec \<Rightarrow> field list \<Rightarrow> qso_rec" where
  "put_fields r q fs = foldl (\<lambda>q f. putField (field_type f) (r ! field_type f) q) q fs"

lemma field_types: "map field_type adif_fields = [0..<42] @ [45, 42, 43, 44] @ [46..<55]"
  by code_simp

lemma field_type_lt: "f \<in> set adif_fields \<Longrightarrow> field_type f < EXPORT"
proof -
  assume "f \<in> set adif_fields"
  then have "field_type f \<in> set (map field_type adif_fields)" by simp
  then show ?thesis unfolding field_types by auto
qed

lemma fits_small:
  assumes "fits n v" "n < EXPORT"
  shows "length v < 2 ^ 31"
proof -
  have "length adif_fields = 55" by (simp add: adif_fields_def)
  then have "adif_fields ! n \<in> set adif_fields" using assms(2) by simp
  then have "length v \<le> 512" using assms(1) fsize_le unfolding fits_def by (meson order_trans)
  then show ?thesis by simp
qed

lemma at_field_tag:
  assumes "unquoted name" "fits n v" "n < EXPORT"
  shows "at_field k n (tag name v @ t) (Some i) rd =
    Inr (Some i, rd\<lparr>into := set_rec i (putField n v (qsorec (into rd) ! i)) (into rd)\<rparr>)"
  using fillfield_tag [OF assms(1,2) fits_small [OF assms(2,3)]] by (simp add: at_field_def set_rec_def)

lemma at_field_body:
  assumes "good_fields r (f # fs)"
  shows "at_field k (field_type f) (body_of r f @ t) (Some i) rd =
    Inr (Some i, rd\<lparr>into := set_rec i (putField (field_type f) (r ! field_type f) (qsorec (into rd) ! i)) (into rd)\<rparr>)"
  using assms at_field_tag [OF name_unquoted, of f "field_type f" "r ! field_type f"] by (simp add: good_fields_def body_of_def field_type_lt)

lemma at_field_None: "at_field k n b None rd = at_field k n b (Some (fst (newrec (into rd)))) (rd\<lparr>into := snd (newrec (into rd))\<rparr>)"
  by (simp add: at_field_def case_prod_unfold)

text \<open>One tag, followed by another.\<close>

lemma read_one_tag:
  assumes "CHR ''<'' \<notin> set b"
  shows "read_tags k (CHR ''<'' # b @ CHR ''<'' # t) 0 q rd =
    (case findfield (b @ CHR ''<'' # t) of Eor \<Rightarrow> Inr rd | Unknown \<Rightarrow> read_tags k (CHR ''<'' # t) 0 q rd
     | Field n \<Rightarrow> andthen (at_field k n (b @ CHR ''<'' # t) q rd) (\<lambda>(q, rd). read_tags k (CHR ''<'' # t) 0 q rd))"
proof -
  have f: "find_char (CHR ''<'' # b @ CHR ''<'' # t) (CHR ''<'') (0 + 1) = Some (Suc (length b))"
    using assms by (simp add: find_char_def index_of_append)
  have d: "drop (0 + 1) (CHR ''<'' # b @ CHR ''<'' # t) = b @ CHR ''<'' # t" by simp
  have s: "read_tags k (CHR ''<'' # b @ CHR ''<'' # t) (Suc (length b)) q rd = read_tags k (CHR ''<'' # t) 0 q rd" for q rd
    using read_tags_shift [of k "CHR ''<'' # b" "CHR ''<'' # t" 0 q rd] by simp
  show ?thesis
    by (subst read_tags.simps, cases "findfield (b @ CHR ''<'' # t)")
      (simp_all only: f d s option.simps found.simps case_prod_unfold)
qed

definition ends :: "string \<Rightarrow> bool" where
  "ends t \<longleftrightarrow> take 1 t = ''<'' \<or> CHR ''<'' \<notin> set t"

lemma read_eor: "read_tags k (''<EOR>'' @ t) 0 q rd = Inr rd"
proof -
  have "map tolower_char ''EOR>'' = ''eor>''" by code_simp
  then have "map tolower_char (take 4 (c_str (''EOR>'' @ t))) = ''eor>''" by (simp add: c_str_def)
  then have "findfield (''EOR>'' @ t) = Eor" unfolding findfield_def Let_def by (simp only: if_True refl)
  then show ?thesis by (subst read_tags.simps) (simp split: option.split)
qed

lemma tagged_next: "\<exists>t'. tagged r fs @ ''<EOR>'' @ t = CHR ''<'' # t'"
  by (cases fs) (simp_all add: tagged_def)

lemma read_tags_all:
  assumes "good_fields r fs" "i < length (qsorec (into rd))"
  shows "read_tags k (tagged r fs @ ''<EOR>'' @ t) 0 (Some i) rd =
    Inr (rd\<lparr>into := set_rec i (put_fields r (qsorec (into rd) ! i) fs) (into rd)\<rparr>)"
  using assms
proof (induction fs arbitrary: rd)
  case Nil
  have "set_rec i (qsorec (into rd) ! i) (into rd) = into rd" by (simp add: set_rec_def)
  then show ?case using read_eor by (simp add: tagged_def put_fields_def)
next
  case (Cons f fs)
  obtain t' where t': "tagged r fs @ ''<EOR>'' @ t = CHR ''<'' # t'" using tagged_next by blast
  have line: "tagged r (f # fs) @ ''<EOR>'' @ t = CHR ''<'' # body_of r f @ CHR ''<'' # t'"
    unfolding t' [symmetric] by (simp add: tagged_def)
  have ff: "findfield (body_of r f @ CHR ''<'' # t') = Field (field_type f)"
    using findfield_tag [of f "r ! field_type f" "CHR ''<'' # t'"] Cons.prems(1) by (simp add: good_fields_def body_of_def)
  let ?rd = "rd\<lparr>into := set_rec i (putField (field_type f) (r ! field_type f) (qsorec (into rd) ! i)) (into rd)\<rparr>"
  have "good_fields r fs" "i < length (qsorec (into ?rd))" using Cons.prems by (simp_all add: good_fields_def set_rec_def)
  from Cons.IH [OF this, unfolded t'] show ?case
    unfolding line read_one_tag [OF body_no_tag [OF Cons.prems(1)]] ff found.simps at_field_body [OF Cons.prems(1)]
    using Cons.prems(2) by (simp add: put_fields_def set_rec_def)
qed

text \<open>The first tag of a record makes the record.\<close>

lemma read_record:
  assumes "good_fields r fs" "fs \<noteq> []" "newrec (into rd) = (i, db)" "i < length (qsorec db)" "qsorec db ! i = qso_rec_new"
  shows "read_tags k (tagged r fs @ ''<EOR>'' @ t) 0 None rd =
    Inr (rd\<lparr>into := set_rec i (put_fields r qso_rec_new fs) db\<rparr>)"
proof -
  obtain f gs where fs: "fs = f # gs" using assms(2) by (cases fs) auto
  obtain t' where t': "tagged r gs @ ''<EOR>'' @ t = CHR ''<'' # t'" using tagged_next by blast
  have line: "tagged r fs @ ''<EOR>'' @ t = CHR ''<'' # body_of r f @ CHR ''<'' # t'"
    unfolding t' [symmetric] fs by (simp add: tagged_def)
  have good: "good_fields r (f # gs)" using assms(1) fs by simp
  have ff: "findfield (body_of r f @ CHR ''<'' # t') = Field (field_type f)"
    using findfield_tag [of f "r ! field_type f" "CHR ''<'' # t'"] good by (simp add: good_fields_def body_of_def)
  have "read_tags k (tagged r fs @ ''<EOR>'' @ t) 0 None rd = read_tags k (tagged r fs @ ''<EOR>'' @ t) 0 (Some i) (rd\<lparr>into := db\<rparr>)"
    unfolding line read_one_tag [OF body_no_tag [OF good]] ff found.simps by (simp add: at_field_None assms(3))
  then show ?thesis using read_tags_all [OF assms(1), of i "rd\<lparr>into := db\<rparr>"] assms(4,5) by simp
qed

section \<open>The records of a file\<close>

lemma prefix_of_take: "prefix_of p s \<longleftrightarrow> take (length p) s = p"
  by (induction p s rule: prefix_of.induct) auto

lemma tag_not_eor: "f \<in> set adif_fields \<Longrightarrow> \<not> prefix_of (''<EOR>'') (CHR ''<'' # tag (field_name f) v @ t)"
proof
  assume f: "f \<in> set adif_fields" and p: "prefix_of (''<EOR>'') (CHR ''<'' # tag (field_name f) v @ t)"
  then have "prefix_of (''EOR>'') (tag (field_name f) v @ t)" by simp
  then have "take 4 (tag (field_name f) v @ t) = ''EOR>''" by (simp only: prefix_of_take) (simp add: numeral_eq_Suc)
  moreover have "map tolower_char ''EOR>'' = ''eor>''" by code_simp
  ultimately have "map tolower_char (take 4 (tag (field_name f) v @ t)) = ''eor>''" by simp
  then show False
    using not_eor [of "field_name f"] name_unquoted [OF f] by (simp add: tag_def unquoted_def)
qed

lemma find_eor_behind:
  assumes "f \<in> set adif_fields" "b @ s = tag (field_name f) v @ t" "CHR ''<'' \<notin> set b"
  shows "find_sub (CHR ''<'' # b @ s) ''<EOR>'' = map_option (\<lambda>i. i + Suc (length b)) (find_sub s ''<EOR>'')"
  using tag_not_eor [OF assms(1), of v t] find_sub_skip [OF assms(3), of s "''EOR>''"]
  by (subst find_sub_Cons) (simp add: assms(2) option.map_comp comp_def)

lemma find_eor_here: "find_sub (''<EOR>'' @ t) ''<EOR>'' = Some 0"
proof -
  have "prefix_of ''<EOR>'' (''<EOR>'' @ t)" by (rule prefix_of_append)
  then show ?thesis by (subst find_sub.simps) simp
qed

lemma find_eor:
  "good_fields r fs \<Longrightarrow> find_sub (tagged r fs @ ''<EOR>'' @ t) ''<EOR>'' = Some (length (tagged r fs))"
proof (induction fs)
  case Nil
  show ?case using find_eor_here by (simp add: tagged_def)
next
  case (Cons f fs)
  have "f \<in> set adif_fields" using Cons.prems by (simp add: good_fields_def)
  from find_eor_behind [OF this _ body_no_tag [OF Cons.prems], of "tagged r fs @ ''<EOR>'' @ t" "r ! field_type f" "tagged r fs @ ''<EOR>'' @ t"]
  have "find_sub (tagged r (f # fs) @ ''<EOR>'' @ t) ''<EOR>'' =
      map_option (\<lambda>i. i + Suc (length (body_of r f))) (find_sub (tagged r fs @ ''<EOR>'' @ t) ''<EOR>'')"
    by (simp add: body_of_def tagged_def)
  then show ?case using Cons by (simp add: good_fields_def tagged_def)
qed

text \<open>The fields of a record that are written.\<close>

definition written :: "qso_rec \<Rightarrow> field list" where
  "written r = filter (\<lambda>f. r ! field_type f \<noteq> '''') adif_fields"

definition fitting :: "qso_rec \<Rightarrow> bool" where
  "fitting r \<longleftrightarrow> plain r \<and> (\<forall>n < EXPORT. r ! n = [] \<or> fits n (r ! n))"

definition saveable :: "qso_rec \<Rightarrow> bool" where
  "saveable r \<longleftrightarrow> plain r \<and> written r \<noteq> [] \<and>
     (\<forall>n < EXPORT. r ! n = '''' \<or> fits n (r ! n) \<and> CHR ''<'' \<notin> set (r ! n))"

lemma good_written:
  assumes "saveable r"
  shows "good_fields r (written r)"
  unfolding good_fields_def
proof
  fix f assume "f \<in> set (written r)"
  then have "f \<in> set adif_fields" "r ! field_type f \<noteq> []" by (simp_all add: written_def)
  with field_type_lt [OF this(1)] assms
  show "f \<in> set adif_fields \<and> fits (field_type f) (r ! field_type f) \<and> CHR ''<'' \<notin> set (r ! field_type f)"
    unfolding saveable_def by blast
qed

lemma saveable_fitting: "saveable r \<Longrightarrow> fitting r"
  by (auto simp: saveable_def fitting_def)

lemma show_nat_short: "n < 10 ^ k \<Longrightarrow> 0 < k \<Longrightarrow> length (show_nat n) \<le> k"
proof (induction k arbitrary: n)
  case (Suc k)
  show ?case
  proof (cases "n < 10")
    case False
    then have "0 < k" using Suc.prems by (cases k) auto
    moreover have "n div 10 < 10 ^ k" using Suc.prems by (simp add: less_mult_imp_div_less mult.commute)
    ultimately show ?thesis using Suc.IH False by (subst show_nat.simps) simp
  qed (subst show_nat.simps, simp)
qed simp

lemma adif_field_written:
  assumes "fitting r" "f \<in> set adif_fields"
  shows "adif_field r f = (if r ! field_type f = '''' then '''' else CHR ''<'' # body_of r f)"
proof (cases "r ! field_type f = ''''")
  case True
  then show ?thesis by (simp add: adif_field_def getField_def c_str_def)
next
  case False
  let ?v = "r ! field_type f"
  have n: "field_type f < EXPORT" by (rule field_type_lt [OF assms(2)])
  then have v: "getField (field_type f) r = ?v" "fits (field_type f) ?v"
    using assms(1) False by (auto simp: getField_def fitting_def plain_def c_str_id)
  have "length adif_fields = 55" by (simp add: adif_fields_def)
  then have "adif_fields ! field_type f \<in> set adif_fields" using n by simp
  then have "length ?v \<le> 512" using v(2) fsize_le unfolding fits_def by (meson order_trans)
  then have "length (show_nat (length ?v)) \<le> 3" using show_nat_short [of "length ?v" 3] by simp
  then have whole: "take 199 (adifmt (field_name f) (length ?v)) = adifmt (field_name f) (length ?v)"
    using names_short_fields [OF assms(2)] by (intro take_all) (simp add: adifmt_def)
  have "map tolower_char (field_name f) \<in> set field_names" using assms(2) unfolding lower_names [symmetric] by simp
  moreover have "map tolower_char ''MYXCHG'' = ''myxchg''" "map tolower_char ''XCHG1'' = ''xchg1''" by code_simp+
  moreover have "''myxchg'' \<notin> set field_names" "''xchg1'' \<notin> set field_names" by (simp_all add: field_names_def)
  ultimately have "field_name f \<noteq> ''MYXCHG''" "field_name f \<noteq> ''XCHG1''" by metis+
  then show ?thesis
    using False v(1) whole by (simp add: adif_field_def Let_def adifmt_def body_of_def tag_def)
qed

lemma adif_record_written: "fitting r \<Longrightarrow> adif_record r = tagged r (written r) @ ''<EOR>'' @ szEOL"
proof -
  assume r: "fitting r"
  have "concat (map (adif_field r) fs) = tagged r (filter (\<lambda>f. r ! field_type f \<noteq> '''') fs)" if "set fs \<subseteq> set adif_fields" for fs
    using that by (induction fs) (simp_all add: adif_field_written [OF r] tagged_def)
  then show ?thesis by (simp add: adif_record_def written_def szEOR_def)
qed

text \<open>What is read of a record is the record, without the mark for an export.\<close>

lemma nth_put_fields:
  "length q = NUMFIELDS \<Longrightarrow> \<forall>f \<in> set fs. field_type f < NUMFIELDS \<Longrightarrow> n < NUMFIELDS \<Longrightarrow>
   put_fields r q fs ! n = (if n \<in> field_type ` set fs then r ! n else q ! n) \<and> length (put_fields r q fs) = NUMFIELDS"
proof (induction fs arbitrary: q)
  case (Cons f fs)
  have "put_fields r q (f # fs) = put_fields r (putField (field_type f) (r ! field_type f) q) fs" by (simp add: put_fields_def)
  with Cons.IH [of "putField (field_type f) (r ! field_type f) q"] Cons.prems show ?case by (auto simp: putField_def)
qed (simp add: put_fields_def)

lemma put_written:
  assumes "saveable r"
  shows "put_fields r qso_rec_new (written r) = r[EXPORT := '''']"
proof (rule nth_equalityI)
  have len: "length r = NUMFIELDS" using assms by (simp add: saveable_def plain_def)
  have types: "field_type ` set adif_fields = {..<EXPORT}"
    unfolding set_map [symmetric] field_types set_append set_upt by auto
  have lt: "\<forall>f \<in> set (written r). field_type f < NUMFIELDS" using field_type_lt by (fastforce simp: written_def)
  note put = nth_put_fields [OF _ lt, of qso_rec_new _ r]
  show "length (put_fields r qso_rec_new (written r)) = length (r[EXPORT := ''''])" using put [of 0] len by (simp add: qso_rec_new_def)
  fix n assume "n < length (put_fields r qso_rec_new (written r))"
  then have n: "n < NUMFIELDS" using put [of 0] by (simp add: qso_rec_new_def)
  have "n \<in> field_type ` set (written r) \<longleftrightarrow> n < EXPORT \<and> r ! n \<noteq> ''''"
  proof -
    have "n \<in> field_type ` set (written r) \<longleftrightarrow> n \<in> field_type ` set adif_fields \<and> r ! n \<noteq> []"
      unfolding written_def set_filter by blast
    then show ?thesis unfolding types by simp
  qed
  then show "put_fields r qso_rec_new (written r) ! n = r[EXPORT := ''''] ! n"
    using put [OF _ n] n len by (auto simp: qso_rec_new_def nth_list_update)
qed

lemma plain_saved: "saveable r \<Longrightarrow> plain (r[EXPORT := ''''])"
  by (auto simp: saveable_def intro: plain_update)

lemma read_saved:
  assumes "saveable r" "db_ok (into rd)" "\<forall>r \<in> set (records (into rd)). plain r"
  shows "\<exists>db. read_tags k (adif_record r @ t) 0 None rd = Inr (rd\<lparr>into := db\<rparr>) \<and> db_ok db \<and>
    records db = records (into rd) @ [r[EXPORT := '''']]"
proof -
  obtain i db where new: "newrec (into rd) = (i, db)" by (cases "newrec (into rd)")
  have db: "i = nbrrecs (into rd)" "i < length (qsorec db)" "qsorec db ! i = qso_rec_new" "db_ok db"
    "records db = records (into rd) @ [qso_rec_new]" "nbrrecs db = Suc (nbrrecs (into rd))"
    using newrec_appends [OF assms(2,3)] unfolding new prod.case by blast+
  have "written r \<noteq> []" using assms(1) by (simp add: saveable_def)
  note read = read_record [OF good_written [OF assms(1)] this new db(2,3), of k "szEOL @ t"]
  let ?r = "r[EXPORT := '''']"
  have len: "length ?r = NUMFIELDS" using assms(1) by (simp add: saveable_def plain_def)
  have "db_ok (set_rec i ?r db)" using db(4) len by (auto simp: db_ok_def set_rec_def nth_list_update db(1,6))
  moreover have "records (set_rec i ?r db) = (records db)[i := ?r]" by (simp add: records_def set_rec_def take_update_swap)
  moreover have "(records db)[i := ?r] = records (into rd) @ [?r]"
    using db(1,5) length_records [OF assms(2)] by (simp add: list_update_append)
  ultimately show ?thesis
    using read put_written [OF assms(1)] by (intro exI [of _ "set_rec i ?r db"]) (simp add: adif_record_written [OF saveable_fitting [OF assms(1)]])
qed

lemma adif_record_starts: "saveable r \<Longrightarrow> \<exists>t. adif_record r = CHR ''<'' # t"
  using adif_record_written [OF saveable_fitting, of r] by (cases "written r") (simp_all add: tagged_def)

lemma read_recs_saved:
  assumes "\<forall>r \<in> set rs. saveable r" "rs \<noteq> []" "db_ok (into rd)" "\<forall>r \<in> set (records (into rd)). plain r"
  shows "\<exists>db. read_recs (concat (map adif_record rs)) k 0 rd = Inr (rd\<lparr>into := db\<rparr>) \<and> db_ok db \<and>
    records db = records (into rd) @ map (\<lambda>r. r[EXPORT := '''']) rs"
  using assms
proof (induction rs arbitrary: k rd)
  case (Cons r rs)
  let ?t = "concat (map adif_record rs)" and ?T = "tagged r (written r)"
  have r: "saveable r" using Cons.prems by simp
  have line: "concat (map adif_record (r # rs)) = adif_record r @ ?t" by simp
  have split: "adif_record r @ ?t = ?T @ ''<EOR>'' @ szEOL @ ?t" by (simp add: adif_record_written [OF saveable_fitting [OF r]])
  have "find_either (adif_record r @ ?t) ''<EOR>'' ''<eor>'' 0 = Some (length ?T)"
    unfolding find_either_def find_sub_from_def split using find_eor [OF good_written [OF r], of "szEOL @ ?t"] by simp
  moreover have after: "drop (length ?T + 1) (adif_record r @ ?t) = ''EOR>'' @ szEOL @ ?t" unfolding split by simp
  moreover obtain db where db: "read_tags k (adif_record r @ ?t) 0 None rd = Inr (rd\<lparr>into := db\<rparr>)" "db_ok db"
    "records db = records (into rd) @ [r[EXPORT := '''']]"
    using read_saved [OF r Cons.prems(3,4)] by blast
  moreover have next_lt: "find_char (adif_record r @ ?t) (CHR ''<'') (length ?T + 1) = (if rs = [] then None else Some (length (adif_record r)))"
  proof (cases rs)
    case Nil
    then show ?thesis unfolding find_char_def after by (simp add: szEOL_def)
  next
    case (Cons r' rs')
    then obtain t where "?t = CHR ''<'' # t" using adif_record_starts [of r'] Cons.prems(1) \<open>\<forall>r \<in> set (r # rs). saveable r\<close> by auto
    then show ?thesis unfolding find_char_def after using Cons by (simp add: szEOL_def adif_record_written [OF saveable_fitting [OF r]])
  qed
  ultimately have step: "read_recs (adif_record r @ ?t) k 0 rd =
      (if rs = [] then Inr (rd\<lparr>into := db\<rparr>) else read_recs ?t (k + 1) 0 (rd\<lparr>into := db\<rparr>))"
    using read_recs_shift [of "adif_record r" ?t "k + 1" 0 "rd\<lparr>into := db\<rparr>"]
    by (subst read_recs.simps) simp
  show ?case
  proof (cases "rs = []")
    case True
    then show ?thesis using db(2,3) step by (intro exI [of _ db]) simp
  next
    case False
    have "\<forall>r \<in> set (records db). plain r" using db(3) Cons.prems(4) plain_saved [OF r] by auto
    with Cons.IH [of "rd\<lparr>into := db\<rparr>" "k + 1"] Cons.prems(1) False db(2,3) step show ?thesis by auto
  qed
qed simp

section \<open>The file\<close>

lemma skip_tag:
  assumes "CHR ''<'' \<notin> set (x # a)" "x \<noteq> CHR ''E''"
  shows "find_sub (CHR ''<'' # x # a @ s) ''<EOH>'' = map_option (\<lambda>i. i + Suc (Suc (length a))) (find_sub s ''<EOH>'')"
  using find_sub_skip [OF assms(1), of s "''EOH>''"] assms(2)
  by (subst find_sub_Cons) (simp add: option.map_comp comp_def)

definition before_eoh :: "string \<Rightarrow> string \<Rightarrow> string \<Rightarrow> string" where
  "before_eoh fname package version = ''File: '' @ fname @ szEOL @ adifmt ''ADIF_VER'' 5 @ ''2.2.7'' @ szEOL @
    adifmt ''PROGRAMID'' (length package) @ package @ szEOL @ adifmt ''PROGRAMVERSION'' (length version) @ version @ szEOL"

lemma header_split: "ADIFHEADER fname package version @ s = before_eoh fname package version @ ''<EOH>'' @ szEOL @ s"
  by (simp add: ADIFHEADER_def before_eoh_def)

lemma find_eoh:
  assumes "CHR ''<'' \<notin> set (fname @ package @ version)"
  shows "find_sub (ADIFHEADER fname package version @ s) ''<EOH>'' = Some (length (before_eoh fname package version))"
proof -
  let ?a1 = "''DIF_VER:'' @ show_nat 5 @ ''>2.2.7'' @ szEOL" and ?a2 = "''ROGRAMID:'' @ show_nat (length package) @ ''>'' @ package @ szEOL"
    and ?a3 = "''ROGRAMVERSION:'' @ show_nat (length version) @ ''>'' @ version @ szEOL" and ?a0 = "''File: '' @ fname @ szEOL"
  have eq: "ADIFHEADER fname package version @ s = ?a0 @ CHR ''<'' # CHR ''A'' # ?a1 @ CHR ''<'' # CHR ''P'' # ?a2 @ CHR ''<'' # CHR ''P'' # ?a3 @ ''<EOH>'' @ szEOL @ s"
    by (simp add: ADIFHEADER_def adifmt_def)
  have n: "CHR ''<'' \<notin> set (show_nat k)" for k using show_nat_unquoted [of k] by (simp add: unquoted_def)
  have no: "CHR ''<'' \<notin> set ?a0" "CHR ''<'' \<notin> set (CHR ''A'' # ?a1)" "CHR ''<'' \<notin> set (CHR ''P'' # ?a2)" "CHR ''<'' \<notin> set (CHR ''P'' # ?a3)"
    using assms by (simp_all add: n szEOL_def)
  have "prefix_of ''<EOH>'' (''<EOH>'' @ szEOL @ s)" by (rule prefix_of_append)
  then have last: "find_sub (''<EOH>'' @ szEOL @ s) ''<EOH>'' = Some 0" by (subst find_sub.simps) simp
  have "find_sub (ADIFHEADER fname package version @ s) ''<EOH>'' =
      Some (Suc (Suc (length ?a3)) + Suc (Suc (length ?a2)) + Suc (Suc (length ?a1)) + length ?a0)"
    unfolding eq find_sub_skip [OF no(1)] by (simp only: skip_tag [OF no(2)] skip_tag [OF no(3)] skip_tag [OF no(4)] last
      char.inject simp_thms option.simps not_False_eq_True add_0)
  then show ?thesis by (simp add: before_eoh_def adifmt_def)
qed

lemma read_after_header:
  assumes "CHR ''<'' \<notin> set (fname @ package @ version)" "s = [] \<or> s = CHR ''<'' # t \<and> find_sub s ''<EOR>'' \<noteq> None"
  shows "do_readfile (ADIFHEADER fname package version @ s) db =
    (if s = [] then Inr \<lparr>into = db, read_errors = []\<rparr> else read_recs s 0 0 \<lparr>into = db, read_errors = []\<rparr>)"
proof -
  let ?H = "ADIFHEADER fname package version" and ?h = "before_eoh fname package version"
  have eoh: "find_either (?H @ s) ''<EOH>'' ''<eoh>'' 0 = Some (length ?h)"
    using find_eoh [OF assms(1), of s] by (simp add: find_either_def find_sub_from_def)
  have "drop (length ?h + 1) (?H @ s) = ''EOH>'' @ szEOL @ s" unfolding header_split by simp
  then have lt: "find_char (?H @ s) (CHR ''<'') (length ?h + 1) = (if s = [] then None else Some (length ?H))"
    using assms(2) header_split [of fname package version "[]"] unfolding find_char_def by (auto simp: szEOL_def)
  show ?thesis
  proof (cases "s = []")
    case True
    then show ?thesis using eoh lt by (simp add: do_readfile_def Let_def)
  next
    case False
    then have "find_sub s ''<EOR>'' \<noteq> None" using assms(2) by blast
    then have "find_sub (?H @ s) ''<EOR>'' \<noteq> None"
    proof -
      have "find_sub t pat \<noteq> None \<Longrightarrow> find_sub (u @ t) pat \<noteq> None" for u t pat
        by (induction u) (auto simp: find_sub_Cons)
      with \<open>find_sub s ''<EOR>'' \<noteq> None\<close> show ?thesis by blast
    qed
    moreover have "read_recs (?H @ s) 0 (length ?H) rd = read_recs s 0 0 rd" for rd
      using read_recs_shift [of ?H s 0 0 rd] by simp
    ultimately show ?thesis using False eoh lt by (auto simp: do_readfile_def Let_def)
  qed
qed

section \<open>The properties\<close>

text \<open>
  C5: a logbook that is saved is read back. When no text has a bracket or is longer than its field, times have six
  digits and no record is empty, reading the file that was written adds the records of the logbook in their order,
  all fields as they were but for the mark of an export, with no error.
\<close>

theorem adif_roundtrip:
  assumes "db_ok db" "\<forall>r \<in> set (records db). saveable r" "CHR ''<'' \<notin> set (fname @ package @ version)"
    "db_ok db0" "\<forall>r \<in> set (records db0). plain r"
  shows "\<exists>rd. do_readfile (do_writelog fname package version db) db0 = Inr rd \<and> read_errors rd = [] \<and> db_ok (into rd) \<and>
    records (into rd) = records db0 @ map (\<lambda>r. r[EXPORT := '''']) (records db)"
proof -
  let ?s = "concat (map adif_record (records db))"
  have whole: "do_writelog fname package version db = ADIFHEADER fname package version @ ?s"
    by (simp add: do_writelog_def records_def)
  show ?thesis
  proof (cases "records db")
    case Nil
    then show ?thesis using read_after_header [OF assms(3), of ?s undefined db0] assms(4) by (simp add: whole)
  next
    case (Cons r rs)
    have r: "saveable r" using assms(2) Cons by simp
    then obtain t where t: "adif_record r = CHR ''<'' # t" using adif_record_starts by blast
    have "find_sub ?s ''<EOR>'' \<noteq> None"
      using find_eor [OF good_written [OF r], of "szEOL @ concat (map adif_record rs)"] Cons by (simp add: adif_record_written [OF saveable_fitting [OF r]])
    moreover have "?s = CHR ''<'' # t @ concat (map adif_record rs)" using t Cons by simp
    ultimately have "do_readfile (do_writelog fname package version db) db0 = read_recs ?s 0 0 \<lparr>into = db0, read_errors = []\<rparr>"
      using read_after_header [OF assms(3), of ?s "t @ concat (map adif_record rs)" db0] by (simp add: whole)
    then show ?thesis
      using read_recs_saved [of "records db" "\<lparr>into = db0, read_errors = []\<rparr>" 0] assms(2,4,5) Cons by fastforce
  qed
qed

lemma demo_saveable: "saveable demo_rec"
proof -
  have at: "demo_rec ! n = (if n = CALL then ''W1HKJ'' else if n = FREQ then ''14.070'' else if n = QSO_DATE then ''20200102''
      else if n = TIME_ON then ''123400'' else '''')" if "n < NUMFIELDS" for n
    using that by (simp add: demo_rec_def qso_rec_new_def nth_list_update)
  have "adif_fields ! 1 \<in> set adif_fields" "field_type (adif_fields ! 1) = CALL" by (simp_all add: adif_fields_def field_type_def)
  then have "adif_fields ! 1 \<in> set (written demo_rec)" using at [of CALL] by (simp add: written_def)
  then have "written demo_rec \<noteq> []" by auto
  moreover have "fsize (adif_fields ! CALL) = 30" "fsize (adif_fields ! FREQ) = 12" "fsize (adif_fields ! QSO_DATE) = 8"
    "fsize (adif_fields ! TIME_ON) = 6" by (simp_all add: adif_fields_def fsize_def)
  ultimately show ?thesis using at demo_db_ok(3) by (auto simp: saveable_def fits_def)
qed

theorem adif_roundtrip_witness:
  "\<exists>rd. do_readfile (do_writelog ''logbook.adif'' ''fldigi'' ''4.0'' demo_db) qso_db_new = Inr rd \<and>
     records (into rd) = [demo_rec[EXPORT := '''']] \<and> read_errors rd = []"
  using adif_roundtrip [OF demo_db_ok(1) _ _ db_ok_new(1), of "''logbook.adif''" "''fldigi''" "''4.0''"] demo_saveable
  by (auto simp: demo_db_ok db_ok_new)

text \<open>A record with a call and a note, where the note ends with the text of a tag.\<close>

definition two_fields :: "string \<Rightarrow> string \<Rightarrow> qso_rec" where
  "two_fields c v = qso_rec_new[CALL := c, NOTES := v]"

lemma fields_of_two:
  "adif_fields ! 1 \<in> set adif_fields" "field_type (adif_fields ! 1) = CALL" "field_name (adif_fields ! 1) = ''CALL''"
  "adif_fields ! 14 \<in> set adif_fields" "field_type (adif_fields ! 14) = NOTES" "field_name (adif_fields ! 14) = ''NOTES''"
  "fsize (adif_fields ! CALL) = 30" "fsize (adif_fields ! NOTES) = 512"
  by (simp_all add: adif_fields_def field_type_def field_name_def fsize_def)

lemma record_of_two:
  assumes "c \<noteq> ''''" "v \<noteq> ''''" "CHR 0x00 \<notin> set (c @ v)" "length c \<le> 30" "length v \<le> 512"
  shows "adif_record (two_fields c v) = CHR ''<'' # tag ''CALL'' c @ CHR ''<'' # tag ''NOTES'' v @ ''<EOR>'' @ szEOL"
proof -
  have at: "n < NUMFIELDS \<Longrightarrow> two_fields c v ! n = (if n = CALL then c else if n = NOTES then v else '''')" for n
    by (simp add: two_fields_def qso_rec_new_def nth_list_update)
  have "plain (two_fields c v)"
    using assms(3) by (auto simp: two_fields_def qso_rec_new_def plain_def dest!: set_update_subset_insert [THEN subsetD])
  then have fit: "fitting (two_fields c v)"
    using at fields_of_two(7,8) assms(4,5) by (auto simp: fitting_def fits_def)
  have "written (two_fields c v) = [adif_fields ! 1, adif_fields ! 14]"
    using assms(1,2) by (simp add: written_def adif_fields_def field_type_def two_fields_def qso_rec_new_def)
  then show ?thesis
    using at [of CALL] at [of NOTES]
    by (simp add: adif_record_written [OF fit] tagged_def body_of_def fields_of_two [simplified])
qed

lemma tag_of_two:
  "unquoted ''CALL''" "unquoted ''NOTES''" "findfield (tag ''CALL'' v @ t) = Field CALL" "findfield (tag ''NOTES'' v @ t) = Field NOTES"
  using findfield_tag [OF fields_of_two(1), of v t] findfield_tag [OF fields_of_two(4), of v t]
    name_unquoted [OF fields_of_two(1)] name_unquoted [OF fields_of_two(4)]
  unfolding fields_of_two by simp_all

lemma read_recs_one:
  assumes "find_sub (T @ ''<EOR>'' @ szEOL) ''<EOR>'' = Some (length T)"
  shows "read_recs (T @ ''<EOR>'' @ szEOL) k 0 rd = read_tags k (T @ ''<EOR>'' @ szEOL) 0 None rd"
proof -
  have eor: "find_either (T @ ''<EOR>'' @ szEOL) ''<EOR>'' ''<eor>'' 0 = Some (length T)"
    unfolding find_either_def find_sub_from_def using assms by simp
  have "drop (length T + 1) (T @ ''<EOR>'' @ szEOL) = ''EOR>'' @ szEOL" by simp
  then have none: "find_char (T @ ''<EOR>'' @ szEOL) (CHR ''<'') (length T + 1) = None"
    unfolding find_char_def by (simp add: szEOL_def)
  show ?thesis
    by (subst read_recs.simps, cases "read_tags k (T @ ''<EOR>'' @ szEOL) 0 None rd")
      (simp_all only: eor none option.simps andthen_simps)
qed

lemma read_two:
  assumes "CHR ''<'' \<notin> set c" "CHR ''<'' \<notin> set u" "CHR ''<'' \<notin> set w" "fits CALL c" "fits CALL w" "fits NOTES v"
    "v = u @ CHR ''<'' # tag ''CALL'' w" "newrec (into rd) = (i, db)" "i < length (qsorec db)"
  shows "read_recs (CHR ''<'' # tag ''CALL'' c @ CHR ''<'' # tag ''NOTES'' v @ ''<EOR>'' @ szEOL) 0 0 rd =
    Inr (rd\<lparr>into := set_rec i (putField CALL w (putField NOTES v (putField CALL c (qsorec db ! i)))) db\<rparr>)"
proof -
  let ?b = "''NOTES:'' @ show_nat (length v) @ ''>'' @ u" and ?tail = "''<EOR>'' @ szEOL"
  let ?s3 = "CHR ''<'' # tag ''CALL'' w @ ?tail" and ?t = "CHR ''<'' # ''EOR>'' @ szEOL"
  have lt: "CALL < EXPORT" "NOTES < EXPORT" by simp_all
  have digits: "CHR ''<'' \<notin> set (show_nat k)" for k using show_nat_unquoted [of k] by (simp add: unquoted_def)
  have no: "CHR ''<'' \<notin> set (tag ''CALL'' c)" "CHR ''<'' \<notin> set ?b" "CHR ''<'' \<notin> set (tag ''CALL'' w)"
    using assms(1-3) digits by (simp_all add: tag_def)
  have split: "tag ''NOTES'' v @ ?tail = ?b @ ?s3" using assms(7) by (simp add: tag_def)
  let ?s2 = "CHR ''<'' # ?b @ ?s3" let ?s = "CHR ''<'' # tag ''CALL'' c @ ?s2"
  have "find_sub ?s ''<EOR>'' = Some (Suc (Suc (Suc (length (tag ''CALL'' w) + length ?b + length (tag ''CALL'' c)))))"
    using find_eor_behind [OF fields_of_two(1) _ no(1), of ?s2 c ?s2] find_eor_behind [OF fields_of_two(4) _ no(2), of ?s3 v ?tail]
      find_eor_behind [OF fields_of_two(1) _ no(3), of ?tail w ?tail] find_eor_here [of szEOL]
    unfolding fields_of_two split by simp
  then have one: "read_recs ?s 0 0 rd = read_tags 0 ?s 0 None rd"
    using read_recs_one [of "CHR ''<'' # tag ''CALL'' c @ CHR ''<'' # ?b @ CHR ''<'' # tag ''CALL'' w" 0 rd] by simp
  let ?rd1 = "rd\<lparr>into := set_rec i (putField CALL c (qsorec db ! i)) db\<rparr>"
  let ?rd2 = "rd\<lparr>into := set_rec i (putField NOTES v (putField CALL c (qsorec db ! i))) db\<rparr>"
  have 1: "read_tags 0 ?s 0 None rd = read_tags 0 ?s2 0 (Some i) ?rd1"
    unfolding read_one_tag [OF no(1)] tag_of_two(3) found.simps
    by (simp only: at_field_None assms(8) fst_conv snd_conv at_field_tag [OF tag_of_two(1) assms(4) lt(1)] andthen_simps prod.case) simp
  have same: "?b @ ?s3 = tag ''NOTES'' v @ ?tail" using split by simp
  have f1: "findfield (?b @ ?s3) = Field NOTES" unfolding same by (rule tag_of_two(4))
  have f2: "at_field 0 NOTES (?b @ ?s3) (Some i) ?rd1 = Inr (Some i, ?rd2)"
    unfolding same at_field_tag [OF tag_of_two(2) assms(6) lt(2)] using assms(9) by (simp add: set_rec_def)
  have 2: "read_tags 0 ?s2 0 (Some i) ?rd1 = read_tags 0 ?s3 0 (Some i) ?rd2"
    unfolding read_one_tag [OF no(2)] f1 f2 found.simps andthen_simps prod.case ..
  have last: "?tail = ?t" by simp
  have 3: "read_tags 0 ?s3 0 (Some i) ?rd2 = read_tags 0 ?tail 0 (Some i) (rd\<lparr>into := set_rec i (putField CALL w (putField NOTES v (putField CALL c (qsorec db ! i)))) db\<rparr>)"
    unfolding last read_one_tag [OF no(3)] tag_of_two(3) found.simps at_field_tag [OF tag_of_two(1) assms(5) lt(1)] andthen_simps prod.case
    using assms(9) by (simp add: set_rec_def)
  show ?thesis unfolding split one 1 2 3 read_eor ..
qed

text \<open>
  C37: a text with a bracket of its own is not read back as a text. When the note of a contact ends with what looks
  like the tag of a call, the log that was saved has that as the call after it was read.
\<close>

theorem adif_injection:
  fixes c u w :: string
  defines "v \<equiv> u @ ''<CALL:'' @ show_nat (length w) @ ''>'' @ w"
  assumes "c \<noteq> ''''" "CHR ''<'' \<notin> set (c @ u @ w)" "CHR 0x00 \<notin> set (c @ u @ w)" "length c \<le> 30" "length w \<le> 30" "length v \<le> 512"
    "CHR ''<'' \<notin> set (fname @ package @ version)" "db_ok db0" "\<forall>r \<in> set (records db0). plain r"
    "records db = [qso_rec_new[CALL := c, NOTES := v]]"
  shows "\<exists>rd. do_readfile (do_writelog fname package version db) db0 = Inr rd \<and>
    records (into rd) = records db0 @ [qso_rec_new[CALL := w, NOTES := v]]"
proof -
  have v: "v = u @ CHR ''<'' # tag ''CALL'' w" "v \<noteq> ''''" by (simp_all add: v_def tag_def)
  have "CHR 0x00 \<notin> set v" using assms(4) show_nat_unquoted [of "length w"] by (simp add: v_def unquoted_def)
  then have line: "adif_record (two_fields c v) = CHR ''<'' # tag ''CALL'' c @ CHR ''<'' # tag ''NOTES'' v @ ''<EOR>'' @ szEOL"
    using record_of_two [OF assms(2) v(2)] assms(4,5,7) by simp
  obtain i db1 where new: "newrec db0 = (i, db1)" by (cases "newrec db0")
  have db1: "i = nbrrecs db0" "i < length (qsorec db1)" "qsorec db1 ! i = qso_rec_new" "records db1 = records db0 @ [qso_rec_new]"
    using newrec_appends [OF assms(9,10)] unfolding new prod.case by blast+
  have "find_sub (adif_record (two_fields c v)) ''<EOR>'' \<noteq> None" unfolding line
    using find_sub_append [of "CHR ''<'' # tag ''CALL'' c @ CHR ''<'' # tag ''NOTES'' v" "''<EOR>''" szEOL] by simp
  moreover have "records db = [two_fields c v]" using assms(11) by (simp add: two_fields_def)
  then have "do_writelog fname package version db = ADIFHEADER fname package version @ adif_record (two_fields c v)"
    unfolding do_writelog_def records_def [symmetric] by simp
  ultimately have start: "do_readfile (do_writelog fname package version db) db0 =
      read_recs (adif_record (two_fields c v)) 0 0 \<lparr>into = db0, read_errors = []\<rparr>"
    using read_after_header [OF assms(8), of "adif_record (two_fields c v)" "tag ''CALL'' c @ CHR ''<'' # tag ''NOTES'' v @ ''<EOR>'' @ szEOL" db0]
    by (simp add: line)
  have "fits CALL c" "fits CALL w" "fits NOTES v" using assms(5-7) by (simp_all add: fits_def fields_of_two [simplified])
  from read_two [OF _ _ _ this v(1), of "\<lparr>into = db0, read_errors = []\<rparr>" i db1] assms(3) new db1(2,3)
  have "do_readfile (do_writelog fname package version db) db0 =
      Inr \<lparr>into = set_rec i (putField CALL w (putField NOTES v (putField CALL c qso_rec_new))) db1, read_errors = []\<rparr>"
    unfolding start line by simp
  moreover have "putField CALL w (putField NOTES v (putField CALL c qso_rec_new)) = qso_rec_new[CALL := w, NOTES := v]"
    by (simp add: putField_def list_update_swap)
  moreover have "records (set_rec i r db1) = records db0 @ [r]" for r
    using db1(1,4) length_records [OF assms(9)] by (simp add: records_def set_rec_def take_update_swap list_update_append)
  ultimately show ?thesis by simp
qed

theorem adif_injection_witness:
  "\<exists>rd. do_readfile (do_writelog ''logbook.adif'' ''fldigi'' ''4.0''
      \<lparr>qsorec = [qso_rec_new[CALL := ''W1HKJ'', NOTES := ''nice <CALL:5>K1JTX'']], maxrecs = 1, nbrrecs = 1, dirty = 0\<rparr>) qso_db_new = Inr rd \<and>
     records (into rd) = [qso_rec_new[CALL := ''K1JTX'', NOTES := ''nice <CALL:5>K1JTX'']]"
proof -
  let ?db = "\<lparr>qsorec = [qso_rec_new[CALL := ''W1HKJ'', NOTES := ''nice <CALL:5>K1JTX'']], maxrecs = 1, nbrrecs = 1, dirty = 0\<rparr>"
  have v: "''nice '' @ ''<CALL:'' @ show_nat (length ''K1JTX'') @ ''>'' @ ''K1JTX'' = ''nice <CALL:5>K1JTX''" by code_simp
  have db: "records ?db = [qso_rec_new[CALL := ''W1HKJ'', NOTES := ''nice <CALL:5>K1JTX'']]" by (simp add: records_def)
  have none: "\<forall>r \<in> set (records qso_db_new). plain r" by (simp add: db_ok_new)
  note inj = adif_injection [where c = "''W1HKJ''" and u = "''nice ''" and w = "''K1JTX''" and fname = "''logbook.adif''"
      and package = "''fldigi''" and version = "''4.0''", unfolded v, OF _ _ _ _ _ _ _ db_ok_new(1) none db]
  show ?thesis using inj by (simp add: db_ok_new(2))
qed

end
