(* ===== verification/Qso_Merge.thy ===== *)
theory Qso_Merge
  imports Qso_Laws
begin

text \<open>
  Merging a file into the logbook, \<^verbatim>\<open>merge_thread\<close> of \<^verbatim>\<open>logbook/logsupport.cxx\<close>: both sets of records are sorted
  by call, the logbook is cleared and filled again from the front of the two, and records that compare equal to
  the one taken last go to two lists of duplicates. The file that was read is a database here; threads,
  messages and the files of duplicates are left out. The user can abort the merge before any round.
\<close>

section \<open>The merge\<close>

record merge =
  m_db :: qso_db
  merge_dups :: qso_db
  orig_dups :: qso_db
  lastrec :: "qso_rec option"
  m_n :: nat
  m_m :: nat
  merged :: nat
  merge_duplicates :: nat
  orig_duplicates :: nat

definition take_rec :: "qso_rec \<Rightarrow> merge \<Rightarrow> merge" where
  "take_rec r st = st\<lparr>m_db := qsoNewRec r (m_db st), lastrec := Some r\<rparr>"

definition merge_dup :: "qso_rec \<Rightarrow> merge \<Rightarrow> merge" where
  "merge_dup r st = st\<lparr>merge_dups := qsoNewRec r (merge_dups st), merge_duplicates := merge_duplicates st + 1\<rparr>"

definition orig_dup :: "qso_rec \<Rightarrow> merge \<Rightarrow> merge" where
  "orig_dup r st = st\<lparr>orig_dups := qsoNewRec r (orig_dups st), orig_duplicates := orig_duplicates st + 1\<rparr>"

definition count_merged :: "merge \<Rightarrow> merge" where "count_merged st = st\<lparr>merged := merged st + 1\<rparr>"
definition next_n :: "merge \<Rightarrow> merge" where "next_n st = st\<lparr>m_n := m_n st + 1\<rparr>"
definition next_m :: "merge \<Rightarrow> merge" where "next_m st = st\<lparr>m_m := m_m st + 1\<rparr>"

text \<open>The comparison with the last record follows a pointer that is null at first.\<close>

definition compare_last :: "ordering \<Rightarrow> merge \<Rightarrow> qso_rec \<Rightarrow> int result" where
  "compare_last g st r = (case lastrec st of None \<Rightarrow> Inl BadIndex | Some l \<Rightarrow> Inr (comparebycall g l r))"

text \<open>One round of the loop; \<open>None\<close> leaves it.\<close>

definition merge_step :: "ordering \<Rightarrow> qso_rec list \<Rightarrow> qso_rec list \<Rightarrow> merge \<Rightarrow> merge option result" where
  "merge_step g ns ms st =
    (let N = length ns; M = length ms; n = m_n st; m = m_m st; rec_n = ns ! n; rec_m = ms ! m in
     if N = 0 then
       if m = M then Inr None
       else if lastrec st = None then Inr (Some (next_m (count_merged (take_rec rec_m st))))
       else andthen (compare_last g st rec_m) (\<lambda>cmp.
         Inr (Some (next_m (if cmp \<noteq> 0 then count_merged (take_rec rec_m st) else merge_dup rec_m st))))
     else if n = N then
       if m = M then Inr None
       else andthen (compare_last g st rec_m) (\<lambda>cmp.
         Inr (Some (next_m (if cmp = 0 then merge_dup rec_m st else count_merged (take_rec rec_m st)))))
     else if m = M then
       andthen (compare_last g st rec_n) (\<lambda>cmp.
         Inr (Some (next_n (if cmp = 0 then orig_dup rec_n st else take_rec rec_n st))))
     else if lastrec st = None then
       let cmp = comparebycall g rec_n rec_m
       in if cmp < 0 then Inr (Some (next_n (take_rec rec_n st)))
          else if cmp = 0 then Inr (Some (next_m (merge_dup rec_m (next_n (take_rec rec_n st)))))
          else Inr (Some (next_m (take_rec rec_m st)))
     else
       let cmp = comparebycall g rec_n rec_m
       in if cmp = 0 then
            let st = next_m (merge_dup rec_m st)
            in andthen (compare_last g st rec_n) (\<lambda>cmp2.
              Inr (Some (next_n (if cmp2 = 0 then orig_dup rec_n st else take_rec rec_n st))))
          else if cmp < 0 then
            andthen (compare_last g st rec_n) (\<lambda>cmp2.
              Inr (Some (next_n (if cmp2 = 0 then orig_dup rec_n st else take_rec rec_n st))))
          else
            andthen (compare_last g st rec_m) (\<lambda>cmp2.
              Inr (Some (next_m (if cmp2 = 0 then merge_dup rec_m st
                                 else if cmp2 < 0 then count_merged (take_rec rec_m st) else st)))))"

text \<open>Each round takes at least one record, so one round more than there are records is fuel enough.
  \<open>aborts k\<close> tells whether the user has aborted before round \<open>k\<close>.\<close>

fun merge_loop :: "nat \<Rightarrow> (nat \<Rightarrow> bool) \<Rightarrow> nat \<Rightarrow> ordering \<Rightarrow> qso_rec list \<Rightarrow> qso_rec list \<Rightarrow> merge \<Rightarrow> (bool \<times> merge) result" where
  "merge_loop 0 aborts k g ns ms st = Inl Hang"
| "merge_loop (Suc fuel) aborts k g ns ms st =
    (if aborts k then Inr (True, st)
     else andthen (merge_step g ns ms st) (\<lambda>st'.
       case st' of None \<Rightarrow> Inr (False, st) | Some st \<Rightarrow> merge_loop fuel aborts (k + 1) g ns ms st))"

definition merge_thread :: "qsort_fun \<Rightarrow> (nat \<Rightarrow> bool) \<Rightarrow> ordering \<Rightarrow> qso_db \<Rightarrow> qso_db \<Rightarrow> (bool \<times> merge) result" where
  "merge_thread qs aborts g db mrgdb =
    (let g = g\<lparr>reversed := False\<rparr>; copy = qso_db_copy db;
         st = \<lparr>m_db = db, merge_dups = qso_db_new, orig_dups = qso_db_new, lastrec = None, m_n = 0, m_m = 0,
               merged = 0, merge_duplicates = 0, orig_duplicates = 0\<rparr>
     in if nbrrecs mrgdb = 0 then Inr (False, st)
        else
          let copy = SortByCall qs g copy; mrgdb = SortByCall qs g mrgdb;
              ns = take (nbrrecs copy) (qsorec copy);
              ms = map (\<lambda>r. checkDateTimes (checkBand r)) (take (nbrrecs mrgdb) (qsorec mrgdb));
              st = st\<lparr>m_db := clearDatabase db\<rparr>
          in andthen (merge_loop (length ns + length ms + 1) aborts 0 g ns ms st) (\<lambda>(aborted, st).
            Inr (aborted, if \<not> aborted \<and> nbrrecs (m_db st) \<noteq> 0 then st\<lparr>m_db := SortByCall qs g (m_db st)\<rparr> else st)))"

section \<open>Completing records\<close>

definition filled :: "qso_rec \<Rightarrow> qso_rec" where "filled r = checkDateTimes (checkBand r)"

text \<open>Records as the merge takes them: with all fields, without NULs, and the frequency a number.\<close>

definition proper :: "qso_rec \<Rightarrow> bool" where "proper r \<longleftrightarrow> plain r \<and> numeric r"

lemma fill_pair_other: "i \<noteq> a \<Longrightarrow> i \<noteq> b \<Longrightarrow> fill_pair a b r ! i = r ! i"
  by (simp add: fill_pair_def)

lemma filled_freq: "plain r \<Longrightarrow> filled r ! FREQ = r ! FREQ \<or> (\<exists>s. filled r ! FREQ = band_freq s)"
  by (auto simp: filled_def checkDateTimes_def fill_pair_other checkBand_def Let_def plain_def)

lemma atof_band_freq: "atof (band_freq s) \<noteq> NaN"
proof (cases "filter (\<lambda>p. fst p = s) (take BAND_OTHER band_names)")
  case Nil
  then show ?thesis by (simp add: band_freq_def atof_number c_str_def scan_sign_def)
next
  case (Cons p ps)
  then have "p \<in> set (filter (\<lambda>p. fst p = s) (take BAND_OTHER band_names))" by simp
  then have "p \<in> set band_names" by (auto dest: in_set_takeD)
  then show ?thesis using Cons atof_bands by (simp add: band_freq_def)
qed

lemma proper_filled: "proper r \<Longrightarrow> proper (filled r)"
  using filled_freq [of r] atof_band_freq
  by (auto simp: proper_def numeric_def filled_def checkDateTimes_def plain_fill_pair plain_checkBand)

lemma completed_plain: "plain r \<Longrightarrow> completed r = filled r"
  by (simp add: completed_def filled_def assign_plain)

lemma plain_filled: "plain r \<Longrightarrow> plain (filled r)"
  by (simp add: filled_def checkDateTimes_def plain_fill_pair plain_checkBand)

text \<open>Completing a record a second time changes nothing.\<close>

definition band_done :: "qso_rec \<Rightarrow> bool" where
  "band_done r \<longleftrightarrow> (r ! FREQ = '''' \<longrightarrow> map tolower_char (r ! BAND) = r ! BAND \<and> band_freq (r ! BAND) = '''') \<and>
     (r ! BAND = '''' \<longrightarrow> r ! FREQ = '''')"

lemma band_name_some: "band_name s \<noteq> ''''"
proof -
  have "\<forall>p \<in> set band_names. fst p \<noteq> ''''" by (simp add: band_names_def)
  moreover have "band s \<le> BAND_OTHER" by (simp add: band_def case_prod_beta band_of_hz_le)
  then have "band s < length band_names" by (simp add: band_names_def BAND_OTHER_def)
  ultimately show ?thesis unfolding band_name_def using nth_mem by blast
qed

lemma band_freq_Nil: "band_freq '''' = ''''"
  by code_simp

lemma tolower_again: "tolower_char (tolower_char c) = tolower_char c"
proof (cases "65 \<le> (of_char c :: nat) \<and> (of_char c :: nat) \<le> 90")
  case True
  then have "of_char (tolower_char c) = (of_char c + 32 :: nat)" by (simp add: tolower_char_def of_char_of)
  then show ?thesis using True by (simp add: tolower_char_def [of "tolower_char c"])
next
  case False
  then have "tolower_char c = c" by (simp only: tolower_char_def if_False)
  then show ?thesis by simp
qed

lemma c_str_lower: "CHR 0x00 \<notin> set s \<Longrightarrow> c_str (map tolower_char s) = map tolower_char s"
  by (rule c_str_id) (auto simp: tolower_NUL dest: sym)

lemma band_done_checkBand:
  assumes "plain r"
  shows "band_done (checkBand r)"
proof -
  have l: "length r = NUMFIELDS" using assms by (simp add: plain_def)
  note b = c_str_lower [OF plain_nth [OF assms, of BAND]]
  show ?thesis
    using l b band_name_some band_freq_Nil
    by (auto simp: band_done_def checkBand_def Let_def comp_def tolower_again)
qed

lemma checkBand_done:
  assumes "plain r" "band_done r"
  shows "checkBand r = r"
proof -
  have "c_str (r ! BAND) = r ! BAND" using plain_nth [OF assms(1), of BAND] by (simp add: c_str_id)
  moreover have "r[BAND := r ! BAND, FREQ := r ! FREQ] = r" by simp
  ultimately show ?thesis using assms(2) unfolding checkBand_def band_done_def Let_def by metis
qed

lemma fill_pair_done:
  assumes "length r = NUMFIELDS" "a < NUMFIELDS" "b < NUMFIELDS" "a \<noteq> b"
  shows "fill_pair a b r ! a = '''' \<longleftrightarrow> fill_pair a b r ! b = ''''"
  using assms by (auto simp: fill_pair_def)

lemma fill_pair_same: "(r ! a = '''' \<longleftrightarrow> r ! b = '''') \<Longrightarrow> fill_pair a b r = r"
  by (auto simp: fill_pair_def)

lemma length_fill_pair: "length (fill_pair a b r) = length r"
  by (simp add: fill_pair_def)

lemma filled_again:
  assumes "plain r"
  shows "filled (filled r) = filled r"
proof -
  let ?r = "fill_pair TIME_ON TIME_OFF (checkBand r)"
  have p: "plain (checkBand r)" "plain ?r" "plain (filled r)"
    using assms by (simp_all add: plain_checkBand plain_fill_pair filled_def checkDateTimes_def)
  have "band_done (filled r)"
    using band_done_checkBand [OF assms] by (simp add: band_done_def filled_def checkDateTimes_def fill_pair_other)
  then have b: "checkBand (filled r) = filled r" using checkBand_done [OF p(3)] by blast
  have "filled r ! TIME_ON = '''' \<longleftrightarrow> filled r ! TIME_OFF = ''''"
    using fill_pair_done [of "checkBand r" TIME_ON TIME_OFF] p(1) by (simp add: filled_def checkDateTimes_def fill_pair_other plain_def)
  then have t: "fill_pair TIME_ON TIME_OFF (filled r) = filled r" by (rule fill_pair_same)
  have "filled r ! QSO_DATE = '''' \<longleftrightarrow> filled r ! QSO_DATE_OFF = ''''"
    using fill_pair_done [of ?r QSO_DATE QSO_DATE_OFF] p(2) by (simp add: filled_def checkDateTimes_def plain_def)
  then have "fill_pair QSO_DATE QSO_DATE_OFF (filled r) = filled r" by (rule fill_pair_same)
  then show ?thesis by (simp add: filled_def [of "filled r"] b checkDateTimes_def t)
qed

section \<open>Rounds of the merge\<close>

definition holds :: "qso_rec list \<Rightarrow> qso_db \<Rightarrow> bool" where
  "holds rs db \<longleftrightarrow> db_ok db \<and> records db = map completed rs \<and> (\<forall>r \<in> set rs. proper r)"

lemma holds_new: "holds rs db \<Longrightarrow> proper r \<Longrightarrow> holds (rs @ [r]) (qsoNewRec r db)"
  using qsoNewRec_appends [of db r] by (auto simp: holds_def proper_def plain_completed plain_def [of r])

lemma holds_empty: "holds [] qso_db_new" "holds [] (clearDatabase db)"
  by (simp_all add: holds_def db_ok_new db_ok_delete clearDatabase_def)

text \<open>\<open>A\<close>, \<open>B\<close> and \<open>C\<close> are the records taken and the two lists of duplicates so far.\<close>

definition merging :: "ordering \<Rightarrow> qso_rec list \<Rightarrow> qso_rec list \<Rightarrow> qso_rec list \<Rightarrow> qso_rec list \<Rightarrow> qso_rec list \<Rightarrow> merge \<Rightarrow> bool" where
  "merging g ns ms A B C st \<longleftrightarrow>
     holds A (m_db st) \<and> holds B (merge_dups st) \<and> holds C (orig_dups st) \<and>
     lastrec st = (if A = [] then None else Some (last A)) \<and> (A = [] \<longrightarrow> m_n st = 0 \<and> m_m st = 0) \<and>
     m_n st \<le> length ns \<and> m_m st \<le> length ms \<and>
     mset A + mset B + mset C = mset (take (m_n st) ns) + mset (take (m_m st) ms) \<and>
     set B \<subseteq> set ms \<and> set C \<subseteq> set ns \<and>
     sorted_wrt (\<lambda>a b. comparebycall g a b < 0) A \<and> (\<forall>d \<in> set B \<union> set C. \<exists>a \<in> set A. comparebycall g a d = 0) \<and>
     (A \<noteq> [] \<longrightarrow> (\<forall>r \<in> set (drop (m_n st) ns) \<union> set (drop (m_m st) ms). comparebycall g (last A) r \<le> 0))"


lemma sorted_wrt_last: "sorted_wrt P xs \<Longrightarrow> x \<in> set xs \<Longrightarrow> x = last xs \<or> P x (last xs)"
  by (induction xs rule: rev_induct) (auto simp: sorted_wrt_append)

lemma merging_keep:
  assumes "merging g ns ms A B C st" "proper r" "A = [] \<or> comparebycall g (last A) r < 0"
  shows "holds (A @ [r]) (m_db (take_rec r st)) \<and> sorted_wrt (\<lambda>a b. comparebycall g a b < 0) (A @ [r])"
proof -
  have A: "sorted_wrt (\<lambda>a b. comparebycall g a b < 0) A" using assms(1) by (simp add: merging_def)
  have num: "\<forall>a \<in> insert r (set A). numeric a" using assms(1,2) by (auto simp: merging_def holds_def proper_def)
  have "comparebycall g a r < 0" if "a \<in> set A" for a
  proof -
    have "A \<noteq> []" using that by auto
    then show ?thesis
      using sorted_wrt_last [OF A that] that assms(3) bycall.le_less_trans [of a "last A" r g] num by auto
  qed
  then show ?thesis using assms(1,2) A holds_new by (auto simp: merging_def take_rec_def sorted_wrt_append)
qed

text \<open>A record taken from the logbook and from the file.\<close>

lemma take_n:
  assumes "merging g ns ms A B C st" "m_n st < length ns" "proper (ns ! m_n st)"
    "A = [] \<or> comparebycall g (last A) (ns ! m_n st) < 0"
    "\<forall>r \<in> set (drop (Suc (m_n st)) ns). comparebycall g (ns ! m_n st) r \<le> 0"
    "\<forall>r \<in> set (drop (m_m st) ms). comparebycall g (ns ! m_n st) r \<le> 0"
  shows "merging g ns ms (A @ [ns ! m_n st]) B C (next_n (take_rec (ns ! m_n st) st))"
  using merging_keep [OF assms(1,3,4)] assms(1,2,5,6)
  by (auto simp: merging_def take_rec_def next_n_def take_Suc_conv_app_nth ball_Un)

lemma take_m:
  assumes "merging g ns ms A B C st" "m_m st < length ms" "proper (ms ! m_m st)"
    "A = [] \<or> comparebycall g (last A) (ms ! m_m st) < 0"
    "\<forall>r \<in> set (drop (m_n st) ns). comparebycall g (ms ! m_m st) r \<le> 0"
    "\<forall>r \<in> set (drop (Suc (m_m st)) ms). comparebycall g (ms ! m_m st) r \<le> 0"
  shows "merging g ns ms (A @ [ms ! m_m st]) B C (next_m (take_rec (ms ! m_m st) st))"
  using merging_keep [OF assms(1,3,4)] assms(1,2,5,6)
  by (auto simp: merging_def take_rec_def next_m_def take_Suc_conv_app_nth ball_Un)

lemma drop_one: "set (drop (Suc n) xs) \<subseteq> set (drop n xs)"
  by (metis drop_Suc drop_tl set_drop_subset Suc_n_not_le_n nat_le_linear set_drop_subset_set_drop)

lemma dup_n:
  assumes "merging g ns ms A B C st" "m_n st < length ns" "proper (ns ! m_n st)"
    "\<exists>a \<in> set A. comparebycall g a (ns ! m_n st) = 0"
  shows "merging g ns ms A B (C @ [ns ! m_n st]) (next_n (orig_dup (ns ! m_n st) st))"
  using assms holds_new drop_one [of "m_n st" ns]
  by (auto simp: merging_def orig_dup_def next_n_def take_Suc_conv_app_nth)

lemma dup_m:
  assumes "merging g ns ms A B C st" "m_m st < length ms" "proper (ms ! m_m st)"
    "\<exists>a \<in> set A. comparebycall g a (ms ! m_m st) = 0"
  shows "merging g ns ms A (B @ [ms ! m_m st]) C (next_m (merge_dup (ms ! m_m st) st))"
  using assms holds_new drop_one [of "m_m st" ms]
  by (auto simp: merging_def merge_dup_def next_m_def take_Suc_conv_app_nth)

lemma merging_count: "merging g ns ms A B C (count_merged st) \<longleftrightarrow> merging g ns ms A B C st"
  by (simp add: merging_def count_merged_def)


text \<open>What the two lists are: proper records in the order of the comparison.\<close>

definition in_order :: "ordering \<Rightarrow> qso_rec list \<Rightarrow> bool" where
  "in_order g xs \<longleftrightarrow> (\<forall>r \<in> set xs. proper r) \<and> sorted_wrt (\<lambda>a b. comparebycall g a b \<le> 0) xs"

lemma in_order_after:
  assumes "in_order g xs" "i < length xs" "comparebycall g r (xs ! i) \<le> 0" "numeric r"
  shows "proper (xs ! i)" "\<forall>r' \<in> set (drop i xs). comparebycall g r r' \<le> 0"
    "\<forall>r' \<in> set (drop (Suc i) xs). comparebycall g r r' \<le> 0"
proof -
  have num: "\<forall>x \<in> set xs. numeric x" using assms(1) by (simp add: in_order_def proper_def)
  show "proper (xs ! i)" using assms by (simp add: in_order_def)
  have "sorted_wrt (\<lambda>a b. comparebycall g a b \<le> 0) (drop i xs)" using assms(1) by (simp add: in_order_def sorted_wrt_drop)
  then show all: "\<forall>r' \<in> set (drop i xs). comparebycall g r r' \<le> 0"
    using assms(2-4) bycall.le_trans [of r "xs ! i" _ g] num by (auto simp: Cons_nth_drop_Suc [symmetric] dest: in_set_dropD)
  then show "\<forall>r' \<in> set (drop (Suc i) xs). comparebycall g r r' \<le> 0"
    using drop_one [of i xs] by blast
qed

lemma advance_n:
  assumes st: "merging g ns ms A B C st" and "in_order g ns" "in_order g ms" "m_n st < length ns"
    and le: "m_m st < length ms \<Longrightarrow> comparebycall g (ns ! m_n st) (ms ! m_m st) \<le> 0"
  defines "r \<equiv> ns ! m_n st"
  shows "\<exists>A' C'. merging g ns ms A' B C' (next_n (if A \<noteq> [] \<and> comparebycall g (last A) r = 0 then orig_dup r st else take_rec r st)) \<and>
    A' \<noteq> [] \<and> (\<exists>a \<in> set A'. comparebycall g a r = 0)"
proof -
  have num: "numeric r" using assms(2,4) by (simp add: r_def in_order_def proper_def)
  note own = in_order_after [OF assms(2,4), where r = r]
  have other: "\<forall>r' \<in> set (drop (m_m st) ms). comparebycall g r r' \<le> 0"
    using in_order_after(2) [OF assms(3), of "m_m st" r] le num by (cases "m_m st < length ms") (simp_all add: r_def)
  have same: "comparebycall g r (ns ! m_n st) \<le> 0" using bycall.same [of r g] num by (simp add: r_def)
  have pl: "proper r" using own(1) [OF same num] by (simp add: r_def)
  have "r \<in> set (drop (m_n st) ns)" using assms(4) by (simp add: r_def Cons_nth_drop_Suc [symmetric])
  then have "A \<noteq> [] \<Longrightarrow> comparebycall g (last A) r \<le> 0" using st by (simp add: merging_def)
  then consider "A \<noteq> []" "comparebycall g (last A) r = 0" | "\<not> (A \<noteq> [] \<and> comparebycall g (last A) r = 0)" "A = [] \<or> comparebycall g (last A) r < 0"
    by linarith
  then show ?thesis
  proof cases
    case 1
    then have "merging g ns ms A B (C @ [r]) (next_n (orig_dup r st))"
      using dup_n [OF st assms(4), folded r_def] pl last_in_set [of A] by fast
    with 1 show ?thesis by (intro exI [of _ A] exI [of _ "C @ [r]"]) (auto intro: bexI [of _ "last A"])
  next
    case 2
    then have "merging g ns ms (A @ [r]) B C (next_n (take_rec r st))"
      using take_n [OF st assms(4), folded r_def, OF pl] own(3) [OF same num] other by fast
    with 2(1) show ?thesis using bycall.same [of r g] num by (intro exI [of _ "A @ [r]"] exI [of _ C]) auto
  qed
qed

lemma advance_m:
  assumes st: "merging g ns ms A B C st" and "in_order g ns" "in_order g ms" "m_m st < length ms"
    and le: "m_n st < length ns \<Longrightarrow> comparebycall g (ms ! m_m st) (ns ! m_n st) \<le> 0"
  defines "r \<equiv> ms ! m_m st"
  shows "\<exists>A' B'. merging g ns ms A' B' C (next_m (if A \<noteq> [] \<and> comparebycall g (last A) r = 0 then merge_dup r st else take_rec r st)) \<and>
    A' \<noteq> []"
proof -
  have num: "numeric r" using assms(3,4) by (simp add: r_def in_order_def proper_def)
  note own = in_order_after [OF assms(3,4), where r = r]
  have other: "\<forall>r' \<in> set (drop (m_n st) ns). comparebycall g r r' \<le> 0"
    using in_order_after(2) [OF assms(2), of "m_n st" r] le num by (cases "m_n st < length ns") (simp_all add: r_def)
  have same: "comparebycall g r (ms ! m_m st) \<le> 0" using bycall.same [of r g] num by (simp add: r_def)
  have pl: "proper r" using own(1) [OF same num] by (simp add: r_def)
  have "r \<in> set (drop (m_m st) ms)" using assms(4) by (simp add: r_def Cons_nth_drop_Suc [symmetric])
  then have "A \<noteq> [] \<Longrightarrow> comparebycall g (last A) r \<le> 0" using st by (simp add: merging_def)
  then consider "A \<noteq> []" "comparebycall g (last A) r = 0" | "\<not> (A \<noteq> [] \<and> comparebycall g (last A) r = 0)" "A = [] \<or> comparebycall g (last A) r < 0"
    by linarith
  then show ?thesis
  proof cases
    case 1
    then have "merging g ns ms A (B @ [r]) C (next_m (merge_dup r st))"
      using dup_m [OF st assms(4), folded r_def] pl last_in_set [of A] by fast
    with 1 show ?thesis by (intro exI [of _ A] exI [of _ "B @ [r]"]) auto
  next
    case 2
    then have "merging g ns ms (A @ [r]) B C (next_m (take_rec r st))"
      using take_m [OF st assms(4), folded r_def, OF pl] own(3) [OF same num] other by fast
    with 2(1) show ?thesis by (intro exI [of _ "A @ [r]"] exI [of _ B]) auto
  qed
qed


lemma merge_counters [simp]:
  "m_n (next_n st) = Suc (m_n st)" "m_m (next_n st) = m_m st" "m_n (next_m st) = m_n st" "m_m (next_m st) = Suc (m_m st)"
  "m_n (take_rec r st) = m_n st" "m_m (take_rec r st) = m_m st" "m_n (merge_dup r st) = m_n st" "m_m (merge_dup r st) = m_m st"
  "m_n (orig_dup r st) = m_n st" "m_m (orig_dup r st) = m_m st" "m_n (count_merged st) = m_n st" "m_m (count_merged st) = m_m st"
  by (simp_all add: next_n_def next_m_def take_rec_def merge_dup_def orig_dup_def count_merged_def)

lemma merge_swap:
  "next_n (take_rec r (next_m (merge_dup s st))) = next_m (merge_dup s (next_n (take_rec r st)))"
  "next_n (orig_dup r (next_m (merge_dup s st))) = next_m (merge_dup s (next_n (orig_dup r st)))"
  by (simp_all add: next_n_def next_m_def take_rec_def merge_dup_def orig_dup_def)

lemma merging_next_count: "merging g ns ms A B C (next_m (count_merged st)) \<longleftrightarrow> merging g ns ms A B C (next_m st)"
  by (simp add: merging_def count_merged_def next_m_def)

lemma compare_last_merging:
  assumes "merging g ns ms A B C st"
  shows "lastrec st = None \<longleftrightarrow> A = []" "A \<noteq> [] \<Longrightarrow> compare_last g st r = Inr (comparebycall g (last A) r)"
    "compare_last g (next_m (merge_dup s st)) r = compare_last g st r"
  using assms by (auto simp: merging_def compare_last_def next_m_def merge_dup_def)

definition goes_on :: "ordering \<Rightarrow> qso_rec list \<Rightarrow> qso_rec list \<Rightarrow> merge \<Rightarrow> bool" where
  "goes_on g ns ms st \<longleftrightarrow> (\<exists>st' A B C. merge_step g ns ms st = Inr (Some st') \<and> merging g ns ms A B C st' \<and>
     m_n st + m_m st < m_n st' + m_m st')"

lemma round_file:
  assumes st: "merging g ns ms A B C st" and "in_order g ns" "in_order g ms" "m_m st < length ms"
    and le: "m_n st < length ns \<Longrightarrow> 0 < comparebycall g (ns ! m_n st) (ms ! m_m st)"
  shows "goes_on g ns ms st"
proof -
  have "m_n st < length ns \<Longrightarrow> comparebycall g (ms ! m_m st) (ns ! m_n st) \<le> 0"
    using le bycall.flip_less [of "ns ! m_n st" "ms ! m_m st" g] assms(2-4) by (simp add: in_order_def proper_def)
  from advance_m [OF assms(1-4) this] obtain A' B' where new: "merging g ns ms A' B' C
      (next_m (if A \<noteq> [] \<and> comparebycall g (last A) (ms ! m_m st) = 0 then merge_dup (ms ! m_m st) st else take_rec (ms ! m_m st) st))"
    by blast
  have "m_n st \<le> length ns" "A = [] \<Longrightarrow> m_n st = 0" using st by (simp_all add: merging_def)
  moreover have "A \<noteq> [] \<Longrightarrow> comparebycall g (last A) (ms ! m_m st) \<le> 0"
    using st assms(4) by (simp add: merging_def Cons_nth_drop_Suc [symmetric])
  ultimately show ?thesis
    using new assms(4) le compare_last_merging [OF st]
    unfolding goes_on_def merge_step_def Let_def
    by (cases "A = []"; cases "m_n st = length ns"; cases "comparebycall g (last A) (ms ! m_m st) = 0")
      (auto simp: merging_next_count andthen_def intro!: exI)
qed

lemma round_log:
  assumes st: "merging g ns ms A B C st" and "in_order g ns" "in_order g ms" "ms \<noteq> []" "m_n st < length ns"
    and le: "m_m st < length ms \<Longrightarrow> comparebycall g (ns ! m_n st) (ms ! m_m st) < 0"
  shows "goes_on g ns ms st"
proof -
  have "m_m st < length ms \<Longrightarrow> comparebycall g (ns ! m_n st) (ms ! m_m st) \<le> 0" using le by simp
  from advance_n [OF assms(1-3,5) this] obtain A' C' where new: "merging g ns ms A' B C'
      (next_n (if A \<noteq> [] \<and> comparebycall g (last A) (ns ! m_n st) = 0 then orig_dup (ns ! m_n st) st else take_rec (ns ! m_n st) st))"
    by blast
  have "m_m st \<le> length ms" "A = [] \<Longrightarrow> m_m st = 0" using st by (simp_all add: merging_def)
  then show ?thesis
    using new assms(4,5) le compare_last_merging [OF st]
    unfolding goes_on_def merge_step_def Let_def
    by (cases "A = []"; cases "m_m st = length ms"; cases "comparebycall g (last A) (ns ! m_n st) = 0")
      (auto simp: andthen_def intro!: exI)
qed


lemma round_both:
  assumes st: "merging g ns ms A B C st" and "in_order g ns" "in_order g ms" "m_n st < length ns" "m_m st < length ms"
    and eq: "comparebycall g (ns ! m_n st) (ms ! m_m st) = 0"
  shows "goes_on g ns ms st"
proof -
  let ?n = "ns ! m_n st" and ?m = "ms ! m_m st"
  let ?st = "next_n (if A \<noteq> [] \<and> comparebycall g (last A) ?n = 0 then orig_dup ?n st else take_rec ?n st)"
  have "comparebycall g ?n ?m \<le> 0" using eq by simp
  from advance_n [OF assms(1-4) this] obtain A' C' a where new: "merging g ns ms A' B C' ?st"
    and a: "a \<in> set A'" "comparebycall g a ?n = 0"
    by blast
  have "m_m ?st = m_m st" by simp
  moreover have "\<exists>a \<in> set A'. comparebycall g a ?m = 0"
  proof -
    have "numeric a" using new a(1) by (simp add: merging_def holds_def proper_def)
    then show ?thesis
      using a bycall.eq_trans [of a ?n ?m g] eq assms(2-5) by (auto simp: in_order_def proper_def intro!: bexI [of _ a])
  qed
  moreover have "proper ?m" using assms(3,5) by (simp add: in_order_def)
  ultimately have "merging g ns ms A' (B @ [?m]) C' (next_m (merge_dup ?m ?st))"
    using dup_m [OF new] assms(5) by simp
  then show ?thesis
    using assms(4,5) eq compare_last_merging [OF st]
    unfolding goes_on_def merge_step_def Let_def
    by (cases "A = []"; cases "comparebycall g (last A) ?n = 0") (auto simp: merge_swap intro!: exI)
qed

lemma merge_round:
  assumes st: "merging g ns ms A B C st" and in_order: "in_order g ns" "in_order g ms" "ms \<noteq> []"
  shows "m_n st = length ns \<and> m_m st = length ms \<and> merge_step g ns ms st = Inr None \<or> goes_on g ns ms st"
proof -
  have le: "m_n st \<le> length ns" "m_m st \<le> length ms" using st by (simp_all add: merging_def)
  consider "m_n st = length ns" "m_m st = length ms" | "m_m st < length ms" "m_n st < length ns \<Longrightarrow> 0 < comparebycall g (ns ! m_n st) (ms ! m_m st)"
    | "m_n st < length ns" "m_m st < length ms \<Longrightarrow> comparebycall g (ns ! m_n st) (ms ! m_m st) < 0"
    | "m_n st < length ns" "m_m st < length ms" "comparebycall g (ns ! m_n st) (ms ! m_m st) = 0"
    using le by linarith
  then show ?thesis
  proof cases
    case 1
    then show ?thesis by (auto simp: merge_step_def Let_def)
  next
    case 2
    then show ?thesis using round_file [OF st in_order(1,2)] by blast
  next
    case 3
    then show ?thesis using round_log [OF st in_order] by blast
  next
    case 4
    then show ?thesis using round_both [OF st in_order(1,2)] by blast
  qed
qed

lemma merge_loop_ends:
  assumes "merging g ns ms A B C st" "in_order g ns" "in_order g ms" "ms \<noteq> []" "\<forall>k. \<not> aborts k"
    "length ns + length ms < fuel + (m_n st + m_m st)"
  shows "\<exists>st' A B C. merge_loop fuel aborts k g ns ms st = Inr (False, st') \<and> merging g ns ms A B C st' \<and>
    m_n st' = length ns \<and> m_m st' = length ms"
  using assms(1,6)
proof (induction fuel arbitrary: k st A B C)
  case 0
  then show ?case by (simp add: merging_def)
next
  case (Suc fuel)
  from merge_round [OF Suc.prems(1) assms(2-4)] show ?case
  proof
    assume "m_n st = length ns \<and> m_m st = length ms \<and> merge_step g ns ms st = Inr None"
    then show ?thesis using Suc.prems(1) assms(5) by auto
  next
    assume "goes_on g ns ms st"
    then obtain st' A' B' C' where st': "merge_step g ns ms st = Inr (Some st')" "merging g ns ms A' B' C' st'"
      "m_n st + m_m st < m_n st' + m_m st'"
      unfolding goes_on_def by blast
    have "length ns + length ms < fuel + (m_n st' + m_m st')" using st'(3) Suc.prems(2) by linarith
    from Suc.IH [OF st'(2) this, of "k + 1"] show ?thesis using st'(1) assms(5) by simp
  qed
qed

section \<open>The sorted records\<close>

lemma sorted_log:
  assumes "sorts qs" "db_ok db" "\<forall>r \<in> set (records db). proper r"
  shows "in_order g (records (SortByCall qs g (qso_db_copy db)))"
    "mset (records (SortByCall qs g (qso_db_copy db))) = mset (records db)"
proof -
  have same: "map assign (records db) = records db" using assms(3) by (auto simp: proper_def intro!: map_idI assign_plain)
  have "set (records (qso_db_copy db)) \<subseteq> Collect numeric"
    using assms(3) unfolding records_copy(2) [OF assms(2)] same by (auto simp: proper_def)
  note c = records_sort_with [OF assms(1) bycall.qsort_order_axioms this records_copy(1) [OF assms(2)], of g,
      unfolded records_copy(2) [OF assms(2)] same, folded SortByCall_def]
  show "mset (records (SortByCall qs g (qso_db_copy db))) = mset (records db)" by (rule c(2))
  with c(3) assms(3) mset_eq_setD [OF this] show "in_order g (records (SortByCall qs g (qso_db_copy db)))"
    by (simp add: in_order_def)
qed

lemma sorted_file:
  assumes "sorts qs" "db_ok mrg" "\<forall>r \<in> set (records mrg). proper r"
    "\<forall>r \<in> set (records mrg). \<forall>r' \<in> set (records mrg). comparebycall g r r' \<le> 0 \<longrightarrow> comparebycall g (filled r) (filled r') \<le> 0"
  shows "in_order g (map filled (records (SortByCall qs g mrg)))" "mset (records (SortByCall qs g mrg)) = mset (records mrg)"
proof -
  have "set (records mrg) \<subseteq> Collect numeric" using assms(3) by (auto simp: proper_def)
  note m = records_sort_with [OF assms(1) bycall.qsort_order_axioms this assms(2), of g, folded SortByCall_def]
  show "mset (records (SortByCall qs g mrg)) = mset (records mrg)" by (rule m(2))
  note set = mset_eq_setD [OF this]
  have "sorted_wrt (\<lambda>a b. comparebycall g a b \<le> 0) (map filled (records (SortByCall qs g mrg)))"
    unfolding sorted_wrt_map using m(3) by (rule sorted_wrt_mono_rel [rotated]) (use assms(4) set in simp)
  then show "in_order g (map filled (records (SortByCall qs g mrg)))" using assms(3) set by (auto simp: in_order_def proper_filled)
qed

definition merge_start :: merge where
  "merge_start = \<lparr>m_db = clearDatabase qso_db_new, merge_dups = qso_db_new, orig_dups = qso_db_new, lastrec = None,
     m_n = 0, m_m = 0, merged = 0, merge_duplicates = 0, orig_duplicates = 0\<rparr>"

lemma merging_start: "merging g ns ms [] [] [] merge_start"
  by (simp add: merging_def merge_start_def holds_empty)

lemma merge_thread_run:
  fixes g :: ordering
  assumes "records mrg \<noteq> []"
  defines "h \<equiv> g\<lparr>reversed := False\<rparr>"
  assumes "merge_loop (length ns + length ms + 1) aborts 0 h ns ms merge_start = Inr (False, st)"
    "ns = records (SortByCall qs h (qso_db_copy db))" "ms = map filled (records (SortByCall qs h mrg))"
  shows "merge_thread qs aborts g db mrg =
    Inr (False, if nbrrecs (m_db st) \<noteq> 0 then st\<lparr>m_db := SortByCall qs h (m_db st)\<rparr> else st)"
proof -
  have "nbrrecs mrg \<noteq> 0" using assms(1) by (auto simp: records_def)
  then show ?thesis
    using assms(3-5) unfolding merge_thread_def Let_def h_def
    by (simp add: records_def [symmetric] filled_def [symmetric] merge_start_def clearDatabase_def deleteRecs_def)
qed

text \<open>The new log is sorted once more at the end.\<close>

lemma merge_thread_result:
  fixes g :: ordering
  assumes "sorts qs" "records mrg \<noteq> []"
  defines "h \<equiv> g\<lparr>reversed := False\<rparr>"
  assumes "merge_loop (length ns + length ms + 1) aborts 0 h ns ms merge_start = Inr (False, st)"
    "ns = records (SortByCall qs h (qso_db_copy db))" "ms = map filled (records (SortByCall qs h mrg))"
    and hold: "holds A (m_db st)" "holds B (merge_dups st)" "holds C (orig_dups st)"
  shows "\<exists>st'. merge_thread qs aborts g db mrg = Inr (False, st') \<and> mset (records (m_db st')) = mset (map completed A) \<and>
    sorted_wrt (\<lambda>a b. comparebycall h a b \<le> 0) (records (m_db st')) \<and>
    records (merge_dups st') = map completed B \<and> records (orig_dups st') = map completed C"
proof -
  note run = merge_thread_run [OF assms(2,4-6) [unfolded h_def]]
  have db: "db_ok (m_db st)" "records (m_db st) = map completed A" using hold(1) by (simp_all add: holds_def)
  have "set (records (m_db st)) \<subseteq> Collect numeric"
    using hold(1) proper_filled by (auto simp: holds_def completed_plain proper_def)
  note sorted = records_sort_with(2,3) [OF assms(1) bycall.qsort_order_axioms this db(1), of h, folded SortByCall_def]
  have "nbrrecs (m_db st) = 0 \<Longrightarrow> records (m_db st) = []" by (simp add: records_def)
  then show ?thesis
    unfolding run using sorted hold
    by (intro exI [of _ "if nbrrecs (m_db st) \<noteq> 0 then st\<lparr>m_db := SortByCall qs h (m_db st)\<rparr> else st"])
      (auto simp: holds_def h_def)
qed

section \<open>A record that is passed over\<close>

text \<open>
  The run with a file of two records follows the one with the first of them alone, but for the round that passes
  over the second.
\<close>

lemma step_before:
  assumes "m_m st = 0" "ns \<noteq> []"
  shows "merge_step g ns [a, b] st = merge_step g ns [a] st"
  using assms by (simp add: merge_step_def Let_def cong: if_cong)

lemma step_over:
  assumes "m_m st = 1" "ns \<noteq> []" "m_n st < length ns" "lastrec st = Some l" "0 < comparebycall g (ns ! m_n st) b" "0 < comparebycall g l b"
  shows "merge_step g ns [a, b] st = Inr (Some (next_m st))"
  using assms by (simp add: merge_step_def Let_def compare_last_def)

lemma step_after:
  assumes "m_m st = 1" "ns \<noteq> []" "m_n st \<le> length ns"
  shows "merge_step g ns [a, b] (next_m st) = andthen (merge_step g ns [a] st) (\<lambda>r. Inr (map_option next_m r))"
    "merge_step g ns [a] st = Inr (Some st') \<Longrightarrow> m_m st' = 1 \<and> m_n st' \<le> length ns"
proof -
  have "next_n (orig_dup r (next_m st)) = next_m (next_n (orig_dup r st))"
    "next_n (take_rec r (next_m st)) = next_m (next_n (take_rec r st))" "lastrec (next_m st) = lastrec st" for r
    by (simp_all add: next_n_def next_m_def orig_dup_def take_rec_def)
  then show "merge_step g ns [a, b] (next_m st) = andthen (merge_step g ns [a] st) (\<lambda>r. Inr (map_option next_m r))"
    using assms by (cases "lastrec st") (simp_all add: merge_step_def Let_def compare_last_def)
  show "merge_step g ns [a] st = Inr (Some st') \<Longrightarrow> m_m st' = 1 \<and> m_n st' \<le> length ns"
    using assms by (cases "lastrec st") (auto simp: merge_step_def Let_def compare_last_def split: if_splits)
qed

lemma loop_after:
  assumes "m_m st = 1" "ns \<noteq> []" "m_n st \<le> length ns" "merge_loop fuel (\<lambda>_. False) k g ns [a] st = Inr (False, st')"
  shows "merge_loop fuel (\<lambda>_. False) j g ns [a, b] (next_m st) = Inr (False, next_m st')"
  using assms(1,3,4)
proof (induction fuel arbitrary: k j st)
  case (Suc fuel)
  note step = step_after [OF Suc.prems(1) assms(2) Suc.prems(2), of g a]
  show ?case
  proof (cases "merge_step g ns [a] st")
    case (Inl e)
    then show ?thesis using Suc.prems(3) by simp
  next
    case (Inr r)
    then have two: "merge_step g ns [a, b] (next_m st) = Inr (map_option next_m r)" using step(1) by simp
    show ?thesis
    proof (cases r)
      case None
      then show ?thesis using Inr two Suc.prems(3) by simp
    next
      case (Some st1)
      then have "merge_loop fuel (\<lambda>_. False) (k + 1) g ns [a] st1 = Inr (False, st')" using Inr Suc.prems(3) by simp
      from Suc.IH [OF _ _ this, of "j + 1"] show ?thesis using step(2) [of st1] Inr Some two by simp
    qed
  qed
qed simp

text \<open>The round that takes the first record leaves a record of the log that is greater.\<close>

lemma in_order_num: "in_order g xs \<Longrightarrow> x \<in> set xs \<Longrightarrow> numeric x"
  by (simp add: in_order_def proper_def)

lemma taken_num: "merging g ns ms A B C st \<Longrightarrow> x \<in> set A \<Longrightarrow> numeric x"
  by (auto simp: merging_def holds_def proper_def)

lemma taken_before_last:
  assumes st: "merging g ns ms A B C st" and "x \<in> set A \<union> set B \<union> set C" "numeric x"
  shows "A \<noteq> []" "comparebycall g x (last A) \<le> 0"
proof -
  have "\<exists>y \<in> set A. comparebycall g y x = 0"
    using assms bycall.same [of x g] by (auto simp: merging_def)
  then obtain y where y: "y \<in> set A" "comparebycall g y x = 0" by blast
  then show "A \<noteq> []" by auto
  then have num: "numeric y" "numeric (last A)" using y taken_num [OF st] by simp_all
  have "sorted_wrt (\<lambda>a b. comparebycall g a b < 0) A" using st by (simp add: merging_def)
  from sorted_wrt_last [OF this y(1)] have "comparebycall g y (last A) \<le> 0" using bycall.same [of y g] num by auto
  then show "comparebycall g x (last A) \<le> 0"
    using bycall.le_trans [of x y "last A" g] bycall.flip_zero [of y x g] y(2) num assms(3) by simp
qed

lemma taken_set:
  assumes "merging g ns ms A B C st" "x \<in> set (take (m_n st) ns) \<union> set (take (m_m st) ms)"
  shows "x \<in> set A \<union> set B \<union> set C"
proof -
  have "set_mset (mset A + mset B + mset C) = set_mset (mset (take (m_n st) ns) + mset (take (m_m st) ms))"
    using assms(1) by (simp only: merging_def)
  then show ?thesis using assms(2) by auto
qed

lemma log_goes_on:
  assumes st: "merging g ns [a] A B C st" "in_order g ns" "numeric a" "m_m st = 0" "z \<in> set ns" "comparebycall g a z < 0"
  shows "z \<in> set (drop (m_n st) ns)"
proof (rule ccontr)
  assume "z \<notin> set (drop (m_n st) ns)"
  then have "z \<in> set (take (m_n st) ns)" using assms(5) by (metis Un_iff append_take_drop_id set_append)
  note z = taken_before_last [OF st(1) taken_set [OF st(1)] in_order_num [OF assms(2,5)], OF UnI1 [OF this]]
  have "comparebycall g (last A) a \<le> 0" using st(1) z(1) assms(4) by (simp add: merging_def)
  then have "comparebycall g z a \<le> 0"
    using bycall.le_trans [of z "last A" a g] z taken_num [OF st(1)] in_order_num [OF assms(2,5)] assms(3) by simp
  then show False using assms(3,6) bycall.flip_less [of a z g] bycall.flip_less [of z a g] in_order_num [OF assms(2,5)] by simp
qed

lemma step_takes:
  assumes "merge_step g ns [a] st = Inr (Some st')" "m_m st = 0" "m_m st' \<noteq> 0" "m_n st < length ns"
  shows "m_m st' = 1 \<and> (m_n st' = m_n st \<or> m_n st' = Suc (m_n st) \<and> comparebycall g (ns ! m_n st) a = 0)"
proof -
  have "lastrec (next_m (merge_dup a st)) = lastrec st" by (simp add: next_m_def merge_dup_def)
  then show ?thesis
    using assms by (cases "lastrec st") (auto simp: merge_step_def Let_def compare_last_def split: if_splits)
qed

lemma loop_passes_over:
  assumes "merging g ns [a] A B C st" "in_order g ns" "proper a" "numeric b" "m_m st = 0" "z \<in> set ns"
    "comparebycall g a z < 0" "comparebycall g b a < 0"
    "merge_loop fuel (\<lambda>_. False) k g ns [a] st = Inr (False, st')"
  shows "merge_loop (Suc fuel) (\<lambda>_. False) j g ns [a, b] st = Inr (False, next_m st')"
  using assms(1,5,9)
proof (induction fuel arbitrary: k j st A B C)
  case (Suc fuel)
  have ns: "ns \<noteq> []" using assms(6) by auto
  have io: "in_order g [a]" using assms(3) by (simp add: in_order_def)
  have num: "numeric a" "numeric z" using assms(3) in_order_num [OF assms(2,6)] by (simp_all add: proper_def)
  note z = log_goes_on [OF Suc.prems(1) assms(2) num(1) Suc.prems(2) assms(6,7)]
  then have n: "m_n st < length ns" by (cases "m_n st < length ns") simp_all
  from merge_round [OF Suc.prems(1) assms(2) io] n obtain st1 A1 B1 C1 where
    step: "merge_step g ns [a] st = Inr (Some st1)" and st1: "merging g ns [a] A1 B1 C1 st1"
    unfolding goes_on_def by auto
  have rest: "merge_loop fuel (\<lambda>_. False) (k + 1) g ns [a] st1 = Inr (False, st')" using Suc.prems(3) step by simp
  have two: "merge_loop (Suc (Suc fuel)) (\<lambda>_. False) j g ns [a, b] st = merge_loop (Suc fuel) (\<lambda>_. False) (j + 1) g ns [a, b] st1"
    by (subst merge_loop.simps) (simp add: step_before [OF Suc.prems(2) ns] step)
  show ?case
  proof (cases "m_m st1 = 0")
    case True
    show ?thesis unfolding two by (rule Suc.IH [OF st1 True rest])
  next
    case False
    note t = step_takes [OF step Suc.prems(2) False n]
    have "z \<noteq> ns ! m_n st" if "comparebycall g (ns ! m_n st) a = 0"
      using that assms(7) bycall.flip_zero [of a z g] num by auto
    then have "z \<in> set (drop (m_n st1) ns)"
      using t z n by (auto simp: Cons_nth_drop_Suc [symmetric])
    then have n1: "m_n st1 < length ns" by (cases "m_n st1 < length ns") simp_all
    have "a \<in> set (take (m_n st1) ns) \<union> set (take (m_m st1) [a])" using t by simp
    note l = taken_before_last [OF st1 taken_set [OF st1 this] num(1)]
    have lnum: "numeric (last A1)" using l(1) taken_num [OF st1] by simp
    have bl: "comparebycall g b (last A1) < 0"
      using bycall.less_le_trans [of b a "last A1" g] l assms(4,8) num lnum by simp
    have "ns ! m_n st1 \<in> set ns" "comparebycall g (last A1) (ns ! m_n st1) \<le> 0"
      using st1 l(1) n1 by (auto simp: merging_def Cons_nth_drop_Suc [symmetric])
    then have "comparebycall g b (ns ! m_n st1) < 0"
      using bycall.less_le_trans [of b "last A1" "ns ! m_n st1" g] bl assms(4) lnum in_order_num [OF assms(2)] by simp
    then have gt: "0 < comparebycall g (ns ! m_n st1) b" "0 < comparebycall g (last A1) b"
      using bl bycall.flip_less [of "ns ! m_n st1" b g] bycall.flip_less [of "last A1" b g] assms(4) lnum
        in_order_num [OF assms(2) \<open>ns ! m_n st1 \<in> set ns\<close>] by simp_all
    have "lastrec st1 = Some (last A1)" using st1 l(1) by (simp add: merging_def)
    note over = step_over [OF _ ns n1 this gt, of a]
    have "merge_loop (Suc fuel) (\<lambda>_. False) (j + 1) g ns [a, b] st1 = merge_loop fuel (\<lambda>_. False) (j + 2) g ns [a, b] (next_m st1)"
      using over t by (subst merge_loop.simps) simp
    also have "\<dots> = Inr (False, next_m st')" using loop_after [OF _ ns _ rest] t n1 by simp
    finally show ?thesis unfolding two .
  qed
qed simp

lemma sorted_pair:
  assumes "mset xs = {#a, b#}" "sorted_wrt (\<lambda>a b. comparebycall g a b \<le> 0) xs" "comparebycall g a b < 0" "numeric a" "numeric b"
  shows "xs = [a, b]"
proof -
  have "length xs = 2" using mset_eq_length [of xs "[a, b]"] assms(1) by simp
  then obtain x y where xs: "xs = [x, y]" by (auto simp: numeral_2_eq_2 length_Suc_conv)
  then have "x = a \<and> y = b \<or> x = b \<and> y = a" using assms(1) by (auto simp: add_eq_conv_ex)
  then show ?thesis using xs assms(2-5) bycall.flip_less [of b a g] bycall.flip_less [of a b g] by auto
qed

section \<open>The properties\<close>

text \<open>
  C6: A merge that is not aborted ends. If the frequencies are numbers, and completing the dates and bands of
  the file's records does not change their order, it keeps every record: each record of the logbook and of the file is
  taken or goes to one of the two lists of duplicates, the records taken are in strict order, and a record is a
  duplicate only if one that was taken is equal to it. The new log has the records taken, with dates and bands
  completed, in order; if those of the old log were complete, as those that were added to it are, no two are equal.
\<close>

theorem merge_keeps:
  fixes g :: ordering
  defines "cmp \<equiv> comparebycall (g\<lparr>reversed := False\<rparr>)"
  assumes "sorts qs" "db_ok db" "db_ok mrg" "\<forall>r \<in> set (records db) \<union> set (records mrg). plain r \<and> numeric r" "records mrg \<noteq> []"
    "\<forall>r \<in> set (records mrg). \<forall>r' \<in> set (records mrg). cmp r r' \<le> 0 \<longrightarrow> cmp (filled r) (filled r') \<le> 0"
    "\<forall>k. \<not> aborts k"
  shows "\<exists>st A B C. merge_thread qs aborts g db mrg = Inr (False, st) \<and>
    mset A + mset B + mset C = mset (records db) + mset (map filled (records mrg)) \<and>
    mset (records (m_db st)) = mset (map completed A) \<and> records (merge_dups st) = map completed B \<and>
    records (orig_dups st) = map completed C \<and> set B \<subseteq> filled ` set (records mrg) \<and> set C \<subseteq> set (records db) \<and>
    sorted_wrt (\<lambda>a b. cmp a b < 0) A \<and> (\<forall>d \<in> set B \<union> set C. \<exists>a \<in> set A. cmp a d = 0) \<and>
    sorted_wrt (\<lambda>a b. cmp a b \<le> 0) (records (m_db st)) \<and>
    ((\<forall>r \<in> set (records db). completed r = r) \<longrightarrow> sorted_wrt (\<lambda>a b. cmp a b < 0) (records (m_db st)))"
proof -
  let ?g = "g\<lparr>reversed := False\<rparr>"
  let ?ns = "records (SortByCall qs ?g (qso_db_copy db))" and ?rs = "records (SortByCall qs ?g mrg)"
  let ?ms = "map filled ?rs"
  have proper: "\<forall>r \<in> set (records db). proper r" "\<forall>r \<in> set (records mrg). proper r" using assms(5) by (simp_all add: proper_def)
  note ns = sorted_log [OF assms(2,3) proper(1)]
  note ms = sorted_file [OF assms(2,4) proper(2) assms(7) [unfolded cmp_def]]
  note set = mset_eq_setD [OF ns(2)] mset_eq_setD [OF ms(2)]
  have "?ms \<noteq> []" using assms(6) set(2) by auto
  moreover have "length ?ns + length ?ms < length ?ns + length ?ms + 1 + (m_n merge_start + m_m merge_start)" by simp
  ultimately obtain st A B C where loop: "merge_loop (length ?ns + length ?ms + 1) aborts 0 ?g ?ns ?ms merge_start = Inr (False, st)"
    and st: "merging ?g ?ns ?ms A B C st" "m_n st = length ?ns" "m_m st = length ?ms"
    using merge_loop_ends [OF merging_start ns(1) ms(1) _ assms(8)] by blast
  have holds: "holds A (m_db st)" "holds B (merge_dups st)" "holds C (orig_dups st)" using st(1) by (simp_all add: merging_def)
  obtain st' where st': "merge_thread qs aborts g db mrg = Inr (False, st')" "mset (records (m_db st')) = mset (map completed A)"
    "sorted_wrt (\<lambda>a b. cmp a b \<le> 0) (records (m_db st'))"
    "records (merge_dups st') = map completed B" "records (orig_dups st') = map completed C"
    using merge_thread_result [OF assms(2,6) loop refl refl holds] unfolding cmp_def by blast
  have strict: "sorted_wrt (\<lambda>a b. cmp a b < 0) A" using st(1) by (simp add: merging_def cmp_def)
  have all: "mset A + mset B + mset C = mset (records db) + mset (map filled (records mrg))"
    using st ns(2) [of ?g] ms(2) by (simp add: merging_def)
  from arg_cong [OF this, where f = set_mset]
  have A: "r \<in> set (records db) \<or> (\<exists>r' \<in> set (records mrg). r = filled r')" if "r \<in> set A" for r using that by auto
  have "completed r = r" if "\<forall>r \<in> set (records db). completed r = r" "r \<in> set A" for r
    using A [OF that(2)] that(1) filled_again proper(2) plain_filled by (auto simp: completed_plain proper_def)
  then have "sorted_wrt (\<lambda>a b. cmp a b < 0) (records (m_db st'))" if "\<forall>r \<in> set (records db). completed r = r"
    using bycall.strict_again [OF strict [unfolded cmp_def] _ st'(3) [unfolded cmp_def]] st'(2) that holds(1)
    by (auto simp: map_idI cmp_def holds_def proper_def)
  then show ?thesis
    by (intro exI [of _ st'] exI [of _ A] exI [of _ B] exI [of _ C])
      (use st st' all strict set(1) [of ?g] set(2) in \<open>auto simp: merging_def cmp_def\<close>)
qed

theorem merge_keeps_witness:
  "\<exists>st A B C. merge_thread insertion_sort (\<lambda>_. False) \<lparr>date_off = True, reversed = False\<rparr> demo_db demo_db = Inr (False, st) \<and>
    mset A + mset B + mset C = {#demo_rec, filled demo_rec#} \<and> mset (records (m_db st)) = mset (map completed A) \<and>
    records (merge_dups st) = map completed B \<and> records (orig_dups st) = map completed C"
proof -
  have "\<forall>r \<in> set (records demo_db) \<union> set (records demo_db). plain r \<and> numeric r" "records demo_db \<noteq> []"
    by (simp_all add: demo_db_ok demo_numeric)
  moreover have "numeric (filled demo_rec)"
    using proper_filled [of demo_rec] demo_db_ok demo_numeric by (simp add: proper_def)
  then have "\<forall>r \<in> set (records demo_db). \<forall>r' \<in> set (records demo_db). comparebycall h r r' \<le> 0 \<longrightarrow>
      comparebycall h (filled r) (filled r') \<le> 0" for h
    using bycall.same [of "filled demo_rec" h] by (simp add: demo_db_ok)
  ultimately obtain st A B C where *: "merge_thread insertion_sort (\<lambda>_. False) \<lparr>date_off = True, reversed = False\<rparr> demo_db demo_db = Inr (False, st)"
    "mset A + mset B + mset C = mset (records demo_db) + mset (map filled (records demo_db))"
    "mset (records (m_db st)) = mset (map completed A)" "records (merge_dups st) = map completed B" "records (orig_dups st) = map completed C"
    using merge_keeps [OF sorts_insertion demo_db_ok(1) demo_db_ok(1), of "\<lparr>date_off = True, reversed = False\<rparr>" "\<lambda>_. False"] by blast
  then have "mset A + mset B + mset C = {#demo_rec, filled demo_rec#}" by (simp add: demo_db_ok add_mset_commute)
  with * show ?thesis by blast
qed

text \<open>
  C35: Without the condition on the order a merge can lose records. When completing the dates changes the order of the
  two records of a file, and the log has a record behind the first of them, the merge takes or lists the records of
  the log and the first record of the file, and the second one is nowhere: neither in the new log nor in a list of
  duplicates. The record of the log matters: with an empty log, or one that ends before, both records are taken.
\<close>

theorem merge_loses:
  fixes g :: ordering
  defines "cmp \<equiv> comparebycall (g\<lparr>reversed := False\<rparr>)"
  assumes "sorts qs" "db_ok db" "db_ok mrg" "\<forall>r \<in> set (records db) \<union> {a, b}. plain r \<and> numeric r"
    "mset (records mrg) = {#a, b#}" "cmp a b < 0" "cmp (filled b) (filled a) < 0"
    "z \<in> set (records db)" "cmp (filled a) z < 0"
  shows "\<exists>st A B C. merge_thread qs (\<lambda>_. False) g db mrg = Inr (False, st) \<and>
    mset A + mset B + mset C = mset (records db) + {#filled a#} \<and>
    mset (records (m_db st)) = mset (map completed A) \<and> records (merge_dups st) = map completed B \<and>
    records (orig_dups st) = map completed C"
proof -
  let ?g = "g\<lparr>reversed := False\<rparr>"
  let ?ns = "records (SortByCall qs ?g (qso_db_copy db))"
  have proper: "\<forall>r \<in> set (records db). proper r" "proper a" "proper b" using assms(5) by (simp_all add: proper_def)
  note ns = sorted_log [OF assms(2,3) proper(1), of ?g]
  have "set (records mrg) = {a, b}" using assms(6) by (metis set_mset_mset set_mset_add_mset_insert set_mset_empty)
  then have "set (records mrg) \<subseteq> Collect numeric" using proper by (simp add: proper_def)
  note m = records_sort_with [OF assms(2) bycall.qsort_order_axioms this assms(4), of ?g, folded SortByCall_def]
  have ms: "records (SortByCall qs ?g mrg) = [a, b]"
    using sorted_pair m(2,3) assms(6,7) proper unfolding cmp_def by (simp add: proper_def)
  have fa: "proper (filled a)" "proper (filled b)" using proper proper_filled by simp_all
  have io: "in_order ?g [filled a]" using fa by (simp add: in_order_def)
  have "length ?ns + length [filled a] < length ?ns + 2 + (m_n merge_start + m_m merge_start)" by simp
  then obtain st A B C where loop: "merge_loop (length ?ns + 2) (\<lambda>_. False) 0 ?g ?ns [filled a] merge_start = Inr (False, st)"
    and st: "merging ?g ?ns [filled a] A B C st" "m_n st = length ?ns" "m_m st = 1"
    using merge_loop_ends [OF merging_start ns(1) io, of "\<lambda>_. False" "length ?ns + 2" 0] by auto
  have z: "z \<in> set ?ns" using assms(9) mset_eq_setD [OF ns(2)] by simp
  have "merge_loop (Suc (length ?ns + 2)) (\<lambda>_. False) 0 ?g ?ns [filled a, filled b] merge_start = Inr (False, next_m st)"
    by (rule loop_passes_over [OF merging_start ns(1) fa(1) _ _ z _ _ loop])
      (use fa assms(8,10) in \<open>simp_all add: cmp_def proper_def merge_start_def\<close>)
  then have run: "merge_loop (length ?ns + length [filled a, filled b] + 1) (\<lambda>_. False) 0 ?g ?ns [filled a, filled b] merge_start =
      Inr (False, next_m st)" by simp
  have holds: "holds A (m_db (next_m st))" "holds B (merge_dups (next_m st))" "holds C (orig_dups (next_m st))"
    using st(1) by (simp_all add: merging_def next_m_def)
  have "mset A + mset B + mset C = mset (records db) + {#filled a#}"
    using st ns(2) by (simp add: merging_def)
  moreover have "records mrg \<noteq> []" using assms(6) by auto
  note result = merge_thread_result [OF assms(2) this run refl _ holds]
  have "map filled (records (SortByCall qs ?g mrg)) = [filled a, filled b]" using ms by simp
  from result [OF this [symmetric]] obtain st' where "merge_thread qs (\<lambda>_. False) g db mrg = Inr (False, st')" "mset (records (m_db st')) = mset (map completed A)"
    "records (merge_dups st') = map completed B" "records (orig_dups st') = map completed C"
    by auto
  ultimately show ?thesis by blast
qed

definition late :: qso_rec where
  "late = qso_rec_new[CALL := ''K1JT'', ADIF_MODE := ''CW'', QSO_DATE := ''20200102'']"

definition early :: qso_rec where
  "early = qso_rec_new[CALL := ''K1JT'', ADIF_MODE := ''SSB'', QSO_DATE := ''20200101'']"

lemma late_early:
  "plain late" "plain early" "filled late = late[QSO_DATE_OFF := ''20200102'']" "filled early = early[QSO_DATE_OFF := ''20200101'']"
  by (auto simp: late_def early_def qso_rec_new_def plain_def filled_def checkBand_def checkDateTimes_def fill_pair_def
      dest!: set_update_subset_insert [THEN subsetD])

lemma late_early_numeric: "numeric late" "numeric early"
  by (simp_all add: numeric_def atof_number late_def early_def qso_rec_new_def c_str_def scan_sign_def)

definition late_early_db :: qso_db where
  "late_early_db = \<lparr>qsorec = [late, early], maxrecs = 2, nbrrecs = 2, dirty = 0\<rparr>"

theorem merge_loses_witness:
  "\<exists>st A B C. merge_thread insertion_sort (\<lambda>_. False) \<lparr>date_off = True, reversed = False\<rparr> demo_db late_early_db = Inr (False, st) \<and>
    mset A + mset B + mset C = {#demo_rec#} + {#filled late#} \<and> mset (records (m_db st)) = mset (map completed A) \<and>
    records (merge_dups st) = map completed B \<and> records (orig_dups st) = map completed C"
proof -
  have db: "db_ok late_early_db" "mset (records late_early_db) = {#late, early#}"
    by (simp_all add: db_ok_def late_early_db_def records_def less_2_cases_iff late_def early_def qso_rec_new_def)
  have "\<forall>r \<in> set (records demo_db) \<union> {late, early}. plain r \<and> numeric r"
    using demo_db_ok demo_numeric late_early late_early_numeric by simp
  from merge_loses [OF sorts_insertion demo_db_ok(1) db(1) this db(2), where g = "\<lparr>date_off = True, reversed = False\<rparr>" and z = demo_rec]
  show ?thesis
    unfolding late_early demo_db_ok(2) mset.simps
    by (simp add: comparebycall_def swapped_def or_else_def compareCalls_def compareDates_def compareTimes_def
        compareModes_def late_def early_def demo_rec_def qso_rec_new_def)
qed

end
