(* ===== verification/Kiss.thy ===== *)
theory Kiss
  imports Prelude
begin

text \<open>
  The KISS interface of the program, \<^verbatim>\<open>misc/kiss_io.cxx\<close>: frames of the host program on a socket, frames of
  the radio link in the text a modem sends and prints, the checksums of both and the commands of the host. Buffers
  and strings are strings here; the threads call one operation after the other, so the state is one record.
  Commands that only act on modems or windows are recorded with their argument, and replies about those are left out.
\<close>

unbundle bit_operations_syntax

lemma index_of_lt: "index_of c s = Some i \<Longrightarrow> i < length s"
  by (induction s arbitrary: i) (auto split: if_splits)

section \<open>Checksums\<close>

definition crc_table :: "16 word list" where
  "crc_table = [
    0x0000, 0xc0c1, 0xc181, 0x0140, 0xc301, 0x03c0, 0x0280, 0xc241,
    0xc601, 0x06c0, 0x0780, 0xc741, 0x0500, 0xc5c1, 0xc481, 0x0440,
    0xcc01, 0x0cc0, 0x0d80, 0xcd41, 0x0f00, 0xcfc1, 0xce81, 0x0e40,
    0x0a00, 0xcac1, 0xcb81, 0x0b40, 0xc901, 0x09c0, 0x0880, 0xc841,
    0xd801, 0x18c0, 0x1980, 0xd941, 0x1b00, 0xdbc1, 0xda81, 0x1a40,
    0x1e00, 0xdec1, 0xdf81, 0x1f40, 0xdd01, 0x1dc0, 0x1c80, 0xdc41,
    0x1400, 0xd4c1, 0xd581, 0x1540, 0xd701, 0x17c0, 0x1680, 0xd641,
    0xd201, 0x12c0, 0x1380, 0xd341, 0x1100, 0xd1c1, 0xd081, 0x1040,
    0xf001, 0x30c0, 0x3180, 0xf141, 0x3300, 0xf3c1, 0xf281, 0x3240,
    0x3600, 0xf6c1, 0xf781, 0x3740, 0xf501, 0x35c0, 0x3480, 0xf441,
    0x3c00, 0xfcc1, 0xfd81, 0x3d40, 0xff01, 0x3fc0, 0x3e80, 0xfe41,
    0xfa01, 0x3ac0, 0x3b80, 0xfb41, 0x3900, 0xf9c1, 0xf881, 0x3840,
    0x2800, 0xe8c1, 0xe981, 0x2940, 0xeb01, 0x2bc0, 0x2a80, 0xea41,
    0xee01, 0x2ec0, 0x2f80, 0xef41, 0x2d00, 0xedc1, 0xec81, 0x2c40,
    0xe401, 0x24c0, 0x2580, 0xe541, 0x2700, 0xe7c1, 0xe681, 0x2640,
    0x2200, 0xe2c1, 0xe381, 0x2340, 0xe101, 0x21c0, 0x2080, 0xe041,
    0xa001, 0x60c0, 0x6180, 0xa141, 0x6300, 0xa3c1, 0xa281, 0x6240,
    0x6600, 0xa6c1, 0xa781, 0x6740, 0xa501, 0x65c0, 0x6480, 0xa441,
    0x6c00, 0xacc1, 0xad81, 0x6d40, 0xaf01, 0x6fc0, 0x6e80, 0xae41,
    0xaa01, 0x6ac0, 0x6b80, 0xab41, 0x6900, 0xa9c1, 0xa881, 0x6840,
    0x7800, 0xb8c1, 0xb981, 0x7940, 0xbb01, 0x7bc0, 0x7a80, 0xba41,
    0xbe01, 0x7ec0, 0x7f80, 0xbf41, 0x7d00, 0xbdc1, 0xbc81, 0x7c40,
    0xb401, 0x74c0, 0x7580, 0xb541, 0x7700, 0xb7c1, 0xb681, 0x7640,
    0x7200, 0xb2c1, 0xb381, 0x7340, 0xb101, 0x71c0, 0x7080, 0xb041,
    0x5000, 0x90c1, 0x9181, 0x5140, 0x9301, 0x53c0, 0x5280, 0x9241,
    0x9601, 0x56c0, 0x5780, 0x9741, 0x5500, 0x95c1, 0x9481, 0x5440,
    0x9c01, 0x5cc0, 0x5d80, 0x9d41, 0x5f00, 0x9fc1, 0x9e81, 0x5e40,
    0x5a00, 0x9ac1, 0x9b81, 0x5b40, 0x9901, 0x59c0, 0x5880, 0x9841,
    0x8801, 0x48c0, 0x4980, 0x8941, 0x4b00, 0x8bc1, 0x8a81, 0x4a40,
    0x4e00, 0x8ec1, 0x8f81, 0x4f40, 0x8d01, 0x4dc0, 0x4c80, 0x8c41,
    0x4400, 0x84c1, 0x8581, 0x4540, 0x8701, 0x47c0, 0x4680, 0x8641,
    0x8201, 0x42c0, 0x4380, 0x8341, 0x4100, 0x81c1, 0x8081, 0x4040]"

definition fcstab :: "16 word list" where
  "fcstab = [
    0x0000, 0x1189, 0x2312, 0x329b, 0x4624, 0x57ad, 0x6536, 0x74bf,
    0x8c48, 0x9dc1, 0xaf5a, 0xbed3, 0xca6c, 0xdbe5, 0xe97e, 0xf8f7,
    0x1081, 0x0108, 0x3393, 0x221a, 0x56a5, 0x472c, 0x75b7, 0x643e,
    0x9cc9, 0x8d40, 0xbfdb, 0xae52, 0xdaed, 0xcb64, 0xf9ff, 0xe876,
    0x2102, 0x308b, 0x0210, 0x1399, 0x6726, 0x76af, 0x4434, 0x55bd,
    0xad4a, 0xbcc3, 0x8e58, 0x9fd1, 0xeb6e, 0xfae7, 0xc87c, 0xd9f5,
    0x3183, 0x200a, 0x1291, 0x0318, 0x77a7, 0x662e, 0x54b5, 0x453c,
    0xbdcb, 0xac42, 0x9ed9, 0x8f50, 0xfbef, 0xea66, 0xd8fd, 0xc974,
    0x4204, 0x538d, 0x6116, 0x709f, 0x0420, 0x15a9, 0x2732, 0x36bb,
    0xce4c, 0xdfc5, 0xed5e, 0xfcd7, 0x8868, 0x99e1, 0xab7a, 0xbaf3,
    0x5285, 0x430c, 0x7197, 0x601e, 0x14a1, 0x0528, 0x37b3, 0x263a,
    0xdecd, 0xcf44, 0xfddf, 0xec56, 0x98e9, 0x8960, 0xbbfb, 0xaa72,
    0x6306, 0x728f, 0x4014, 0x519d, 0x2522, 0x34ab, 0x0630, 0x17b9,
    0xef4e, 0xfec7, 0xcc5c, 0xddd5, 0xa96a, 0xb8e3, 0x8a78, 0x9bf1,
    0x7387, 0x620e, 0x5095, 0x411c, 0x35a3, 0x242a, 0x16b1, 0x0738,
    0xffcf, 0xee46, 0xdcdd, 0xcd54, 0xb9eb, 0xa862, 0x9af9, 0x8b70,
    0x8408, 0x9581, 0xa71a, 0xb693, 0xc22c, 0xd3a5, 0xe13e, 0xf0b7,
    0x0840, 0x19c9, 0x2b52, 0x3adb, 0x4e64, 0x5fed, 0x6d76, 0x7cff,
    0x9489, 0x8500, 0xb79b, 0xa612, 0xd2ad, 0xc324, 0xf1bf, 0xe036,
    0x18c1, 0x0948, 0x3bd3, 0x2a5a, 0x5ee5, 0x4f6c, 0x7df7, 0x6c7e,
    0xa50a, 0xb483, 0x8618, 0x9791, 0xe32e, 0xf2a7, 0xc03c, 0xd1b5,
    0x2942, 0x38cb, 0x0a50, 0x1bd9, 0x6f66, 0x7eef, 0x4c74, 0x5dfd,
    0xb58b, 0xa402, 0x9699, 0x8710, 0xf3af, 0xe226, 0xd0bd, 0xc134,
    0x39c3, 0x284a, 0x1ad1, 0x0b58, 0x7fe7, 0x6e6e, 0x5cf5, 0x4d7c,
    0xc60c, 0xd785, 0xe51e, 0xf497, 0x8028, 0x91a1, 0xa33a, 0xb2b3,
    0x4a44, 0x5bcd, 0x6956, 0x78df, 0x0c60, 0x1de9, 0x2f72, 0x3efb,
    0xd68d, 0xc704, 0xf59f, 0xe416, 0x90a9, 0x8120, 0xb3bb, 0xa232,
    0x5ac5, 0x4b4c, 0x79d7, 0x685e, 0x1ce1, 0x0d68, 0x3ff3, 0x2e7a,
    0xe70e, 0xf687, 0xc41c, 0xd595, 0xa12a, 0xb0a3, 0x8238, 0x93b1,
    0x6b46, 0x7acf, 0x4854, 0x59dd, 0x2d62, 0x3ceb, 0x0e70, 0x1ff9,
    0xf78f, 0xe606, 0xd49d, 0xc514, 0xb1ab, 0xa022, 0x92b9, 0x8330,
    0x7bc7, 0x6a4e, 0x58d5, 0x495c, 0x3de3, 0x2c6a, 0x1ef1, 0x0f78]"

text \<open>The low 16 bits of the \<^verbatim>\<open>int\<close>; the others are never set, and a sign of the character is masked off.\<close>

definition crc_step :: "16 word list \<Rightarrow> 16 word \<Rightarrow> char \<Rightarrow> 16 word" where
  "crc_step tab crc c = drop_bit 8 crc XOR tab ! unat ((crc XOR of_char c) AND 0xFF)"

definition calc_ccitt_crc :: "string \<Rightarrow> 16 word" where "calc_ccitt_crc buf = foldl (crc_step crc_table) 0 buf"
definition calc_fcs_crc :: "string \<Rightarrow> 16 word" where "calc_fcs_crc buf = foldl (crc_step fcstab) 0xFFFF buf"
definition calc_xor_crc :: "string \<Rightarrow> 16 word" where "calc_xor_crc buf = foldl (\<lambda>crc c. crc XOR of_char c) 0 buf"

definition CRC_LOW :: "16 word \<Rightarrow> char" where "CRC_LOW a = char_of (unat (a AND 0xFF))"
definition CRC_HIGH :: "16 word \<Rightarrow> char" where "CRC_HIGH a = char_of (unat (drop_bit 8 a AND 0xFF))"
definition CRC_LOW_HIGH :: "char \<Rightarrow> char \<Rightarrow> 16 word" where "CRC_LOW_HIGH l h = push_bit 8 (of_char h) OR of_char l"

section \<open>Frames of the host\<close>

abbreviation (input) KISS_FEND :: char where "KISS_FEND \<equiv> CHR 0xC0"
abbreviation (input) KISS_FESC :: char where "KISS_FESC \<equiv> CHR 0xDB"
abbreviation (input) KISS_TFEND :: char where "KISS_TFEND \<equiv> CHR 0xDC"
abbreviation (input) KISS_TFESC :: char where "KISS_TFESC \<equiv> CHR 0xDD"
abbreviation (input) HDLC_CNT :: char where "HDLC_CNT \<equiv> CHR 0xDE"
abbreviation (input) HDLC_TCNT :: char where "HDLC_TCNT \<equiv> CHR 0xE0"

definition kiss_escape :: "char \<Rightarrow> string" where
  "kiss_escape c = (if c = KISS_FESC then [KISS_FESC, KISS_TFESC] else if c = KISS_FEND then [KISS_FESC, KISS_TFEND] else [c])"

definition kiss_encode :: "string \<Rightarrow> string" where
  "kiss_encode src = (if src = '''' then '''' else KISS_FEND # concat (map kiss_escape src) @ [KISS_FEND])"

text \<open>The last byte is \<open>None\<close> for \<^verbatim>\<open>KISS_INVALID\<close>.\<close>

fun kiss_decode_loop :: "char option \<Rightarrow> string \<Rightarrow> string" where
  "kiss_decode_loop prev [] = []"
| "kiss_decode_loop prev (c # cs) =
    (if c = KISS_FEND then kiss_decode_loop prev cs
     else if c = KISS_FESC then kiss_decode_loop (Some c) cs
     else (if c = KISS_TFEND \<and> prev = Some KISS_FESC then KISS_FEND
           else if c = KISS_TFESC \<and> prev = Some KISS_FESC then KISS_FESC else c) # kiss_decode_loop (Some c) cs)"

definition kiss_decode :: "string \<Rightarrow> string" where "kiss_decode src = kiss_decode_loop None src"

section \<open>Frames on the radio\<close>

definition not_allowed :: "nat list" where
  "not_allowed = replicate 10 1 @ replicate 117 0 @ [1] @ replicate 127 0 @ [1]"

definition HDLC_CNT_OFFSET :: int where "HDLC_CNT_OFFSET = 32"

definition banned :: "int \<Rightarrow> bool" where
  "banned b \<longleftrightarrow> -1 < b \<and> b < 256 \<and> not_allowed ! nat b \<noteq> 0"

definition hdlc_escape :: "char \<Rightarrow> string" where
  "hdlc_escape c =
    (let byte = int (of_char c) in
     if banned byte then
       [HDLC_CNT, char_of_int (if 255 < byte + HDLC_CNT_OFFSET then byte - HDLC_CNT_OFFSET else byte + HDLC_CNT_OFFSET)]
     else if c = KISS_FESC then [KISS_FESC, KISS_TFESC]
     else if c = KISS_FEND then [KISS_FESC, KISS_TFEND]
     else if c = HDLC_CNT then [KISS_FESC, HDLC_TCNT] else [c])"

definition hdlc_encode :: "string \<Rightarrow> string" where
  "hdlc_encode src = (if src = '''' then '''' else [CHR '' '', KISS_FEND] @ concat (map hdlc_escape src) @ [KISS_FEND, CHR '' ''])"

text \<open>
  The last byte is an \<^verbatim>\<open>int\<close>. After a character was stored it is the character that was stored, converted
  back from \<^verbatim>\<open>char\<close>; \<open>prom\<close> is this conversion, \<open>schar\<close> where characters have a sign.
\<close>

fun hdlc_decode_loop :: "(char \<Rightarrow> int) \<Rightarrow> int \<Rightarrow> string \<Rightarrow> string" where
  "hdlc_decode_loop prom prev [] = []"
| "hdlc_decode_loop prom prev (c # cs) =
    (let byte = int (of_char c) in
     if prev = int (of_char HDLC_CNT) then
       if banned (byte - HDLC_CNT_OFFSET) then char_of_int (byte - HDLC_CNT_OFFSET) # hdlc_decode_loop prom byte cs
       else if banned (byte + HDLC_CNT_OFFSET) then char_of_int (byte + HDLC_CNT_OFFSET) # hdlc_decode_loop prom byte cs
       else hdlc_decode_loop prom byte cs
     else if c = KISS_FEND then hdlc_decode_loop prom prev cs
     else if c = KISS_FESC \<or> c = HDLC_CNT then hdlc_decode_loop prom byte cs
     else
       let c = (if c = KISS_TFEND \<and> prev = int (of_char KISS_FESC) then KISS_FEND
                else if c = KISS_TFESC \<and> prev = int (of_char KISS_FESC) then KISS_FESC
                else if c = HDLC_TCNT \<and> prev = int (of_char KISS_FESC) then HDLC_CNT else c)
       in c # hdlc_decode_loop prom (prom c) cs)"

definition KISS_INVALID :: int where "KISS_INVALID = 512"

definition hdlc_decode :: "(char \<Rightarrow> int) \<Rightarrow> string \<Rightarrow> string" where
  "hdlc_decode prom src = hdlc_decode_loop prom KISS_INVALID src"

definition encap_hdlc_frame :: "string \<Rightarrow> string" where
  "encap_hdlc_frame data =
    (if data = '''' then ''''
     else let crc_value = calc_fcs_crc data in hdlc_encode (data @ [CRC_LOW crc_value, CRC_HIGH crc_value]))"

text \<open>The buffer behind the decoded bytes is zero.\<close>

definition decap_hdlc_frame :: "(char \<Rightarrow> int) \<Rightarrow> string \<Rightarrow> string" where
  "decap_hdlc_frame prom data =
    (let dec = hdlc_decode prom data; count = (if 2 < length dec then length dec - 2 else length dec);
         at = (\<lambda>i. if i < length dec then dec ! i else CHR 0x00)
     in if count = 0 then ''''
        else if CRC_LOW_HIGH (at count) (at (count + 1)) \<noteq> calc_fcs_crc (take count dec) then ''''
        else take count dec)"

section \<open>The state\<close>

text \<open>The functions of the table of commands, by their names in the code.\<close>

datatype kiss_fn = Set_busy_channel_on_off | Set_busy_channel_duration | Reply_busy_state | Set_csma_mode | Kiss_tcp_disconnect |
  Reply_fldigi_stat | Host_name | Set_busy_channel_inhibit | Set_crc_mode | Set_kiss_raw_mode |
  Set_psm_fraction_gain | Set_psm_on_off | Reply_psm_pwr_level | Set_psm_squelch_level | Set_kpsql_on_off |
  Reply_kpsql_pwr_level | Set_kpsql_squelch_level | Set_kiss_modem | Reply_active_modem_bw | Reply_modem_list |
  Set_rsid_bc_mode | Set_rsid_mode | Set_rsid_rx | Set_rsid_tx | Set_sql_on_off | Reply_sql_pwr_level |
  Set_sql_level | Reply_tnc_name | Reply_trx_state | Set_trxs_bc_mode | Set_txbe_bc_mode |
  Reply_tx_buffer_count | Set_reply_tx_lock | Reply_waterfall_bw | Set_wf_cursor_pos

text \<open>\<open>hardware\<close> lists the calls of functions that only act on modems and windows, with their arguments.\<close>

record kiss =
  smack_crc_enabled :: bool
  crc_mode :: nat
  kiss_port_no :: nat
  kiss_raw_enabled :: nat
  full_duplex :: bool
  csma_transmit_delay :: nat
  csma_persistance :: nat
  csma_slot_time :: nat
  kiss_bcast_rsid_reception :: bool
  kiss_bcast_trx_toggle :: bool
  bcast_tx_buffer_empty_flag :: bool
  kiss_frame :: string
  from_host :: string
  from_radio :: string
  to_radio :: string
  to_host :: string
  to_arq_host :: string
  kiss_bc_frame :: string
  pText :: nat
  kiss_text_available :: bool
  toggle_flag :: bool
  hardware :: "(kiss_fn \<times> string) list"

abbreviation (input) KISS_DATA :: nat where "KISS_DATA \<equiv> 0"
abbreviation (input) KISS_TXDELAY :: nat where "KISS_TXDELAY \<equiv> 1"
abbreviation (input) KISS_PERSIST :: nat where "KISS_PERSIST \<equiv> 2"
abbreviation (input) KISS_SLOTTIME :: nat where "KISS_SLOTTIME \<equiv> 3"
abbreviation (input) KISS_TXTAIL :: nat where "KISS_TXTAIL \<equiv> 4"
abbreviation (input) KISS_DUPLEX :: nat where "KISS_DUPLEX \<equiv> 5"
abbreviation (input) KISS_HARDWARE :: nat where "KISS_HARDWARE \<equiv> 6"
abbreviation (input) KISS_RAW :: nat where "KISS_RAW \<equiv> 7"

abbreviation (input) KISS_RAW_DISABLED :: nat where "KISS_RAW_DISABLED \<equiv> 0"
abbreviation (input) KISS_RAW_ONLY :: nat where "KISS_RAW_ONLY \<equiv> 1"
abbreviation (input) KISS_RAW_ON :: nat where "KISS_RAW_ON \<equiv> 2"

abbreviation (input) CRC16_NONE :: nat where "CRC16_NONE \<equiv> 0"
abbreviation (input) CRC16_CCITT :: nat where "CRC16_CCITT \<equiv> 1"
abbreviation (input) CRC16_FCS :: nat where "CRC16_FCS \<equiv> 2"
abbreviation (input) CRC8_XOR :: nat where "CRC8_XOR \<equiv> 3"

definition kiss_init :: kiss where
  "kiss_init = \<lparr>smack_crc_enabled = False, crc_mode = CRC16_CCITT, kiss_port_no = 0, kiss_raw_enabled = KISS_RAW_DISABLED,
     full_duplex = False, csma_transmit_delay = 0, csma_persistance = 0, csma_slot_time = 0, kiss_bcast_rsid_reception = False,
     kiss_bcast_trx_toggle = False, bcast_tx_buffer_empty_flag = False, kiss_frame = '''', from_host = '''', from_radio = '''',
     to_radio = '''', to_host = '''', to_arq_host = '''', kiss_bc_frame = '''', pText = 0, kiss_text_available = False,
     toggle_flag = False, hardware = []\<rparr>"

section \<open>Frames with their type\<close>

definition SET_KISS_TYPE_PORT :: "nat \<Rightarrow> nat \<Rightarrow> nat" where
  "SET_KISS_TYPE_PORT t p = (t AND 0x0F) OR (push_bit 4 p AND 0xF0)"

definition SMACK_CRC_ASSIGN :: "nat \<Rightarrow> nat" where "SMACK_CRC_ASSIGN a = (a OR 0x08) AND 0xFF"
definition KISS_CMD :: "nat \<Rightarrow> nat" where "KISS_CMD a = a AND 0x0F"
definition KISS_PORT :: "nat \<Rightarrow> nat" where "KISS_PORT a = drop_bit 4 (a AND 0xF0)"

definition smack_trailer :: "nat \<Rightarrow> string \<Rightarrow> string" where
  "smack_trailer mode data =
    (if mode = CRC16_CCITT then let crc = calc_ccitt_crc data in [CRC_LOW crc, CRC_HIGH crc]
     else if mode = CRC16_FCS then let crc = calc_fcs_crc data in [CRC_LOW crc, CRC_HIGH crc]
     else if mode = CRC8_XOR then [CRC_LOW (calc_xor_crc data)] else '''')"

text \<open>\<open>None\<close> is the null pointer.\<close>

definition encap_kiss_frame :: "string \<Rightarrow> nat \<Rightarrow> nat \<Rightarrow> kiss \<Rightarrow> string option" where
  "encap_kiss_frame buffer frame_type port st =
    (if buffer = '''' \<or> 15 < port \<or> 7 < frame_type then None
     else
       let head = SET_KISS_TYPE_PORT frame_type port;
           crc = (frame_type = KISS_DATA \<or> frame_type = KISS_RAW) \<and> smack_crc_enabled st;
           data = char_of (if crc then SMACK_CRC_ASSIGN head else head) # buffer
       in Some (kiss_encode (if crc then data @ smack_trailer (crc_mode st) data else data)))"

text \<open>
  Whether the checksum of a frame holds, and how long the frame is without it. The length is unsigned: with a
  single byte it goes below 0 and the checksum is read in front of the buffer. With no checksum set the two
  variables that are compared are both 0. The checksum of one byte is computed as the one of two.
\<close>

definition smack_check :: "nat \<Rightarrow> string \<Rightarrow> (bool \<times> nat) result" where
  "smack_check mode dec =
    (let n = length dec in
     if mode = CRC16_CCITT \<or> mode = CRC16_FCS then
       if n < 2 then Inl BadIndex
       else
         let count = n - 2; calc = (if mode = CRC16_CCITT then calc_ccitt_crc else calc_fcs_crc) (take count dec)
         in Inr (2 < count \<and> calc = CRC_LOW_HIGH (dec ! count) (dec ! (count + 1)), count)
     else if mode = CRC8_XOR then
       let count = n - 1 in Inr (1 < count \<and> CRC_LOW (calc_fcs_crc (take count dec)) = dec ! count, count)
     else Inr (True, n))"

text \<open>The contents, the type and the port of a frame; the contents are empty when the frame is refused.\<close>

definition unencap_kiss_frame :: "string \<Rightarrow> kiss \<Rightarrow> ((string \<times> nat \<times> nat) option \<times> kiss) result" where
  "unencap_kiss_frame package st =
    (let dec = kiss_decode package in
     if dec = '''' then Inr (None, st)
     else
       let head = of_char (hd dec); ftype = KISS_CMD head; port = KISS_PORT head
       in if ftype = KISS_DATA \<or> ftype = KISS_RAW then
            let smack = (port AND 8 \<noteq> 0); port = port AND 0xF7; st = st\<lparr>smack_crc_enabled := smack\<rparr>
            in if smack then
                 andthen (smack_check (crc_mode st) dec) (\<lambda>(good, count).
                   Inr (Some (if good then take (count - 1) (tl dec) else '''', ftype, port), st))
               else Inr (Some (tl dec, ftype, port), st)
          else Inr (Some (tl dec, ftype, port), st))"

definition WriteToHostBuffered :: "string \<Rightarrow> kiss \<Rightarrow> kiss" where
  "WriteToHostBuffered data st = st\<lparr>to_host := to_host st @ data\<rparr>"

definition WriteToRadioBuffered :: "string \<Rightarrow> kiss \<Rightarrow> kiss" where
  "WriteToRadioBuffered data st = st\<lparr>to_radio := to_radio st @ data\<rparr>"

definition kiss_queue_frame :: "string option \<Rightarrow> kiss \<Rightarrow> kiss" where
  "kiss_queue_frame frame st = (case frame of None \<Rightarrow> st | Some data \<Rightarrow> WriteToHostBuffered data st)"

section \<open>Commands\<close>

definition has :: "string \<Rightarrow> string \<Rightarrow> bool" where "has s pat \<longleftrightarrow> find_sub s pat \<noteq> None"

definition hardware_reply :: "string \<Rightarrow> kiss \<Rightarrow> kiss" where
  "hardware_reply package st = kiss_queue_frame (encap_kiss_frame package KISS_HARDWARE (kiss_port_no st) st) st"

definition on_off :: "bool \<Rightarrow> string" where "on_off b = (if b then ''ON'' else ''OFF'')"

definition reply_kiss_raw_mode :: "kiss \<Rightarrow> kiss" where
  "reply_kiss_raw_mode st =
    (let m = kiss_raw_enabled st in
     if m = KISS_RAW_ONLY then hardware_reply (''KISSRAW:'' @ ''ONLY'') st
     else if m = KISS_RAW_ON then hardware_reply (''KISSRAW:'' @ ''ON'') st
     else if m = KISS_RAW_DISABLED then hardware_reply (''KISSRAW:'' @ ''OFF'') st else st)"

definition set_kiss_raw_mode :: "string \<Rightarrow> kiss \<Rightarrow> kiss" where
  "set_kiss_raw_mode arg st =
    (if arg = '''' then reply_kiss_raw_mode st
     else if has arg ''ONLY'' then st\<lparr>kiss_raw_enabled := KISS_RAW_ONLY\<rparr>
     else if has arg ''ON'' then st\<lparr>kiss_raw_enabled := KISS_RAW_ON\<rparr>
     else if has arg ''OFF'' then st\<lparr>kiss_raw_enabled := KISS_RAW_DISABLED\<rparr> else st)"

definition reply_crc_mode :: "kiss \<Rightarrow> kiss" where
  "reply_crc_mode st =
    (let m = crc_mode st in
     hardware_reply (''KISSCRCM:'' @ (if smack_crc_enabled st then ''SMACK,'' else ''NONE,'') @
       (if m = CRC16_NONE then ''NONE'' else if m = CRC16_CCITT then ''CCITT'' else if m = CRC16_FCS then ''FCS''
        else if m = CRC8_XOR then ''XOR'' else ''UNDEFINED'')) st)"

definition set_crc_mode :: "string \<Rightarrow> kiss \<Rightarrow> kiss" where
  "set_crc_mode arg st =
    (if arg = '''' then reply_crc_mode st
     else if has arg ''SMACK'' then st\<lparr>smack_crc_enabled := True, crc_mode := CRC16_CCITT\<rparr>
     else if has arg ''CCITT'' then st\<lparr>smack_crc_enabled := True, crc_mode := CRC16_CCITT\<rparr>
     else if has arg ''FCS'' then st\<lparr>smack_crc_enabled := True, crc_mode := CRC16_FCS\<rparr>
     else if has arg ''XOR'' then st\<lparr>smack_crc_enabled := True, crc_mode := CRC8_XOR\<rparr>
     else if has arg ''NONE'' then st\<lparr>smack_crc_enabled := False\<rparr> else st)"

definition set_rsid_bc_mode :: "string \<Rightarrow> kiss \<Rightarrow> kiss" where
  "set_rsid_bc_mode arg st =
    (if arg = '''' then hardware_reply (''RSIDBCAST:'' @ on_off (kiss_bcast_rsid_reception st)) st
     else if has (toupper_str arg) ''ON'' then st\<lparr>kiss_bcast_rsid_reception := True\<rparr>
     else if has (toupper_str arg) ''OFF'' then st\<lparr>kiss_bcast_rsid_reception := False\<rparr> else st)"

definition set_trxs_bc_mode :: "string \<Rightarrow> kiss \<Rightarrow> kiss" where
  "set_trxs_bc_mode arg st =
    (if arg = '''' then hardware_reply (''TRXSBCAST:'' @ on_off (kiss_bcast_trx_toggle st)) st
     else if has (toupper_str arg) ''ON'' then st\<lparr>kiss_bcast_trx_toggle := True\<rparr>
     else if has (toupper_str arg) ''OFF'' then st\<lparr>kiss_bcast_trx_toggle := False\<rparr> else st)"

definition set_txbe_bc_mode :: "string \<Rightarrow> kiss \<Rightarrow> kiss" where
  "set_txbe_bc_mode arg st =
    (if arg = '''' then hardware_reply (''TXBEBCAST:'' @ on_off (bcast_tx_buffer_empty_flag st)) st
     else if has (toupper_str arg) ''ON'' then st\<lparr>bcast_tx_buffer_empty_flag := True\<rparr>
     else if has (toupper_str arg) ''OFF'' then st\<lparr>bcast_tx_buffer_empty_flag := False\<rparr> else st)"

definition exec_match :: "(string \<times> kiss_fn) list" where
  "exec_match = [(''BCHN'', Set_busy_channel_on_off), (''BCHNS'', Set_busy_channel_duration), (''BUSY'', Reply_busy_state),
    (''CSMA'', Set_csma_mode), (''DISC'', Kiss_tcp_disconnect), (''FLSTAT'', Reply_fldigi_stat),
    (''HOST'', Host_name), (''IBCHN'', Set_busy_channel_inhibit), (''KISSCRCM'', Set_crc_mode),
    (''KISSRAW'', Set_kiss_raw_mode), (''KPSATT'', Set_psm_fraction_gain), (''PSMATT'', Set_psm_fraction_gain),
    (''PSM'', Set_psm_on_off), (''PSMP'', Reply_psm_pwr_level), (''PSMS'', Set_psm_squelch_level),
    (''KPSQL'', Set_kpsql_on_off), (''KPSQLP'', Reply_kpsql_pwr_level), (''KPSQLS'', Set_kpsql_squelch_level),
    (''MODEM'', Set_kiss_modem), (''MODEMBW'', Reply_active_modem_bw), (''MODEML'', Reply_modem_list),
    (''RSIDBCAST'', Set_rsid_bc_mode), (''RSIDM'', Set_rsid_mode), (''RSIDRX'', Set_rsid_rx),
    (''RSIDTX'', Set_rsid_tx), (''SQL'', Set_sql_on_off), (''SQLP'', Reply_sql_pwr_level),
    (''SQLS'', Set_sql_level), (''TNC'', Reply_tnc_name), (''TRXS'', Reply_trx_state),
    (''TRXSBCAST'', Set_trxs_bc_mode), (''TXBEBCAST'', Set_txbe_bc_mode), (''TXBUF'', Reply_tx_buffer_count),
    (''TXLOCK'', Set_reply_tx_lock), (''WFBW'', Reply_waterfall_bw), (''WFF'', Set_wf_cursor_pos)]"

text \<open>A call through the pointer of the table. The functions that only touch modems or windows are recorded.\<close>

definition cmd_func :: "kiss_fn \<Rightarrow> string \<Rightarrow> kiss \<Rightarrow> kiss" where
  "cmd_func f arg st =
    (case f of
       Set_crc_mode \<Rightarrow> set_crc_mode arg st
     | Set_kiss_raw_mode \<Rightarrow> set_kiss_raw_mode arg st
     | Set_rsid_bc_mode \<Rightarrow> set_rsid_bc_mode arg st
     | Set_trxs_bc_mode \<Rightarrow> set_trxs_bc_mode arg st
     | Set_txbe_bc_mode \<Rightarrow> set_txbe_bc_mode arg st
     | _ \<Rightarrow> st\<lparr>hardware := hardware st @ [(f, arg)]\<rparr>)"

text \<open>The name is searched for in the table's names, and then compared from where it was found on.\<close>

fun find_command :: "(string \<times> kiss_fn) list \<Rightarrow> string \<Rightarrow> kiss_fn option result" where
  "find_command [] cmd = Inr None"
| "find_command ((cmp, f) # cmps) cmd =
    (case find_sub cmp cmd of
       None \<Rightarrow> find_command cmps cmd
     | Some pos \<Rightarrow>
         andthen (substr cmd pos (max (length cmp) (length cmd))) (\<lambda>s.
           if s = cmp then Inr (Some f) else find_command cmps cmd))"

definition exec_hardware_command :: "string \<Rightarrow> string \<Rightarrow> kiss \<Rightarrow> kiss result" where
  "exec_hardware_command cmd arg st =
    (if cmd = '''' then Inr st
     else andthen (find_command exec_match cmd) (\<lambda>found. Inr (case found of None \<Rightarrow> st | Some f \<Rightarrow> cmd_func f arg st)))"

definition printable :: "char \<Rightarrow> bool" where "printable c \<longleftrightarrow> schar (CHR '' '') < schar c"

function parse_hardware_frame :: "string \<Rightarrow> kiss \<Rightarrow> kiss result" where
  "parse_hardware_frame frame st =
    (case index_of (CHR '':'') frame of
       None \<Rightarrow> Inr st
     | Some pos \<Rightarrow>
         let cmd = map toupper_char (filter printable (take pos frame)); arg = takeWhile printable (drop (pos + 1) frame)
         in if 512 \<le> length cmd \<or> 512 \<le> length arg \<or> cmd = '''' then Inr st
            else andthen (exec_hardware_command cmd arg st) (parse_hardware_frame (drop (pos + 1 + length arg) frame)))"
  by pat_completeness auto
termination
  by (relation "measure (\<lambda>(frame, _). length frame)") (auto dest!: index_of_lt)

declare parse_hardware_frame.simps [simp del]

section \<open>Frames from the host\<close>

text \<open>What a frame does that was taken off the stream.\<close>

definition handle_frame :: "string \<Rightarrow> nat \<Rightarrow> kiss \<Rightarrow> kiss result" where
  "handle_frame data frame_type st =
    (let cmsa_data = of_char (hd data) in
     if frame_type = KISS_DATA then
       Inr (if kiss_raw_enabled st = KISS_RAW_ONLY then st else WriteToRadioBuffered (encap_hdlc_frame data) st)
     else if frame_type = KISS_RAW then
       Inr (if kiss_raw_enabled st = KISS_RAW_DISABLED then st else WriteToRadioBuffered data st)
     else if frame_type = KISS_TXDELAY then Inr (st\<lparr>csma_transmit_delay := cmsa_data\<rparr>)
     else if frame_type = KISS_PERSIST then Inr (st\<lparr>csma_persistance := cmsa_data\<rparr>)
     else if frame_type = KISS_SLOTTIME then Inr (st\<lparr>csma_slot_time := cmsa_data\<rparr>)
     else if frame_type = KISS_DUPLEX then Inr (st\<lparr>full_duplex := (cmsa_data \<noteq> 0)\<rparr>)
     else if frame_type = KISS_HARDWARE then parse_hardware_frame data st
     else Inr st)"

definition one_frame :: "string \<Rightarrow> kiss \<Rightarrow> kiss result" where
  "one_frame frame st =
    (if length frame < 3 then Inr st
     else andthen (unencap_kiss_frame frame st) (\<lambda>(found, st).
       case found of
         None \<Rightarrow> Inr st
       | Some (data, frame_type, port_no) \<Rightarrow>
           if data = '''' \<or> port_no \<noteq> kiss_port_no st then Inr st else handle_frame data frame_type st))"

text \<open>The next frame from one end mark to the next, and the rest of the stream from that mark on.\<close>

definition next_frame :: "string \<Rightarrow> (string \<times> string) option" where
  "next_frame s =
    (case index_of KISS_FEND s of
       None \<Rightarrow> None
     | Some p \<Rightarrow> case index_of KISS_FEND (drop (p + 1) s) of
         None \<Rightarrow> None
       | Some q \<Rightarrow> Some (take (q + 2) (drop p s), drop (p + 1 + q) s))"

lemma next_frame_shorter: "next_frame s = Some (f, r) \<Longrightarrow> length r < length s"
  by (auto simp: next_frame_def split: option.splits dest!: index_of_lt)

text \<open>The loop works on what is left of the stream; what it leaves is kept for the next call.\<close>

function frame_loop :: "string \<Rightarrow> kiss \<Rightarrow> kiss result" where
  "frame_loop s st =
    (case next_frame s of
       None \<Rightarrow> Inr (st\<lparr>kiss_frame := s\<rparr>)
     | Some (f, r) \<Rightarrow> andthen (one_frame f st) (frame_loop r))"
  by pat_completeness auto
termination
  by (relation "measure (\<lambda>(s, _). length s)") (auto dest: next_frame_shorter)

declare frame_loop.simps [simp del]

definition parse_kiss_frame :: "string \<Rightarrow> kiss \<Rightarrow> kiss result" where
  "parse_kiss_frame frame_segment st = frame_loop (kiss_frame st @ frame_segment) st"

definition ReadFromHostBuffered :: "kiss \<Rightarrow> kiss result" where
  "ReadFromHostBuffered st =
    (if from_host st = '''' then Inr st
     else andthen (parse_kiss_frame (from_host st) st) (\<lambda>st. Inr (st\<lparr>from_host := ''''\<rparr>)))"

section \<open>Text from and to the radio\<close>

definition WriteKISS :: "string \<Rightarrow> kiss \<Rightarrow> kiss" where
  "WriteKISS data st =
    (let st = st\<lparr>from_radio := from_radio st @ data\<rparr>
     in if kiss_raw_enabled st \<noteq> KISS_RAW_DISABLED then st\<lparr>to_arq_host := to_arq_host st @ data\<rparr> else st)"

definition MAX_TEMP_BUFFER_SIZE :: nat where "MAX_TEMP_BUFFER_SIZE = 32000"

definition ReadFromRadioBuffered :: "(char \<Rightarrow> int) \<Rightarrow> kiss \<Rightarrow> kiss" where
  "ReadFromRadioBuffered prom st =
    (case index_of KISS_FEND (from_radio st) of
       None \<Rightarrow> st\<lparr>from_radio := ''''\<rparr>
     | Some p \<Rightarrow>
         let radio = drop p (from_radio st)
         in case index_of KISS_FEND (drop 1 radio) of
              None \<Rightarrow> st\<lparr>from_radio := (if MAX_TEMP_BUFFER_SIZE < length radio then '''' else radio)\<rparr>
            | Some q \<Rightarrow>
                let data = decap_hdlc_frame prom (take (q + 2) radio)
                in if data = '''' then st\<lparr>from_radio := drop 1 radio\<rparr>
                   else
                     let st = st\<lparr>from_radio := drop (q + 2) radio\<rparr>
                     in if kiss_raw_enabled st \<noteq> KISS_RAW_ONLY
                        then kiss_queue_frame (encap_kiss_frame data KISS_DATA (kiss_port_no st) st) st else st)"

definition WriteToHostARQBuffered :: "kiss \<Rightarrow> kiss" where
  "WriteToHostARQBuffered st =
    (if kiss_raw_enabled st = KISS_RAW_DISABLED then st\<lparr>to_arq_host := ''''\<rparr>
     else if to_arq_host st = '''' then st
     else kiss_queue_frame (encap_kiss_frame (to_arq_host st) KISS_RAW (kiss_port_no st) st) (st\<lparr>to_arq_host := ''''\<rparr>))"

definition WriteToHostBCastFramesBuffered :: "kiss \<Rightarrow> kiss" where
  "WriteToHostBCastFramesBuffered st = (WriteToHostBuffered (kiss_bc_frame st) st)\<lparr>kiss_bc_frame := ''''\<rparr>"

text \<open>What goes to the socket is returned.\<close>

definition WriteToHostSocket :: "kiss \<Rightarrow> string \<times> kiss" where
  "WriteToHostSocket st = (to_host st, st\<lparr>to_host := ''''\<rparr>)"

definition bcast_frame :: "string \<Rightarrow> kiss \<Rightarrow> kiss" where
  "bcast_frame package st = (case encap_kiss_frame package KISS_HARDWARE (kiss_port_no st) st of
     None \<Rightarrow> st | Some data \<Rightarrow> st\<lparr>kiss_bc_frame := kiss_bc_frame st @ data\<rparr>)"

datatype state_t = STATE_PAUSE | STATE_RX | STATE_TX | STATE_RESTART | STATE_TUNE | STATE_ABORT | STATE_FLUSH | STATE_NOOP
  | STATE_EXIT | STATE_ENDED | STATE_IDLE | STATE_NEW_MODEM

definition bcast_trxs_kiss_frame :: "state_t \<Rightarrow> kiss \<Rightarrow> kiss" where
  "bcast_trxs_kiss_frame state st =
    (if state = STATE_RX then bcast_frame (''TRXS:'' @ ''RX'') st
     else if state = STATE_TX \<or> state = STATE_TUNE then bcast_frame (''TRXS:'' @ ''TX'') st else st)"

definition bcast_tx_buffer_empty_kiss_frame :: "kiss \<Rightarrow> kiss" where
  "bcast_tx_buffer_empty_kiss_frame st = (if bcast_tx_buffer_empty_flag st then bcast_frame ''TXBE:'' st else st)"

definition flush_kiss_tx_buffer :: "kiss \<Rightarrow> kiss" where
  "flush_kiss_tx_buffer st =
    (let st' = st\<lparr>kiss_text_available := False, pText := 0, to_radio := ''''\<rparr>
     in if to_radio st \<noteq> '''' then bcast_tx_buffer_empty_kiss_frame st' else st')"

text \<open>The next character for the modem; \<open>None\<close> is the end of the text, and a NUL stands for no text.\<close>

definition kiss_get_char :: "kiss \<Rightarrow> char option \<times> kiss" where
  "kiss_get_char st =
    (if kiss_text_available st then
       if pText st \<noteq> length (to_radio st) then
         (Some (to_radio st ! pText st), st\<lparr>pText := pText st + 1, toggle_flag := True\<rparr>)
       else
         let st' = st\<lparr>kiss_text_available := False, to_radio := '''', pText := 0\<rparr>
         in (None, if toggle_flag st then (bcast_tx_buffer_empty_kiss_frame st')\<lparr>toggle_flag := False\<rparr> else st')
     else (Some (CHR 0x00), st))"

definition kiss_reset_buffers :: "kiss \<Rightarrow> kiss" where
  "kiss_reset_buffers st = st\<lparr>to_host := '''', from_radio := '''', pText := 0, kiss_text_available := False, to_radio := '''', kiss_bc_frame := ''''\<rparr>"

definition kiss_reset :: "kiss \<Rightarrow> kiss" where
  "kiss_reset st = kiss_reset_buffers (st\<lparr>kiss_text_available := False, full_duplex := False, crc_mode := CRC16_NONE,
     smack_crc_enabled := False, pText := 0\<rparr>)"

text \<open>One round of the thread: what goes to the host. \<open>changed\<close> is the new state of the modem when it has one.\<close>

definition kiss_loop :: "(char \<Rightarrow> int) \<Rightarrow> state_t option \<Rightarrow> kiss \<Rightarrow> (string \<times> kiss) result" where
  "kiss_loop prom changed st =
    (let st = (case changed of None \<Rightarrow> st | Some s \<Rightarrow> if kiss_bcast_trx_toggle st then bcast_trxs_kiss_frame s st else st)
     in andthen (ReadFromHostBuffered st) (\<lambda>st.
          let (out, st) = WriteToHostSocket (WriteToHostARQBuffered (WriteToHostBCastFramesBuffered (ReadFromRadioBuffered prom st)))
          in Inr (out, if to_radio st \<noteq> '''' then st\<lparr>kiss_text_available := True\<rparr> else st)))"

end
