(* ===== verification/Kiss_Laws.thy ===== *)
theory Kiss_Laws
  imports Kiss
begin

text \<open>
  What holds of the KISS interface: frames, escapes and checksums read back, the parser is indifferent to
  how the stream is cut, the table of hardware commands reaches the function written beside each name, and
  the checksum types of SMACK that the two macros miss.
\<close>

lemma kiss_escape_no_fend: "KISS_FEND \<notin> set (concat (map kiss_escape s))"
  by (auto simp: kiss_escape_def split: if_splits)

lemma kiss_decode_escape:
  "prev \<noteq> Some KISS_FESC \<Longrightarrow>
   kiss_decode_loop prev (kiss_escape c @ t) = c # kiss_decode_loop (Some (last (kiss_escape c))) t \<and>
   last (kiss_escape c) \<noteq> KISS_FESC"
  by (auto simp: kiss_escape_def)

lemma kiss_decode_escapes:
  "prev \<noteq> Some KISS_FESC \<Longrightarrow> kiss_decode_loop prev (concat (map kiss_escape s) @ [KISS_FEND]) = s"
proof (induction s arbitrary: prev)
  case (Cons c s)
  then show ?case using kiss_decode_escape [OF Cons.prems, of c] by simp
qed simp

lemma kiss_decode_encode: "kiss_decode (kiss_encode s) = s"
  by (simp add: kiss_decode_def kiss_encode_def kiss_decode_escapes)

lemma index_of_end: "c \<notin> set xs \<Longrightarrow> index_of c (xs @ [c]) = Some (length xs)"
  by (simp add: index_of_append)

section \<open>The text on the radio\<close>

lemma banned_iff: "banned b \<longleftrightarrow> 0 \<le> b \<and> b \<le> 9 \<or> b = 127 \<or> b = 255"
proof -
  have "not_allowed ! n \<noteq> 0 \<longleftrightarrow> n \<le> 9 \<or> n = 127 \<or> n = 255" if "n < 256" for n
    using that by (auto simp: not_allowed_def nth_append nth_Cons split: nat.split)
  then show ?thesis unfolding banned_def by (cases b) auto
qed

lemma char_code_eq: "of_char a = (of_char b :: nat) \<longleftrightarrow> a = b"
  by simp

lemma hdlc_escape_no_fend: "KISS_FEND \<notin> set (hdlc_escape c)"
proof (cases "banned (int (of_char c))")
  case True
  then have "int (of_char c) \<in> set (map int [0..<10] @ [127, 255])" by (auto simp: banned_iff)
  moreover have "\<forall>b \<in> set (map int [0..<10] @ [127, 255]).
      char_of_int (if 255 < b + HDLC_CNT_OFFSET then b - HDLC_CNT_OFFSET else b + HDLC_CNT_OFFSET) \<noteq> KISS_FEND"
    by code_simp
  ultimately show ?thesis using True unfolding hdlc_escape_def by (auto simp: Let_def)
next
  case False
  then show ?thesis by (simp add: hdlc_escape_def Let_def)
qed

text \<open>What the last byte is between two characters that were escaped on their own.\<close>

definition settled :: "int \<Rightarrow> bool" where "settled prev \<longleftrightarrow> prev \<noteq> 0xDE \<and> prev \<noteq> 0xDB"

lemma schar_settled: "settled (schar c)"
  using nat_of_char_less_256 [of c] unfolding settled_def schar_def Let_def by presburger

lemma hdlc_banned:
  assumes b: "banned b" and p: "settled prev"
  shows "\<exists>p'. settled p' \<and> hdlc_decode_loop prom prev (HDLC_CNT # char_of_int (if 255 < b + HDLC_CNT_OFFSET then b - HDLC_CNT_OFFSET
             else b + HDLC_CNT_OFFSET) # t) = char_of_int b # hdlc_decode_loop prom p' t"
proof -
  define x where "x = (if 255 < b + HDLC_CNT_OFFSET then b - HDLC_CNT_OFFSET else b + HDLC_CNT_OFFSET)"
  have r: "0 \<le> x" "x < 256" "settled x"
    using b by (auto simp: x_def banned_iff HDLC_CNT_OFFSET_def settled_def)
  have x: "int (of_char (char_of_int x)) = x" using r of_char_char_of_int [of x] by simp
  have "if banned (x - HDLC_CNT_OFFSET) then x - HDLC_CNT_OFFSET = b else banned (x + HDLC_CNT_OFFSET) \<and> x + HDLC_CNT_OFFSET = b"
    using b by (auto simp: x_def banned_iff HDLC_CNT_OFFSET_def)
  then have "hdlc_decode_loop prom 0xDE (char_of_int x # t) = char_of_int b # hdlc_decode_loop prom x t"
    using b by (auto simp: Let_def x split: if_splits)
  moreover have "hdlc_decode_loop prom prev (HDLC_CNT # u) = hdlc_decode_loop prom 0xDE u" for u
    using p by (simp add: settled_def Let_def)
  ultimately show ?thesis using r(3) unfolding x_def by auto
qed

lemma hdlc_decode_escape:
  assumes p: "settled prev"
  shows "\<exists>p'. settled p' \<and> hdlc_decode_loop schar prev (hdlc_escape c @ t) = c # hdlc_decode_loop schar p' t"
proof (cases "banned (int (of_char c))")
  case True
  then show ?thesis
    using hdlc_banned [OF True p, of schar t] by (simp add: hdlc_escape_def Let_def char_of_int_of_char)
next
  case False
  then consider "c = KISS_FESC" | "c = KISS_FEND" | "c = HDLC_CNT"
    | "hdlc_escape c = [c]" "c \<noteq> KISS_FESC" "c \<noteq> KISS_FEND" "c \<noteq> HDLC_CNT"
    by (auto simp: hdlc_escape_def Let_def)
  then show ?thesis
  proof cases
    case 4
    then show ?thesis using p schar_settled by (auto simp: settled_def Let_def intro!: exI [of _ "schar c"])
  next
    case 1
    then show ?thesis using p False schar_settled
      by (auto simp: settled_def Let_def hdlc_escape_def intro!: exI [of _ "schar KISS_FESC"])
  next
    case 2
    then show ?thesis using p False schar_settled
      by (auto simp: settled_def Let_def hdlc_escape_def intro!: exI [of _ "schar KISS_FEND"])
  next
    case 3
    then show ?thesis using p False schar_settled
      by (auto simp: settled_def Let_def hdlc_escape_def intro!: exI [of _ "schar HDLC_CNT"])
  qed
qed

lemma hdlc_decode_escapes:
  "settled prev \<Longrightarrow> hdlc_decode_loop schar prev (concat (map hdlc_escape s) @ [KISS_FEND]) = s"
proof (induction s arbitrary: prev)
  case (Cons c s)
  from hdlc_decode_escape [OF Cons.prems, of c "concat (map hdlc_escape s) @ [KISS_FEND]"] Cons.IH
  show ?case by (auto simp del: hdlc_decode_loop.simps)
qed (simp add: settled_def Let_def)

lemma hdlc_decode_encode:
  "hdlc_decode schar (KISS_FEND # concat (map hdlc_escape s) @ [KISS_FEND]) = s"
  using hdlc_decode_escapes [of KISS_INVALID s] by (simp add: hdlc_decode_def KISS_INVALID_def settled_def Let_def)

lemma crc_bytes: "CRC_LOW_HIGH (CRC_LOW c) (CRC_HIGH c) = c"
proof -
  have 0: "of_char (char_of n) = (of_nat n :: 16 word)" if "n < 256" for n
    using of_nat_of_char [of "char_of n", where 'a = "16 word"] that by simp
  have 1: "of_char (char_of (unat (x AND 0xFF :: 16 word)) :: char) = x AND 0xFF" for x
  proof -
    have "x AND 0xFF \<le> 0xFF" by (rule word_and_le1)
    then have "unat (x AND 0xFF) < 256" by (simp add: word_le_nat_alt)
    from 0 [OF this] show ?thesis by simp
  qed
  have m: "(0xFF :: 16 word) = mask 8" by (simp add: mask_eq_exp_minus_1)
  show ?thesis
    unfolding CRC_LOW_HIGH_def CRC_LOW_def CRC_HIGH_def m 1 [unfolded m]
    by (rule bit_word_eqI) (auto simp: bit_simps simp del: mask_numeral)
qed

lemma decap_encap:
  assumes "data \<noteq> ''''"
  shows "decap_hdlc_frame schar (KISS_FEND # concat (map hdlc_escape (data @ [CRC_LOW (calc_fcs_crc data), CRC_HIGH (calc_fcs_crc data)])) @ [KISS_FEND])
    = data"
  using assms unfolding decap_hdlc_frame_def hdlc_decode_encode by (simp add: Let_def nth_append crc_bytes)

section \<open>From host to host\<close>

lemma next_frame_found:
  "KISS_FEND \<notin> set xs \<Longrightarrow> KISS_FEND \<notin> set ys \<Longrightarrow>
   next_frame (xs @ KISS_FEND # ys @ KISS_FEND # zs) = Some (KISS_FEND # ys @ [KISS_FEND], KISS_FEND # zs)"
  by (simp add: next_frame_def index_of_append)

lemma next_frame_none: "KISS_FEND \<notin> set zs \<Longrightarrow> next_frame (KISS_FEND # zs) = None"
  by (simp add: next_frame_def index_of_None [THEN iffD2])

lemma data_head:
  assumes "p < 8"
  shows "KISS_CMD (16 * p) = 0" and "KISS_PORT (16 * p) = p" and "p AND 8 = 0" and "p AND 0xF7 = p"
proof -
  have "\<forall>p \<in> set [0..<8]. KISS_CMD (16 * p) = 0 \<and> KISS_PORT (16 * p) = p \<and> p AND 8 = 0 \<and> p AND 0xF7 = (p :: nat)"
    by code_simp
  then show "KISS_CMD (16 * p) = 0" and "KISS_PORT (16 * p) = p" and "p AND 8 = 0" and "p AND 0xF7 = p"
    using assms by simp_all
qed

lemma one_frame_data:
  assumes "kiss_port_no a < 8" "data \<noteq> ''''" "kiss_raw_enabled a \<noteq> KISS_RAW_ONLY"
  shows "one_frame (kiss_encode (char_of (16 * kiss_port_no a) # data)) a =
    Inr (a\<lparr>smack_crc_enabled := False, to_radio := to_radio a @ encap_hdlc_frame data\<rparr>)"
proof -
  have l: "\<not> length (kiss_encode (char_of (16 * kiss_port_no a) # data)) < 3"
    by (auto simp: kiss_encode_def kiss_escape_def)
  have "unencap_kiss_frame (kiss_encode (char_of (16 * kiss_port_no a) # data)) a =
      Inr (Some (data, 0, kiss_port_no a), a\<lparr>smack_crc_enabled := False\<rparr>)"
    using assms(1) by (simp add: unencap_kiss_frame_def kiss_decode_encode Let_def data_head)
  then show ?thesis
    using assms(2,3) l by (simp add: one_frame_def handle_frame_def WriteToRadioBuffered_def Let_def)
qed

lemma parse_data:
  assumes "kiss_port_no a < 8" "data \<noteq> ''''" "kiss_raw_enabled a \<noteq> KISS_RAW_ONLY"
    and k: "kiss_frame a = old \<or> kiss_frame a = old @ [KISS_FEND]" "KISS_FEND \<notin> set old"
  shows "parse_kiss_frame (kiss_encode (char_of (16 * kiss_port_no a) # data)) a =
    Inr (a\<lparr>smack_crc_enabled := False, to_radio := to_radio a @ encap_hdlc_frame data, kiss_frame := [KISS_FEND]\<rparr>)"
proof -
  define body where "body = concat (map kiss_escape (char_of (16 * kiss_port_no a) # data))"
  have nb: "KISS_FEND \<notin> set body" unfolding body_def by (rule kiss_escape_no_fend)
  have e: "kiss_encode (char_of (16 * kiss_port_no a) # data) = KISS_FEND # body @ [KISS_FEND]"
    by (simp add: kiss_encode_def body_def)
  note f = one_frame_data [OF assms(1-3), unfolded e]
  have main: "frame_loop (xs @ KISS_FEND # body @ [KISS_FEND]) a =
      Inr (a\<lparr>smack_crc_enabled := False, to_radio := to_radio a @ encap_hdlc_frame data, kiss_frame := [KISS_FEND]\<rparr>)"
    if "KISS_FEND \<notin> set xs" for xs
    by (subst frame_loop.simps)
      (simp add: next_frame_found [OF that nb, of "[]", simplified] f, simp add: frame_loop.simps [of "[KISS_FEND]"] next_frame_none)
  show ?thesis
  proof (cases "kiss_frame a = old")
    case True
    then show ?thesis unfolding parse_kiss_frame_def e using main [OF k(2)] by simp
  next
    case False
    then have s: "kiss_frame a @ KISS_FEND # body @ [KISS_FEND] = old @ KISS_FEND # [] @ KISS_FEND # body @ [KISS_FEND]"
      using k(1) by simp
    have o: "one_frame [KISS_FEND, KISS_FEND] a = Inr a" by (simp add: one_frame_def)
    have "frame_loop (old @ KISS_FEND # [] @ KISS_FEND # body @ [KISS_FEND]) a = frame_loop (KISS_FEND # body @ [KISS_FEND]) a"
      by (subst frame_loop.simps) (simp add: next_frame_found [OF k(2), of "[]" "body @ [KISS_FEND]", simplified] o)
    then show ?thesis unfolding parse_kiss_frame_def e s using main [of "[]"] by simp
  qed
qed

lemma read_radio:
  assumes "data \<noteq> ''''" "\<not> smack_crc_enabled b" "kiss_raw_enabled b \<noteq> KISS_RAW_ONLY" "kiss_port_no b < 16"
    and n: "KISS_FEND \<notin> set (from_radio b @ before)"
  shows "ReadFromRadioBuffered schar (WriteKISS (before @ encap_hdlc_frame data @ after) b) =
    (let b' = WriteKISS (before @ encap_hdlc_frame data @ after) b
     in b'\<lparr>from_radio := CHR '' '' # after, to_host := to_host b @ kiss_encode (char_of (16 * kiss_port_no b) # data)\<rparr>)"
proof -
  define tail where "tail = [CRC_LOW (calc_fcs_crc data), CRC_HIGH (calc_fcs_crc data)]"
  define body where "body = concat (map hdlc_escape (data @ tail))"
  have nb: "KISS_FEND \<notin> set body" unfolding body_def using hdlc_escape_no_fend by auto
  have e: "encap_hdlc_frame data = CHR '' '' # KISS_FEND # body @ [KISS_FEND, CHR '' '']"
    using assms(1) by (simp add: encap_hdlc_frame_def hdlc_encode_def body_def tail_def Let_def)
  have d: "decap_hdlc_frame schar (KISS_FEND # body @ [KISS_FEND]) = data"
    unfolding body_def tail_def by (rule decap_encap [OF assms(1)])
  define b' where "b' = WriteKISS (before @ encap_hdlc_frame data @ after) b"
  have b': "from_radio b' = (from_radio b @ before @ [CHR '' '']) @ KISS_FEND # body @ KISS_FEND # CHR '' '' # after"
    "to_host b' = to_host b" "kiss_port_no b' = kiss_port_no b" "smack_crc_enabled b' = smack_crc_enabled b"
    "kiss_raw_enabled b' = kiss_raw_enabled b"
    by (simp_all add: b'_def WriteKISS_def Let_def e)
  have i: "index_of KISS_FEND (from_radio b') = Some (length (from_radio b @ before @ [CHR '' '']))"
    unfolding b'(1) by (rule index_of_append) (use n in auto)
  have r: "drop (length (from_radio b @ before @ [CHR '' ''])) (from_radio b') = KISS_FEND # body @ KISS_FEND # CHR '' '' # after"
    unfolding b'(1) by simp
  have h: "SET_KISS_TYPE_PORT 0 p = 16 * p" if "p < 16" for p
  proof -
    have "\<forall>p \<in> set [0..<16]. SET_KISS_TYPE_PORT 0 p = 16 * p" by code_simp
    then show ?thesis using that by simp
  qed
  show ?thesis
    unfolding b'_def [symmetric] ReadFromRadioBuffered_def i option.case r Let_def
    using assms(1,2,3,4) b'(2-5) d nb
    by (simp add: index_of_append encap_kiss_frame_def kiss_queue_frame_def WriteToHostBuffered_def Let_def h)
qed

text \<open>
  C2: Data that a host gives to its station with a data frame goes to the radio as text, and when the other station
  receives this text, with any text before and behind it that has no end mark, its host gets a data frame with exactly
  the same bytes; the port number becomes that of the receiving station.
\<close>

theorem kiss_link:
  assumes "data \<noteq> ''''"
    and "kiss_port_no a < 8" "kiss_raw_enabled a \<noteq> KISS_RAW_ONLY"
    and "kiss_frame a = old \<or> kiss_frame a = old @ [KISS_FEND]" "KISS_FEND \<notin> set old"
    and "kiss_port_no b < 16" "kiss_raw_enabled b \<noteq> KISS_RAW_ONLY" "\<not> smack_crc_enabled b"
    and "KISS_FEND \<notin> set (from_radio b @ before)"
  shows "\<exists>sent. parse_kiss_frame (kiss_encode (char_of (16 * kiss_port_no a) # data)) a =
        Inr (a\<lparr>smack_crc_enabled := False, to_radio := to_radio a @ sent, kiss_frame := [KISS_FEND]\<rparr>) \<and>
      to_host (ReadFromRadioBuffered schar (WriteKISS (before @ sent @ after) b)) =
        to_host b @ kiss_encode (char_of (16 * kiss_port_no b) # data) \<and>
      from_radio (ReadFromRadioBuffered schar (WriteKISS (before @ sent @ after) b)) = CHR '' '' # after"
  using parse_data [OF assms(2,1,3-5)] read_radio [OF assms(1,8,7,6,9), of after]
  by (auto simp: Let_def intro!: exI [of _ "encap_hdlc_frame data"])

theorem kiss_link_witness:
  "\<exists>sent. parse_kiss_frame (kiss_encode (char_of (16 * kiss_port_no kiss_init) # [CHR 0xC0, CHR 0xDB, CHR 0xDE, CHR 0x00, CHR 0xDC])) kiss_init =
        Inr (kiss_init\<lparr>smack_crc_enabled := False, to_radio := to_radio kiss_init @ sent, kiss_frame := [KISS_FEND]\<rparr>) \<and>
      to_host (ReadFromRadioBuffered schar (WriteKISS (''de K1ABC'' @ sent @ ''xyz'') kiss_init)) =
        to_host kiss_init @ kiss_encode (char_of (16 * kiss_port_no kiss_init) # [CHR 0xC0, CHR 0xDB, CHR 0xDE, CHR 0x00, CHR 0xDC]) \<and>
      from_radio (ReadFromRadioBuffered schar (WriteKISS (''de K1ABC'' @ sent @ ''xyz'') kiss_init)) = CHR '' '' # ''xyz''"
  by (rule kiss_link [where old = "''''"]) (simp_all add: kiss_init_def)

section \<open>The stream in segments\<close>

abbreviation (input) kept :: "string \<Rightarrow> kiss \<Rightarrow> kiss" where "kept z st \<equiv> st\<lparr>kiss_frame := z\<rparr>"

lemma queue_kept: "kiss_queue_frame f (kept z st) = kept z (kiss_queue_frame f st)"
  by (simp add: kiss_queue_frame_def WriteToHostBuffered_def split: option.split)

lemma encap_kept: "encap_kiss_frame d t p (kept z st) = encap_kiss_frame d t p st"
  by (simp add: encap_kiss_frame_def Let_def)

lemma reply_kept: "hardware_reply p (kept z st) = kept z (hardware_reply p st)"
  by (simp add: hardware_reply_def queue_kept encap_kept)

lemma modes_kept:
  "set_crc_mode arg (kept z st) = kept z (set_crc_mode arg st)"
  "set_kiss_raw_mode arg (kept z st) = kept z (set_kiss_raw_mode arg st)"
  "set_rsid_bc_mode arg (kept z st) = kept z (set_rsid_bc_mode arg st)"
  "set_trxs_bc_mode arg (kept z st) = kept z (set_trxs_bc_mode arg st)"
  "set_txbe_bc_mode arg (kept z st) = kept z (set_txbe_bc_mode arg st)"
  by (simp_all add: set_crc_mode_def reply_crc_mode_def set_kiss_raw_mode_def reply_kiss_raw_mode_def
      set_rsid_bc_mode_def set_trxs_bc_mode_def set_txbe_bc_mode_def reply_kept Let_def
      if_distrib [where f = "kiss_frame_update (\<lambda>_. z)"] cong: if_cong)

lemma cmd_kept: "cmd_func f arg (kept z st) = kept z (cmd_func f arg st)"
  by (cases f) (simp_all add: cmd_func_def modes_kept)

lemma exec_kept: "exec_hardware_command cmd arg (kept z st) = andthen (exec_hardware_command cmd arg st) (\<lambda>st. Inr (kept z st))"
  by (simp add: exec_hardware_command_def andthen_def cmd_kept split: sum.split option.split)

lemma hardware_kept: "parse_hardware_frame f (kept z st) = andthen (parse_hardware_frame f st) (\<lambda>st. Inr (kept z st))"
proof (induction f st rule: parse_hardware_frame.induct)
  case (1 f st)
  show ?case
  proof (cases "index_of (CHR '':'') f")
    case None
    then show ?thesis by (simp add: parse_hardware_frame.simps [of f] del: index_of_None)
  next
    case (Some pos)
    define cmd where "cmd = map toupper_char (filter printable (take pos f))"
    define arg where "arg = takeWhile printable (drop (pos + 1) f)"
    have u: "parse_hardware_frame f st' =
        (if 512 \<le> length cmd \<or> 512 \<le> length arg \<or> cmd = '''' then Inr st'
         else andthen (exec_hardware_command cmd arg st') (parse_hardware_frame (drop (pos + 1 + length arg) f)))" for st'
      by (simp only: parse_hardware_frame.simps [of f] Some option.case Let_def cmd_def arg_def)
    show ?thesis
    proof (cases "512 \<le> length cmd \<or> 512 \<le> length arg \<or> cmd = ''''")
      case False
      note ih = 1 [OF Some cmd_def arg_def False]
      show ?thesis
        using ih False unfolding u by (cases "exec_hardware_command cmd arg st") (simp_all add: exec_kept)
    qed (simp add: u)
  qed
qed

lemma one_frame_kept: "one_frame f (kept z st) = andthen (one_frame f st) (\<lambda>st. Inr (kept z st))"
proof -
  have u: "unencap_kiss_frame f (kept z st) = andthen (unencap_kiss_frame f st) (\<lambda>(x, st). Inr (x, kept z st))"
    by (auto simp: unencap_kiss_frame_def Let_def andthen_def split: sum.split)
  have h: "handle_frame d t (kept z st) = andthen (handle_frame d t st) (\<lambda>st. Inr (kept z st))" for d t st
    by (simp add: handle_frame_def Let_def WriteToRadioBuffered_def hardware_kept)
  show ?thesis
    by (simp add: one_frame_def u h andthen_def split: sum.split option.split prod.split)
qed

lemma frame_loop_kept: "frame_loop s (kept z st) = frame_loop s st"
proof (induction s st rule: frame_loop.induct)
  case (1 s st)
  then show ?case
    by (subst (1 2) frame_loop.simps) (auto simp: one_frame_kept andthen_def split: option.split sum.split)
qed

lemma index_of_more: "index_of c s = Some i \<Longrightarrow> index_of c (s @ t) = Some i"
  by (induction s arbitrary: i) auto

lemma next_frame_more:
  assumes "next_frame s = Some (f, r)"
  shows "next_frame (s @ t) = Some (f, r @ t)"
proof -
  obtain p q where p: "index_of KISS_FEND s = Some p" and q: "index_of KISS_FEND (drop (p + 1) s) = Some q"
    and fr: "f = take (q + 2) (drop p s)" "r = drop (p + 1 + q) s"
    using assms by (auto simp: next_frame_def simp del: index_of_None split: option.splits)
  have l: "p < length s" "q < length s - (p + 1)" using index_of_lt [OF p] index_of_lt [OF q] by simp_all
  then have d: "drop (p + 1) (s @ t) = drop (p + 1) s @ t" by simp
  show ?thesis
    unfolding next_frame_def index_of_more [OF p] option.case d index_of_more [OF q] using l by (simp add: fr)
qed

lemma frame_loop_append: "frame_loop (s @ t) st = andthen (frame_loop s st) (\<lambda>st'. frame_loop (kiss_frame st' @ t) st')"
proof (induction s st rule: frame_loop.induct)
  case (1 s st)
  show ?case
  proof (cases "next_frame s")
    case None
    then show ?thesis by (simp add: frame_loop.simps [of s] frame_loop_kept)
  next
    case (Some p)
    obtain f r where p: "p = (f, r)" by (cases p)
    note n = Some [unfolded p]
    have "frame_loop (s @ t) st = andthen (one_frame f st) (frame_loop (r @ t))"
      by (subst frame_loop.simps) (simp add: next_frame_more [OF n])
    moreover have "frame_loop s st = andthen (one_frame f st) (frame_loop r)"
      by (subst frame_loop.simps) (simp add: n)
    ultimately show ?thesis using 1 [OF n refl] by (auto simp: andthen_def split: sum.split)
  qed
qed

text \<open>
  C7: It does not matter how the socket cuts the stream of the host into segments: two segments one after the other
  have the same effect, errors included, as one segment with both.
\<close>

theorem parse_segments:
  "parse_kiss_frame (x @ y) st = andthen (parse_kiss_frame x st) (parse_kiss_frame y)"
  using frame_loop_append [of "kiss_frame st @ x" y st] by (simp add: parse_kiss_frame_def [abs_def])

section \<open>Commands of the host\<close>

text \<open>Whether a name is found in one of the table behind the place where a text of its own length ends.\<close>

definition found_behind :: "string \<Rightarrow> string \<Rightarrow> bool" where
  "found_behind name cmp \<longleftrightarrow> (case find_sub cmp name of None \<Rightarrow> False | Some pos \<Rightarrow> length name < pos)"

lemma find_sub_self: "find_sub s s = Some 0"
  using prefix_of_append [of s "[]"] by (subst find_sub.simps) simp

lemma find_command_step:
  "find_command ((cmp, f) # cmps) name =
    (if cmp = name then Inr (Some f) else if found_behind name cmp then Inl OutOfRange else find_command cmps name)"
proof (cases "find_sub cmp name")
  case (Some pos)
  have "cmp = name" if "pos \<le> length name" "take (max (length cmp) (length name)) (drop pos name) = cmp"
  proof -
    have "cmp = drop pos name" using that(2) by simp
    moreover from this have "pos = 0" using find_sub_length [OF Some] by simp
    ultimately show ?thesis by simp
  qed
  moreover have "cmp = name \<Longrightarrow> pos = 0" using Some find_sub_self [of name] by simp
  moreover have "find_command ((cmp, f) # cmps) name =
      (if pos \<le> length name then if take (max (length cmp) (length name)) (drop pos name) = cmp then Inr (Some f)
         else find_command cmps name else Inl OutOfRange)"
    by (simp add: Some substr_def)
  moreover have "take (max (length name) (length name)) name = name" by simp
  ultimately show ?thesis
    unfolding found_behind_def Some option.case by (cases "cmp = name") (simp, metis not_le)
next
  case None
  then have "cmp \<noteq> name" using find_sub_self [of name] by auto
  then show ?thesis using None by (simp add: found_behind_def)
qed

lemma find_command_other:
  "name \<notin> fst ` set cmps \<Longrightarrow>
   find_command cmps name = (if \<exists>cmp \<in> fst ` set cmps. found_behind name cmp then Inl OutOfRange else Inr None)"
proof (induction cmps)
  case (Cons p cmps)
  then show ?case by (cases p) (auto simp: find_command_step simp del: find_command.simps(2))
qed simp

lemma exec_match_found: "\<forall>(name, f) \<in> set exec_match. find_command exec_match name = Inr (Some f)"
  by code_simp

lemma find_exec_match:
  "find_command exec_match name =
    (case map_of exec_match name of
       Some f \<Rightarrow> Inr (Some f)
     | None \<Rightarrow> if \<exists>cmp \<in> fst ` set exec_match. found_behind name cmp then Inl OutOfRange else Inr None)"
proof (cases "map_of exec_match name")
  case None
  then have "name \<notin> fst ` set exec_match" by (simp add: map_of_eq_None_iff)
  then show ?thesis unfolding None option.case by (rule find_command_other)
next
  case (Some f)
  then show ?thesis using bspec [OF exec_match_found map_of_SomeD [OF Some]] by simp
qed

lemma hardware_frame_once:
  assumes "CHR '':'' \<notin> set name" "map toupper_char (filter printable name) = name" "name \<noteq> ''''" "length name < 512"
    and arg: "\<forall>c \<in> set arg. printable c" "length arg < 512"
  shows "parse_hardware_frame (name @ CHR '':'' # arg) st = exec_hardware_command name arg st"
proof -
  have a: "takeWhile printable arg = arg" using arg(1) by (simp add: takeWhile_eq_all_conv)
  have n: "parse_hardware_frame '''' st' = Inr st'" for st'
    by (subst parse_hardware_frame.simps) simp
  show ?thesis
    by (subst parse_hardware_frame.simps)
      (use arg(2) assms(3,4) in \<open>simp add: index_of_append [OF assms(1)] Let_def assms(2) a n andthen_def split: sum.split\<close>)
qed

lemma hardware_head:
  assumes "p < 16"
  shows "KISS_CMD (16 * p + 6) = 6" and "KISS_PORT (16 * p + 6) = p" and "16 * p + 6 < 256"
proof -
  have "\<forall>p \<in> set [0..<16]. KISS_CMD (16 * p + 6) = 6 \<and> KISS_PORT (16 * p + 6) = p" by code_simp
  then show "KISS_CMD (16 * p + 6) = 6" and "KISS_PORT (16 * p + 6) = p" and "16 * p + 6 < 256"
    using assms by simp_all
qed

lemma one_frame_hardware:
  assumes "kiss_port_no st < 16" "cmd \<noteq> ''''"
  shows "one_frame (kiss_encode (char_of (16 * kiss_port_no st + 6) # cmd)) st = parse_hardware_frame cmd st"
proof -
  have "\<not> length (kiss_encode (char_of (16 * kiss_port_no st + 6) # cmd)) < 3" by (auto simp: kiss_encode_def kiss_escape_def)
  then show ?thesis
    using assms hardware_head [OF assms(1)]
    by (simp add: one_frame_def unencap_kiss_frame_def kiss_decode_encode Let_def handle_frame_def)
qed

lemma cmd_func_acts:
  assumes "f = Set_crc_mode \<longleftrightarrow> a" "f = Set_kiss_raw_mode \<longleftrightarrow> b" "f = Set_rsid_bc_mode \<longleftrightarrow> c"
    "f = Set_trxs_bc_mode \<longleftrightarrow> d" "f = Set_txbe_bc_mode \<longleftrightarrow> e"
  shows "cmd_func f arg st =
    (if a then set_crc_mode arg st else if b then set_kiss_raw_mode arg st else if c then set_rsid_bc_mode arg st
     else if d then set_trxs_bc_mode arg st else if e then set_txbe_bc_mode arg st
     else st\<lparr>hardware := hardware st @ [(f, arg)]\<rparr>)"
  using assms by (cases f) (simp_all add: cmd_func_def)

lemma exec_match_acts:
  "map_of exec_match name = Some f \<Longrightarrow> cmd_func f arg st =
    (if name = ''KISSCRCM'' then set_crc_mode arg st
     else if name = ''KISSRAW'' then set_kiss_raw_mode arg st
     else if name = ''RSIDBCAST'' then set_rsid_bc_mode arg st
     else if name = ''TRXSBCAST'' then set_trxs_bc_mode arg st
     else if name = ''TXBEBCAST'' then set_txbe_bc_mode arg st
     else st\<lparr>hardware := hardware st @ [(f, arg)]\<rparr>)"
proof -
  assume "map_of exec_match name = Some f"
  then have m: "(name, f) \<in> set exec_match" by (rule map_of_SomeD)
  have t: "\<forall>(n, f) \<in> set exec_match.
      (f = Set_crc_mode \<longleftrightarrow> n = ''KISSCRCM'') \<and> (f = Set_kiss_raw_mode \<longleftrightarrow> n = ''KISSRAW'') \<and>
      (f = Set_rsid_bc_mode \<longleftrightarrow> n = ''RSIDBCAST'') \<and> (f = Set_trxs_bc_mode \<longleftrightarrow> n = ''TRXSBCAST'') \<and>
      (f = Set_txbe_bc_mode \<longleftrightarrow> n = ''TXBEBCAST'')"
    by code_simp
  from bspec [OF t m] show ?thesis
    unfolding prod.case by (elim conjE) (rule cmd_func_acts)
qed

lemma exec_match_has:
  "name \<in> {''KISSCRCM'', ''KISSRAW'', ''RSIDBCAST'', ''TRXSBCAST'', ''TXBEBCAST''} \<Longrightarrow> map_of exec_match name \<noteq> None"
  by (auto simp: exec_match_def)

text \<open>
  C38: What a frame with one command does, for every name, argument and port. A name of the table calls the function
  that the table has for it: the five that act on this state are written out here, the others are recorded. A name
  that is not of the table does nothing, unless it is found in a name of the table behind a text of its own length:
  then \<^verbatim>\<open>substr\<close> throws, and the thread that reads the host catches nothing.
\<close>

theorem hardware_dispatch:
  assumes "kiss_port_no st < 16"
    and "name \<noteq> ''''" "length name < 512" "\<forall>c \<in> set name. printable c \<and> toupper_char c = c \<and> c \<noteq> CHR '':''"
    and "length arg < 512" "\<forall>c \<in> set arg. printable c"
  shows "one_frame (kiss_encode (char_of (16 * kiss_port_no st + 6) # name @ CHR '':'' # arg)) st =
    (if name = ''KISSCRCM'' then Inr (set_crc_mode arg st)
     else if name = ''KISSRAW'' then Inr (set_kiss_raw_mode arg st)
     else if name = ''RSIDBCAST'' then Inr (set_rsid_bc_mode arg st)
     else if name = ''TRXSBCAST'' then Inr (set_trxs_bc_mode arg st)
     else if name = ''TXBEBCAST'' then Inr (set_txbe_bc_mode arg st)
     else case map_of exec_match name of
         Some f \<Rightarrow> Inr (st\<lparr>hardware := hardware st @ [(f, arg)]\<rparr>)
       | None \<Rightarrow> if \<exists>cmp \<in> fst ` set exec_match. found_behind name cmp then Inl OutOfRange else Inr st)"
proof -
  have "map toupper_char (filter printable name) = name"
    using assms(4) by (simp add: filter_id_conv [THEN iffD2] map_idI)
  then have "one_frame (kiss_encode (char_of (16 * kiss_port_no st + 6) # name @ CHR '':'' # arg)) st =
      exec_hardware_command name arg st"
    using one_frame_hardware [OF assms(1), of "name @ CHR '':'' # arg"] hardware_frame_once [of name arg st] assms by auto
  also have "\<dots> = (case map_of exec_match name of Some f \<Rightarrow> Inr (cmd_func f arg st)
       | None \<Rightarrow> if \<exists>cmp \<in> fst ` set exec_match. found_behind name cmp then Inl OutOfRange else Inr st)"
    using assms(2) by (simp add: exec_hardware_command_def find_exec_match split: option.split)
  finally have *: "one_frame (kiss_encode (char_of (16 * kiss_port_no st + 6) # name @ CHR '':'' # arg)) st = \<dots>" .
  show ?thesis
  proof (cases "map_of exec_match name")
    case None
    then have "name \<notin> {''KISSCRCM'', ''KISSRAW'', ''RSIDBCAST'', ''TRXSBCAST'', ''TXBEBCAST''}" using exec_match_has by blast
    then show ?thesis unfolding * None option.case by simp
  next
    case (Some f)
    show ?thesis unfolding * Some option.case exec_match_acts [OF Some] by simp
  qed
qed

theorem hardware_dispatch_witness:
  "one_frame (kiss_encode (CHR 0x36 # ''KISSCRCM'' @ CHR '':'' # ''FCS'')) (kiss_init\<lparr>kiss_port_no := 3\<rparr>) =
     Inr (kiss_init\<lparr>kiss_port_no := 3, smack_crc_enabled := True, crc_mode := CRC16_FCS\<rparr>) \<and>
   one_frame (kiss_encode (CHR 0x36 # ''RAW'' @ CHR '':'' # '''')) (kiss_init\<lparr>kiss_port_no := 3\<rparr>) = Inl OutOfRange \<and>
   one_frame (kiss_encode (CHR 0x36 # ''CRC'' @ CHR '':'' # '''')) (kiss_init\<lparr>kiss_port_no := 3\<rparr>) = Inl OutOfRange \<and>
   one_frame (kiss_encode (CHR 0x36 # ''KISS'' @ CHR '':'' # '''')) (kiss_init\<lparr>kiss_port_no := 3\<rparr>) = Inr (kiss_init\<lparr>kiss_port_no := 3\<rparr>)"
proof -
  have r: "map_of exec_match n = None \<and> (\<exists>cmp \<in> fst ` set exec_match. found_behind n cmp) = b"
    if "(n, b) \<in> {(''RAW'', True), (''CRC'', True), (''KISS'', False)}" for n b
    using that by (elim insertE emptyE) (simp_all, code_simp+)
  have p: "\<forall>n \<in> {''KISSCRCM'', ''FCS'', ''RAW'', ''CRC'', ''KISS''}. \<forall>c \<in> set n. printable c \<and> toupper_char c = c \<and> c \<noteq> CHR '':''"
    by code_simp
  have "\<not> has ''FCS'' ''SMACK'' \<and> \<not> has ''FCS'' ''CCITT'' \<and> has ''FCS'' ''FCS''" by code_simp
  then have c: "set_crc_mode ''FCS'' (kiss_init\<lparr>kiss_port_no := 3\<rparr>) =
      kiss_init\<lparr>kiss_port_no := 3, smack_crc_enabled := True, crc_mode := CRC16_FCS\<rparr>"
    by (simp add: set_crc_mode_def kiss_init_def)
  have h: "char_of (16 * kiss_port_no (kiss_init\<lparr>kiss_port_no := 3\<rparr>) + 6) = CHR 0x36" "kiss_port_no (kiss_init\<lparr>kiss_port_no := 3\<rparr>) < 16"
    by (simp, code_simp) simp
  note d = hardware_dispatch [OF h(2), unfolded h(1)]
  have "one_frame (kiss_encode (CHR 0x36 # n @ CHR '':'' # '''')) (kiss_init\<lparr>kiss_port_no := 3\<rparr>) =
      (if b then Inl OutOfRange else Inr (kiss_init\<lparr>kiss_port_no := 3\<rparr>))"
    if "(n, b) \<in> {(''RAW'', True), (''CRC'', True), (''KISS'', False)}" for n b
  proof -
    have "n \<notin> {''KISSCRCM'', ''KISSRAW'', ''RSIDBCAST'', ''TRXSBCAST'', ''TXBEBCAST''}" "n \<noteq> ''''" "length n < 512"
      "n \<in> {''KISSCRCM'', ''FCS'', ''RAW'', ''CRC'', ''KISS''}"
      using that by auto
    then have "one_frame (kiss_encode (CHR 0x36 # n @ CHR '':'' # '''')) (kiss_init\<lparr>kiss_port_no := 3\<rparr>) =
        (case map_of exec_match n of Some f \<Rightarrow> Inr ((kiss_init\<lparr>kiss_port_no := 3\<rparr>)\<lparr>hardware := hardware (kiss_init\<lparr>kiss_port_no := 3\<rparr>) @ [(f, '''')]\<rparr>)
         | None \<Rightarrow> if \<exists>cmp \<in> fst ` set exec_match. found_behind n cmp then Inl OutOfRange else Inr (kiss_init\<lparr>kiss_port_no := 3\<rparr>))"
      using d [of n "''''", OF _ _ bspec [OF p]] by simp
    then show ?thesis using r [OF that] by simp
  qed
  from this [of "''RAW''" True] this [of "''CRC''" True] this [of "''KISS''" False]
  show ?thesis using d [of "''KISSCRCM''" "''FCS''"] p c by simp
qed

section \<open>Frames with a checksum\<close>

lemma smack_head:
  assumes "p < 16" "t = KISS_DATA \<or> t = KISS_RAW"
  shows "SMACK_CRC_ASSIGN (SET_KISS_TYPE_PORT t p) = 16 * p + t + 8"
    and "KISS_CMD (16 * p + t + 8) = t + 8" and "KISS_PORT (16 * p + t + 8) = p" and "16 * p + t + 8 < 256"
proof -
  have p: "p \<in> {0,1,2,3,4,5,6,7,8,9,10,11,12,13,14,15}" using assms(1) by (simp, arith)
  have t: "t \<in> {0, 7}" using assms(2) by simp
  have v: "\<forall>p \<in> {0,1,2,3,4,5,6,7,8,9,10,11,12,13,14,15}. \<forall>t \<in> {0, 7}.
      SMACK_CRC_ASSIGN (SET_KISS_TYPE_PORT t p) = 16 * p + t + (8 :: nat) \<and>
      KISS_CMD (16 * p + t + 8) = t + 8 \<and> KISS_PORT (16 * p + t + 8) = p"
    by (simp add: SMACK_CRC_ASSIGN_def SET_KISS_TYPE_PORT_def KISS_CMD_def KISS_PORT_def)
  show "SMACK_CRC_ASSIGN (SET_KISS_TYPE_PORT t p) = 16 * p + t + 8"
    and "KISS_CMD (16 * p + t + 8) = t + 8" and "KISS_PORT (16 * p + t + 8) = p" and "16 * p + t + 8 < 256"
    using bspec [OF bspec [OF v p] t] assms by auto
qed

text \<open>
  C39: A frame with data or text that is made with a checksum is taken as a frame of a type that does not exist on its
  way back in, with the checksum as part of its contents, and ignored: the bit for the checksum is set in the type's
  half of the byte and looked for in the port's half.
\<close>

theorem smack_not_understood:
  assumes "t = KISS_DATA \<or> t = KISS_RAW" "smack_crc_enabled st"
    and "encap_kiss_frame data t p st = Some frame" "p = kiss_port_no st'"
  shows "unencap_kiss_frame frame st' =
      Inr (Some (data @ smack_trailer (crc_mode st) (char_of (16 * p + t + 8) # data), t + 8, p), st') \<and>
    one_frame frame st' = Inr st'"
proof -
  have p: "p < 16" using assms(3) by (auto simp: encap_kiss_frame_def split: if_splits)
  have f: "frame = kiss_encode (char_of (16 * p + t + 8) # data @ smack_trailer (crc_mode st) (char_of (16 * p + t + 8) # data))"
    using assms(1-3) smack_head(1) [OF p assms(1)] by (auto simp: encap_kiss_frame_def Let_def split: if_splits)
  have u: "unencap_kiss_frame frame st' =
      Inr (Some (data @ smack_trailer (crc_mode st) (char_of (16 * p + t + 8) # data), t + 8, p), st')"
    using assms(1) smack_head(2-4) [OF p assms(1)]
    by (auto simp: f unencap_kiss_frame_def kiss_decode_encode Let_def)
  then show ?thesis
    using assms(1) by (auto simp: one_frame_def handle_frame_def Let_def)
qed

theorem smack_not_understood_witness:
  "one_frame (the (encap_kiss_frame ''hello'' KISS_DATA 0 (kiss_init\<lparr>smack_crc_enabled := True\<rparr>))) kiss_init = Inr kiss_init"
  using smack_not_understood [of KISS_DATA "kiss_init\<lparr>smack_crc_enabled := True\<rparr>" "''hello''" 0 _ kiss_init]
  by (simp add: encap_kiss_frame_def kiss_init_def Let_def)

section \<open>The tables of the checksums\<close>

text \<open>One bit, and one byte, of a reflected CRC.\<close>

definition crc_bit :: "16 word \<Rightarrow> 16 word \<Rightarrow> 16 word" where
  "crc_bit poly x = drop_bit 1 x XOR (if bit x 0 then poly else 0)"

definition crc_byte :: "16 word \<Rightarrow> 16 word \<Rightarrow> 16 word" where
  "crc_byte poly x = crc_bit poly (crc_bit poly (crc_bit poly (crc_bit poly (crc_bit poly (crc_bit poly (crc_bit poly (crc_bit poly x)))))))"

lemma crc_bit_values:
  "crc_bit (numeral p) 0 = 0"
  "crc_bit (numeral p) 1 = numeral p"
  "crc_bit (numeral p) (numeral n) = drop_bit 1 (numeral n) XOR (if bit (numeral n :: 16 word) 0 then numeral p else 0)"
  by (simp_all add: crc_bit_def)

lemma upt_256: "[0..<256] = 0 # 1 # [2..<256]"
  by (simp add: upt_rec [of 0] upt_rec [of "Suc 0"] numeral_2_eq_2)

lemma crc_table_bytes: "map (\<lambda>n. crc_byte 0xA001 (of_nat n)) [0..<256] = crc_table"
  unfolding crc_table_def by (simp add: crc_byte_def crc_bit_values upt_256)

lemma fcstab_bytes: "map (\<lambda>n. crc_byte 0x8408 (of_nat n)) [0..<256] = fcstab"
  unfolding fcstab_def by (simp add: crc_byte_def crc_bit_values upt_256)

lemma crc_byte_xor: "crc_byte poly (x XOR y) = crc_byte poly x XOR crc_byte poly y"
proof -
  have "crc_bit poly (x XOR y) = crc_bit poly x XOR crc_bit poly y" for x y
    by (rule bit_word_eqI) (auto simp: crc_bit_def bit_simps)
  then show ?thesis by (simp add: crc_byte_def)
qed

lemma crc_byte_high:
  assumes "\<forall>i < 8. \<not> bit x i"
  shows "crc_byte poly x = drop_bit 8 x"
proof -
  have b: "crc_bit poly (drop_bit n x) = drop_bit (Suc n) x" if "n < 8" for n
    using assms that by (simp add: crc_bit_def bit_simps)
  have "crc_bit poly x = drop_bit 1 x" using b [of 0] by simp
  then show ?thesis using b [of 1] b [of 2] b [of 3] b [of 4] b [of 5] b [of 6] b [of 7]
    by (simp add: crc_byte_def eval_nat_numeral)
qed

lemma crc_step_byte:
  assumes tab: "map (\<lambda>n. crc_byte poly (of_nat n)) [0..<256] = tab"
  shows "crc_step tab crc c = crc_byte poly (crc XOR of_char c)"
proof -
  have m: "(0xFF :: 16 word) = mask 8" by (simp add: mask_eq_exp_minus_1)
  define x where "x = crc XOR of_char c"
  define low where "low = x AND 0xFF"
  have "low \<le> 0xFF" unfolding low_def by (rule word_and_le1)
  then have l: "unat low < 256" by (simp add: word_le_nat_alt)
  have "tab ! unat low = crc_byte poly low" using l unfolding tab [symmetric] by simp
  moreover have "x = push_bit 8 (drop_bit 8 x) XOR low"
    unfolding low_def m by (rule bit_word_eqI) (auto simp: bit_simps simp del: mask_numeral)
  moreover have "crc_byte poly (push_bit 8 (drop_bit 8 x)) = drop_bit 8 x"
    by (subst crc_byte_high) (auto simp: bit_simps dest!: bit_imp_le_length [where w = x] intro!: bit_word_eqI)
  moreover have "drop_bit 8 x = drop_bit 8 crc"
  proof -
    have "unat (of_nat n :: 16 word) < 256" if "n < 256" for n using that by (simp add: unat_of_nat)
    from this [of "of_char c"] have "unat (of_char c :: 16 word) < 256" by (simp add: of_nat_of_char)
    then have "drop_bit 8 (of_char c :: 16 word) = 0"
      unfolding word_unat_eq_iff unat_drop_bit_eq by (simp add: drop_bit_eq_div)
    then show ?thesis by (simp add: x_def drop_bit_xor)
  qed
  ultimately show ?thesis
    unfolding crc_step_def x_def [symmetric] low_def [symmetric] by (metis crc_byte_xor)
qed

text \<open>
  C40: The table-driven checksums are the CRCs they are named after, bit by bit: the checksum of a frame is the reflected
  CRC with the polynomial A001 from 0, and that of the radio the one with the polynomial 8408 from FFFF.
\<close>

theorem crc_bitwise:
  "calc_ccitt_crc buf = foldl (\<lambda>crc c. crc_byte 0xA001 (crc XOR of_char c)) 0 buf \<and>
   calc_fcs_crc buf = foldl (\<lambda>crc c. crc_byte 0x8408 (crc XOR of_char c)) 0xFFFF buf"
  by (simp add: calc_ccitt_crc_def calc_fcs_crc_def crc_step_byte [OF crc_table_bytes, abs_def] crc_step_byte [OF fcstab_bytes, abs_def])

end
