(* ===== verification/Spec2Isabelle.thy ===== *)
theory Spec2Isabelle
  imports Arq_Transfer Arq_Runs B64 Varicode_Laws Date Interleave Ringbuffer_Laws Morse_Laws Psk_Fec
    Rtty_Laws Navtex_Laws Adif_Laws Qso_Merge Kiss_Laws
begin

text \<open>
  A verification library for dl-fldigi: the digital modes program fldigi with flarq, its ARQ file
  transfer companion. The program is event driven: a sound card thread and a timer call modems and
  protocol engines, which keep their state in C++ objects. The library models the parts whose logic
  is exact: protocols, codes, error correction, queues, the logbook. All paths below
  are under \<^verbatim>\<open>src/\<close>.

  How the parts fit together. A character typed is spelled by a varicode (\<^verbatim>\<open>psk/pskvaricode.cxx\<close>,
  \<^verbatim>\<open>mfsk/mfskvaricode.cxx\<close>, \<^verbatim>\<open>thor/thorvaricode.cxx\<close>), by the Morse table
  (\<^verbatim>\<open>cw_rtty/morse.cxx\<close>), as start-stop characters of RTTY (\<^verbatim>\<open>cw_rtty/rtty.cxx\<close>) or in the
  seven-bit code of NAVTEX (\<^verbatim>\<open>navtex/navtex.cxx\<close>); the bits of the PSK and MFSK modes go through the
  convolutional encoder and the interleaver to the carrier, and on the other side through the
  de-interleaver and the Viterbi decoder back to the receiver's shift register. flarq puts its frames
  through such a link character by character, and so does the KISS interface (\<^verbatim>\<open>misc/kiss_io.cxx\<close>), which
  takes packets from a host program. The ring buffers carry samples and requests between threads. Contacts
  go to the logbook (\<^verbatim>\<open>logbook/\<close>), an array of records that is sorted, merged with other logs and
  saved and read as ADIF text.

  Theories.

  \<^item> \<open>Prelude\<close>: faults of C++ operations (\<open>fault\<close>, \<open>result\<close>, \<open>andthen\<close>),
    \<^verbatim>\<open>std::string\<close>, \<^verbatim>\<open>printf\<close>, \<^verbatim>\<open>scanf\<close>, C division, conversions of characters.
  \<^item> \<open>Crc16\<close>, \<open>Arq_State\<close>, \<open>Arq_Receive\<close>, \<open>Arq_Loop\<close>: \<^verbatim>\<open>flarq-src/arq.cxx\<close> and
    \<^verbatim>\<open>arq.h\<close>. The class \<^verbatim>\<open>arq\<close> is the record \<open>arq\<close> with a field per member;
    callbacks that the program installs are events in a log, and which are installed is the field
    \<open>hooks\<close>. Every handler \<^verbatim>\<open>parse...\<close>, frame builder, command and the timer callback
    \<^verbatim>\<open>arqloop\<close> is a function of the same name. A handler that can throw, read outside a string
    or loop for ever returns a sum.
    \<open>Arq_Frames\<close> (framing and damaged frames), \<open>Arq_Data\<close> (the receiver refines an abstract
    selective-repeat receiver; delivery in order; the stale block), \<open>Arq_Status\<close> (status
    reports), \<open>Arq_Transfer\<close> (a text from \<^verbatim>\<open>sendText\<close> to the other station's text
    queue), \<open>Arq_Runs\<close> (all executions, and an invariant of the sender).
  \<^item> \<open>B64\<close>: \<^verbatim>\<open>flarq-src/b64.cxx\<close>, encoder and decoder on bytes.
  \<^item> \<open>Varicode\<close>, \<open>Varicode_Laws\<close>: tables, look-ups, senders and receivers of PSK, MFSK and THOR.
    The locale \<open>serial_code\<close> is what they share: the code of a character takes the receiver from its
    idle state to its idle state and prints it, and a lead-in brings it there from anywhere. Each of
    the codes is an interpretation.
  \<^item> \<open>Bits\<close>: \<^verbatim>\<open>misc/misc.cxx\<close>. \<open>Viterbi\<close>, \<open>Viterbi_Laws\<close>: \<^verbatim>\<open>filters/viterbi.cxx\<close>.
    \<open>Interleave\<close>: \<^verbatim>\<open>mfsk/interleave.cxx\<close>. \<open>Psk_Fec\<close>: the bit side of \<^verbatim>\<open>psk/psk.cxx\<close> with error
    correction, and the theorems that put varicode, encoder, decoder and receiver together.
  \<^item> \<open>Morse\<close>, \<open>Morse_Laws\<close>: \<^verbatim>\<open>cw_rtty/morse.cxx\<close>.
  \<^item> \<open>Synced_Link\<close>: the locale \<open>synced_link\<close>, a sender and a receiver that both keep state and stay in
    step; what single operations carry composes to what a transmission carries.
  \<^item> \<open>Rtty\<close>, \<open>Rtty_Laws\<close>: \<^verbatim>\<open>cw_rtty/rtty.cxx\<close>, the record \<open>rtty\<close> with the members of the modem, the
    transmitter down to the samples of the line (\<open>tx_process\<close>) and the bit and character machine of the
    receiver (\<open>rx\<close>); texts sample for sample, parity, and the case that is forgotten between transmissions.
  \<^item> \<open>Navtex\<close>, \<open>Navtex_Laws\<close>: \<^verbatim>\<open>navtex/navtex.cxx\<close>, the code and its tables, the buffer of bits in which every
    read is checked, the search for the phase, the correction of characters, the messages, and the sender; messages
    and texts from end to end, and the bounds of the buffer. RTTY and NAVTEX are interpretations of \<open>synced_link\<close>.
  \<^item> \<open>Ringbuffer\<close>, \<open>Ringbuffer_Laws\<close>: \<^verbatim>\<open>include/ringbuffer.h\<close> and \<^verbatim>\<open>qrunner/fqueue.h\<close>, against the
    locale \<open>bounded_queue\<close>; two threads as a step relation.
  \<^item> \<open>Date\<close>: \<^verbatim>\<open>logbook/date.cxx\<close>.
  \<^item> \<open>Qso_Db\<close>, \<open>Qso_Laws\<close>: \<^verbatim>\<open>logbook/qso_db.cxx\<close> and the bands of \<^verbatim>\<open>globals/globals.cxx\<close>. A record is the list of its
    fields; the array is kept with its capacity and refines a list. \<^verbatim>\<open>atof\<close> and \<^verbatim>\<open>strtod\<close> give the
    binary number, rounded, an infinity or NaN. The locale \<open>qsort_order\<close> is what \<^verbatim>\<open>qsort\<close> asks of a comparison on the
    elements of an array; the four comparisons are interpretations of it on the records whose frequency is a number.
  \<^item> \<open>Qso_Merge\<close>: \<^verbatim>\<open>merge_thread\<close> of \<^verbatim>\<open>logbook/logsupport.cxx\<close>, with an invariant of its rounds, and how it loses a record.
  \<^item> \<open>Adif\<close>, \<open>Adif_Find\<close>, \<open>Adif_Laws\<close>: \<^verbatim>\<open>logbook/adif_io.cxx\<close>, reader and writers; the look-up of a field's name, the
    round trip of a log, and a note that is read as a field.
  \<^item> \<open>Kiss\<close>, \<open>Kiss_Laws\<close>: \<^verbatim>\<open>misc/kiss_io.cxx\<close>, both framings with their checksums, the frames and commands of the host and the
    buffers between host and radio; data from host to host, the stream in segments, the dispatch of commands.

  What the lemmas show. Codes: each table entry is checked once by evaluation, and the streams follow
  by induction over the text. ARQ: simulation of an abstract receiver, rule induction over executions.
  Viterbi: the rings hold the last 256 rows (\<open>ring_ok\<close>); a survivor of a clean stream is the sender's
  path (\<open>chain_sender\<close>) because the code shows every difference of states within a few branches
  (\<open>code_seen\<close>, checked by evaluation for the codes of the modems with constraint length 5 and 7).
  RTTY and NAVTEX: each operation of the sender carries a function of what the receiver shows. Logbook: the comparisons order
  by keys (\<open>keyed\<close>), and the invariant \<open>merging\<close> says where each record of a merge is after any number of rounds.

  Bounds. Machine words are words of their width where they wrap or are taken apart (registers of the
  modems, the checksums, indices of the ring buffers); the length of an ADIF value wraps as an \<^verbatim>\<open>int\<close>. The members of \<^verbatim>\<open>arq\<close> that
  are \<^verbatim>\<open>int\<close> are unbounded, as are the path metrics of the Viterbi decoder; \<open>viterbi_metrics_bounded\<close> shows that the
  latter cannot overflow in \<open>2 ^ 22\<close> steps, and the theorems about the decoder are about runs of that
  length. Most loops are recursions over a list or a bounded counter, or end by a measure
  (\<open>log2u_loop\<close>, \<open>sendText_loop\<close>, \<open>read_tags\<close>, \<open>frame_loop\<close>). Three take fuel: \<open>merge_loop\<close> gets one round more than there are
  records, and each round takes one (that it ends is part of \<open>merge_keeps\<close>); \<open>read_records\<close> gets the length of the file, of which a record
  takes at least a character; \<open>score_loop\<close> gets the length of the buffer, in which each round goes seven values on. The one loop of
  the sources that may not end, in \<^verbatim>\<open>parseSTATUS\<close>, is a \<open>while_option\<close> and its failure to end the value \<open>Hang\<close>.

  Not modelled: everything that computes in floating point (filters, carriers, soft decisions, FFT; reading the
  frequency of a contact is the exception), the user interface, devices, files and sockets, the vendored libraries, the habitat library behind
  \<^verbatim>\<open>dl_fldigi/\<close> (a submodule), the keying lines of RTTY, the station catalogue of NAVTEX, the commands of a KISS host that
  only act on modems and windows (their calls are recorded), its carrier sensing, the exports of the log other than ADIF, and,
  so far, DominoEX, FSQ and IFKP. A parameter or hypothesis stands for such code where a modelled part needs it: the soft
  bits a receiver sees, the clock, the callbacks of the program, \<^verbatim>\<open>qsort\<close>.
\<close>

end
